(* ===== verification/Go_Prelude.thy ===== *)
theory Go_Prelude
  imports
    Main
    "HOL-Library.Word"
    "HOL-Library.Multiset"
    "HOL-Library.AList"
    "HOL-Library.List_Lexorder"
    "HOL-Library.Char_ord"
begin

text \<open>
  The vocabulary every component shares: Go's fixed-width integers, the outcome of a Go function
  (a value, an error value, or a run-time panic), bounds-checked slices, \<open>range\<close> loops, maps,
  \<open>encoding/binary\<close> decoding, and the two routines of package \<open>sort\<close> the sources call
  (\<open>sort.Slice\<close> and \<open>sort.Search\<close>), together with the generic lemmas about them.
\<close>

subsection \<open>Machine types\<close>

type_synonym byte = "8 word"
type_synonym u8 = "8 word"
type_synonym u16 = "16 word"
type_synonym u32 = "32 word"
type_synonym u64 = "64 word"
type_synonym i64 = "64 word"

text \<open>Collections of facts the component proofs hand to the simplifier and to \<open>intro\<close>.\<close>

named_theorems go_simps
named_theorems go_intros

subsection \<open>Outcomes: value, error, panic\<close>

text \<open>
  A Go function that returns \<open>(T, error)\<close> and may index out of range has three outcomes.
  \<open>Inl Panic\<close> is a run-time panic, \<open>Inl (Fault e)\<close> a returned error, \<open>Inr x\<close> a value.
\<close>

datatype 'e fault = Panic | Fault 'e

type_synonym ('e, 'a) go = "'e fault + 'a"

fun gbind :: "('e, 'a) go \<Rightarrow> ('a \<Rightarrow> ('e, 'b) go) \<Rightarrow> ('e, 'b) go" where
  "gbind (Inl e) f = Inl e"
| "gbind (Inr x) f = f x"

fun gmap :: "('a \<Rightarrow> 'b) \<Rightarrow> ('e, 'a) go \<Rightarrow> ('e, 'b) go" where
  "gmap f (Inl e) = Inl e"
| "gmap f (Inr x) = Inr (f x)"

text \<open>\<open>for _, x := range xs\<close> with a loop body that may fail.\<close>

fun gfold :: "('a \<Rightarrow> 's \<Rightarrow> ('e, 's) go) \<Rightarrow> 'a list \<Rightarrow> 's \<Rightarrow> ('e, 's) go" where
  "gfold f [] s = Inr s"
| "gfold f (x # xs) s = gbind (f x s) (gfold f xs)"

lemma gbind_cong [fundef_cong]:
  assumes "m = m'" and "\<And>x. m' = Inr x \<Longrightarrow> f x = f' x"
  shows "gbind m f = gbind m' f'"
  using assms by (cases m') auto

lemma gbind_eq_Inr [go_simps]: "gbind m f = Inr y \<longleftrightarrow> (\<exists>x. m = Inr x \<and> f x = Inr y)"
  by (cases m) auto

lemma gbind_assoc: "gbind (gbind m f) g = gbind m (\<lambda>x. gbind (f x) g)"
  by (cases m) auto

lemma gbind_Inr_right [simp]: "gbind m Inr = m"
  by (cases m) auto

text \<open>Total correctness of an outcome: it is a value and the value satisfies \<open>P\<close>.\<close>

definition returns :: "('e, 'a) go \<Rightarrow> ('a \<Rightarrow> bool) \<Rightarrow> bool" where
  "returns m P \<longleftrightarrow> (\<exists>x. m = Inr x \<and> P x)"

lemma returns_Inr [simp]: "returns (Inr x) P \<longleftrightarrow> P x"
  by (simp add: returns_def)

lemma returns_Inl [simp]: "\<not> returns (Inl e) P"
  by (simp add: returns_def)

lemma returnsI: "m = Inr x \<Longrightarrow> P x \<Longrightarrow> returns m P"
  by (simp add: returns_def)

lemma returnsE:
  assumes "returns m P"
  obtains x where "m = Inr x" and "P x"
  using assms by (auto simp: returns_def)

lemma returns_mono: "returns m P \<Longrightarrow> (\<And>x. P x \<Longrightarrow> Q x) \<Longrightarrow> returns m Q"
  by (auto simp: returns_def)

lemma returns_gbind:
  assumes "returns m Q" and "\<And>x. Q x \<Longrightarrow> returns (f x) P"
  shows "returns (gbind m f) P"
  using assms by (auto simp: returns_def)

text \<open>The rule of a \<open>range\<close> loop: an invariant over the part of the list already visited.\<close>

lemma returns_gfold:
  assumes "I [] s"
    and "\<And>pre x post s. xs = pre @ x # post \<Longrightarrow> I pre s \<Longrightarrow> returns (f x s) (I (pre @ [x]))"
  shows "returns (gfold f xs s) (I xs)"
proof -
  have "returns (gfold f post s) (I xs)" if "xs = pre @ post" and "I pre s" for pre post s
    using that
  proof (induction post arbitrary: pre s)
    case Nil
    then show ?case by simp
  next
    case (Cons x post)
    have "returns (f x s) (I (pre @ [x]))"
      using assms(2) [OF Cons.prems(1) Cons.prems(2)] .
    then obtain s' where s': "f x s = Inr s'" and I: "I (pre @ [x]) s'"
      by (auto simp: returns_def)
    have "returns (gfold f post s') (I xs)"
      using Cons.IH [of "pre @ [x]" s'] Cons.prems(1) I by simp
    then show ?case by (simp add: s')
  qed
  from this [of "[]" xs s] assms(1) show ?thesis by simp
qed

lemma gfold_Nil [simp]: "gfold f [] = Inr"
  by (simp add: fun_eq_iff)

lemma gfold_append: "gfold f (xs @ ys) s = gbind (gfold f xs s) (gfold f ys)"
  by (induction xs arbitrary: s) (auto simp: gbind_assoc intro!: gbind_cong)

text \<open>Safety of an outcome: no panic, and a value satisfies \<open>R\<close>.\<close>

definition yields :: "('e, 'a) go \<Rightarrow> ('a \<Rightarrow> bool) \<Rightarrow> bool" where
  "yields m R \<longleftrightarrow> m \<noteq> Inl Panic \<and> (\<forall>x. m = Inr x \<longrightarrow> R x)"

lemma yields_Inr [simp]: "yields (Inr x) R \<longleftrightarrow> R x"
  by (simp add: yields_def)

lemma yields_Fault [simp]: "yields (Inl (Fault e)) R"
  by (simp add: yields_def)

lemma yields_Panic [simp]: "\<not> yields (Inl Panic) R"
  by (simp add: yields_def)

lemma returns_yields: "returns m R \<Longrightarrow> yields m R"
  by (auto simp: returns_def)

lemma yields_mono: "yields m Q \<Longrightarrow> (\<And>x. Q x \<Longrightarrow> R x) \<Longrightarrow> yields m R"
  by (auto simp: yields_def)

lemma yields_gbind:
  assumes "yields m Q" and "\<And>x. Q x \<Longrightarrow> yields (f x) R"
  shows "yields (gbind m f) R"
  using assms by (cases m) (auto simp: yields_def)

lemma yieldsE:
  assumes "yields m R"
  obtains (error) e where "m = Inl (Fault e)" | (val) x where "m = Inr x" and "R x"
  using assms by (cases m rule: sum.exhaust; cases "projl m") (auto simp: yields_def)

text \<open>A loop that fills a fresh slice from another one, in order.\<close>

fun gmapM :: "('a \<Rightarrow> ('e, 'b) go) \<Rightarrow> 'a list \<Rightarrow> ('e, 'b list) go" where
  "gmapM f [] = Inr []"
| "gmapM f (x # xs) = gbind (f x) (\<lambda>y. gmap ((#) y) (gmapM f xs))"

lemma gmap_eq_Inr [go_simps]: "gmap f m = Inr y \<longleftrightarrow> (\<exists>x. m = Inr x \<and> y = f x)"
  by (cases m) auto

lemma gmapM_Inr: "(\<And>x. x \<in> set xs \<Longrightarrow> f x = Inr (g x)) \<Longrightarrow> gmapM f xs = Inr (map g xs)"
  by (induction xs) auto

text \<open>A loop body that never fails is a plain fold.\<close>

lemma gmapM_returns:
  assumes "\<And>x. x \<in> set xs \<Longrightarrow> returns (f x) (R x)"
  shows "returns (gmapM f xs) (list_all2 R xs)"
  using assms
proof (induction xs)
  case (Cons x xs)
  have "returns (gmapM f xs) (list_all2 R xs)" using Cons by simp
  moreover have "returns (f x) (R x)" using Cons.prems by simp
  ultimately show ?case by (auto elim!: returnsE)
qed simp

lemma sint_eq_iff: "sint (a :: i64) = sint b \<longleftrightarrow> a = b"
  by (metis signed_word_eqI)

lemma gfold_Inr: "(\<And>x s. x \<in> set xs \<Longrightarrow> f x s = Inr (g x s)) \<Longrightarrow> gfold f xs s = Inr (fold g xs s)"
  by (induction xs arbitrary: s) auto

subsection \<open>Slices\<close>

text \<open>
  \<open>xs[i]\<close>, \<open>xs[i] = v\<close> and \<open>xs[a:b]\<close>. Go checks a slice expression against the capacity;
  the model checks against the length, which is stricter, so a program that never panics here
  never panics in Go.
\<close>

definition idx :: "'a list \<Rightarrow> int \<Rightarrow> ('e, 'a) go" where
  "idx xs i = (if 0 \<le> i \<and> i < int (length xs) then Inr (xs ! nat i) else Inl Panic)"

definition upd :: "'a list \<Rightarrow> int \<Rightarrow> 'a \<Rightarrow> ('e, 'a list) go" where
  "upd xs i v = (if 0 \<le> i \<and> i < int (length xs) then Inr (xs[nat i := v]) else Inl Panic)"

definition slice :: "'a list \<Rightarrow> int \<Rightarrow> int \<Rightarrow> ('e, 'a list) go" where
  "slice xs a b =
     (if 0 \<le> a \<and> a \<le> b \<and> b \<le> int (length xs)
      then Inr (take (nat (b - a)) (drop (nat a) xs)) else Inl Panic)"

lemma idx_in [simp]: "0 \<le> i \<Longrightarrow> i < int (length xs) \<Longrightarrow> idx xs i = Inr (xs ! nat i)"
  by (simp add: idx_def)

lemma idx_of_nat [simp]: "i < length xs \<Longrightarrow> idx xs (int i) = Inr (xs ! i)"
  by (simp add: idx_def)

lemma upd_in [simp]: "0 \<le> i \<Longrightarrow> i < int (length xs) \<Longrightarrow> upd xs i v = Inr (xs[nat i := v])"
  by (simp add: upd_def)

lemma upd_of_nat [simp]: "i < length xs \<Longrightarrow> upd xs (int i) v = Inr (xs[i := v])"
  by (simp add: upd_def)

lemma slice_in [simp]:
  "0 \<le> a \<Longrightarrow> a \<le> b \<Longrightarrow> b \<le> int (length xs) \<Longrightarrow>
     slice xs a b = Inr (take (nat (b - a)) (drop (nat a) xs))"
  by (simp add: slice_def)

lemma nth_list_update_if: "j < length xs \<Longrightarrow> xs[i := x] ! j = (if i = j then x else xs ! j)"
  by simp

lemma nth_upd: "xs[i := x] ! j = (if i = j \<and> i < length xs then x else xs ! j)"
  by (cases "i < length xs"; cases "i = j") (simp_all add: list_update_beyond)

lemma idx_eq_Inr: "idx xs i = Inr v \<longleftrightarrow> 0 \<le> i \<and> i < int (length xs) \<and> v = xs ! nat i"
  by (auto simp: idx_def)

lemma upd_eq_Inr: "upd xs i v = Inr ys \<longleftrightarrow> 0 \<le> i \<and> i < int (length xs) \<and> ys = xs[nat i := v]"
  by (auto simp: upd_def)

lemma slice_eq_Inr:
  "slice xs a b = Inr ys \<longleftrightarrow>
     0 \<le> a \<and> a \<le> b \<and> b \<le> int (length xs) \<and> ys = take (nat (b - a)) (drop (nat a) xs)"
  by (auto simp: slice_def)

subsection \<open>Maps\<close>

text \<open>
  A Go map is an association list with distinct keys, so that \<open>len\<close> and \<open>range\<close> are executable.
  Go leaves the iteration order open; every loop over a map below is followed by a sort or does
  not depend on the order.
\<close>

type_synonym ('k, 'v) gomap = "('k \<times> 'v) list"

definition mput :: "'k \<Rightarrow> 'v \<Rightarrow> ('k, 'v) gomap \<Rightarrow> ('k, 'v) gomap" where
  "mput k v m = AList.update k v m"

definition mdel :: "'k \<Rightarrow> ('k, 'v) gomap \<Rightarrow> ('k, 'v) gomap" where
  "mdel k m = AList.delete k m"

text \<open>\<open>m[k]\<close> with the zero value of the element type for a missing key.\<close>

definition mgetd :: "'v \<Rightarrow> ('k, 'v) gomap \<Rightarrow> 'k \<Rightarrow> 'v" where
  "mgetd z m k = (case map_of m k of None \<Rightarrow> z | Some v \<Rightarrow> v)"

definition mkeys :: "('k, 'v) gomap \<Rightarrow> 'k list" where
  "mkeys m = map fst m"

definition mwf :: "('k, 'v) gomap \<Rightarrow> bool" where
  "mwf m \<longleftrightarrow> distinct (mkeys m)"

lemma map_of_mput [simp]: "map_of (mput k v m) = (map_of m)(k \<mapsto> v)"
  by (simp add: mput_def update_conv')

lemma map_of_mdel [simp]: "map_of (mdel k m) = (map_of m)(k := None)"
  by (simp add: mdel_def delete_conv')

lemma set_mput: "set (mput k v m) \<subseteq> insert (k, v) (set m)"
  unfolding mput_def by (induction m) auto

lemma mwf_Nil [simp]: "mwf []"
  by (simp add: mwf_def mkeys_def)

lemma mwf_mput [simp]: "mwf m \<Longrightarrow> mwf (mput k v m)"
  by (simp add: mwf_def mkeys_def mput_def distinct_update)

lemma mwf_mdel [simp]: "mwf m \<Longrightarrow> mwf (mdel k m)"
  by (simp add: mwf_def mkeys_def mdel_def distinct_delete)

lemma set_mkeys [simp]: "set (mkeys m) = dom (map_of m)"
  by (simp add: mkeys_def dom_map_of_conv_image_fst)

subsection \<open>Byte order\<close>

fun be_nat :: "byte list \<Rightarrow> nat" where
  "be_nat [] = 0"
| "be_nat (b # bs) = unat b * 256 ^ length bs + be_nat bs"

definition le_nat :: "byte list \<Rightarrow> nat" where
  "le_nat bs = be_nat (rev bs)"

text \<open>\<open>binary.BigEndian.PutUint64\<close> and its narrower forms: \<open>n\<close> bytes, most significant first.\<close>

fun be_put :: "nat \<Rightarrow> nat \<Rightarrow> byte list" where
  "be_put 0 v = []"
| "be_put (Suc n) v = of_nat (v div 256 ^ n) # be_put n v"

lemma length_be_put [simp]: "length (be_put n v) = n"
  by (induction n) auto

lemma be_nat_less: "be_nat bs < 256 ^ length bs"
proof (induction bs)
  case Nil
  then show ?case by simp
next
  case (Cons b bs)
  have "unat b < 256"
    using unsigned_less [of b] by simp
  then have "Suc (unat b) * 256 ^ length bs \<le> 256 * (256::nat) ^ length bs"
    by (intro mult_le_mono1) simp
  then have "256 ^ length bs + unat b * 256 ^ length bs \<le> 256 * (256::nat) ^ length bs"
    unfolding mult_Suc .
  moreover have "(256::nat) ^ length (b # bs) = 256 * 256 ^ length bs" by simp
  ultimately show ?case using Cons unfolding be_nat.simps by linarith
qed

lemma be_nat_be_put: "be_nat (be_put n v) = v mod 256 ^ n"
proof (induction n)
  case 0
  then show ?case by simp
next
  case (Suc n)
  have u: "unat (of_nat (v div 256 ^ n) :: byte) = v div 256 ^ n mod 256"
    by (simp add: unat_of_nat)
  have m: "v mod (256 ^ n * 256) = 256 ^ n * (v div 256 ^ n mod 256) + v mod 256 ^ n"
    by (rule mod_mult2_eq)
  show ?case
    unfolding be_put.simps be_nat.simps length_be_put u Suc power_Suc2 m by simp
qed

lemma be_nat_be_put_id [simp]: "v < 256 ^ n \<Longrightarrow> be_nat (be_put n v) = v"
  by (simp add: be_nat_be_put)

definition be16 :: "byte list \<Rightarrow> u16" where "be16 bs = of_nat (be_nat (take 2 bs))"
definition be32 :: "byte list \<Rightarrow> u32" where "be32 bs = of_nat (be_nat (take 4 bs))"
definition be64 :: "byte list \<Rightarrow> u64" where "be64 bs = of_nat (be_nat (take 8 bs))"
definition le16 :: "byte list \<Rightarrow> u16" where "le16 bs = of_nat (le_nat (take 2 bs))"
definition le32 :: "byte list \<Rightarrow> u32" where "le32 bs = of_nat (le_nat (take 4 bs))"

definition go_string :: "byte list \<Rightarrow> string" where
  "go_string bs = map (\<lambda>b. char_of (unat b)) bs"

text \<open>The \<open>%x\<close> verb of package \<open>fmt\<close> on an unsigned number.\<close>

definition hex_digit :: "nat \<Rightarrow> char" where
  "hex_digit d = (if d < 10 then char_of (48 + d) else char_of (87 + d))"

fun hex :: "nat \<Rightarrow> string" where
  "hex n = (if n < 16 then [hex_digit n] else hex (n div 16) @ [hex_digit (n mod 16)])"

declare hex.simps [simp del]

subsection \<open>Package sort\<close>

text \<open>
  \<open>sort.Slice xs less\<close>. Go promises a sorted permutation and leaves the order of elements that
  compare equal open; the model keeps their order (which is what \<open>sort.SliceStable\<close> promises).
\<close>

fun insert_by :: "('a \<Rightarrow> 'a \<Rightarrow> bool) \<Rightarrow> 'a \<Rightarrow> 'a list \<Rightarrow> 'a list" where
  "insert_by lt x [] = [x]"
| "insert_by lt x (y # ys) =
     (if lt y x then y # insert_by lt x ys else x # y # ys)"

fun sort_slice :: "('a \<Rightarrow> 'a \<Rightarrow> bool) \<Rightarrow> 'a list \<Rightarrow> 'a list" where
  "sort_slice lt [] = []"
| "sort_slice lt (x # xs) = insert_by lt x (sort_slice lt xs)"

lemma mset_insert_by [simp]: "mset (insert_by lt x ys) = add_mset x (mset ys)"
  by (induction ys) auto

lemma mset_sort_slice [simp]: "mset (sort_slice lt xs) = mset xs"
  by (induction xs) auto

lemma set_insert_by [simp]: "set (insert_by lt x xs) = insert x (set xs)"
  by (induction xs) auto

lemma set_sort_slice [simp]: "set (sort_slice lt xs) = set xs"
  by (induction xs) auto

lemma length_sort_slice [simp]: "length (sort_slice lt xs) = length xs"
  using mset_eq_length [OF mset_sort_slice] .

lemma distinct_sort_slice [simp]: "distinct (sort_slice lt xs) = distinct xs"
  by (rule mset_eq_imp_distinct_iff) simp

text \<open>What a comparator owes \<open>sort.Slice\<close>: a strict weak order.\<close>

locale comparator =
  fixes lt :: "'a \<Rightarrow> 'a \<Rightarrow> bool"
  assumes less_asym: "lt x y \<Longrightarrow> \<not> lt y x"
    and less_negtrans: "\<not> lt x y \<Longrightarrow> \<not> lt y z \<Longrightarrow> \<not> lt x z"
begin

lemma sorted_insert_by:
  assumes "sorted_wrt (\<lambda>x y. \<not> lt y x) ys"
  shows "sorted_wrt (\<lambda>x y. \<not> lt y x) (insert_by lt x ys)"
  using assms
proof (induction ys)
  case Nil
  then show ?case by simp
next
  case (Cons y ys)
  show ?case
  proof (cases "lt y x")
    case True
    with Cons show ?thesis by (auto dest: less_asym)
  next
    case False
    with Cons.prems have "\<forall>z\<in>set ys. \<not> lt z x"
      by (meson less_negtrans sorted_wrt.simps(2))
    with Cons.prems False show ?thesis by simp
  qed
qed

lemma sorted_sort_slice: "sorted_wrt (\<lambda>x y. \<not> lt y x) (sort_slice lt xs)"
  by (induction xs) (auto intro: sorted_insert_by)

lemma sort_slice_id:
  "sorted_wrt (\<lambda>x y. \<not> lt y x) xs \<Longrightarrow> sort_slice lt xs = xs"
proof (induction xs)
  case Nil
  then show ?case by simp
next
  case (Cons x xs)
  then show ?case by (cases xs) auto
qed

end

lemma sorted_perm_eq:
  "sorted_wrt P xs \<Longrightarrow> sorted_wrt P ys \<Longrightarrow> mset xs = mset ys \<Longrightarrow>
   \<forall>x\<in>set xs. \<forall>y\<in>set xs. P x y \<longrightarrow> P y x \<longrightarrow> x = y \<Longrightarrow> xs = ys"
proof (induction xs arbitrary: ys)
  case Nil
  then show ?case by simp
next
  case (Cons x xs)
  obtain y zs where ys: "ys = y # zs" using Cons.prems(3) by (cases ys) auto
  have s: "set (x # xs) = set (y # zs)" using Cons.prems(3) ys by (metis set_mset_mset)
  have "x = y"
  proof (rule ccontr)
    assume ne: "x \<noteq> y"
    with s have "y \<in> set xs" and "x \<in> set zs" by auto
    with Cons.prems(1,2) ys have "P x y" and "P y x" by auto
    with Cons.prems(4) \<open>y \<in> set xs\<close> ne show False by auto
  qed
  moreover have "mset xs = mset zs" using Cons.prems(3) ys \<open>x = y\<close> by simp
  ultimately show ?case using Cons.IH [of zs] Cons.prems ys by auto
qed

text \<open>A comparator that tells the elements apart makes sorting independent of the input order.\<close>

context comparator
begin

lemma sort_slice_perm:
  assumes "mset xs = mset ys" and "\<And>x y. x \<in> set xs \<Longrightarrow> y \<in> set xs \<Longrightarrow> x \<noteq> y \<Longrightarrow> lt x y \<or> lt y x"
  shows "sort_slice lt xs = sort_slice lt ys"
  by (rule sorted_perm_eq [OF sorted_sort_slice sorted_sort_slice]) (use assms in auto)

lemma strictly_sorted:
  assumes "distinct xs" and "\<And>x y. x \<in> set xs \<Longrightarrow> y \<in> set xs \<Longrightarrow> x \<noteq> y \<Longrightarrow> lt x y \<or> lt y x"
  shows "sorted_wrt lt (sort_slice lt xs)"
proof -
  have "distinct (sort_slice lt xs)" using assms(1) by simp
  with sorted_sort_slice [of xs]
  have "sorted_wrt (\<lambda>x y. \<not> lt y x \<and> x \<noteq> y) (sort_slice lt xs)"
    by (auto simp: sorted_wrt_iff_nth_less distinct_conv_nth)
  then show ?thesis
    by (rule sorted_wrt_mono_rel [rotated]) (use assms(2) in auto)
qed

end

text \<open>
  \<open>sort.Search(n, f)\<close>: binary search for the least index at which a monotone predicate holds.
\<close>

function search_loop :: "(nat \<Rightarrow> bool) \<Rightarrow> nat \<Rightarrow> nat \<Rightarrow> nat" where
  "search_loop f i j =
     (if i < j
      then (let h = (i + j) div 2 in if \<not> f h then search_loop f (Suc h) j else search_loop f i h)
      else i)"
  by pat_completeness auto
termination
  by (relation "measure (\<lambda>(f, i, j). j - i)") auto

declare search_loop.simps [simp del]

definition sort_search :: "nat \<Rightarrow> (nat \<Rightarrow> bool) \<Rightarrow> nat" where
  "sort_search n f = search_loop f 0 n"

lemma search_loop_spec:
  assumes "i \<le> j" and "\<forall>k<i. \<not> f k" and "\<forall>k. j \<le> k \<and> k < n \<longrightarrow> f k"
    and "j \<le> n" and "\<forall>a b. a \<le> b \<and> b < n \<and> f a \<longrightarrow> f b"
  shows "i \<le> search_loop f i j \<and> search_loop f i j \<le> j \<and>
    (\<forall>k < search_loop f i j. \<not> f k) \<and> (\<forall>k. search_loop f i j \<le> k \<and> k < n \<longrightarrow> f k)"
  using assms
proof (induction f i j rule: search_loop.induct)
  case (1 f i j)
  show ?case
  proof (cases "i < j")
    case False
    then have eq: "search_loop f i j = i"
      by (subst search_loop.simps) simp
    have "i = j" using False "1.prems"(1) by simp
    then show ?thesis unfolding eq using "1.prems"(2,3) by blast
  next
    case True
    define h where "h = (i + j) div 2"
    have h: "i \<le> h" "h < j" using True by (auto simp: h_def)
    show ?thesis
    proof (cases "f h")
      case nfh: False
      have eq: "search_loop f i j = search_loop f (Suc h) j"
        by (subst search_loop.simps) (simp add: True nfh Let_def flip: h_def)
      have "h < n" using h(2) "1.prems"(4) by simp
      then have "\<not> f k" if "k \<le> h" for k
        using nfh "1.prems"(5) [rule_format, of k h] that by blast
      then have below: "\<forall>k<Suc h. \<not> f k"
        by (simp add: less_Suc_eq_le)
      have "Suc h \<le> j" using h(2) by simp
      note IH = "1.IH"(1) [OF True h_def nfh this below "1.prems"(3-5)]
      have "i \<le> search_loop f (Suc h) j" using conjunct1 [OF IH] h(1) by linarith
      then show ?thesis unfolding eq using conjunct2 [OF IH] by (rule conjI)
    next
      case fh: True
      have eq: "search_loop f i j = search_loop f i h"
        by (subst search_loop.simps) (simp add: True fh Let_def flip: h_def)
      have above: "\<forall>k. h \<le> k \<and> k < n \<longrightarrow> f k"
        using fh "1.prems"(5) [rule_format, of h] by simp
      have hn: "h \<le> n" using h(2) "1.prems"(4) by simp
      have nn: "\<not> \<not> f h" using fh by simp
      note IH = "1.IH"(2) [OF True h_def nn h(1) "1.prems"(2) above hn "1.prems"(5)]
      have "search_loop f i h \<le> j" using conjunct1 [OF conjunct2 [OF IH]] h(2) by linarith
      from conjI [OF conjunct1 [OF IH] conjI [OF this conjunct2 [OF conjunct2 [OF IH]]]]
      show ?thesis unfolding eq .
    qed
  qed
qed

text \<open>The contract of \<open>sort.Search\<close> on a monotone predicate.\<close>

lemma sort_search_spec:
  assumes "\<And>a b. a \<le> b \<Longrightarrow> b < n \<Longrightarrow> f a \<Longrightarrow> f b"
  shows "sort_search n f \<le> n"
    and "\<And>k. k < sort_search n f \<Longrightarrow> \<not> f k"
    and "\<And>k. sort_search n f \<le> k \<Longrightarrow> k < n \<Longrightarrow> f k"
proof -
  have mono: "\<forall>a b. a \<le> b \<and> b < n \<and> f a \<longrightarrow> f b"
    by (intro allI impI) (elim conjE, rule assms)
  have pre: "\<forall>k<0. \<not> f k" "\<forall>k. n \<le> k \<and> k < n \<longrightarrow> f k"
    by (simp, meson leD)
  note spec = search_loop_spec [OF le0 pre order.refl mono, folded sort_search_def]
  show "sort_search n f \<le> n"
    by (rule spec [THEN conjunct2, THEN conjunct1])
  show "\<not> f k" if "k < sort_search n f" for k
    using spec [THEN conjunct2, THEN conjunct2, THEN conjunct1] that by simp
  show "f k" if "sort_search n f \<le> k" "k < n" for k
    using spec [THEN conjunct2, THEN conjunct2, THEN conjunct2] that by simp
qed

end
