(* ===== verification/Hprof_Reader.thy ===== *)
theory Hprof_Reader
  imports Go_Prelude
begin

text \<open>
  The byte reader both HPROF parsers share (\<open>internal/heap/hprof.go\<close>): the record and type tags,
  the big-endian \<open>hprofReader\<close> primitives \<open>u1\<close>, \<open>u2\<close>, \<open>u4\<close>, \<open>u8\<close>, \<open>id\<close> and
  \<open>skip\<close>, the file header, and the sections of a \<open>CLASS_DUMP\<close> that are skipped. A reader is a
  function from the bytes still to be read to a value and the remaining bytes. The lemmas show that
  no primitive ever grows the remaining input, which is the measure of every parsing loop, and that
  the primitives invert the big-endian encoding.
\<close>

subsection \<open>Tags and constants\<close>

definition hprofTagString :: byte where "hprofTagString = 0x01"
definition hprofTagLoadClass :: byte where "hprofTagLoadClass = 0x02"
definition hprofTagHeapDump :: byte where "hprofTagHeapDump = 0x0C"
definition hprofTagHeapDumpSegment :: byte where "hprofTagHeapDumpSegment = 0x1C"
definition hprofTagHeapDumpEnd :: byte where "hprofTagHeapDumpEnd = 0x2C"

lemmas hprof_tags = hprofTagString_def hprofTagLoadClass_def hprofTagHeapDump_def
  hprofTagHeapDumpSegment_def hprofTagHeapDumpEnd_def

definition hprofRootJNIGlobal :: byte where "hprofRootJNIGlobal = 0x01"
definition hprofRootJNILocal :: byte where "hprofRootJNILocal = 0x02"
definition hprofRootJavaFrame :: byte where "hprofRootJavaFrame = 0x03"
definition hprofRootNativeStack :: byte where "hprofRootNativeStack = 0x04"
definition hprofRootStickyClass :: byte where "hprofRootStickyClass = 0x05"
definition hprofRootThreadBlock :: byte where "hprofRootThreadBlock = 0x06"
definition hprofRootMonitorUsed :: byte where "hprofRootMonitorUsed = 0x07"
definition hprofRootThreadObject :: byte where "hprofRootThreadObject = 0x08"
definition hprofClassDump :: byte where "hprofClassDump = 0x20"
definition hprofInstanceDump :: byte where "hprofInstanceDump = 0x21"
definition hprofObjectArrayDump :: byte where "hprofObjectArrayDump = 0x22"
definition hprofPrimArrayDump :: byte where "hprofPrimArrayDump = 0x23"
definition hprofRootInterned :: byte where "hprofRootInterned = 0x89"
definition hprofRootFinalizing :: byte where "hprofRootFinalizing = 0x8A"
definition hprofRootDebugger :: byte where "hprofRootDebugger = 0x8B"
definition hprofRootRefCleanup :: byte where "hprofRootRefCleanup = 0x8C"
definition hprofRootVMInternal :: byte where "hprofRootVMInternal = 0x8D"
definition hprofRootJNIMonitor :: byte where "hprofRootJNIMonitor = 0x8E"
definition hprofHeapDumpInfo :: byte where "hprofHeapDumpInfo = 0xFE"
definition hprofRootUnknown :: byte where "hprofRootUnknown = 0xFF"

lemmas hprof_sub_tags = hprofRootJNIGlobal_def hprofRootJNILocal_def hprofRootJavaFrame_def
  hprofRootNativeStack_def hprofRootStickyClass_def hprofRootThreadBlock_def
  hprofRootMonitorUsed_def hprofRootThreadObject_def hprofClassDump_def hprofInstanceDump_def
  hprofObjectArrayDump_def hprofPrimArrayDump_def hprofRootInterned_def hprofRootFinalizing_def
  hprofRootDebugger_def hprofRootRefCleanup_def hprofRootVMInternal_def hprofRootJNIMonitor_def
  hprofHeapDumpInfo_def hprofRootUnknown_def

definition hprofTypeObject :: byte where "hprofTypeObject = 2"
definition hprofTypeBoolean :: byte where "hprofTypeBoolean = 4"
definition hprofTypeChar :: byte where "hprofTypeChar = 5"
definition hprofTypeFloat :: byte where "hprofTypeFloat = 6"
definition hprofTypeDouble :: byte where "hprofTypeDouble = 7"
definition hprofTypeByte :: byte where "hprofTypeByte = 8"
definition hprofTypeShort :: byte where "hprofTypeShort = 9"
definition hprofTypeInt :: byte where "hprofTypeInt = 10"
definition hprofTypeLong :: byte where "hprofTypeLong = 11"

lemmas hprof_types = hprofTypeObject_def hprofTypeBoolean_def hprofTypeChar_def
  hprofTypeFloat_def hprofTypeDouble_def hprofTypeByte_def hprofTypeShort_def
  hprofTypeInt_def hprofTypeLong_def

definition hprofArrayHeaderBytes :: int where "hprofArrayHeaderBytes = 16"
definition maxHPROFStringBytes :: int where "maxHPROFStringBytes = 64 * 2 ^ 20"
definition maxHPROFHeaderName :: nat where "maxHPROFHeaderName = 32"

subsection \<open>Errors\<close>

text \<open>
  \<open>Wrapped msg e\<close> is \<open>fmt.Errorf\<close> with a \<open>%w\<close> verb. \<open>Diverges\<close> is no error of the code: it is
  the outcome of a bounded loop of the model that exceeds its bound, and the theorems about those
  loops show that it does not occur.
\<close>

datatype herr =
    EOF
  | UnexpectedEOF
  | NotHPROF
  | UnsupportedIdSize u32
  | BadStringLength int
  | StringTooLarge int
  | UnknownSubTag byte
  | InstanceTooLarge u64 u32
  | TooManyObjects
  | TooManyReferences
  | NilSnapshot
  | Diverges
  | Wrapped string herr

fun wrap :: "string \<Rightarrow> (herr, 'a) go \<Rightarrow> (herr, 'a) go" where
  "wrap msg (Inl (Fault e)) = Inl (Fault (Wrapped msg e))"
| "wrap msg r = r"

lemma wrap_eq_Inr [simp]: "wrap msg r = Inr x \<longleftrightarrow> r = Inr x"
  by (cases "(msg, r)" rule: wrap.cases) auto

subsection \<open>Readers\<close>

type_synonym 'a rd = "byte list \<Rightarrow> (herr, 'a \<times> byte list) go"

definition rreturn :: "'a \<Rightarrow> 'a rd" where
  "rreturn x bs = Inr (x, bs)"

definition rfail :: "herr \<Rightarrow> 'a rd" where
  "rfail e bs = Inl (Fault e)"

definition rbind :: "'a rd \<Rightarrow> ('a \<Rightarrow> 'b rd) \<Rightarrow> 'b rd" where
  "rbind p f bs = gbind (p bs) (\<lambda>(x, bs'). f x bs')"

definition rwrap :: "string \<Rightarrow> 'a rd \<Rightarrow> 'a rd" where
  "rwrap msg p bs = wrap msg (p bs)"

text \<open>\<open>rlift\<close> runs a computation that reads nothing.\<close>

definition rlift :: "(herr, 'a) go \<Rightarrow> 'a rd" where
  "rlift m bs = gbind m (\<lambda>x. Inr (x, bs))"

text \<open>The number of bytes left.\<close>

definition rleft :: "nat rd" where
  "rleft bs = Inr (length bs, bs)"

lemma rbind_cong [fundef_cong]:
  assumes "p bs = p' bs'" and "\<And>x r. p' bs' = Inr (x, r) \<Longrightarrow> f x r = f' x r"
  shows "rbind p f bs = rbind p' f' bs'"
  using assms by (auto simp: rbind_def intro!: gbind_cong)

lemma rbind_eq_Inr [go_simps]:
  "rbind p f bs = Inr (y, bs') \<longleftrightarrow> (\<exists>x bs1. p bs = Inr (x, bs1) \<and> f x bs1 = Inr (y, bs'))"
  by (auto simp: rbind_def gbind_eq_Inr)

text \<open>\<open>io.ReadFull\<close> into a buffer of \<open>n\<close> bytes.\<close>

definition readFull :: "nat \<Rightarrow> byte list rd" where
  "readFull n bs =
     (if n \<le> length bs then Inr (take n bs, drop n bs)
      else if bs = [] then Inl (Fault EOF) else Inl (Fault UnexpectedEOF))"

fun u1 :: "byte rd" where
  "u1 [] = Inl (Fault EOF)"
| "u1 (b # bs) = Inr (b, bs)"

definition u2 :: "u16 rd" where
  "u2 = rbind (readFull 2) (\<lambda>b. rreturn (be16 b))"

definition u4 :: "u32 rd" where
  "u4 = rbind (readFull 4) (\<lambda>b. rreturn (be32 b))"

definition u8 :: "u64 rd" where
  "u8 = rbind (readFull 8) (\<lambda>b. rreturn (be64 b))"

text \<open>
  \<open>hprofReader.id\<close>: \<open>buf[:idSize]\<close> of an eight-byte buffer panics beyond eight.
  \<open>readHPROFHeader\<close> lets only the sizes 4 and 8 through.
\<close>

definition hid :: "nat \<Rightarrow> u64 rd" where
  "hid idSize bs =
     (if 8 < idSize then Inl Panic
      else rbind (readFull idSize)
        (\<lambda>b. if idSize = 4 then rreturn (ucast (be32 b)) else rreturn (be64 b)) bs)"

text \<open>
  \<open>hprofReader.skip\<close> is \<open>io.CopyN(io.Discard, r, n)\<close>: nothing for a count that is not positive,
  \<open>io.EOF\<close> when the input ends first.
\<close>

definition skip :: "int \<Rightarrow> unit rd" where
  "skip n bs =
     (if n \<le> 0 then Inr ((), bs)
      else if n \<le> int (length bs) then Inr ((), drop (nat n) bs)
      else Inl (Fault EOF))"

definition hprofTypeSize :: "byte \<Rightarrow> nat \<Rightarrow> int" where
  "hprofTypeSize typ idSize =
     (if typ = hprofTypeObject then int idSize
      else if typ = hprofTypeBoolean \<or> typ = hprofTypeByte then 1
      else if typ = hprofTypeChar \<or> typ = hprofTypeShort then 2
      else if typ = hprofTypeFloat \<or> typ = hprofTypeInt then 4
      else if typ = hprofTypeDouble \<or> typ = hprofTypeLong then 8
      else 0)"

definition primArrayName :: "byte \<Rightarrow> string" where
  "primArrayName t =
     (if t = hprofTypeBoolean then ''[Z''
      else if t = hprofTypeChar then ''[C''
      else if t = hprofTypeFloat then ''[F''
      else if t = hprofTypeDouble then ''[D''
      else if t = hprofTypeByte then ''[B''
      else if t = hprofTypeShort then ''[S''
      else if t = hprofTypeInt then ''[I''
      else if t = hprofTypeLong then ''[J''
      else ''[?'')"

subsection \<open>The file header\<close>

text \<open>The NUL-terminated format name, at most \<open>maxHPROFHeaderName\<close> bytes.\<close>

fun readHeaderName :: "byte list \<Rightarrow> byte list rd" where
  "readHeaderName name [] = Inl (Fault (Wrapped ''hprof: read header name'' EOF))"
| "readHeaderName name (c # bs) =
     (if c = 0 then Inr (name, bs)
      else if length name = maxHPROFHeaderName then Inl (Fault NotHPROF)
      else readHeaderName (name @ [c]) bs)"

text \<open>\<open>readHPROFHeader\<close> returns the identifier size it stores in the reader.\<close>

definition readHPROFHeader :: "nat rd" where
  "readHPROFHeader =
     rbind (readHeaderName []) (\<lambda>name.
     if take 12 (go_string name) \<noteq> ''JAVA PROFILE'' then rfail NotHPROF
     else rbind (rwrap ''hprof: read id size'' u4) (\<lambda>idSize.
     if idSize \<noteq> 4 \<and> idSize \<noteq> 8 then rfail (UnsupportedIdSize idSize)
     else rbind (rwrap ''hprof: read timestamp'' u8) (\<lambda>_.
     rreturn (unat idSize))))"

subsection \<open>The skipped sections of a class dump\<close>

fun skipPoolEntries :: "nat \<Rightarrow> nat \<Rightarrow> unit rd" where
  "skipPoolEntries idSize 0 = rreturn ()"
| "skipPoolEntries idSize (Suc n) =
     rbind u2 (\<lambda>_. rbind u1 (\<lambda>typ. rbind (skip (hprofTypeSize typ idSize)) (\<lambda>_.
     skipPoolEntries idSize n)))"

definition skipClassPool :: "nat \<Rightarrow> unit rd" where
  "skipClassPool idSize = rbind u2 (\<lambda>count. skipPoolEntries idSize (unat count))"

fun skipStaticEntries :: "nat \<Rightarrow> nat \<Rightarrow> unit rd" where
  "skipStaticEntries idSize 0 = rreturn ()"
| "skipStaticEntries idSize (Suc n) =
     rbind (hid idSize) (\<lambda>_. rbind u1 (\<lambda>typ. rbind (skip (hprofTypeSize typ idSize)) (\<lambda>_.
     skipStaticEntries idSize n)))"

definition skipStaticFields :: "nat \<Rightarrow> unit rd" where
  "skipStaticFields idSize = rbind u2 (\<lambda>count. skipStaticEntries idSize (unat count))"

fun skipInstanceEntries :: "nat \<Rightarrow> nat \<Rightarrow> unit rd" where
  "skipInstanceEntries idSize 0 = rreturn ()"
| "skipInstanceEntries idSize (Suc n) =
     rbind (hid idSize) (\<lambda>_. rbind u1 (\<lambda>_. skipInstanceEntries idSize n))"

definition skipInstanceFields :: "nat \<Rightarrow> unit rd" where
  "skipInstanceFields idSize = rbind u2 (\<lambda>count. skipInstanceEntries idSize (unat count))"

subsection \<open>Readers consume their input\<close>

text \<open>
  A reader that succeeds leaves no more bytes than it found: the measure of the parsing loops.
\<close>

definition shrinks :: "'a rd \<Rightarrow> bool" where
  "shrinks p \<longleftrightarrow> (\<forall>bs x r. p bs = Inr (x, r) \<longrightarrow> length r \<le> length bs)"

named_theorems shrink_intros

lemma shrinksD: "shrinks p \<Longrightarrow> p bs = Inr (x, r) \<Longrightarrow> length r \<le> length bs"
  by (auto simp: shrinks_def)

lemma shrinks_rreturn [shrink_intros]: "shrinks (rreturn x)"
  by (simp add: shrinks_def rreturn_def)

lemma shrinks_rfail [shrink_intros]: "shrinks (rfail e)"
  by (simp add: shrinks_def rfail_def)

lemma shrinks_rlift [shrink_intros]: "shrinks (rlift m)"
  by (auto simp: shrinks_def rlift_def gbind_eq_Inr)

lemma shrinks_rbind [shrink_intros]:
  assumes "shrinks p" and "\<And>x. shrinks (f x)"
  shows "shrinks (rbind p f)"
  unfolding shrinks_def
proof (intro allI impI)
  fix bs y r
  assume "rbind p f bs = Inr (y, r)"
  then obtain x bs1 where "p bs = Inr (x, bs1)" and "f x bs1 = Inr (y, r)"
    by (auto simp: rbind_eq_Inr)
  then have "length bs1 \<le> length bs" and "length r \<le> length bs1"
    using assms by (auto dest: shrinksD)
  then show "length r \<le> length bs" by simp
qed

lemma shrinks_rwrap [shrink_intros]: "shrinks p \<Longrightarrow> shrinks (rwrap msg p)"
  by (simp add: shrinks_def rwrap_def)

lemma shrinks_if [shrink_intros]: "shrinks p \<Longrightarrow> shrinks q \<Longrightarrow> shrinks (if c then p else q)"
  by simp

lemma shrinks_prod [shrink_intros]:
  "(\<And>a b. shrinks (f a b)) \<Longrightarrow> shrinks (case x of (a, b) \<Rightarrow> f a b)"
  by (simp split: prod.split)

lemma shrinks_option [shrink_intros]:
  "shrinks p \<Longrightarrow> (\<And>a. shrinks (f a)) \<Longrightarrow> shrinks (case x of None \<Rightarrow> p | Some a \<Rightarrow> f a)"
  by (simp split: option.split)

lemma shrinks_Let [shrink_intros]: "(\<And>x. shrinks (f x)) \<Longrightarrow> shrinks (let x = a in f x)"
  by (simp add: Let_def)

lemma shrinks_rleft [shrink_intros]: "shrinks rleft"
  by (simp add: shrinks_def rleft_def)

lemma shrinks_readFull [shrink_intros]: "shrinks (readFull n)"
  by (simp add: shrinks_def readFull_def)

lemma shrinks_u1 [shrink_intros]: "shrinks u1"
  unfolding shrinks_def
proof (intro allI impI)
  fix bs x r
  assume "u1 bs = Inr (x, r)"
  then show "length r \<le> length bs" by (cases bs) auto
qed

lemma shrinks_u2 [shrink_intros]: "shrinks u2"
  unfolding u2_def by (intro shrink_intros)

lemma shrinks_u4 [shrink_intros]: "shrinks u4"
  unfolding u4_def by (intro shrink_intros)

lemma shrinks_u8 [shrink_intros]: "shrinks u8"
  unfolding u8_def by (intro shrink_intros)

lemma shrinks_hid [shrink_intros]: "shrinks (hid idSize)"
proof (cases "8 < idSize")
  case True
  then show ?thesis by (simp add: shrinks_def hid_def)
next
  case False
  have "shrinks (rbind (readFull idSize)
      (\<lambda>b. if idSize = 4 then rreturn (ucast (be32 b)) else rreturn (be64 b)))"
    by (intro shrink_intros)
  with False show ?thesis by (simp add: shrinks_def hid_def)
qed

lemma shrinks_skip [shrink_intros]: "shrinks (skip n)"
  by (simp add: shrinks_def skip_def)

lemma shrinks_skipPoolEntries [shrink_intros]: "shrinks (skipPoolEntries idSize n)"
  by (induction n) (auto intro!: shrink_intros)

lemma shrinks_skipClassPool [shrink_intros]: "shrinks (skipClassPool idSize)"
  unfolding skipClassPool_def by (intro shrink_intros)

lemma shrinks_skipStaticEntries [shrink_intros]: "shrinks (skipStaticEntries idSize n)"
  by (induction n) (auto intro!: shrink_intros)

lemma shrinks_skipStaticFields [shrink_intros]: "shrinks (skipStaticFields idSize)"
  unfolding skipStaticFields_def by (intro shrink_intros)

lemma shrinks_skipInstanceEntries [shrink_intros]: "shrinks (skipInstanceEntries idSize n)"
  by (induction n) (auto intro!: shrink_intros)

lemma shrinks_skipInstanceFields [shrink_intros]: "shrinks (skipInstanceFields idSize)"
  unfolding skipInstanceFields_def by (intro shrink_intros)

subsection \<open>Readers never panic\<close>

text \<open>\<open>reads p R\<close>: on every input \<open>p\<close> returns an error or a value that satisfies \<open>R\<close>.\<close>

definition reads :: "'a rd \<Rightarrow> ('a \<Rightarrow> bool) \<Rightarrow> bool" where
  "reads p R \<longleftrightarrow> (\<forall>bs. yields (p bs) (\<lambda>(x, _). R x))"

named_theorems read_intros

lemma yields_wrap [simp]: "yields (wrap msg m) R \<longleftrightarrow> yields m R"
  by (cases "(msg, m)" rule: wrap.cases) auto

lemma readsD: "reads p R \<Longrightarrow> yields (p bs) (\<lambda>(x, _). R x)"
  by (simp add: reads_def)

lemma reads_mono: "reads p Q \<Longrightarrow> (\<And>x. Q x \<Longrightarrow> R x) \<Longrightarrow> reads p R"
  unfolding reads_def by (auto intro: yields_mono)

lemma reads_rreturn [read_intros]: "R x \<Longrightarrow> reads (rreturn x) R"
  by (simp add: reads_def rreturn_def)

lemma reads_rfail [read_intros]: "reads (rfail e) R"
  by (simp add: reads_def rfail_def)

lemma reads_rlift [read_intros]: "yields m R \<Longrightarrow> reads (rlift m) R"
  by (cases m) (auto simp: reads_def rlift_def yields_def)

lemma reads_rbind:
  assumes "reads p Q" and "\<And>x. Q x \<Longrightarrow> reads (f x) R"
  shows "reads (rbind p f) R"
  unfolding reads_def rbind_def
proof
  fix bs
  show "yields (gbind (p bs) (\<lambda>(x, bs'). f x bs')) (\<lambda>(x, _). R x)"
    using assms by (auto intro!: yields_gbind [OF readsD [OF assms(1)]] dest: readsD)
qed

lemma reads_rbind_any [read_intros]:
  "reads p (\<lambda>_. True) \<Longrightarrow> (\<And>x. reads (f x) R) \<Longrightarrow> reads (rbind p f) R"
  by (rule reads_rbind)

lemma reads_rwrap [read_intros]: "reads p R \<Longrightarrow> reads (rwrap msg p) R"
  by (simp add: reads_def rwrap_def)

lemma reads_if [read_intros]:
  "(c \<Longrightarrow> reads p R) \<Longrightarrow> (\<not> c \<Longrightarrow> reads q R) \<Longrightarrow> reads (if c then p else q) R"
  by simp

lemma reads_prod [read_intros]:
  "(\<And>a b. x = (a, b) \<Longrightarrow> reads (f a b) R) \<Longrightarrow> reads (case x of (a, b) \<Rightarrow> f a b) R"
  by (simp split: prod.split)

lemma reads_option [read_intros]:
  "(x = None \<Longrightarrow> reads p R) \<Longrightarrow> (\<And>a. x = Some a \<Longrightarrow> reads (f a) R) \<Longrightarrow>
     reads (case x of None \<Rightarrow> p | Some a \<Rightarrow> f a) R"
  by (simp split: option.split)

lemma reads_rleft [read_intros]: "reads rleft (\<lambda>_. True)"
  by (simp add: reads_def rleft_def)

lemma reads_readFull [read_intros]: "reads (readFull n) (\<lambda>b. length b = n)"
  by (simp add: reads_def readFull_def)

lemma reads_readFull_any [read_intros]: "reads (readFull n) (\<lambda>_. True)"
  by (simp add: reads_def readFull_def)

lemma reads_u1 [read_intros]: "reads u1 (\<lambda>_. True)"
  unfolding reads_def
proof
  fix bs
  show "yields (u1 bs) (\<lambda>(x, _). True)" by (cases bs) auto
qed

lemma reads_u2 [read_intros]: "reads u2 (\<lambda>_. True)"
  unfolding u2_def by (intro read_intros TrueI)

lemma reads_u4 [read_intros]: "reads u4 (\<lambda>_. True)"
  unfolding u4_def by (intro read_intros TrueI)

lemma reads_u8 [read_intros]: "reads u8 (\<lambda>_. True)"
  unfolding u8_def by (intro read_intros TrueI)

lemma reads_hid [read_intros]:
  assumes "idSize \<in> {4, 8}"
  shows "reads (hid idSize) (\<lambda>_. True)"
proof -
  have "hid idSize = rbind (readFull idSize)
      (\<lambda>b. if idSize = 4 then rreturn (ucast (be32 b)) else rreturn (be64 b))"
    using assms by (auto simp: hid_def fun_eq_iff)
  then show ?thesis by (auto intro!: read_intros)
qed

lemma reads_skip [read_intros]: "reads (skip n) (\<lambda>_. True)"
  by (simp add: reads_def skip_def)

lemma reads_skipPoolEntries: "reads (skipPoolEntries idSize n) (\<lambda>_. True)"
  by (induction n) (auto intro!: read_intros)

lemma reads_skipClassPool [read_intros]: "reads (skipClassPool idSize) (\<lambda>_. True)"
  unfolding skipClassPool_def by (intro read_intros reads_skipPoolEntries)

lemma reads_skipStaticEntries:
  "idSize \<in> {4, 8} \<Longrightarrow> reads (skipStaticEntries idSize n) (\<lambda>_. True)"
  by (induction n) (auto intro!: read_intros)

lemma reads_skipStaticFields [read_intros]:
  "idSize \<in> {4, 8} \<Longrightarrow> reads (skipStaticFields idSize) (\<lambda>_. True)"
  unfolding skipStaticFields_def by (intro read_intros reads_skipStaticEntries)

lemma reads_skipInstanceEntries:
  "idSize \<in> {4, 8} \<Longrightarrow> reads (skipInstanceEntries idSize n) (\<lambda>_. True)"
  by (induction n) (auto intro!: read_intros)

lemma reads_skipInstanceFields [read_intros]:
  "idSize \<in> {4, 8} \<Longrightarrow> reads (skipInstanceFields idSize) (\<lambda>_. True)"
  unfolding skipInstanceFields_def by (intro read_intros reads_skipInstanceEntries)

lemma reads_readHeaderName [read_intros]:
  "reads (readHeaderName name) (\<lambda>_. True)"
  unfolding reads_def
proof
  fix bs
  show "yields (readHeaderName name bs) (\<lambda>(x, _). True)"
    by (induction name bs rule: readHeaderName.induct) auto
qed

lemma shrinks_readHeaderName [shrink_intros]: "shrinks (readHeaderName name)"
  unfolding shrinks_def
proof (intro allI impI)
  fix bs x r
  assume "readHeaderName name bs = Inr (x, r)"
  then show "length r \<le> length bs"
    by (induction name bs arbitrary: x r rule: readHeaderName.induct)
      (auto split: if_splits simp: le_SucI)
qed

lemma shrinks_readHPROFHeader [shrink_intros]: "shrinks readHPROFHeader"
  unfolding readHPROFHeader_def by (intro shrink_intros)

lemma reads_readHPROFHeader: "reads readHPROFHeader (\<lambda>idSize. idSize \<in> {4, 8})"
  unfolding readHPROFHeader_def by (intro read_intros) auto

subsection \<open>Readers invert the big-endian encoding\<close>

lemma readFull_append [simp]: "length b = n \<Longrightarrow> readFull n (b @ r) = Inr (b, r)"
  by (simp add: readFull_def)

lemma u1_encoded [simp]: "u1 ([b] @ r) = Inr (b, r)"
  by simp

lemma u2_encoded [simp]: "u2 (be_put 2 (unat v) @ r) = Inr (v, r)"
proof -
  have "unat v < 256 ^ 2" using unsigned_less [of v] by simp
  then show ?thesis by (simp add: u2_def rbind_def rreturn_def be16_def)
qed

lemma u4_encoded [simp]: "u4 (be_put 4 (unat v) @ r) = Inr (v, r)"
proof -
  have "unat v < 256 ^ 4" using unsigned_less [of v] by simp
  then show ?thesis by (simp add: u4_def rbind_def rreturn_def be32_def)
qed

lemma u8_encoded [simp]: "u8 (be_put 8 (unat v) @ r) = Inr (v, r)"
proof -
  have "unat v < 256 ^ 8" using unsigned_less [of v] by simp
  then show ?thesis by (simp add: u8_def rbind_def rreturn_def be64_def)
qed

lemma hid_encoded [simp]:
  assumes "idSize \<in> {4, 8}" and "unat v < 256 ^ idSize"
  shows "hid idSize (be_put idSize (unat v) @ r) = Inr (v, r)"
proof -
  consider "idSize = 4" | "idSize = 8" using assms(1) by auto
  then show ?thesis
  proof cases
    case 1
    then have "unat v < 2 ^ 32" using assms(2) by simp
    then have "ucast (of_nat (unat v) :: u32) = v"
      by (intro word_unat_eq_iff [THEN iffD2]) (simp add: unsigned_ucast_eq unsigned_of_nat unsigned_take_bit_eq take_bit_nat_eq_self)
    with 1 assms(2) show ?thesis by (simp add: hid_def rbind_def rreturn_def be32_def)
  next
    case 2
    with assms(2) show ?thesis by (simp add: hid_def rbind_def rreturn_def be64_def)
  qed
qed

lemma skip_append [simp]: "n = int (length b) \<Longrightarrow> skip n (b @ r) = Inr ((), r)"
  by (auto simp: skip_def)

end
