(* ===== verification/Csr.thy ===== *)
theory Csr
  imports Go_Prelude
begin

text \<open>
  Compressed sparse rows, the adjacency format of the heap package: an offset slice with one entry
  per node plus the end offset, and the concatenated rows. The out-edges of the object graph, its
  reverse adjacency (\<open>paths.go\<close>), the reverse reachable graph and the dominator-tree children
  (\<open>dominators.go\<close>) all have it. The last three are filled by the same counting sort over the
  pairs (row, value): count per row, prefix sums, then one pass that appends each value to its row.
  \<open>csr_build_spec\<close> is its specification: it never panics, and row \<open>i\<close> lists the values paired
  with \<open>i\<close> in their original order.
\<close>

subsection \<open>The format\<close>

definition csr_ok :: "nat \<Rightarrow> int list \<Rightarrow> 'a list \<Rightarrow> bool" where
  "csr_ok n start xs \<longleftrightarrow>
     length start = n + 1 \<and> sorted start \<and> start ! 0 = 0 \<and> start ! n = int (length xs)"

definition csr_row :: "int list \<Rightarrow> 'a list \<Rightarrow> nat \<Rightarrow> 'a list" where
  "csr_row start xs i = take (nat (start ! Suc i - start ! i)) (drop (nat (start ! i)) xs)"

lemma csr_bounds:
  assumes "csr_ok n start xs" and "i < n"
  shows "0 \<le> start ! i" and "start ! i \<le> start ! Suc i" and "start ! Suc i \<le> int (length xs)"
proof -
  have len: "length start = n + 1" and s: "sorted start"
    and z: "start ! 0 = 0" and e: "start ! n = int (length xs)"
    using assms(1) by (auto simp: csr_ok_def)
  show "0 \<le> start ! i" using sorted_nth_mono [OF s, of 0 i] z len assms(2) by simp
  show "start ! i \<le> start ! Suc i" using sorted_nth_mono [OF s, of i "Suc i"] len assms(2) by simp
  show "start ! Suc i \<le> int (length xs)"
    using sorted_nth_mono [OF s, of "Suc i" n] e len assms(2) by simp
qed

lemma csr_slice:
  assumes "csr_ok n start xs" and "i < n"
  shows "gbind (idx start (int i)) (\<lambda>a. gbind (idx start (int i + 1)) (\<lambda>b. slice xs a b)) =
    Inr (csr_row start xs i)"
proof -
  have "length start = n + 1" using assms(1) by (simp add: csr_ok_def)
  moreover have "nat (int i + 1) = Suc i" by simp
  ultimately show ?thesis using assms csr_bounds [OF assms] by (simp add: csr_row_def)
qed

lemma csr_row_subset: "set (csr_row start xs i) \<subseteq> set xs"
  unfolding csr_row_def by (meson set_drop_subset set_take_subset order_trans)

subsection \<open>Rows laid out one after the other\<close>

definition csr_offsets :: "'a list list \<Rightarrow> int list" where
  "csr_offsets rows = map (\<lambda>i. int (length (concat (take i rows)))) [0..<Suc (length rows)]"

lemma length_concat_take_mono:
  "i \<le> j \<Longrightarrow> length (concat (take i rows)) \<le> length (concat (take j rows))"
proof -
  assume "i \<le> j"
  then have "take j rows = take i rows @ take (j - i) (drop i rows)"
    using take_add [of i "j - i" rows] by simp
  then show ?thesis by simp
qed

lemma csr_offsets_ok: "csr_ok (length rows) (csr_offsets rows) (concat rows)"
  unfolding csr_ok_def
proof (intro conjI)
  show "sorted (csr_offsets rows)"
    unfolding csr_offsets_def sorted_map
    by (rule sorted_wrt_mono_rel [OF _ sorted_upt]) (simp add: length_concat_take_mono)
  show "csr_offsets rows ! length rows = int (length (concat rows))"
    unfolding csr_offsets_def by (subst nth_map) (auto simp: nth_append)
qed (auto simp: csr_offsets_def nth_append simp del: upt_Suc)

lemma csr_offsets_row:
  assumes "i < length rows"
  shows "csr_row (csr_offsets rows) (concat rows) i = rows ! i"
proof -
  have "rows = take i rows @ rows ! i # drop (Suc i) rows"
    using assms by (rule id_take_nth_drop)
  then have *: "concat rows = concat (take i rows) @ rows ! i @ concat (drop (Suc i) rows)"
    by (metis concat.simps(2) concat_append)
  have "csr_offsets rows ! i = int (length (concat (take i rows)))"
    and "csr_offsets rows ! Suc i = int (length (concat (take (Suc i) rows)))"
    using assms by (auto simp: csr_offsets_def simp del: upt_Suc)
  moreover have "length (concat (take (Suc i) rows)) = length (concat (take i rows)) + length (rows ! i)"
    using assms by (simp add: take_Suc_conv_app_nth)
  ultimately show ?thesis by (simp add: csr_row_def *)
qed

lemma csr_offsets_snoc:
  "csr_offsets (rows @ [r]) = csr_offsets rows @ [int (length (concat rows) + length r)]"
proof -
  have "map (\<lambda>i. int (length (concat (take i (rows @ [r]))))) [0..<Suc (length rows)] =
      map (\<lambda>i. int (length (concat (take i rows)))) [0..<Suc (length rows)]"
    by (rule map_cong) (auto simp del: upt_Suc)
  then show ?thesis
    unfolding csr_offsets_def length_append_singleton upt_Suc_append [OF le0] map_append by simp
qed

lemma csr_offsets_last:
  "csr_offsets rows = butlast (csr_offsets rows) @ [int (length (concat rows))]"
  by (simp add: csr_offsets_def)

subsection \<open>The counting sort\<close>

definition incr :: "int list \<Rightarrow> int \<Rightarrow> ('e, int list) go" where
  "incr xs i = gbind (idx xs i) (\<lambda>c. upd xs i (c + 1))"

definition csr_counts :: "nat \<Rightarrow> (int \<times> 'a) list \<Rightarrow> ('e, int list) go" where
  "csr_counts m es = gfold (\<lambda>(t, _) start. incr start (t + 1)) es (replicate (m + 1) 0)"

definition csr_prefix :: "nat \<Rightarrow> int list \<Rightarrow> ('e, int list) go" where
  "csr_prefix m start =
     gfold (\<lambda>i s. gbind (idx s (int i)) (\<lambda>a. gbind (idx s (int i - 1)) (\<lambda>b. upd s (int i) (a + b))))
       [1..<m + 1] start"

definition csr_fill ::
  "(int \<times> 'a) list \<Rightarrow> 'a list \<Rightarrow> int list \<Rightarrow> ('e, 'a list \<times> int list) go" where
  "csr_fill es xs fill =
     gfold (\<lambda>(t, v) (xs, fill).
        gbind (idx fill t) (\<lambda>k.
        gbind (upd xs k v) (\<lambda>xs'.
        gbind (incr fill t) (\<lambda>fill'. Inr (xs', fill')))))
       es (xs, fill)"

text \<open>\<open>z\<close> is the zero value the target slice is made with.\<close>

definition csr_build :: "nat \<Rightarrow> 'a \<Rightarrow> (int \<times> 'a) list \<Rightarrow> ('e, int list \<times> 'a list) go" where
  "csr_build m z es =
     gbind (csr_counts m es) (\<lambda>counts.
     gbind (csr_prefix m counts) (\<lambda>start.
     gbind (idx start (int m)) (\<lambda>total.
     gbind (csr_fill es (replicate (nat total) z) (take m start)) (\<lambda>(xs, _).
     Inr (start, xs)))))"

definition row_of :: "(int \<times> 'a) list \<Rightarrow> nat \<Rightarrow> 'a list" where
  "row_of es i = map snd (filter (\<lambda>e. fst e = int i) es)"

definition row_off :: "(int \<times> 'a) list \<Rightarrow> nat \<Rightarrow> nat" where
  "row_off es i = (\<Sum>k<i. length (row_of es k))"

lemma row_of_append [simp]: "row_of (es @ es') i = row_of es i @ row_of es' i"
  by (simp add: row_of_def)

lemma row_of_single: "row_of [(t, v)] i = (if t = int i then [v] else [])"
  by (simp add: row_of_def)

lemma row_of_Nil [simp]: "row_of [] i = []"
  by (simp add: row_of_def)

lemma row_off_Suc [simp]: "row_off es (Suc i) = row_off es i + length (row_of es i)"
  by (simp add: row_off_def)

lemma row_off_0 [simp]: "row_off es 0 = 0"
  by (simp add: row_off_def)

lemma row_off_mono: "i \<le> j \<Longrightarrow> row_off es i \<le> row_off es j"
  by (rule lift_Suc_mono_le) auto

lemma row_off_total:
  assumes "\<forall>e \<in> set es. 0 \<le> fst e \<and> fst e < int m"
  shows "row_off es m = length es"
  using assms
proof (induction es)
  case Nil
  then show ?case by (simp add: row_off_def)
next
  case (Cons e es)
  obtain t v where e: "e = (t, v)" by (cases e)
  have "row_off (e # es) m = (\<Sum>k<m. length (row_of [e] k) + length (row_of es k))"
    using row_of_append [of "[e]" es] by (simp add: row_off_def)
  also have "\<dots> = (\<Sum>k<m. if k = nat t then 1 else 0) + row_off es m"
    using Cons.prems unfolding sum.distrib row_off_def
    by (intro arg_cong2 [where f = "(+)"] sum.cong refl) (auto simp: e row_of_single)
  also have "(\<Sum>k<m. if k = nat t then 1 else (0::nat)) = 1"
    using Cons.prems by (auto simp: e)
  finally show ?case using Cons by simp
qed

lemma incr_in: "0 \<le> i \<Longrightarrow> nat i < length xs \<Longrightarrow> incr xs i = Inr (xs[nat i := xs ! nat i + 1])"
  by (simp add: incr_def nat_less_iff)

lemma csr_counts_spec:
  assumes "\<forall>e \<in> set es. 0 \<le> fst e \<and> fst e < int m"
  shows "returns (csr_counts m es :: ('e, int list) go)
    (\<lambda>s. length s = m + 1 \<and> s ! 0 = 0 \<and> (\<forall>i<m. s ! Suc i = int (length (row_of es i))))"
  unfolding csr_counts_def
proof (rule returns_gfold)
  fix pre x post and s :: "int list"
  assume es: "es = pre @ x # post"
    and I: "length s = m + 1 \<and> s ! 0 = 0 \<and> (\<forall>i<m. s ! Suc i = int (length (row_of pre i)))"
  obtain t v where x: "x = (t, v)" by (cases x)
  have t: "0 \<le> t" "nat t < m" using assms es x by auto
  then have "nat (t + 1) = Suc (nat t)" by simp
  with t I show "returns ((case x of (t, _) \<Rightarrow> \<lambda>start. incr start (t + 1)) s)
      (\<lambda>s. length s = m + 1 \<and> s ! 0 = 0 \<and> (\<forall>i<m. s ! Suc i = int (length (row_of (pre @ [x]) i))))"
    by (auto simp: x row_of_single nth_list_update_if incr_in)
qed auto

lemma csr_prefix_spec:
  assumes "length s0 = m + 1" and "s0 ! 0 = 0" and "\<forall>i<m. s0 ! Suc i = int (length (row_of es i))"
  shows "returns (csr_prefix m s0 :: ('e, int list) go)
    (\<lambda>s. length s = m + 1 \<and> (\<forall>i\<le>m. s ! i = int (row_off es i)))"
proof -
  let ?I = "\<lambda>pre s. length s = m + 1 \<and>
    (\<forall>i\<le>m. s ! i = (if i \<le> length pre then int (row_off es i) else s0 ! i))"
  have "returns (csr_prefix m s0 :: ('e, int list) go) (?I [1..<m + 1])"
    unfolding csr_prefix_def
  proof (rule returns_gfold [where I = ?I])
    show "?I [] s0" using assms by simp
  next
    fix pre x post s
    assume split: "[1..<m + 1] = pre @ x # post" and I: "?I pre s"
    have "x = [1..<m + 1] ! length pre" by (simp only: split nth_append_length)
    moreover have lt: "length pre < m"
      using arg_cong [OF split, of length] by (simp del: upt_Suc)
    ultimately have x: "x = Suc (length pre)" by (simp del: upt_Suc)
    have "s ! x = int (length (row_of es (length pre)))" "s ! length pre = int (row_off es (length pre))"
      using I x lt assms(3) by auto
    moreover have "int x - 1 = int (length pre)" "x < length s" "length pre < length s"
      using I x lt by auto
    moreover have "row_off es x = row_off es (length pre) + length (row_of es (length pre))"
      by (simp add: x)
    ultimately have "gbind (idx s (int x)) (\<lambda>a. gbind (idx s (int x - 1)) (\<lambda>b. upd s (int x) (a + b))) =
        (Inr (s[x := int (row_off es x)]) :: ('e, int list) go)"
      by (simp add: add.commute)
    then show "returns (gbind (idx s (int x)) (\<lambda>a. gbind (idx s (int x - 1))
        (\<lambda>b. upd s (int x) (a + b))) :: ('e, int list) go) (?I (pre @ [x]))"
      using I x by (auto simp: nth_list_update_if)
  qed
  then show ?thesis by (rule returns_mono) auto
qed

lemma csr_fill_spec:
  assumes es: "\<forall>e \<in> set es. 0 \<le> fst e \<and> fst e < int m"
    and "length fill0 = m" and fill0: "\<forall>i<m. fill0 ! i = int (row_off es i)"
    and len: "length xs0 = row_off es m"
  shows "returns (csr_fill es xs0 fill0 :: ('e, 'a list \<times> int list) go)
    (\<lambda>(xs, fill). length xs = row_off es m \<and>
       (\<forall>i<m. \<forall>k < length (row_of es i). xs ! (row_off es i + k) = row_of es i ! k))"
proof -
  let ?I = "\<lambda>pre (xs, fill). length xs = row_off es m \<and> length fill = m \<and>
    (\<forall>i<m. fill ! i = int (row_off es i + length (row_of pre i))) \<and>
    (\<forall>i<m. \<forall>k < length (row_of pre i). xs ! (row_off es i + k) = row_of pre i ! k)"
  have "returns (csr_fill es xs0 fill0 :: ('e, 'a list \<times> int list) go) (?I es)"
    unfolding csr_fill_def
  proof (rule returns_gfold [where I = ?I])
    show "?I [] (xs0, fill0)" using assms by simp
  next
    fix pre x post s
    assume split: "es = pre @ x # post" and I: "?I pre s"
    obtain t v where x: "x = (t, v)" by (cases x)
    obtain xs fill where s: "s = (xs, fill)" by (cases s)
    define i where "i = nat t"
    have t: "t = int i" "i < m" using es split x by (auto simp: i_def)
    define pos where "pos = row_off es i + length (row_of pre i)"
    have pos: "pos < row_off es (Suc i)"
      using split x t by (simp add: pos_def row_of_def)
    also have "\<dots> \<le> row_off es m" using t by (intro row_off_mono) simp
    finally have "pos < length xs" using I s by simp
    moreover have "fill ! i = int pos" "length fill = m" using I s t by (auto simp: pos_def)
    ultimately have step: "(case x of (t, v) \<Rightarrow> \<lambda>(xs, fill).
        gbind (idx fill t) (\<lambda>k. gbind (upd xs k v) (\<lambda>xs'.
        gbind (incr fill t) (\<lambda>fill'. Inr (xs', fill'))))) s =
        (Inr (xs[pos := v], fill[i := int pos + 1]) :: ('e, 'a list \<times> int list) go)"
      using t by (simp add: x s incr_def)
    have other: "row_off es j + k \<noteq> pos"
      if "j < m" "k < length (row_of pre j)" "j \<noteq> i" for j k
    proof -
      have j: "row_off es j + k < row_off es (Suc j)"
        using that(2) split by (simp add: row_of_def)
      show ?thesis
      proof (cases "j < i")
        case True
        then have "row_off es (Suc j) \<le> row_off es i" by (intro row_off_mono) simp
        with j show ?thesis by (simp add: pos_def)
      next
        case False
        then have "row_off es (Suc i) \<le> row_off es j" using that(3) by (intro row_off_mono) simp
        with pos show ?thesis by simp
      qed
    qed
    have "xs[pos := v] ! (row_off es j + k) = row_of (pre @ [x]) j ! k"
      if "j < m" "k < length (row_of (pre @ [x]) j)" for j k
    proof (cases "j = i")
      case True
      with that(2) t have "k \<le> length (row_of pre i)" by (simp add: x row_of_single)
      then show ?thesis
        using I s t True \<open>pos < length xs\<close>
        by (cases "k = length (row_of pre i)") (auto simp: x row_of_single pos_def nth_append)
    next
      case False
      with that t have "k < length (row_of pre j)" by (simp add: x row_of_single)
      with I s t False that(1) other [of j k] show ?thesis
        by (simp add: x row_of_single)
    qed
    moreover have "fill[i := int pos + 1] ! j = int (row_off es j + length (row_of (pre @ [x]) j))"
      if "j < m" for j
      using I s t that by (auto simp: x row_of_single pos_def nth_list_update_if)
    ultimately show "returns ((case x of (t, v) \<Rightarrow> \<lambda>(xs, fill).
        gbind (idx fill t) (\<lambda>k. gbind (upd xs k v) (\<lambda>xs'.
        gbind (incr fill t) (\<lambda>fill'. (Inr (xs', fill') :: ('e, 'a list \<times> int list) go))))) s)
        (?I (pre @ [x]))"
      unfolding step using I s by simp
  qed
  then show ?thesis by (rule returns_mono) auto
qed

lemma csr_build_spec:
  assumes es: "\<forall>e \<in> set es. 0 \<le> fst e \<and> fst e < int m"
  shows "returns (csr_build m z es :: ('e, int list \<times> 'a list) go)
    (\<lambda>(start, xs). csr_ok m start xs \<and> length xs = length es \<and>
       (\<forall>i<m. csr_row start xs i = row_of es i))"
proof -
  obtain counts where counts: "csr_counts m es = (Inr counts :: ('e, int list) go)"
    and c: "length counts = m + 1" "counts ! 0 = 0" "\<forall>i<m. counts ! Suc i = int (length (row_of es i))"
    using csr_counts_spec [where 'e = 'e, OF es] by (auto elim!: returnsE)
  obtain start where start: "csr_prefix m counts = (Inr start :: ('e, int list) go)"
    and s: "length start = m + 1" "\<And>i. i \<le> m \<Longrightarrow> start ! i = int (row_off es i)"
    using csr_prefix_spec [where 'e = 'e, OF c] by (auto elim!: returnsE)
  have "\<forall>i<m. take m start ! i = int (row_off es i)" using s by simp
  then obtain xs fill where fill: "csr_fill es (replicate (row_off es m) z) (take m start) =
        (Inr (xs, fill) :: ('e, 'a list \<times> int list) go)"
    and x: "length xs = row_off es m"
      "\<And>i k. i < m \<Longrightarrow> k < length (row_of es i) \<Longrightarrow> xs ! (row_off es i + k) = row_of es i ! k"
    using csr_fill_spec [where 'e = 'e, OF es, of "take m start" "replicate (row_off es m) z"] s
    by (auto elim!: returnsE)
  have "csr_build m z es = (Inr (start, xs) :: ('e, int list \<times> 'a list) go)"
    using counts start fill s by (simp add: csr_build_def)
  moreover have "csr_ok m start xs"
    using s x(1) by (auto simp: csr_ok_def sorted_iff_nth_mono row_off_mono)
  moreover have "csr_row start xs i = row_of es i" if "i < m" for i
  proof (rule nth_equalityI)
    have "row_off es (Suc i) \<le> row_off es m" using that by (intro row_off_mono) simp
    then show len: "length (csr_row start xs i) = length (row_of es i)"
      using s(2) [of i] s(2) [of "Suc i"] x(1) that by (simp add: csr_row_def)
    show "csr_row start xs i ! k = row_of es i ! k" if k: "k < length (csr_row start xs i)" for k
      using s(2) [of i] s(2) [of "Suc i"] x \<open>i < m\<close> k \<open>row_off es (Suc i) \<le> row_off es m\<close>
      unfolding len by (simp add: csr_row_def)
  qed
  ultimately show ?thesis using x(1) row_off_total [OF es] by simp
qed

lemma set_row_of: "v \<in> set (row_of es i) \<longleftrightarrow> (int i, v) \<in> set es"
  by (force simp: row_of_def)

end
