(* ===== verification/Heap_Graph.thy ===== *)
theory Heap_Graph
  imports Hprof_Reader Csr
begin

text \<open>
  The compact object graph of \<open>internal/heap/graph.go\<close> and \<open>internal/heap/roots.go\<close>: the
  \<open>ObjectGraph\<close> with its accessors, the \<open>graphBuilder\<close> that accumulates objects in parse order,
  and \<open>build\<close>, which sorts the objects by identifier, resolves the raw references into a
  compressed-sparse-row adjacency and the root records into the root set. The lemmas show that the
  builder keeps its invariant, that \<open>build\<close> never panics on such a builder and returns a
  well-formed graph, that \<open>Index\<close> finds exactly the identifiers present, and what the out-edges
  of the built graph are.
\<close>

subsection \<open>Root records\<close>

datatype RootKind =
    RootUnknown | RootJNIGlobal | RootJNILocal | RootJavaFrame | RootNativeStack
  | RootStickyClass | RootThreadBlock | RootMonitorUsed | RootThreadObject
  | RootInternedString | RootFinalizing | RootDebugger | RootReferenceCleanup
  | RootVMInternal | RootJNIMonitor

record GCRoot =
  Object :: int
  Kind :: RootKind
  ThreadID :: u64

record rawRoot =
  root_id :: u64
  root_kind :: RootKind
  threadSerial :: u32

text \<open>Per tag: the kind and the number of ids and \<open>u4\<close> fields after the rooted object id.\<close>

definition rootLayouts :: "(byte, RootKind \<times> nat \<times> nat) gomap" where
  "rootLayouts =
    [(hprofRootUnknown, RootUnknown, 0, 0),
     (hprofRootStickyClass, RootStickyClass, 0, 0),
     (hprofRootMonitorUsed, RootMonitorUsed, 0, 0),
     (hprofRootInterned, RootInternedString, 0, 0),
     (hprofRootFinalizing, RootFinalizing, 0, 0),
     (hprofRootDebugger, RootDebugger, 0, 0),
     (hprofRootRefCleanup, RootReferenceCleanup, 0, 0),
     (hprofRootVMInternal, RootVMInternal, 0, 0),
     (hprofRootJNIGlobal, RootJNIGlobal, 1, 0),
     (hprofRootNativeStack, RootNativeStack, 0, 1),
     (hprofRootThreadBlock, RootThreadBlock, 0, 1),
     (hprofRootJNILocal, RootJNILocal, 0, 2),
     (hprofRootJavaFrame, RootJavaFrame, 0, 2),
     (hprofRootThreadObject, RootThreadObject, 0, 2),
     (hprofRootJNIMonitor, RootJNIMonitor, 0, 2)]"

definition rootRecordLayout :: "nat \<Rightarrow> byte \<Rightarrow> (RootKind \<times> int) option" where
  "rootRecordLayout idSize tag =
     (case map_of rootLayouts tag of
        None \<Rightarrow> None
      | Some (kind, extraIDs, u4s) \<Rightarrow>
          Some (kind, int idSize * (1 + int extraIDs) + 4 * int u4s))"

fun hasThreadSerial :: "RootKind \<Rightarrow> bool" where
  "hasThreadSerial RootJNILocal = True"
| "hasThreadSerial RootJavaFrame = True"
| "hasThreadSerial RootNativeStack = True"
| "hasThreadSerial RootThreadBlock = True"
| "hasThreadSerial RootThreadObject = True"
| "hasThreadSerial RootJNIMonitor = True"
| "hasThreadSerial _ = False"

subsection \<open>The object graph\<close>

text \<open>
  Object and class indices are \<open>int32\<close> in the source; the limits below keep them in range, so they
  are \<open>int\<close> here, with \<open>-1\<close> as the sentinel the code uses. The limits are variables of the
  package (its tests lower them), hence a parameter of the model. \<open>predCSR\<close> is the pair
  \<open>predStart\<close>, \<open>preds\<close>, \<open>None\<close> until the reverse adjacency is first needed.
\<close>

record limits =
  maxGraphObjects :: nat
  maxGraphEdges :: nat

definition default_limits :: limits where
  "default_limits = \<lparr> maxGraphObjects = 2 ^ 31 - 2, maxGraphEdges = 2 ^ 31 - 1 \<rparr>"

definition javaLangClass :: string where
  "javaLangClass = ''java.lang.Class''"

record ObjectGraph =
  IDSize :: nat
  Unresolved :: nat
  ids :: "u64 list"
  cls :: "int list"
  shallow :: "i64 list"
  outStart :: "int list"
  outs :: "int list"
  roots :: "int list"
  gcRoots :: "GCRoot list"
  predCSR :: "(int list \<times> int list) option"
  classNames :: "string list"
  classObjOf :: "(int, string) gomap"

definition Len :: "ObjectGraph \<Rightarrow> nat" where
  "Len g = length (ids g)"

definition ID :: "ObjectGraph \<Rightarrow> int \<Rightarrow> (herr, u64) go" where
  "ID g i = idx (ids g) i"

definition search_id :: "u64 list \<Rightarrow> u64 \<Rightarrow> int option" where
  "search_id xs oid =
     (let j = sort_search (length xs) (\<lambda>k. oid \<le> xs ! k)
      in if j < length xs \<and> xs ! j = oid then Some (int j) else None)"

definition Index :: "ObjectGraph \<Rightarrow> u64 \<Rightarrow> int option" where
  "Index g oid = search_id (ids g) oid"

definition ClassName :: "ObjectGraph \<Rightarrow> int \<Rightarrow> (herr, string) go" where
  "ClassName g i = gbind (idx (cls g) i) (idx (classNames g))"

definition DisplayName :: "ObjectGraph \<Rightarrow> int \<Rightarrow> (herr, string) go" where
  "DisplayName g i =
     (case map_of (classObjOf g) i of
        Some name \<Rightarrow> Inr (''class '' @ name)
      | None \<Rightarrow> ClassName g i)"

definition ShallowSize :: "ObjectGraph \<Rightarrow> int \<Rightarrow> (herr, i64) go" where
  "ShallowSize g i = idx (shallow g) i"

definition Out :: "ObjectGraph \<Rightarrow> int \<Rightarrow> (herr, int list) go" where
  "Out g i =
     gbind (idx (outStart g) i) (\<lambda>a.
     gbind (idx (outStart g) (i + 1)) (\<lambda>b. slice (outs g) a b))"

definition Roots :: "ObjectGraph \<Rightarrow> int list" where
  "Roots g = roots g"

definition NumEdges :: "ObjectGraph \<Rightarrow> nat" where
  "NumEdges g = length (outs g)"

definition GCRoots :: "ObjectGraph \<Rightarrow> GCRoot list" where
  "GCRoots g = gcRoots g"

text \<open>The run of records of one object, from the first one \<open>sort.Search\<close> finds.\<close>

definition RootsOf :: "ObjectGraph \<Rightarrow> int \<Rightarrow> GCRoot list" where
  "RootsOf g i =
     (let lo = sort_search (length (gcRoots g)) (\<lambda>k. i \<le> Object (gcRoots g ! k))
      in takeWhile (\<lambda>r. Object r = i) (drop lo (gcRoots g)))"

subsection \<open>The graph builder\<close>

record classKey =
  key_classID :: u64
  key_primType :: byte

record graphBuilder =
  b_idSize :: nat
  b_ids :: "u64 list"
  b_class :: "int list"
  b_shallow :: "i64 list"
  edgeOff :: "int list"
  edgeCnt :: "int list"
  rawEdges :: "u64 list"
  b_roots :: "rawRoot list"
  b_err :: "herr option"
  threadBySerial :: "(u32, u64) gomap"
  classIdx :: "(classKey, int) gomap"
  classKeys :: "classKey list"
  b_classNames :: "string list"

definition newGraphBuilder :: "nat \<Rightarrow> graphBuilder" where
  "newGraphBuilder idSize =
     \<lparr> b_idSize = idSize, b_ids = [], b_class = [], b_shallow = [], edgeOff = [], edgeCnt = [],
       rawEdges = [], b_roots = [], b_err = None, threadBySerial = [], classIdx = [],
       classKeys = [], b_classNames = [] \<rparr>"

definition classFor :: "classKey \<Rightarrow> string \<Rightarrow> graphBuilder \<Rightarrow> int \<times> graphBuilder" where
  "classFor k presetName b =
     (case map_of (classIdx b) k of
        Some i \<Rightarrow> (i, b)
      | None \<Rightarrow>
          (let i = int (length (classKeys b))
           in (i, b \<lparr> classIdx := mput k i (classIdx b),
                     classKeys := classKeys b @ [k],
                     b_classNames := b_classNames b @ [presetName] \<rparr>)))"

definition appendRefs :: "limits \<Rightarrow> int \<Rightarrow> u64 list \<Rightarrow> graphBuilder \<Rightarrow> (herr, graphBuilder) go" where
  "appendRefs L p refs b =
     (if length refs = 0 \<or> p < 0 then Inr b
      else if length (rawEdges b) + length refs > maxGraphEdges L
      then Inr (b \<lparr> b_err := (if b_err b = None then Some TooManyReferences else b_err b) \<rparr>)
      else gbind (upd (edgeOff b) p (int (length (rawEdges b)))) (\<lambda>off.
           let raw = rawEdges b @ filter (\<lambda>r. r \<noteq> 0) refs in
           gbind (idx off p) (\<lambda>o0.
           gbind (upd (edgeCnt b) p (int (length raw) - o0)) (\<lambda>cnt.
           Inr (b \<lparr> edgeOff := off, rawEdges := raw, edgeCnt := cnt \<rparr>)))))"

definition addObject ::
  "limits \<Rightarrow> u64 \<Rightarrow> int \<Rightarrow> i64 \<Rightarrow> u64 list \<Rightarrow> graphBuilder \<Rightarrow> (herr, int \<times> graphBuilder) go" where
  "addObject L oid cl sh refs b =
     (let p = length (b_ids b) in
      if p \<ge> maxGraphObjects L
      then Inr (-1, b \<lparr> b_err := (if b_err b = None then Some TooManyObjects else b_err b) \<rparr>)
      else gmap (Pair (int p))
        (appendRefs L (int p) refs
          (b \<lparr> b_ids := b_ids b @ [oid],
               b_class := b_class b @ [cl],
               b_shallow := b_shallow b @ [sh],
               edgeOff := edgeOff b @ [int (length (rawEdges b))],
               edgeCnt := edgeCnt b @ [0] \<rparr>)))"

text \<open>
  \<open>resolveEdges\<close> fills \<open>outStart\<close> from left to right, one entry per object and the end offset;
  \<open>resolveRoots\<close> keeps the records whose object is present, stably sorted by object, and the
  rooted objects in first-seen order.
\<close>

definition resolveEdges ::
  "graphBuilder \<Rightarrow> nat list \<Rightarrow> ObjectGraph \<Rightarrow> (herr, ObjectGraph) go" where
  "resolveEdges b perm g =
     gbind
       (gfold (\<lambda>p (start, out).
          gbind (idx (edgeOff b) (int p)) (\<lambda>off.
          gbind (idx (edgeCnt b) (int p)) (\<lambda>cnt.
          gbind (slice (rawEdges b) off (off + cnt)) (\<lambda>run.
          Inr (start @ [int (length out)], out @ List.map_filter (Index g) run)))))
        perm ([], []))
       (\<lambda>(start, out). Inr (g \<lparr> outStart := start @ [int (length out)], outs := out \<rparr>))"

definition resolveRoots ::
  "rawRoot list \<Rightarrow> (u32, u64) gomap \<Rightarrow> ObjectGraph \<Rightarrow> ObjectGraph" where
  "resolveRoots raw bySerial g =
     (let step = (\<lambda>r (recs, rts).
            case Index g (root_id r) of
              None \<Rightarrow> (recs, rts)
            | Some i \<Rightarrow>
                (recs @ [\<lparr> Object = i, Kind = root_kind r,
                          ThreadID = (if hasThreadSerial (root_kind r) \<and> root_kind r \<noteq> RootThreadObject
                                      then mgetd 0 bySerial (threadSerial r) else 0) \<rparr>],
                 if i \<in> set rts then rts else rts @ [i]));
          (recs, rts) = fold step raw ([], [])
      in g \<lparr> gcRoots := sort_slice (\<lambda>a b. Object a < Object b) recs, roots := rts \<rparr>)"

text \<open>
  The name table, then the class objects: an entry of the class table that is a dumped class whose
  object is present and has class \<open>java.lang.Class\<close> gives that object its display name.
\<close>

definition resolveClassObjs ::
  "classKey list \<Rightarrow> ObjectGraph \<Rightarrow> (herr, ObjectGraph) go" where
  "resolveClassObjs keys g =
     gfold (\<lambda>(i, k) g.
        if key_primType k \<noteq> 0 \<or> key_classID k = 0 then Inr g
        else case Index g (key_classID k) of
               None \<Rightarrow> Inr g
             | Some obj \<Rightarrow>
                 gbind (ClassName g obj) (\<lambda>cn.
                 if cn = javaLangClass
                 then gbind (idx (classNames g) (int i)) (\<lambda>name.
                      Inr (g \<lparr> classObjOf := mput obj name (classObjOf g) \<rparr>))
                 else Inr g))
       (enumerate 0 keys) g"

definition build ::
  "(classKey \<Rightarrow> string) \<Rightarrow> graphBuilder \<Rightarrow> (herr, ObjectGraph) go" where
  "build names b =
     (let n = length (b_ids b);
          perm = sort_slice (\<lambda>x y. b_ids b ! x < b_ids b ! y) [0..<n]
      in gbind (gmapM (\<lambda>p. idx (b_ids b) (int p)) perm) (\<lambda>sorted_ids.
         gbind (gmapM (\<lambda>p. idx (b_class b) (int p)) perm) (\<lambda>sorted_cls.
         gbind (gmapM (\<lambda>p. idx (b_shallow b) (int p)) perm) (\<lambda>sorted_sh.
         gbind (gmapM (\<lambda>(i, k). gmap (\<lambda>nm. if nm = '''' then names k else nm)
                                   (idx (b_classNames b) (int i)))
                  (enumerate 0 (classKeys b))) (\<lambda>cnames.
         gbind (resolveEdges b perm
           \<lparr> IDSize = b_idSize b, Unresolved = 0, ids = sorted_ids, cls = sorted_cls,
             shallow = sorted_sh, outStart = [], outs = [], roots = [], gcRoots = [],
             predCSR = None, classNames = cnames, classObjOf = [] \<rparr>) (\<lambda>g.
         resolveClassObjs (classKeys b) (resolveRoots (b_roots b) (threadBySerial b) g)))))))"

subsection \<open>Lookup by identifier\<close>

lemma sorted_search_mono:
  assumes "sorted xs"
  shows "\<And>a b. a \<le> b \<Longrightarrow> b < length xs \<Longrightarrow> oid \<le> xs ! a \<Longrightarrow> oid \<le> xs ! b"
  using assms by (meson order_trans sorted_nth_mono)

lemma search_id_Some:
  assumes "sorted xs" and "search_id xs oid = Some i"
  shows "0 \<le> i" and "nat i < length xs" and "xs ! nat i = oid"
    and "\<And>k. k < nat i \<Longrightarrow> xs ! k < oid"
proof -
  let ?j = "sort_search (length xs) (\<lambda>k. oid \<le> xs ! k)"
  have *: "?j < length xs \<and> xs ! ?j = oid \<and> i = int ?j"
    using assms(2) by (auto simp: search_id_def Let_def split: if_splits)
  then show "0 \<le> i" and "nat i < length xs" and "xs ! nat i = oid" by auto
  show "xs ! k < oid" if "k < nat i" for k
  proof -
    have "\<not> oid \<le> xs ! k"
      using sort_search_spec(2) [of "length xs" "\<lambda>k. oid \<le> xs ! k" k]
        sorted_search_mono [OF assms(1)] that * by auto
    then show ?thesis by simp
  qed
qed

lemma search_id_None:
  assumes "sorted xs"
  shows "search_id xs oid = None \<longleftrightarrow> oid \<notin> set xs"
proof
  show "oid \<notin> set xs" if "search_id xs oid = None"
  proof
    assume "oid \<in> set xs"
    then obtain k where k: "k < length xs" "xs ! k = oid" by (auto simp: in_set_conv_nth)
    let ?j = "sort_search (length xs) (\<lambda>k. oid \<le> xs ! k)"
    have le: "?j \<le> k"
    proof (rule ccontr)
      assume "\<not> ?j \<le> k"
      then have "\<not> oid \<le> xs ! k"
        using sort_search_spec(2) [of "length xs" "\<lambda>k. oid \<le> xs ! k" k]
          sorted_search_mono [OF assms] by auto
      with k show False by simp
    qed
    then have "oid \<le> xs ! ?j"
      using sort_search_spec(3) [of "length xs" "\<lambda>k. oid \<le> xs ! k" ?j]
        sorted_search_mono [OF assms] k by auto
    moreover have "xs ! ?j \<le> oid" using sorted_nth_mono [OF assms le] k by simp
    ultimately have "xs ! ?j = oid" by simp
    with le k that show False by (auto simp: search_id_def Let_def split: if_splits)
  qed
  show "search_id xs oid = None" if "oid \<notin> set xs"
  proof -
    have "\<forall>j < length xs. xs ! j \<noteq> oid" using that by (auto simp: in_set_conv_nth)
    then show ?thesis by (simp add: search_id_def Let_def)
  qed
qed

lemma search_id_distinct:
  assumes "sorted xs" and "distinct xs" and "k < length xs"
  shows "search_id xs (xs ! k) = Some (int k)"
proof -
  obtain i where i: "search_id xs (xs ! k) = Some i"
    using search_id_None [OF assms(1), of "xs ! k"] assms(3) by (cases "search_id xs (xs ! k)") auto
  from search_id_Some [OF assms(1) i] have "0 \<le> i" "nat i = k"
    using assms by (auto simp: nth_eq_iff_index_eq)
  with i show ?thesis by simp
qed

subsection \<open>The builder's invariant\<close>

text \<open>
  The parallel slices have one entry per object, every run of raw references lies inside
  \<open>rawEdges\<close>, the class table is indexed consistently, and the limits are respected.
\<close>

definition wf_runs :: "graphBuilder \<Rightarrow> bool" where
  "wf_runs b \<longleftrightarrow>
     length (edgeOff b) = length (b_ids b) \<and> length (edgeCnt b) = length (b_ids b) \<and>
     (\<forall>p < length (b_ids b).
        0 \<le> edgeOff b ! p \<and> 0 \<le> edgeCnt b ! p \<and>
        edgeOff b ! p + edgeCnt b ! p \<le> int (length (rawEdges b)))"

definition wf_classes :: "graphBuilder \<Rightarrow> bool" where
  "wf_classes b \<longleftrightarrow>
     length (b_class b) = length (b_ids b) \<and>
     length (b_classNames b) = length (classKeys b) \<and>
     (\<forall>c \<in> set (b_class b). 0 \<le> c \<and> nat c < length (classKeys b)) \<and>
     (\<forall>k i. map_of (classIdx b) k = Some i \<longrightarrow>
        0 \<le> i \<and> nat i < length (classKeys b) \<and> classKeys b ! nat i = k) \<and>
     set (classKeys b) = dom (map_of (classIdx b)) \<and> distinct (classKeys b)"

definition wf_builder :: "limits \<Rightarrow> graphBuilder \<Rightarrow> bool" where
  "wf_builder L b \<longleftrightarrow>
     wf_runs b \<and> wf_classes b \<and> length (b_shallow b) = length (b_ids b) \<and>
     length (b_ids b) \<le> maxGraphObjects L \<and> length (rawEdges b) \<le> maxGraphEdges L"

lemma wf_newGraphBuilder [simp]: "wf_builder L (newGraphBuilder idSize)"
  by (simp add: wf_builder_def wf_runs_def wf_classes_def newGraphBuilder_def)

lemma wf_classFor:
  assumes "wf_builder L b" and "classFor k nm b = (i, b')"
  shows "wf_builder L b' \<and> 0 \<le> i \<and> nat i < length (classKeys b') \<and>
    classKeys b' ! nat i = k \<and> b_ids b' = b_ids b \<and> b_err b' = b_err b \<and> rawEdges b' = rawEdges b"
proof (cases "map_of (classIdx b) k")
  case (Some j)
  then have "b' = b" and "i = j" using assms(2) by (auto simp: classFor_def)
  moreover have "0 \<le> j \<and> nat j < length (classKeys b) \<and> classKeys b ! nat j = k"
    using assms(1) Some unfolding wf_builder_def wf_classes_def by blast
  ultimately show ?thesis using assms(1) by auto
next
  case None
  have b': "b' = b \<lparr> classIdx := mput k (int (length (classKeys b))) (classIdx b),
      classKeys := classKeys b @ [k], b_classNames := b_classNames b @ [nm] \<rparr>"
    and i: "i = int (length (classKeys b))"
    using assms(2) None by (auto simp: classFor_def Let_def)
  have c: "wf_classes b" using assms(1) by (simp add: wf_builder_def)
  have "k \<notin> set (classKeys b)" using c None by (auto simp: wf_classes_def)
  then have "wf_classes b'"
    using c unfolding b' wf_classes_def by (auto simp: nth_append less_SucI split: if_splits)
  then show ?thesis
    using assms(1) by (simp add: wf_builder_def wf_runs_def b' i)
qed

lemma appendRefs_spec:
  assumes "wf_builder L b" and "p < int (length (b_ids b))"
  shows "returns (appendRefs L p refs b)
    (\<lambda>b'. wf_builder L b' \<and> b_ids b' = b_ids b \<and> b_class b' = b_class b \<and>
          b_shallow b' = b_shallow b \<and> classKeys b' = classKeys b \<and>
          (b_err b' = None \<longrightarrow> b_err b = None))"
proof (cases "length refs = 0 \<or> p < 0 \<or> length (rawEdges b) + length refs > maxGraphEdges L")
  case True
  then show ?thesis
    using assms(1) by (auto simp: appendRefs_def wf_builder_def wf_runs_def wf_classes_def)
next
  case False
  let ?raw = "rawEdges b @ filter (\<lambda>r. r \<noteq> 0) refs"
  have "length (filter (\<lambda>r. r \<noteq> 0) refs) \<le> length refs" by simp
  with False have len: "length ?raw \<le> maxGraphEdges L"
    unfolding length_append by linarith
  have off: "length (edgeOff b) = length (b_ids b)" "length (edgeCnt b) = length (b_ids b)"
    using assms(1) by (auto simp: wf_builder_def wf_runs_def)
  let ?b' = "b \<lparr> edgeOff := (edgeOff b)[nat p := int (length (rawEdges b))], rawEdges := ?raw,
      edgeCnt := (edgeCnt b)[nat p := int (length ?raw) - int (length (rawEdges b))] \<rparr>"
  have "nat p < length (edgeOff b)" using False assms(2) off by auto
  then have "appendRefs L p refs b = Inr ?b'"
    using False assms(2) off by (simp add: appendRefs_def Let_def)
  moreover have "0 \<le> edgeOff b ! q \<and> 0 \<le> edgeCnt b ! q \<and>
      edgeOff b ! q + edgeCnt b ! q \<le> int (length (rawEdges b))" if "q < length (b_ids b)" for q
    using assms(1) that by (simp add: wf_builder_def wf_runs_def)
  then have "wf_runs ?b'"
    using off by (auto simp: wf_runs_def nth_list_update_if intro: add_increasing2)
  ultimately show ?thesis
    using assms(1) len by (auto simp: wf_builder_def wf_classes_def)
qed

lemma addObject_spec:
  assumes "wf_builder L b" and "0 \<le> cl" and "nat cl < length (classKeys b)"
  shows "returns (addObject L oid cl sh refs b)
    (\<lambda>(p, b'). wf_builder L b' \<and> p < int (length (b_ids b')) \<and>
       length (b_ids b) \<le> length (b_ids b') \<and> (b_err b' = None \<longrightarrow> 0 \<le> p \<and> b_err b = None) \<and>
       classKeys b' = classKeys b)"
proof (cases "length (b_ids b) \<ge> maxGraphObjects L")
  case True
  then show ?thesis
    using assms(1)
    by (auto simp: addObject_def Let_def wf_builder_def wf_runs_def wf_classes_def split: if_splits)
next
  case False
  let ?b1 = "b \<lparr> b_ids := b_ids b @ [oid], b_class := b_class b @ [cl],
      b_shallow := b_shallow b @ [sh], edgeOff := edgeOff b @ [int (length (rawEdges b))],
      edgeCnt := edgeCnt b @ [0] \<rparr>"
  have "wf_runs ?b1"
    using assms(1) by (auto simp: wf_builder_def wf_runs_def nth_append less_Suc_eq)
  moreover have "wf_classes ?b1"
    using assms by (auto simp: wf_builder_def wf_classes_def)
  ultimately have "wf_builder L ?b1"
    using assms(1) False by (simp add: wf_builder_def)
  from appendRefs_spec [OF this, of "int (length (b_ids b))" refs]
  obtain b' where "appendRefs L (int (length (b_ids b))) refs ?b1 = Inr b'" and
    "wf_builder L b'" "b_ids b' = b_ids b @ [oid]" "classKeys b' = classKeys b"
    "b_err b' = None \<longrightarrow> b_err b = None"
    by (auto elim!: returnsE)
  with False show ?thesis by (simp add: addObject_def Let_def)
qed

subsection \<open>Well-formed graphs\<close>

definition wf_graph :: "ObjectGraph \<Rightarrow> bool" where
  "wf_graph g \<longleftrightarrow>
     sorted (ids g) \<and> length (cls g) = Len g \<and> length (shallow g) = Len g \<and>
     (\<forall>c \<in> set (cls g). 0 \<le> c \<and> nat c < length (classNames g)) \<and>
     csr_ok (Len g) (outStart g) (outs g) \<and>
     (\<forall>t \<in> set (outs g). 0 \<le> t \<and> nat t < Len g) \<and>
     distinct (roots g) \<and> (\<forall>r \<in> set (roots g). 0 \<le> r \<and> nat r < Len g) \<and>
     sorted (map Object (gcRoots g)) \<and> Object ` set (gcRoots g) = set (roots g)"

definition succs :: "ObjectGraph \<Rightarrow> nat \<Rightarrow> int list" where
  "succs g i = csr_row (outStart g) (outs g) i"

lemma Out_in: "wf_graph g \<Longrightarrow> i < Len g \<Longrightarrow> Out g (int i) = Inr (succs g i)"
  unfolding Out_def succs_def by (rule csr_slice) (auto simp: wf_graph_def)

lemma succs_in: "wf_graph g \<Longrightarrow> t \<in> set (succs g i) \<Longrightarrow> 0 \<le> t \<and> nat t < Len g"
  using csr_row_subset [of "outStart g" "outs g" i] by (auto simp: wf_graph_def succs_def)

lemma ClassName_in:
  assumes "wf_graph g" and "i < Len g"
  shows "ClassName g (int i) = Inr (classNames g ! nat (cls g ! i))"
proof -
  have "cls g ! i \<in> set (cls g)" using assms by (simp add: wf_graph_def)
  then have "0 \<le> cls g ! i \<and> nat (cls g ! i) < length (classNames g)"
    using assms(1) by (simp add: wf_graph_def)
  with assms show ?thesis by (simp add: ClassName_def wf_graph_def nat_less_iff)
qed

subsection \<open>Building the graph\<close>

definition build_perm :: "graphBuilder \<Rightarrow> nat list" where
  "build_perm b = sort_slice (\<lambda>x y. b_ids b ! x < b_ids b ! y) [0..<length (b_ids b)]"

text \<open>The non-null references recorded for the object with parse index \<open>p\<close>.\<close>

definition raw_refs :: "graphBuilder \<Rightarrow> nat \<Rightarrow> u64 list" where
  "raw_refs b p = take (nat (edgeCnt b ! p)) (drop (nat (edgeOff b ! p)) (rawEdges b))"

interpretation by_id: comparator "\<lambda>x y. b_ids b ! x < b_ids b ! y" for b
  by unfold_locales auto

interpretation by_object: comparator "\<lambda>a b. Object a < Object b"
  by unfold_locales auto

lemma set_build_perm [simp]: "set (build_perm b) = {0..<length (b_ids b)}"
  by (simp add: build_perm_def)

lemma length_build_perm [simp]: "length (build_perm b) = length (b_ids b)"
  by (simp add: build_perm_def)

lemma distinct_build_perm: "distinct (build_perm b)"
  by (simp add: build_perm_def)

lemma sorted_build_perm: "sorted (map (\<lambda>p. b_ids b ! p) (build_perm b))"
  using by_id.sorted_sort_slice [of b "[0..<length (b_ids b)]"]
  by (simp add: build_perm_def sorted_wrt_map not_less)

lemma resolveEdges_spec:
  assumes "wf_runs b" and "set perm \<subseteq> {0..<length (b_ids b)}"
  shows "resolveEdges b perm g =
    (let rows = map (\<lambda>p. List.map_filter (Index g) (raw_refs b p)) perm
     in Inr (g \<lparr> outStart := csr_offsets rows, outs := concat rows \<rparr>))"
proof -
  let ?row = "\<lambda>p. List.map_filter (Index g) (raw_refs b p)"
  define body :: "nat \<Rightarrow> int list \<times> int list \<Rightarrow> (herr, int list \<times> int list) go" where
    "body = (\<lambda>p (start, out).
      gbind (idx (edgeOff b) (int p)) (\<lambda>off.
      gbind (idx (edgeCnt b) (int p)) (\<lambda>cnt.
      gbind (slice (rawEdges b) off (off + cnt)) (\<lambda>run.
      Inr (start @ [int (length out)], out @ List.map_filter (Index g) run)))))"
  have body: "body p (start, out) = Inr (start @ [int (length out)], out @ ?row p)"
    if "p \<in> set perm" for p start out
  proof -
    have "p < length (b_ids b)" using assms(2) that by auto
    then show ?thesis using assms(1) by (simp add: body_def wf_runs_def raw_refs_def)
  qed
  have "gfold body ps ([], []) =
      Inr (butlast (csr_offsets (map ?row ps)), concat (map ?row ps))"
    if "set ps \<subseteq> set perm" for ps
    using that
  proof (induction ps rule: rev_induct)
    case Nil
    then show ?case by (simp add: csr_offsets_def)
  next
    case (snoc p ps)
    have "butlast (csr_offsets (map ?row (ps @ [p]))) =
        butlast (csr_offsets (map ?row ps)) @ [int (length (concat (map ?row ps)))]"
      by (simp add: csr_offsets_snoc) (rule csr_offsets_last)
    with snoc body show ?case by (simp add: gfold_append)
  qed
  then show ?thesis 
    by (simp add: resolveEdges_def Let_def flip: csr_offsets_last body_def)
qed

lemma resolveRoots_fields [simp]:
  "ids (resolveRoots raw ts g) = ids g" "cls (resolveRoots raw ts g) = cls g"
  "shallow (resolveRoots raw ts g) = shallow g" "outStart (resolveRoots raw ts g) = outStart g"
  "outs (resolveRoots raw ts g) = outs g" "classNames (resolveRoots raw ts g) = classNames g"
  "IDSize (resolveRoots raw ts g) = IDSize g" "Unresolved (resolveRoots raw ts g) = Unresolved g"
  "predCSR (resolveRoots raw ts g) = predCSR g"
  by (auto simp: resolveRoots_def Let_def split: prod.splits)

lemma resolveRoots_spec:
  assumes "sorted (ids g)"
  shows "distinct (roots (resolveRoots raw ts g))"
    and "set (roots (resolveRoots raw ts g)) = {i. \<exists>r \<in> set raw. Index g (root_id r) = Some i}"
    and "sorted (map Object (gcRoots (resolveRoots raw ts g)))"
    and "Object ` set (gcRoots (resolveRoots raw ts g)) = set (roots (resolveRoots raw ts g))"
proof -
  let ?step = "\<lambda>r (recs, rts). case Index g (root_id r) of
      None \<Rightarrow> (recs, rts)
    | Some i \<Rightarrow>
        (recs @ [\<lparr> Object = i, Kind = root_kind r,
                  ThreadID = (if hasThreadSerial (root_kind r) \<and> root_kind r \<noteq> RootThreadObject
                              then mgetd 0 ts (threadSerial r) else 0) \<rparr>],
         if i \<in> set rts then rts else rts @ [i])"
  have *: "\<exists>recs rts. fold ?step raw ([], []) = (recs, rts) \<and> distinct rts \<and>
      set rts = {i. \<exists>r \<in> set raw. Index g (root_id r) = Some i} \<and> Object ` set recs = set rts"
  proof (induction raw rule: rev_induct)
    case Nil
    then show ?case by simp
  next
    case (snoc r raw)
    then obtain recs rts where "fold ?step raw ([], []) = (recs, rts)" "distinct rts"
      "set rts = {i. \<exists>r \<in> set raw. Index g (root_id r) = Some i}" "Object ` set recs = set rts"
      by auto
    then show ?case by (cases "Index g (root_id r)") auto
  qed
  then obtain recs rts where f: "fold ?step raw ([], []) = (recs, rts)" "distinct rts"
      "set rts = {i. \<exists>r \<in> set raw. Index g (root_id r) = Some i}" "Object ` set recs = set rts"
    by auto
  then have g: "resolveRoots raw ts g =
      g \<lparr> gcRoots := sort_slice (\<lambda>a b. Object a < Object b) recs, roots := rts \<rparr>"
    by (simp add: resolveRoots_def Let_def)
  show "distinct (roots (resolveRoots raw ts g))"
    and "set (roots (resolveRoots raw ts g)) = {i. \<exists>r \<in> set raw. Index g (root_id r) = Some i}"
    and "Object ` set (gcRoots (resolveRoots raw ts g)) = set (roots (resolveRoots raw ts g))"
    using f by (auto simp: g)
  show "sorted (map Object (gcRoots (resolveRoots raw ts g)))"
    using by_object.sorted_sort_slice [of recs] by (simp add: g sorted_wrt_map not_less)
qed

lemma wf_graph_classObjOf [simp]: "wf_graph (g \<lparr> classObjOf := m \<rparr>) = wf_graph g"
  by (simp add: wf_graph_def Len_def)

lemma Index_in:
  assumes "sorted (ids g)" and "Index g oid = Some i"
  shows "0 \<le> i" and "nat i < Len g" and "ids g ! nat i = oid"
  using search_id_Some [of "ids g" oid i] assms by (auto simp: Index_def Len_def)

lemma resolveClassObjs_spec:
  assumes "wf_graph g" and "length keys = length (classNames g)"
  shows "returns (resolveClassObjs keys g) (\<lambda>g'. \<exists>m. g' = g \<lparr> classObjOf := m \<rparr>)"
  unfolding resolveClassObjs_def
proof (rule returns_gfold [where I = "\<lambda>_ g'. \<exists>m. g' = g \<lparr> classObjOf := m \<rparr>"])
  fix pre x post g'
  assume split: "enumerate 0 keys = pre @ x # post" and "\<exists>m. g' = g \<lparr> classObjOf := m \<rparr>"
  then obtain m where g': "g' = g \<lparr> classObjOf := m \<rparr>" by auto
  obtain i k where x: "x = (i, k)" by (cases x)
  have "x \<in> set (enumerate 0 keys)" by (simp add: split)
  then have i: "i < length (classNames g)" using assms(2) by (auto simp: x in_set_enumerate_eq)
  have cn: "ClassName g' obj = Inr (classNames g ! nat (cls g ! nat obj))"
    if "Index g' (key_classID k) = Some obj" for obj
    using ClassName_in [of g' "nat obj"] Index_in [of g' "key_classID k" obj] assms(1) that
    by (auto simp: g' wf_graph_def Len_def)
  show "returns ((case x of (i, k) \<Rightarrow> \<lambda>g.
      if key_primType k \<noteq> 0 \<or> key_classID k = 0 then Inr g
      else case Index g (key_classID k) of None \<Rightarrow> Inr g
        | Some obj \<Rightarrow> gbind (ClassName g obj) (\<lambda>cn. if cn = javaLangClass
            then gbind (idx (classNames g) (int i)) (\<lambda>name.
              Inr (g \<lparr> classObjOf := mput obj name (classObjOf g) \<rparr>)) else Inr g)) g')
      (\<lambda>g'. \<exists>m. g' = g \<lparr> classObjOf := m \<rparr>)"
  proof (cases "Index g' (key_classID k)")
    case (Some obj)
    with cn [OF Some] i show ?thesis by (auto simp: x g')
  qed (auto simp: x g')
qed (rule exI [of _ "classObjOf g"], simp)

definition built_from :: "graphBuilder \<Rightarrow> ObjectGraph \<Rightarrow> bool" where
  "built_from b g \<longleftrightarrow>
     ids g = map (\<lambda>p. b_ids b ! p) (build_perm b) \<and>
     cls g = map (\<lambda>p. b_class b ! p) (build_perm b) \<and>
     shallow g = map (\<lambda>p. b_shallow b ! p) (build_perm b) \<and>
     (\<forall>i < Len g. succs g i = List.map_filter (Index g) (raw_refs b (build_perm b ! i))) \<and>
     set (roots g) = {i. \<exists>r \<in> set (b_roots b). Index g (root_id r) = Some i} \<and>
     IDSize g = b_idSize b \<and> Unresolved g = 0 \<and> predCSR g = None"

lemma gather_perm:
  assumes "length xs = length (b_ids b)"
  shows "gmapM (\<lambda>p. idx xs (int p)) (build_perm b) = (Inr (map (\<lambda>p. xs ! p) (build_perm b)) :: (herr, 'a list) go)"
  by (rule gmapM_Inr) (simp add: assms)

lemma resolved_names:
  assumes "length xs = length keys"
  shows "\<exists>ns. gmapM (\<lambda>(i, k). gmap (\<lambda>nm. if nm = [] then names k else nm) (idx xs (int i)))
      (enumerate 0 keys) = (Inr ns :: (herr, string list) go) \<and> length ns = length keys"
proof -
  have "gmapM (\<lambda>(i, k). gmap (\<lambda>nm. if nm = [] then names k else nm) (idx xs (int i)))
      (enumerate 0 keys) =
      (Inr (map (\<lambda>(i, k). if xs ! i = [] then names k else xs ! i) (enumerate 0 keys)) :: (herr, string list) go)"
    by (rule gmapM_Inr) (auto simp: assms in_set_enumerate_eq)
  then show ?thesis by simp
qed

lemma map_filter_Index_range:
  assumes "sorted (ids g)" and "t \<in> set (List.map_filter (Index g) refs)"
  shows "0 \<le> t \<and> nat t < Len g"
  using assms(2) Index_in [OF assms(1)]
  by (auto simp: List.map_filter_def)

lemma build_spec:
  assumes wf: "wf_builder L b"
  shows "returns (build names b) (\<lambda>g. wf_graph g \<and> built_from b g)"
proof -
  let ?perm = "build_perm b"
  have len: "length (b_class b) = length (b_ids b)" "length (b_shallow b) = length (b_ids b)"
      "length (b_classNames b) = length (classKeys b)" and runs: "wf_runs b"
    using wf by (auto simp: wf_builder_def wf_classes_def)
  obtain ns where ns: "gmapM (\<lambda>(i, k). gmap (\<lambda>nm. if nm = [] then names k else nm)
      (idx (b_classNames b) (int i))) (enumerate 0 (classKeys b)) = (Inr ns :: (herr, string list) go)"
    and lns: "length ns = length (classKeys b)"
    using resolved_names [OF len(3), of names] by blast
  define g0 where "g0 = \<lparr> IDSize = b_idSize b, Unresolved = 0, ids = map (\<lambda>p. b_ids b ! p) ?perm,
      cls = map (\<lambda>p. b_class b ! p) ?perm, shallow = map (\<lambda>p. b_shallow b ! p) ?perm,
      outStart = [], outs = [], roots = [], gcRoots = [],
      predCSR = None, classNames = ns, classObjOf = [] \<rparr>"
  define rows where "rows = map (\<lambda>p. List.map_filter (Index g0) (raw_refs b p)) ?perm"
  define g1 where "g1 = g0 \<lparr> outStart := csr_offsets rows, outs := concat rows \<rparr>"
  define g2 where "g2 = resolveRoots (b_roots b) (threadBySerial b) g1"
  have Index_eq: "Index g' = Index g0" if "ids g' = ids g0" for g'
    using that by (simp add: fun_eq_iff Index_def)
  have sorted0: "sorted (ids g0)" by (simp add: g0_def sorted_build_perm)
  then have sorted1: "sorted (ids g1)" by (simp add: g1_def)
  have n: "Len g2 = length ?perm" by (simp add: g2_def g1_def g0_def Len_def)
  have "resolveEdges b ?perm g0 = Inr g1"
    using resolveEdges_spec [OF runs, of ?perm g0] by (simp add: Let_def g1_def rows_def)
  then have build: "build names b = resolveClassObjs (classKeys b) g2"
    using len ns by (simp add: build_def gather_perm g2_def g0_def flip: build_perm_def)
  have "wf_graph g2"
    unfolding wf_graph_def
  proof (intro conjI)
    show "\<forall>c \<in> set (cls g2). 0 \<le> c \<and> nat c < length (classNames g2)"
      using wf lns len by (auto simp: g2_def g1_def g0_def wf_builder_def wf_classes_def)
    show "csr_ok (Len g2) (outStart g2) (outs g2)"
      using csr_offsets_ok [of rows] n by (simp add: g2_def g1_def rows_def)
    show "\<forall>t \<in> set (outs g2). 0 \<le> t \<and> nat t < Len g2"
      using map_filter_Index_range [OF sorted0] n
      by (auto simp: g2_def g1_def rows_def Len_def g0_def)
    show "\<forall>r \<in> set (roots g2). 0 \<le> r \<and> nat r < Len g2"
    proof
      fix r assume "r \<in> set (roots g2)"
      then obtain raw :: rawRoot where "Index g1 (root_id raw) = Some r"
        by (auto simp: g2_def resolveRoots_spec(2) [OF sorted1])
      from Index_in [OF sorted1 this] n show "0 \<le> r \<and> nat r < Len g2"
        by (simp add: g1_def g0_def Len_def)
    qed
    show "distinct (roots g2)" and "sorted (map Object (gcRoots g2))"
      and "Object ` set (gcRoots g2) = set (roots g2)"
      unfolding g2_def by (rule resolveRoots_spec [OF sorted1])+
  qed (use sorted1 n in \<open>simp_all add: g2_def g1_def g0_def\<close>)
  moreover have "built_from b g2"
    unfolding built_from_def
  proof (intro conjI allI impI)
    fix i assume "i < Len g2"
    then show "succs g2 i = List.map_filter (Index g2) (raw_refs b (?perm ! i))"
      using csr_offsets_row [of i rows] Index_eq [of g2] n
      by (simp add: succs_def g2_def g1_def rows_def)
  next
    show "set (roots g2) = {i. \<exists>r \<in> set (b_roots b). Index g2 (root_id r) = Some i}"
      using Index_eq [of g2] Index_eq [of g1]
      by (simp add: g2_def resolveRoots_spec(2) [OF sorted1]) (simp add: g1_def)
  qed (auto simp: g2_def g1_def g0_def)
  moreover have "built_from b (g \<lparr> classObjOf := m \<rparr>) = built_from b g" for g m
    by (simp add: built_from_def Len_def succs_def Index_def [abs_def])
  moreover have "returns (resolveClassObjs (classKeys b) g2) (\<lambda>g'. \<exists>m. g' = g2 \<lparr> classObjOf := m \<rparr>)"
    using resolveClassObjs_spec [OF \<open>wf_graph g2\<close>, of "classKeys b"] lns
    by (simp add: g2_def g1_def g0_def)
  ultimately show ?thesis unfolding build by (auto elim!: returns_mono)
qed

subsection \<open>The root records of an object\<close>

lemma takeWhile_eq_filter:
  assumes "sorted (map f xs)" and "\<forall>x \<in> set xs. v \<le> f x"
  shows "takeWhile (\<lambda>x. f x = v) xs = filter (\<lambda>x. f x = v) xs"
  using assms
proof (induction xs)
  case (Cons x xs)
  show ?case
  proof (cases "f x = v")
    case False
    then have "\<forall>y \<in> set xs. f y \<noteq> v" using Cons.prems by fastforce
    with False show ?thesis by simp
  qed (use Cons in simp)
qed simp

lemma RootsOf_eq_filter:
  assumes "wf_graph g"
  shows "RootsOf g i = filter (\<lambda>r. Object r = i) (gcRoots g)"
proof -
  let ?rs = "gcRoots g"
  let ?lo = "sort_search (length ?rs) (\<lambda>k. i \<le> Object (?rs ! k))"
  have s: "sorted (map Object ?rs)" using assms by (simp add: wf_graph_def)
  then have mono: "Object (?rs ! a) \<le> Object (?rs ! b)" if "a \<le> b" "b < length ?rs" for a b
    using sorted_nth_mono [OF s that(1)] that by simp
  have below: "\<not> i \<le> Object (?rs ! k)" if "k < ?lo" for k
    by (rule sort_search_spec(2) [OF _ that]) (use mono order_trans in blast)
  have above: "i \<le> Object (?rs ! k)" if "?lo \<le> k" "k < length ?rs" for k
    by (rule sort_search_spec(3) [OF _ that]) (use mono order_trans in blast)
  have "filter (\<lambda>r. Object r = i) (take ?lo ?rs) = []"
    using below by (fastforce simp: filter_empty_conv in_set_conv_nth)
  moreover have "filter (\<lambda>r. Object r = i) ?rs =
      filter (\<lambda>r. Object r = i) (take ?lo ?rs) @ filter (\<lambda>r. Object r = i) (drop ?lo ?rs)"
    by (simp only: append_take_drop_id flip: filter_append)
  moreover have "RootsOf g i = filter (\<lambda>r. Object r = i) (drop ?lo ?rs)"
    unfolding RootsOf_def Let_def
  proof (rule takeWhile_eq_filter)
    show "\<forall>r \<in> set (drop ?lo ?rs). i \<le> Object r"
      using above by (auto simp: in_set_conv_nth)
    show "sorted (map Object (drop ?lo ?rs))"
      using s by (simp flip: drop_map)
  qed
  ultimately show ?thesis by (simp only: append_Nil)
qed

lemma RootsOf_empty: "wf_graph g \<Longrightarrow> RootsOf g i = [] \<longleftrightarrow> i \<notin> set (roots g)"
proof -
  assume wf: "wf_graph g"
  then have "i \<in> set (roots g) \<longleftrightarrow> i \<in> Object ` set (gcRoots g)" by (simp add: wf_graph_def)
  then show ?thesis by (auto simp: RootsOf_eq_filter [OF wf] filter_empty_conv)
qed

end
