(* ===== verification/Dominator_Theory.thy ===== *)
theory Dominator_Theory
  imports Main
begin

text \<open>
  The graph theory behind \<open>lengauerTarjan\<close> of \<open>internal/heap/dominators.go\<close>: dominators,
  immediate dominators and semidominators of a flow graph whose vertices carry their depth-first
  preorder numbers, with root \<open>0\<close>. The locale \<open>dfs_numbering\<close> states what the numbering
  promises; the theorems are the ones the algorithm rests on, including the recurrence for
  semidominators and the two theorems that reduce immediate dominators to them. Paths are relational:
  \<open>R\<^sup>*\<close> for a subset \<open>R\<close> of the edges.
\<close>

definition tree_edges :: "nat \<Rightarrow> (nat \<Rightarrow> nat) \<Rightarrow> (nat \<times> nat) set" where
  "tree_edges m par = {(par v, v) | v. 0 < v \<and> v < m}"

definition ancestor_of :: "nat \<Rightarrow> (nat \<Rightarrow> nat) \<Rightarrow> nat \<Rightarrow> nat \<Rightarrow> bool" where
  "ancestor_of m par u v \<longleftrightarrow> (u, v) \<in> (tree_edges m par)\<^sup>*"

text \<open>The edges of \<open>E\<close> that touch \<open>d\<close> at neither end; \<open>d\<close> dominates \<open>w\<close> if they cannot lead to \<open>w\<close>.\<close>

definition avoiding :: "('v \<times> 'v) set \<Rightarrow> 'v \<Rightarrow> ('v \<times> 'v) set" where
  "avoiding E d = {(a, b) \<in> E. a \<noteq> d \<and> b \<noteq> d}"

definition dominates :: "('v \<times> 'v) set \<Rightarrow> 'v \<Rightarrow> 'v \<Rightarrow> 'v \<Rightarrow> bool" where
  "dominates E r d w \<longleftrightarrow> d = w \<or> (r, w) \<notin> (avoiding E d)\<^sup>*"

definition is_idom :: "('v \<times> 'v) set \<Rightarrow> 'v \<Rightarrow> 'v \<Rightarrow> 'v \<Rightarrow> bool" where
  "is_idom E r d w \<longleftrightarrow>
     d \<noteq> w \<and> dominates E r d w \<and> (\<forall>d'. dominates E r d' w \<and> d' \<noteq> w \<longrightarrow> dominates E r d' d)"

text \<open>In a numbered graph the immediate dominator is the strict dominator with the largest number.\<close>

definition idom_num :: "(nat \<times> nat) set \<Rightarrow> nat \<Rightarrow> nat" where
  "idom_num E w = Max {d. dominates E 0 d w \<and> d \<noteq> w}"

text \<open>The edges whose tail is numbered above \<open>w\<close>, and semidominator paths to \<open>w\<close>.\<close>

definition above :: "(nat \<times> nat) set \<Rightarrow> nat \<Rightarrow> (nat \<times> nat) set" where
  "above E w = {(a, b) \<in> E. w < a}"

definition semi_path :: "(nat \<times> nat) set \<Rightarrow> nat \<Rightarrow> nat \<Rightarrow> bool" where
  "semi_path E v w \<longleftrightarrow> (\<exists>x. (v, x) \<in> E \<and> (x, w) \<in> (above E w)\<^sup>*)"

definition semidom :: "(nat \<times> nat) set \<Rightarrow> nat \<Rightarrow> nat" where
  "semidom E w = (LEAST v. semi_path E v w)"

subsection \<open>Dominance as a statement about paths\<close>

fun path_edges :: "'v list \<Rightarrow> ('v \<times> 'v) set" where
  "path_edges (a # b # p) = insert (a, b) (path_edges (b # p))"
| "path_edges p = {}"

definition is_path :: "('v \<times> 'v) set \<Rightarrow> 'v \<Rightarrow> 'v list \<Rightarrow> 'v \<Rightarrow> bool" where
  "is_path E u p v \<longleftrightarrow> p \<noteq> [] \<and> hd p = u \<and> last p = v \<and> path_edges p \<subseteq> E"

lemma is_path_Cons: "is_path E u (a # p) v \<longleftrightarrow>
    a = u \<and> (if p = [] then u = v else (u, hd p) \<in> E \<and> is_path E (hd p) p v)"
  by (cases p) (auto simp: is_path_def)

lemma rtrancl_is_path:
  "(u, v) \<in> E\<^sup>* \<longleftrightarrow> (\<exists>p. is_path E u p v)"
proof
  assume "(u, v) \<in> E\<^sup>*"
  then show "\<exists>p. is_path E u p v"
  proof (induction rule: converse_rtrancl_induct)
    case base
    then show ?case by (intro exI [of _ "[v]"]) (simp add: is_path_def)
  next
    case (step y z)
    then obtain p where p: "is_path E z p v" by blast
    then have "p \<noteq> []" and "hd p = z" by (auto simp: is_path_def)
    with p step(1) have "is_path E y (y # p) v" by (simp add: is_path_Cons)
    then show ?case by blast
  qed
next
  assume "\<exists>p. is_path E u p v"
  then obtain p where "is_path E u p v" by blast
  then show "(u, v) \<in> E\<^sup>*"
  proof (induction p arbitrary: u)
    case Nil
    then show ?case by (simp add: is_path_def)
  next
    case (Cons a p)
    then show ?case
      by (auto simp: is_path_Cons split: if_splits intro: converse_rtrancl_into_rtrancl)
  qed
qed

lemma path_avoids:
  "is_path (avoiding E d) u p v \<and> u \<noteq> d \<longleftrightarrow> is_path E u p v \<and> d \<notin> set p"
proof (induction p arbitrary: u)
  case Nil
  then show ?case by (simp add: is_path_def)
next
  case (Cons a p)
  show ?case
  proof (cases p)
    case Nil
    then show ?thesis by (auto simp: is_path_Cons)
  next
    case (Cons b q)
    with Cons.IH [of b] show ?thesis by (auto simp: is_path_Cons avoiding_def)
  qed
qed

text \<open>A vertex dominates another one iff it lies on every path to it from the root.\<close>

lemma dominates_paths:
  "dominates E r d w \<longleftrightarrow> (\<forall>p. is_path E r p w \<longrightarrow> d \<in> set p)"
proof (cases "d = w")
  case True
  then have "d \<in> set p" if "is_path E r p w" for p
    using that by (auto simp: is_path_def)
  with True show ?thesis by (simp add: dominates_def)
next
  case False
  show ?thesis
  proof (cases "r = d")
    case True
    have "(d, w) \<notin> (avoiding E d)\<^sup>*"
      using False by (auto simp: avoiding_def elim: converse_rtranclE)
    moreover have "d \<in> set p" if "is_path E r p w" for p
      using that True by (cases p) (auto simp: is_path_def)
    ultimately show ?thesis using True by (simp add: dominates_def)
  next
    case False
    with \<open>d \<noteq> w\<close> show ?thesis
      using path_avoids [of E d r _ w] by (auto simp: dominates_def rtrancl_is_path)
  qed
qed

subsection \<open>Graphs numbered in depth-first preorder\<close>

locale dfs_numbering =
  fixes m :: nat and E :: "(nat \<times> nat) set" and par :: "nat \<Rightarrow> nat"
  assumes m_pos: "0 < m"
    and E_bound: "(u, v) \<in> E \<Longrightarrow> u < m \<and> v < m"
    and no_root_pred: "(u, 0) \<notin> E"
    and par_less: "0 < v \<Longrightarrow> v < m \<Longrightarrow> par v < v"
    and par_edge: "0 < v \<Longrightarrow> v < m \<Longrightarrow> (par v, v) \<in> E"
    and forward_edge: "(u, v) \<in> E \<Longrightarrow> u < v \<Longrightarrow> ancestor_of m par u v"
    and interval: "ancestor_of m par u v \<Longrightarrow> u \<le> x \<Longrightarrow> x \<le> v \<Longrightarrow> ancestor_of m par u x"
begin

abbreviation anc :: "nat \<Rightarrow> nat \<Rightarrow> bool" where
  "anc \<equiv> ancestor_of m par"

abbreviation dom :: "nat \<Rightarrow> nat \<Rightarrow> bool" where
  "dom \<equiv> dominates E 0"

abbreviation semi :: "nat \<Rightarrow> nat" where
  "semi \<equiv> semidom E"

lemma anc_refl [simp]: "anc v v"
  by (simp add: ancestor_of_def)

lemma anc_trans: "anc u v \<Longrightarrow> anc v w \<Longrightarrow> anc u w"
  by (simp add: ancestor_of_def)

lemma anc_par: "0 < v \<Longrightarrow> v < m \<Longrightarrow> anc (par v) v"
  by (auto simp: ancestor_of_def tree_edges_def)

lemma anc_par_iff:
  assumes "0 < v" and "v < m"
  shows "anc u v \<longleftrightarrow> u = v \<or> anc u (par v)"
proof
  assume "anc u v"
  then show "u = v \<or> anc u (par v)"
    unfolding ancestor_of_def by (cases rule: rtranclE) (auto simp: tree_edges_def)
qed (use assms in \<open>auto intro: anc_trans anc_par\<close>)

lemma anc_le: "anc u v \<Longrightarrow> u \<le> v"
  unfolding ancestor_of_def
proof (induction rule: rtrancl_induct)
  case (step y z)
  then have "y < z" using par_less by (auto simp: tree_edges_def)
  with step show ?case by simp
qed simp

lemma anc_antisym: "anc u v \<Longrightarrow> anc v u \<Longrightarrow> u = v"
  by (meson anc_le le_antisym)

lemma anc_bound: "anc u v \<Longrightarrow> v < m \<Longrightarrow> u < m"
  using anc_le by fastforce

lemma anc_root: "v < m \<Longrightarrow> anc 0 v"
proof (induction v rule: less_induct)
  case (less v)
  show ?case
  proof (cases "v = 0")
    case False
    then have "anc 0 (par v)" using less par_less by (meson less_trans neq0_conv)
    with False less.prems show ?thesis by (blast intro: anc_trans anc_par)
  qed simp
qed

text \<open>Two ancestors of a vertex are comparable, in the order of their numbers.\<close>

lemma anc_linear: "anc u w \<Longrightarrow> anc v w \<Longrightarrow> u \<le> v \<Longrightarrow> anc u v"
  by (meson anc_le interval)

lemma anc_edges: "anc u v \<Longrightarrow> (u, v) \<in> E\<^sup>*"
  unfolding ancestor_of_def
  by (rule rtrancl_mono [THEN subsetD]) (auto simp: tree_edges_def par_edge)

lemma tree_avoids:
  assumes "anc u w" and "\<And>x. anc u x \<Longrightarrow> anc x w \<Longrightarrow> x \<noteq> d"
  shows "(u, w) \<in> (avoiding E d)\<^sup>*"
proof -
  have "(u, y) \<in> (avoiding E d)\<^sup>*" if "(u, y) \<in> (tree_edges m par)\<^sup>*" "anc y w" for y
    using that
  proof (induction rule: rtrancl_induct)
    case (step y z)
    then have yz: "anc y z" "(y, z) \<in> E"
      by (auto simp: tree_edges_def par_edge anc_par)
    then have "anc y w" "anc u y" "anc u z"
      using step by (auto simp: ancestor_of_def)
    then have "y \<noteq> d" "z \<noteq> d" using assms(2) step.prems by auto
    with yz have "(y, z) \<in> avoiding E d" by (simp add: avoiding_def)
    with step.IH [OF \<open>anc y w\<close>] show ?case by (rule rtrancl_into_rtrancl)
  qed simp
  then show ?thesis using assms(1) by (simp add: ancestor_of_def)
qed

lemma tree_avoids_smaller: "anc u w \<Longrightarrow> d < u \<Longrightarrow> (u, w) \<in> (avoiding E d)\<^sup>*"
  by (rule tree_avoids) (auto dest: anc_le)

lemma tree_avoids_greater: "anc u w \<Longrightarrow> w < d \<Longrightarrow> (u, w) \<in> (avoiding E d)\<^sup>*"
  by (rule tree_avoids) (auto dest: anc_le)

subsection \<open>The path lemma\<close>

lemma descend:
  assumes "(z, w) \<in> (E \<inter> {(a, b). z \<le> b})\<^sup>*"
  shows "anc z w"
  using assms
proof (induction rule: rtrancl_induct)
  case (step a b)
  show ?case
  proof (cases "a < b")
    case True
    then have "anc a b" using step by (auto intro: forward_edge)
    with step.IH show ?thesis by (rule anc_trans)
  next
    case False
    then show ?thesis using step interval by auto
  qed
qed simp

lemma path_minimum:
  assumes "(v :: nat, w) \<in> R\<^sup>*"
  shows "\<exists>z \<le> v. (v, z) \<in> R\<^sup>* \<and> (z, w) \<in> (R \<inter> {(a, b). z \<le> b})\<^sup>*"
  using assms
proof (induction rule: rtrancl_induct)
  case base
  show ?case by (intro exI [of _ v]) simp
next
  case (step y w)
  then obtain z where z: "z \<le> v" "(v, z) \<in> R\<^sup>*" "(z, y) \<in> (R \<inter> {(a, b). z \<le> b})\<^sup>*" by blast
  show ?case
  proof (cases "z \<le> w")
    case True
    then have "(z, w) \<in> (R \<inter> {(a, b). z \<le> b})\<^sup>*"
      using z(3) step(2) by (simp add: rtrancl_into_rtrancl)
    with z show ?thesis by (intro exI [of _ z]) simp
  next
    case False
    with z(1) have "w \<le> v" by simp
    moreover have "(v, w) \<in> R\<^sup>*" using step(1,2) by (rule rtrancl_into_rtrancl)
    ultimately show ?thesis by (intro exI [of _ w]) simp
  qed
qed

lemma path_lemma:
  assumes "(v, w) \<in> R\<^sup>*" and "R \<subseteq> E" and "v \<le> w"
  shows "\<exists>z. (v, z) \<in> R\<^sup>* \<and> (z, w) \<in> R\<^sup>* \<and> anc z v \<and> anc z w"
proof -
  obtain z where z: "z \<le> v" "(v, z) \<in> R\<^sup>*" "(z, w) \<in> (R \<inter> {(a, b). z \<le> b})\<^sup>*"
    using path_minimum [OF assms(1)] by blast
  have "(z, w) \<in> (E \<inter> {(a, b). z \<le> b})\<^sup>*"
    using rtrancl_mono [of "R \<inter> {(a, b). z \<le> b}" "E \<inter> {(a, b). z \<le> b}"] z(3) assms(2) by blast
  then have "anc z w" by (rule descend)
  moreover have "anc z v" using interval [OF \<open>anc z w\<close> z(1) assms(3)] .
  moreover have "(z, w) \<in> R\<^sup>*"
    using rtrancl_mono [of "R \<inter> {(a, b). z \<le> b}" R] z(3) by blast
  ultimately show ?thesis using z(2) by blast
qed

text \<open>
  A path that first meets \<open>S\<close> at \<open>y\<close> stays above \<open>y\<close> if \<open>S\<close> contains every ancestor of \<open>y\<close>
  the path can reach.
\<close>

lemma first_entry:
  assumes "(b, y) \<in> R\<^sup>*" and "R \<subseteq> E" and "y \<in> S" and "\<And>p q. (p, q) \<in> R \<Longrightarrow> p \<notin> S"
    and "\<And>z. (b, z) \<in> R\<^sup>* \<Longrightarrow> anc z y \<Longrightarrow> z \<in> S"
  shows "(b, y) \<in> (above E y)\<^sup>*"
proof -
  have "(a, y) \<in> (above E y)\<^sup>*" if "(b, a) \<in> R\<^sup>*" "(a, y) \<in> R\<^sup>*" for a
    using that(2,1)
  proof (induction rule: converse_rtrancl_induct)
    case (step p q)
    have py: "(p, y) \<in> R\<^sup>*" using step by (blast intro: converse_rtrancl_into_rtrancl)
    have "y < p"
    proof (rule ccontr)
      assume "\<not> y < p"
      then obtain z where z: "(p, z) \<in> R\<^sup>*" "(z, y) \<in> R\<^sup>*" "anc z p" "anc z y"
        using path_lemma [OF py assms(2)] by force
      have "(b, z) \<in> R\<^sup>*" using step.prems z(1) by (rule rtrancl_trans)
      then have "z \<in> S" using z(4) by (rule assms(5))
      then have "z = y" using z(2) assms(4) by (auto elim: converse_rtranclE)
      then have "p = y" using z(3) anc_le \<open>\<not> y < p\<close> by force
      then show False using assms(3,4) step(1) by blast
    qed
    then have "(p, q) \<in> above E y" using step(1) assms(2) by (auto simp: above_def)
    moreover have "(q, y) \<in> (above E y)\<^sup>*"
      using step by (blast intro: rtrancl_into_rtrancl)
    ultimately show ?case by (rule converse_rtrancl_into_rtrancl)
  qed simp
  then show ?thesis using assms(1) by blast
qed

lemma reach_first:
  assumes "(b, w) \<in> R\<^sup>*" and "w \<in> S"
  shows "\<exists>y \<in> S. (b, y) \<in> (R \<inter> {(p, q). p \<notin> S})\<^sup>* \<and> (y, w) \<in> R\<^sup>*"
  using assms
proof (induction rule: converse_rtrancl_induct)
  case (step p q)
  then obtain y where y: "y \<in> S" "(q, y) \<in> (R \<inter> {(p, q). p \<notin> S})\<^sup>*" "(y, w) \<in> R\<^sup>*" by blast
  show ?case
  proof (cases "p \<in> S")
    case True
    with step show ?thesis by (auto intro: converse_rtrancl_into_rtrancl)
  next
    case False
    then have "(p, y) \<in> (R \<inter> {(p, q). p \<notin> S})\<^sup>*"
      using step(1) y(2) by (simp add: converse_rtrancl_into_rtrancl)
    with y show ?thesis by blast
  qed
qed blast

subsection \<open>Semidominators\<close>

lemma semi_path_edge: "(v, w) \<in> E \<Longrightarrow> semi_path E v w"
  unfolding semi_path_def by blast

lemma semi_le: "semi_path E v w \<Longrightarrow> semi w \<le> v"
  unfolding semidom_def by (rule Least_le)

lemma semi_semi_path:
  assumes "0 < w" and "w < m"
  shows "semi_path E (semi w) w"
  unfolding semidom_def by (rule LeastI, rule semi_path_edge, rule par_edge [OF assms])

lemma semi_less: "0 < w \<Longrightarrow> w < m \<Longrightarrow> semi w < w"
  using semi_le [OF semi_path_edge [OF par_edge]] par_less by (meson le_less_trans)

lemma above_tail:
  assumes "(x, w) \<in> (above E w)\<^sup>*"
  shows "w \<le> x"
  using assms by (cases rule: converse_rtranclE) (auto simp: above_def)

lemma above_mono: "w \<le> u \<Longrightarrow> above E u \<subseteq> above E w"
  by (auto simp: above_def)

lemma above_avoids:
  assumes "(x, w) \<in> (above E w)\<^sup>*" and "d < w"
  shows "(x, w) \<in> (avoiding E d)\<^sup>*"
  using assms(1)
proof (induction rule: converse_rtrancl_induct)
  case (step y z)
  have "w \<le> z" using step(2) by (rule above_tail)
  with step assms(2) have "(y, z) \<in> avoiding E d" by (auto simp: above_def avoiding_def)
  then show ?case using step.IH by (rule converse_rtrancl_into_rtrancl)
qed simp

lemma semi_path_avoids:
  assumes "semi_path E v w" and "d < w" and "v \<noteq> d"
  shows "(v, w) \<in> (avoiding E d)\<^sup>*"
proof -
  obtain x where x: "(v, x) \<in> E" "(x, w) \<in> (above E w)\<^sup>*" using assms(1) by (auto simp: semi_path_def)
  have "w \<le> x" using x(2) by (rule above_tail)
  then have "(v, x) \<in> avoiding E d" using x assms by (auto simp: avoiding_def)
  with above_avoids [OF x(2) assms(2)] show ?thesis by (simp add: converse_rtrancl_into_rtrancl)
qed

lemma semi_path_anc:
  assumes "semi_path E v w" and "v \<le> w"
  shows "anc v w"
proof -
  obtain x where x: "(v, x) \<in> E" "(x, w) \<in> (above E w)\<^sup>*" using assms(1) by (auto simp: semi_path_def)
  let ?R = "E \<inter> {(a, b). v \<le> b}"
  have "(y, w) \<in> ?R\<^sup>*" if "(y, w) \<in> (above E w)\<^sup>*" for y
    using that
  proof (induction rule: converse_rtrancl_induct)
    case (step a b)
    have "w \<le> b" using step(2) by (rule above_tail)
    with step(1) assms(2) have "(a, b) \<in> ?R" by (auto simp: above_def)
    then show ?case using step.IH by (rule converse_rtrancl_into_rtrancl)
  qed simp
  moreover have "(v, x) \<in> ?R" using x above_tail [OF x(2)] assms(2) by auto
  ultimately have "(v, w) \<in> ?R\<^sup>*" using x(2) by (blast intro: converse_rtrancl_into_rtrancl)
  then show ?thesis by (rule descend)
qed

lemma semi_anc: "0 < w \<Longrightarrow> w < m \<Longrightarrow> anc (semi w) w"
  using semi_path_anc [OF semi_semi_path] semi_less by (simp add: less_imp_le)

lemma semi_bound: "0 < w \<Longrightarrow> w < m \<Longrightarrow> semi w < m"
  using semi_less by (meson less_trans)

text \<open>The recurrence: the semidominator is the smallest of the candidates its predecessors give.\<close>

lemma semi_le_candidate:
  assumes "0 < w" and "w < u" and "anc u v" and "(v, w) \<in> E"
  shows "semi w \<le> semi u"
proof -
  have "u < m" using anc_le [OF assms(3)] E_bound [OF assms(4)] by simp
  then obtain x where x: "(semi u, x) \<in> E" "(x, u) \<in> (above E u)\<^sup>*"
    using semi_semi_path [of u] assms(2) by (auto simp: semi_path_def)
  have "(x, u) \<in> (above E w)\<^sup>*"
    using rtrancl_mono [OF above_mono [of w u]] x(2) assms(2) by auto
  also have "(u, v) \<in> (above E w)\<^sup>*"
  proof -
    have "(u, y) \<in> (above E w)\<^sup>*" if "(u, y) \<in> (tree_edges m par)\<^sup>*" for y
      using that
    proof (induction rule: rtrancl_induct)
      case (step y z)
      then have "w < y" using assms(2) anc_le [of u y] by (auto simp: ancestor_of_def)
      with step(2) have "(y, z) \<in> above E w" by (auto simp: tree_edges_def above_def par_edge)
      with step.IH show ?case by (rule rtrancl_into_rtrancl)
    qed simp
    then show ?thesis using assms(3) by (simp add: ancestor_of_def)
  qed
  also have "(v, w) \<in> (above E w)\<^sup>*"
    using assms anc_le [OF assms(3)] by (auto simp: above_def)
  finally have "semi_path E (semi u) w" using x(1) by (auto simp: semi_path_def)
  then show ?thesis by (rule semi_le)
qed

lemma semi_candidate:
  assumes "0 < w" and "w < m"
  shows "(semi w, w) \<in> E \<or> (\<exists>u v. w < u \<and> anc u v \<and> (v, w) \<in> E \<and> semi u \<le> semi w)"
proof -
  obtain x where x: "(semi w, x) \<in> E" "(x, w) \<in> (above E w)\<^sup>*"
    using semi_semi_path [OF assms] by (auto simp: semi_path_def)
  from x(2) show ?thesis
  proof (cases rule: rtranclE)
    case base
    with x(1) show ?thesis by simp
  next
    case (step v)
    then have v: "w < v" "(v, w) \<in> E" by (auto simp: above_def)
    let ?S = "{u. anc u v}"
    let ?R = "above E w \<inter> {(p, q). p \<notin> ?S}"
    obtain u where u: "anc u v" "(x, u) \<in> ?R\<^sup>*" "(u, v) \<in> (above E w)\<^sup>*"
      using reach_first [OF step(1), of ?S] by auto
    have "?R \<subseteq> E" by (auto simp: above_def)
    then have "(x, u) \<in> (above E u)\<^sup>*"
      by (rule first_entry [OF u(2), of ?S]) (auto intro: anc_trans u(1))
    then have "semi u \<le> semi w" using x(1) by (intro semi_le) (auto simp: semi_path_def)
    moreover have "w < u" using u(3) v(1) by (cases rule: converse_rtranclE) (auto simp: above_def)
    ultimately show ?thesis using u(1) v(2) by blast
  qed
qed

subsection \<open>Dominators\<close>

lemma dom_anc:
  assumes "dom d w" and "w < m"
  shows "anc d w"
proof (rule ccontr)
  assume "\<not> anc d w"
  then have "(0, w) \<in> (avoiding E d)\<^sup>*"
    by (intro tree_avoids anc_root assms) auto
  moreover have "d \<noteq> w" using \<open>\<not> anc d w\<close> by auto
  ultimately show False using assms(1) by (simp add: dominates_def)
qed

lemma dom_root: "dom 0 w"
  unfolding dominates_def by (auto simp: avoiding_def elim: converse_rtranclE)

lemma dom_between:
  assumes "dom d w" and "anc d v" and "anc v w"
  shows "dom d v"
proof (cases "d = v")
  case False
  then have "d < v" using anc_le [OF assms(2)] by simp
  then have vw: "(v, w) \<in> (avoiding E d)\<^sup>*" using assms(3) by (intro tree_avoids_smaller)
  have "d \<noteq> w" using \<open>d < v\<close> anc_le [OF assms(3)] by simp
  have "(0, v) \<notin> (avoiding E d)\<^sup>*"
  proof
    assume "(0, v) \<in> (avoiding E d)\<^sup>*"
    then have "(0, w) \<in> (avoiding E d)\<^sup>*" using vw by (rule rtrancl_trans)
    with assms(1) \<open>d \<noteq> w\<close> show False by (simp add: dominates_def)
  qed
  then show ?thesis by (simp add: dominates_def)
qed (simp add: dominates_def)

lemma strict_dom_anc_semi:
  assumes "dom d w" and "d \<noteq> w" and "0 < w" and "w < m"
  shows "anc d (semi w)"
proof (rule ccontr)
  assume not: "\<not> anc d (semi w)"
  have dw: "anc d w" using assms(1,4) by (rule dom_anc)
  then have "d < w" using anc_le assms(2) by (simp add: le_neq_implies_less)
  have sw: "anc (semi w) w" using assms(3,4) by (rule semi_anc)
  have "semi w < d"
    using not anc_linear [OF dw sw] by (meson not_le)
  then have "(0, semi w) \<in> (avoiding E d)\<^sup>*"
    using assms semi_bound by (intro tree_avoids_greater anc_root)
  also have "(semi w, w) \<in> (avoiding E d)\<^sup>*"
    using semi_path_avoids [OF semi_semi_path [OF assms(3,4)] \<open>d < w\<close>] \<open>semi w < d\<close> by simp
  finally show False using assms(1,2) by (simp add: dominates_def)
qed

text \<open>
  A path to \<open>w\<close> that avoids its ancestor \<open>d\<close> enters the tree path from \<open>d\<close> to \<open>w\<close> from below
  \<open>d\<close>, and the entry is a semidominator path.
\<close>

lemma bypass:
  assumes "(0, w) \<in> (avoiding E d)\<^sup>*" and "0 < d" and "anc d w" and "d \<noteq> w"
  shows "\<exists>x y. x < d \<and> semi_path E x y \<and> d < y \<and> anc d y \<and> anc y w"
proof -
  let ?G = "E \<inter> {(p, q). d < p \<and> d < q}"
  have "v < d \<or> (\<exists>x b. x < d \<and> (x, b) \<in> E \<and> d < b \<and> (b, v) \<in> ?G\<^sup>*)"
    if "(0, v) \<in> (avoiding E d)\<^sup>*" for v
    using that
  proof (induction rule: rtrancl_induct)
    case base
    then show ?case using assms(2) by simp
  next
    case (step y z)
    then have yz: "(y, z) \<in> E" "y \<noteq> d" "z \<noteq> d" by (auto simp: avoiding_def)
    show ?case
    proof (cases "z < d \<or> y < d")
      case True
      show ?thesis
      proof (cases "z < d")
        case False
        with True yz have "y < d \<and> (y, z) \<in> E \<and> d < z \<and> (z, z) \<in> ?G\<^sup>*" by simp
        then show ?thesis by blast
      qed simp
    next
      case False
      then obtain x b where "x < d" "(x, b) \<in> E" "d < b" "(b, y) \<in> ?G\<^sup>*" using step.IH by blast
      moreover have "(y, z) \<in> ?G" using yz False by auto
      ultimately show ?thesis by (meson rtrancl_into_rtrancl)
    qed
  qed
  moreover have "d < w" using anc_le [OF assms(3)] assms(4) by simp
  ultimately obtain x b where x: "x < d" "(x, b) \<in> E" "d < b" "(b, w) \<in> ?G\<^sup>*"
    using assms(1) by (meson not_less_iff_gr_or_eq)
  let ?S = "{y. anc d y \<and> anc y w}"
  let ?R = "?G \<inter> {(p, q). p \<notin> ?S}"
  obtain y where y: "y \<in> ?S" "(b, y) \<in> ?R\<^sup>*"
    using reach_first [OF x(4), of ?S] assms(3) by auto
  have up: "d < z" if "(b, z) \<in> ?R\<^sup>*" for z
    using that x(3) by (cases rule: rtranclE) auto
  have "(b, y) \<in> (above E y)\<^sup>*"
  proof (rule first_entry [OF y(2) _ y(1)])
    fix z assume z: "(b, z) \<in> ?R\<^sup>*" "anc z y"
    then have "anc z w" using y(1) by (blast intro: anc_trans)
    moreover have "anc d z" using anc_linear [OF assms(3) \<open>anc z w\<close>] up [OF z(1)] by simp
    ultimately show "z \<in> ?S" by simp
  qed auto
  then have "semi_path E x y" using x(2) by (auto simp: semi_path_def)
  with x(1) y(1) up [OF y(2)] show ?thesis by blast
qed

lemma path_through_semi_path:
  assumes "x < d" and "x < m" and "semi_path E x y" and "d < y"
  shows "(0, y) \<in> (avoiding E d)\<^sup>*"
proof -
  have "(0, x) \<in> (avoiding E d)\<^sup>*" using assms(1,2) by (intro tree_avoids_greater anc_root)
  also have "(x, y) \<in> (avoiding E d)\<^sup>*" using assms by (intro semi_path_avoids) auto
  finally show ?thesis .
qed

subsection \<open>Immediate dominators\<close>

lemma strict_doms:
  assumes "0 < w" and "w < m"
  shows "finite {d. dom d w \<and> d \<noteq> w}" and "0 \<in> {d. dom d w \<and> d \<noteq> w}"
    and "\<And>d. d \<in> {d. dom d w \<and> d \<noteq> w} \<Longrightarrow> d < w"
proof -
  show less: "d < w" if "d \<in> {d. dom d w \<and> d \<noteq> w}" for d
    using that dom_anc [of d w] anc_le [of d w] assms by auto
  show "0 \<in> {d. dom d w \<and> d \<noteq> w}" using assms dom_root by simp
  have "{d. dom d w \<and> d \<noteq> w} \<subseteq> {..<w}" using less by auto
  then show "finite {d. dom d w \<and> d \<noteq> w}" by (rule finite_subset) simp
qed

lemma idom_dom:
  assumes "0 < w" and "w < m"
  shows "dom (idom_num E w) w" and "idom_num E w < w"
proof -
  have "idom_num E w \<in> {d. dom d w \<and> d \<noteq> w}"
    unfolding idom_num_def using strict_doms [OF assms] by (intro Max_in) auto
  then show "dom (idom_num E w) w" and "idom_num E w < w" using strict_doms(3) [OF assms] by auto
qed

lemma idom_greatest:
  assumes "0 < w" and "w < m" and "dom d w" and "d \<noteq> w"
  shows "anc d (idom_num E w)"
proof -
  have "d \<le> idom_num E w"
    unfolding idom_num_def using strict_doms [OF assms(1,2)] assms(3,4) by (intro Max_ge) auto
  with dom_anc [OF assms(3,2)] dom_anc [OF idom_dom(1) [OF assms(1,2)] assms(2)] show ?thesis
    by (rule anc_linear)
qed

lemma is_idom_num:
  assumes "0 < w" and "w < m"
  shows "is_idom E 0 (idom_num E w) w"
  unfolding is_idom_def
proof (intro conjI allI impI)
  fix d assume d: "dom d w \<and> d \<noteq> w"
  then have "anc d (idom_num E w)" using idom_greatest [OF assms] by blast
  moreover have "anc (idom_num E w) w" using dom_anc [OF idom_dom(1) [OF assms] assms(2)] .
  ultimately show "dom d (idom_num E w)" using dom_between d by blast
qed (use idom_dom [OF assms] in auto)

lemma is_idom_unique:
  assumes "0 < w" and "w < m" and "is_idom E 0 d w"
  shows "d = idom_num E w"
proof -
  let ?e = "idom_num E w"
  have d: "dom d w" "d \<noteq> w" using assms(3) by (auto simp: is_idom_def)
  have "dom ?e d" using assms(3) idom_dom [OF assms(1,2)] by (auto simp: is_idom_def)
  moreover have "anc d w" using dom_anc [OF d(1) assms(2)] .
  ultimately have "anc ?e d" using dom_anc anc_bound assms(2) by blast
  with idom_greatest [OF assms(1,2) d] show ?thesis by (blast intro: anc_antisym)
qed

lemma not_dom: "\<not> dom d w \<Longrightarrow> 0 < d \<and> d \<noteq> w \<and> (0, w) \<in> (avoiding E d)\<^sup>*"
  using dom_root [of w] by (cases "d = 0") (auto simp: dominates_def)

theorem idom_semi:
  assumes w: "0 < w" "w < m"
    and min: "\<And>u. anc (semi w) u \<Longrightarrow> semi w < u \<Longrightarrow> anc u w \<Longrightarrow> semi w \<le> semi u"
  shows "idom_num E w = semi w"
proof -
  let ?s = "semi w"
  have sw: "anc ?s w" "?s < w" using semi_anc semi_less w by auto
  have "dom ?s w"
  proof (rule ccontr)
    assume "\<not> dom ?s w"
    then have "(0, w) \<in> (avoiding E ?s)\<^sup>*" and "0 < ?s"
      by (auto dest: not_dom)
    with sw obtain x y where xy: "x < ?s" "semi_path E x y" "?s < y" "anc ?s y" "anc y w"
      using bypass [of w ?s] by auto
    from semi_le [OF xy(2)] min [OF xy(4,3,5)] xy(1) show False by simp
  qed
  then have "anc ?s (idom_num E w)" using idom_greatest w sw by auto
  moreover have "anc (idom_num E w) ?s"
    using strict_dom_anc_semi [OF idom_dom(1) [OF w]] idom_dom(2) [OF w] w by auto
  ultimately show ?thesis by (blast intro: anc_antisym)
qed

theorem idom_of_smaller_semi:
  assumes w: "0 < w" "w < m"
    and u: "anc (semi w) u" "semi w < u" "anc u w" "semi u < semi w"
    and min: "\<And>u'. anc (semi w) u' \<Longrightarrow> semi w < u' \<Longrightarrow> anc u' w \<Longrightarrow> semi u \<le> semi u'"
  shows "idom_num E w = idom_num E u"
proof -
  let ?s = "semi w" and ?d = "idom_num E u" and ?e = "idom_num E w"
  have um: "0 < u" "u < m" using u anc_bound w by auto
  have sw: "anc ?s w" "?s < w" using semi_anc semi_less w by auto
  note e = idom_dom [OF w] and d = idom_dom [OF um]
  have "anc ?e ?s" using strict_dom_anc_semi [OF e(1)] e(2) w by auto
  then have "anc ?e u" "?e < u" using u anc_trans anc_le by (blast, fastforce)
  then have "anc ?e ?d"
    using idom_greatest [OF um] dom_between [OF e(1) _ u(3)] by auto
  moreover have ds: "anc ?d (semi u)" using strict_dom_anc_semi [OF d(1)] d(2) um by auto
  have "anc ?d w" using dom_anc [OF d(1) um(2)] u(3) by (rule anc_trans)
  have "?d < ?s" using anc_le [OF ds] u(4) by simp
  have "dom ?d w"
  proof (rule ccontr)
    assume "\<not> dom ?d w"
    then have "(0, w) \<in> (avoiding E ?d)\<^sup>*" and "0 < ?d" and "?d \<noteq> w"
      by (auto dest: not_dom)
    then obtain x y where xy: "x < ?d" "semi_path E x y" "?d < y" "anc ?d y" "anc y w"
      using bypass [of w ?d] \<open>anc ?d w\<close> by blast
    have "semi y < semi u" using semi_le [OF xy(2)] xy(1) anc_le [OF ds] by simp
    then have "\<not> ?s < y" using min [of y] anc_linear [OF sw(1) xy(5)] xy(5) by force
    then have "anc y u" using anc_linear [OF xy(5) sw(1)] u(1) anc_trans by auto
    have "(0, y) \<in> (avoiding E ?d)\<^sup>*"
      using xy d um by (intro path_through_semi_path) auto
    also have "(y, u) \<in> (avoiding E ?d)\<^sup>*" using \<open>anc y u\<close> xy(3) by (rule tree_avoids_smaller)
    finally show False using d by (auto simp: dominates_def)
  qed
  then have "anc ?d ?e" using idom_greatest [OF w] \<open>?d < ?s\<close> sw by auto
  ultimately show ?thesis by (blast intro: anc_antisym)
qed

subsection \<open>The dominator tree\<close>

lemma dom_trans:
  assumes "dom d e" and "dom e w"
  shows "dom d w"
proof (rule ccontr)
  assume not: "\<not> dom d w"
  then have "d \<noteq> w" "(0, w) \<in> (avoiding E d)\<^sup>*" by (auto simp: dominates_def)
  have "(0, v) \<in> (avoiding E e)\<^sup>* \<or> (0, e) \<in> (avoiding E d)\<^sup>*" if "(0, v) \<in> (avoiding E d)\<^sup>*" for v
    using that
  proof (induction rule: rtrancl_induct)
    case (step y z)
    show ?case
    proof (cases "y = e \<or> z = e")
      case True
      then show ?thesis using step(1,2) by (auto intro: rtrancl_into_rtrancl)
    next
      case False
      with step(2) have "(y, z) \<in> avoiding E e" by (auto simp: avoiding_def)
      with step.IH show ?thesis by (auto intro: rtrancl_into_rtrancl)
    qed
  qed simp
  with \<open>(0, w) \<in> (avoiding E d)\<^sup>*\<close> assms not show False
    by (auto simp: dominates_def)
qed

lemma dom_idom_iff:
  assumes "0 < w" and "w < m"
  shows "dom d w \<longleftrightarrow> d = w \<or> dom d (idom_num E w)"
proof
  assume "dom d w"
  then show "d = w \<or> dom d (idom_num E w)"
    using is_idom_num [OF assms] by (auto simp: is_idom_def)
next
  assume "d = w \<or> dom d (idom_num E w)"
  then show "dom d w"
    using dom_trans idom_dom(1) [OF assms] by (auto simp: dominates_def)
qed

lemma dom_of_root: "dom d 0 \<longleftrightarrow> d = 0"
  using dom_anc [of d 0] m_pos anc_le [of d 0] by (auto simp: dominates_def)

end

end
