(* ===== verification/Dfs_Preorder.thy ===== *)
theory Dfs_Preorder
  imports Heap_Graph Dominator_Theory
begin

text \<open>
  \<open>dfsPreorder\<close> of \<open>internal/heap/dominators.go\<close>: the iterative depth-first search that numbers the
  objects reachable from the GC roots, below a virtual super-root with number \<open>0\<close>. The lemmas show
  that it terminates without a panic on every well-formed graph, numbers exactly the reachable
  objects, and that the numbered graph satisfies \<open>dfs_numbering\<close>.
\<close>

subsection \<open>The search\<close>

text \<open>The stack of frames (object, next edge) has its top at the head.\<close>

record dfsState =
  dfnum :: "int list"
  vertex :: "int list"
  parent :: "int list"
  stack :: "(int \<times> int) list"

definition visit :: "ObjectGraph \<Rightarrow> int \<Rightarrow> int \<Rightarrow> dfsState \<Rightarrow> (herr, dfsState) go" where
  "visit g v from st =
     gbind (upd (dfnum st) v (int (length (vertex st)))) (\<lambda>dn.
     gbind (idx (outStart g) v) (\<lambda>s.
     Inr (st \<lparr> dfnum := dn, vertex := vertex st @ [v], parent := parent st @ [from],
               stack := (v, s) # stack st \<rparr>)))"

text \<open>One turn of the inner loop: pop a finished frame, or follow its next edge.\<close>

definition dfs_step :: "ObjectGraph \<Rightarrow> dfsState \<Rightarrow> (herr, dfsState) go" where
  "dfs_step g st =
     (case stack st of
        [] \<Rightarrow> Inr st
      | (v, nxt) # rest \<Rightarrow>
          gbind (idx (outStart g) (v + 1)) (\<lambda>end.
          if nxt = end then Inr (st \<lparr> stack := rest \<rparr>)
          else gbind (idx (outs g) nxt) (\<lambda>w.
               let st1 = st \<lparr> stack := (v, nxt + 1) # rest \<rparr> in
               gbind (idx (dfnum st) w) (\<lambda>dw.
               if dw < 0
               then gbind (idx (dfnum st) v) (\<lambda>dv. visit g w dv st1)
               else Inr st1))))"

definition unnumbered :: "int list \<Rightarrow> nat" where
  "unnumbered dn = length (filter (\<lambda>d. d < 0) dn)"

definition frames_left :: "ObjectGraph \<Rightarrow> (int \<times> int) list \<Rightarrow> nat" where
  "frames_left g fs = (\<Sum>(_, nxt)\<leftarrow>fs. Suc (nat (int (length (outs g)) - nxt)))"

lemma unnumbered_upd:
  assumes "i < length dn" and "dn ! i < 0" and "0 \<le> k"
  shows "unnumbered (dn[i := k]) < unnumbered dn"
  using assms
proof (induction dn arbitrary: i)
  case (Cons d dn)
  then show ?case by (cases i) (auto simp: unnumbered_def)
qed simp

lemma visit_unnumbered:
  assumes "visit g w d st = Inr st'" and "w < int (length (dfnum st))" and "dfnum st ! nat w < 0"
  shows "unnumbered (dfnum st') < unnumbered (dfnum st)"
  using assms by (auto simp: visit_def gbind_eq_Inr upd_eq_Inr unnumbered_upd)

lemma dfs_step_decreases:
  assumes "stack st \<noteq> []" and "dfs_step g st = Inr st'"
  shows "unnumbered (dfnum st') < unnumbered (dfnum st) \<or>
    unnumbered (dfnum st') = unnumbered (dfnum st) \<and> frames_left g (stack st') < frames_left g (stack st)"
proof -
  obtain v nxt rest where s: "stack st = (v, nxt) # rest" using assms(1) by (cases "stack st") auto
  from assms(2) obtain e where "idx (outStart g) (v + 1) = (Inr e :: (herr, int) go)"
    by (auto simp: dfs_step_def s gbind_eq_Inr)
  show ?thesis
  proof (cases "nxt = e")
    case True
    with assms(2) \<open>idx _ _ = Inr e\<close> show ?thesis by (auto simp: dfs_step_def s frames_left_def)
  next
    case False
    let ?st1 = "st \<lparr> stack := (v, nxt + 1) # rest \<rparr>"
    obtain w dw where w: "idx (outs g) nxt = (Inr w :: (herr, int) go)"
      "idx (dfnum st) w = (Inr dw :: (herr, int) go)"
      and st': "(if dw < 0 then gbind (idx (dfnum st) v) (\<lambda>dv. visit g w dv ?st1) else Inr ?st1) = Inr st'"
      using assms(2) \<open>idx _ _ = Inr e\<close> False by (auto simp: dfs_step_def s gbind_eq_Inr Let_def)
    show ?thesis
    proof (cases "dw < 0")
      case True
      then obtain dv where "visit g w dv ?st1 = Inr st'" using st' by (auto simp: gbind_eq_Inr)
      from visit_unnumbered [OF this] w True show ?thesis by (auto simp: idx_eq_Inr)
    next
      case False
      with st' w show ?thesis by (auto simp: frames_left_def s idx_eq_Inr)
    qed
  qed
qed

function dfs_loop :: "ObjectGraph \<Rightarrow> dfsState \<Rightarrow> (herr, dfsState) go" where
  "dfs_loop g st = (if stack st = [] then Inr st else gbind (dfs_step g st) (\<lambda>st'. dfs_loop g st'))"
  by pat_completeness auto
termination
  by (relation "measures [\<lambda>(g, st). unnumbered (dfnum st), \<lambda>(g, st). frames_left g (stack st)]")
    (auto dest: dfs_step_decreases)

declare dfs_loop.simps [simp del]

definition dfs_root :: "ObjectGraph \<Rightarrow> int \<Rightarrow> dfsState \<Rightarrow> (herr, dfsState) go" where
  "dfs_root g r st =
     gbind (idx (dfnum st) r) (\<lambda>d.
     if d \<ge> 0 then Inr st else gbind (visit g r 0 st) (\<lambda>st'. dfs_loop g st'))"

definition dfs_init :: "ObjectGraph \<Rightarrow> dfsState" where
  "dfs_init g = \<lparr> dfnum = replicate (Len g) (-1), vertex = [-1], parent = [-1], stack = [] \<rparr>"

definition dfsPreorder :: "ObjectGraph \<Rightarrow> (herr, int list \<times> int list \<times> int list) go" where
  "dfsPreorder g =
     gbind (gfold (dfs_root g) (roots g) (dfs_init g)) (\<lambda>st.
     Inr (dfnum st, vertex st, parent st))"

subsection \<open>The invariant of the search\<close>

lemma ancestor_of_unfold:
  "ancestor_of m par u v \<longleftrightarrow> u = v \<or> 0 < v \<and> v < m \<and> ancestor_of m par u (par v)"
proof
  assume "ancestor_of m par u v"
  then show "u = v \<or> 0 < v \<and> v < m \<and> ancestor_of m par u (par v)"
    unfolding ancestor_of_def by (cases rule: rtranclE) (auto simp: tree_edges_def)
next
  assume "u = v \<or> 0 < v \<and> v < m \<and> ancestor_of m par u (par v)"
  then show "ancestor_of m par u v"
    unfolding ancestor_of_def by (auto simp: tree_edges_def intro: rtrancl_into_rtrancl)
qed

lemma ancestor_of_extend:
  assumes "\<And>d. 0 < d \<Longrightarrow> d < k \<Longrightarrow> par d < d" and "\<And>d. d < k \<Longrightarrow> par' d = par d" and "v < k"
  shows "ancestor_of (Suc k) par' u v \<longleftrightarrow> ancestor_of k par u v"
  using assms(3)
proof (induction v rule: less_induct)
  case (less v)
  show ?case
    using less assms(1,2) [of v] ancestor_of_unfold [of "Suc k" par' u v]
      ancestor_of_unfold [of k par u v]
    by auto
qed

lemma ancestor_of_new:
  assumes "\<And>d. 0 < d \<Longrightarrow> d < k \<Longrightarrow> par d < d" and "\<And>d. d < k \<Longrightarrow> par' d = par d"
    and "0 < k" and "par' k < k"
  shows "ancestor_of (Suc k) par' u k \<longleftrightarrow> u = k \<or> ancestor_of k par u (par' k)"
  using ancestor_of_unfold [of "Suc k" par' u k] ancestor_of_extend [OF assms(1,2,4), of u] assms(3)
  by auto

definition par_of :: "int list \<Rightarrow> nat \<Rightarrow> nat" where
  "par_of pr d = nat (pr ! d)"

abbreviation tree_anc :: "dfsState \<Rightarrow> nat \<Rightarrow> nat \<Rightarrow> bool" where
  "tree_anc st \<equiv> ancestor_of (length (vertex st)) (par_of (parent st))"

definition active :: "dfsState \<Rightarrow> nat list" where
  "active st = map (\<lambda>(v, _). nat (dfnum st ! nat v)) (stack st)"

text \<open>\<open>dfnum\<close> and \<open>vertex\<close> are inverse to each other on the numbered objects.\<close>

definition inv_num :: "ObjectGraph \<Rightarrow> dfsState \<Rightarrow> bool" where
  "inv_num g st \<longleftrightarrow>
     length (dfnum st) = Len g \<and> length (parent st) = length (vertex st) \<and> vertex st \<noteq> [] \<and>
     (\<forall>d. 0 < d \<and> d < length (vertex st) \<longrightarrow>
        0 \<le> vertex st ! d \<and> nat (vertex st ! d) < Len g \<and> dfnum st ! nat (vertex st ! d) = int d) \<and>
     (\<forall>i < Len g. dfnum st ! i = -1 \<or>
        0 < dfnum st ! i \<and> nat (dfnum st ! i) < length (vertex st) \<and>
        vertex st ! nat (dfnum st ! i) = int i)"

text \<open>Parents are smaller and joined by an edge, and descendants form intervals.\<close>

definition inv_tree :: "ObjectGraph \<Rightarrow> dfsState \<Rightarrow> bool" where
  "inv_tree g st \<longleftrightarrow>
     (\<forall>d. 0 < d \<and> d < length (vertex st) \<longrightarrow>
        0 \<le> parent st ! d \<and> nat (parent st ! d) < d \<and>
        (if parent st ! d = 0 then vertex st ! d \<in> set (roots g)
         else vertex st ! d \<in> set (succs g (nat (vertex st ! nat (parent st ! d)))))) \<and>
     (\<forall>u v x. tree_anc st u v \<and> v < length (vertex st) \<and> u \<le> x \<and> x \<le> v \<longrightarrow> tree_anc st u x)"

text \<open>
  The frames are the ancestors of the top one, everything numbered after an active object descends
  from it, and the edges before \<open>next\<close> have been followed.
\<close>

definition inv_frame :: "ObjectGraph \<Rightarrow> int list \<Rightarrow> int \<times> int \<Rightarrow> bool" where
  "inv_frame g dn f \<longleftrightarrow> (case f of (v, nxt) \<Rightarrow>
     0 \<le> v \<and> nat v < Len g \<and> 0 < dn ! nat v \<and>
     outStart g ! nat v \<le> nxt \<and> nxt \<le> outStart g ! Suc (nat v) \<and>
     (\<forall>j. outStart g ! nat v \<le> j \<and> j < nxt \<longrightarrow> 0 \<le> dn ! nat (outs g ! nat j)))"

definition inv_stack :: "ObjectGraph \<Rightarrow> dfsState \<Rightarrow> bool" where
  "inv_stack g st \<longleftrightarrow>
     (\<forall>f \<in> set (stack st). inv_frame g (dfnum st) f) \<and>
     (\<forall>i < length (active st). \<forall>u.
        tree_anc st u (active st ! i) \<longleftrightarrow> u = 0 \<or> u \<in> set (drop i (active st))) \<and>
     (\<forall>d \<in> set (active st). \<forall>x. d \<le> x \<and> x < length (vertex st) \<longrightarrow> tree_anc st d x)"

text \<open>Finished objects have all successors numbered, and forward edges lead to descendants.\<close>

definition inv_edges :: "ObjectGraph \<Rightarrow> dfsState \<Rightarrow> bool" where
  "inv_edges g st \<longleftrightarrow>
     (\<forall>d. 0 < d \<and> d < length (vertex st) \<and> d \<notin> set (active st) \<longrightarrow>
        (\<forall>w \<in> set (succs g (nat (vertex st ! d))). 0 \<le> dfnum st ! nat w)) \<and>
     (\<forall>d. 0 < d \<and> d < length (vertex st) \<longrightarrow>
        (\<forall>w \<in> set (succs g (nat (vertex st ! d))). int d < dfnum st ! nat w \<longrightarrow>
           tree_anc st d (nat (dfnum st ! nat w))))"

definition dfs_inv :: "ObjectGraph \<Rightarrow> dfsState \<Rightarrow> bool" where
  "dfs_inv g st \<longleftrightarrow> inv_num g st \<and> inv_tree g st \<and> inv_stack g st \<and> inv_edges g st"

lemma inv_num_stack [simp]: "inv_num g (st \<lparr> stack := s \<rparr>) = inv_num g st"
  by (simp add: inv_num_def)

lemma inv_tree_stack [simp]: "inv_tree g (st \<lparr> stack := s \<rparr>) = inv_tree g st"
  by (simp add: inv_tree_def)

lemma mem_succs:
  assumes "wf_graph g" and "i < Len g"
  shows "w \<in> set (succs g i) \<longleftrightarrow>
    (\<exists>j. outStart g ! i \<le> j \<and> j < outStart g ! Suc i \<and> w = outs g ! nat j)"
proof -
  have b: "0 \<le> outStart g ! i" "outStart g ! i \<le> outStart g ! Suc i"
      "outStart g ! Suc i \<le> int (length (outs g))"
    using csr_bounds [of "Len g" "outStart g" "outs g" i] assms by (auto simp: wf_graph_def)
  let ?a = "nat (outStart g ! i)" and ?n = "nat (outStart g ! Suc i - outStart g ! i)"
  have len: "length (succs g i) = ?n" using b by (simp add: succs_def csr_row_def)
  have nth: "succs g i ! k = outs g ! (?a + k)" if "k < ?n" for k
    using that b by (simp add: succs_def csr_row_def)
  show ?thesis
  proof
    assume "w \<in> set (succs g i)"
    then obtain k where "k < ?n" "w = outs g ! (?a + k)"
      using nth len by (metis in_set_conv_nth)
    with b show "\<exists>j. outStart g ! i \<le> j \<and> j < outStart g ! Suc i \<and> w = outs g ! nat j"
      by (intro exI [of _ "outStart g ! i + int k"]) (auto simp: nat_add_distrib)
  next
    assume "\<exists>j. outStart g ! i \<le> j \<and> j < outStart g ! Suc i \<and> w = outs g ! nat j"
    then obtain j where j: "outStart g ! i \<le> j" "j < outStart g ! Suc i" "w = outs g ! nat j" by blast
    have "?a + nat (j - outStart g ! i) = nat j" "nat (j - outStart g ! i) < ?n" using j b by auto
    with nth [of "nat (j - outStart g ! i)"] j len show "w \<in> set (succs g i)"
      by (metis nth_mem)
  qed
qed

lemma dfs_inv_init: "dfs_inv g (dfs_init g)"
  by (auto simp: dfs_inv_def dfs_init_def inv_num_def inv_tree_def inv_stack_def inv_edges_def
      active_def ancestor_of_def)

lemma active_pos:
  assumes "inv_stack g st" and "d \<in> set (active st)"
  shows "0 < d"
  using assms by (auto simp: inv_stack_def active_def inv_frame_def)

lemma active_less:
  assumes "inv_num g st" and "inv_stack g st" and "d \<in> set (active st)"
  shows "d < length (vertex st)"
proof -
  obtain v nxt where "(v, nxt) \<in> set (stack st)" "d = nat (dfnum st ! nat v)"
    using assms(3) by (auto simp: active_def)
  moreover from this have "nat v < Len g" "0 < dfnum st ! nat v"
    using assms(2) by (auto simp: inv_stack_def inv_frame_def)
  ultimately show ?thesis using assms(1) by (force simp: inv_num_def)
qed

lemma dfs_inv_pop:
  assumes "wf_graph g" and "dfs_inv g st" and "stack st = (v, outStart g ! Suc (nat v)) # rest"
  shows "dfs_inv g (st \<lparr> stack := rest \<rparr>)"
proof -
  let ?st' = "st \<lparr> stack := rest \<rparr>"
  let ?d = "nat (dfnum st ! nat v)"
  have act: "active st = ?d # active ?st'" by (simp add: active_def assms(3))
  have f: "inv_frame g (dfnum st) (v, outStart g ! Suc (nat v))"
    using assms(2,3) by (simp add: dfs_inv_def inv_stack_def)
  then have v: "nat v < Len g" "0 \<le> v" "0 < dfnum st ! nat v" by (auto simp: inv_frame_def)
  have "vertex st ! ?d = v" using assms(2) v by (force simp: dfs_inv_def inv_num_def)
  moreover have "0 \<le> dfnum st ! nat w" if "w \<in> set (succs g (nat v))" for w
    using that f mem_succs [OF assms(1) v(1), of w] by (auto simp: inv_frame_def)
  ultimately have "inv_edges g ?st'"
    using assms(2) by (auto simp: dfs_inv_def inv_edges_def act)
  moreover have "inv_stack g ?st'"
    unfolding inv_stack_def
  proof (intro conjI allI impI ballI)
    fix i u assume "i < length (active ?st')"
    then have "Suc i < length (active st)" by (simp add: act)
    then have "tree_anc st u (active st ! Suc i) \<longleftrightarrow> u = 0 \<or> u \<in> set (drop (Suc i) (active st))"
      using assms(2) unfolding dfs_inv_def inv_stack_def by blast
    then show "tree_anc ?st' u (active ?st' ! i) \<longleftrightarrow> u = 0 \<or> u \<in> set (drop i (active ?st'))"
      by (simp add: act)
  qed (use assms(2,3) act in \<open>auto simp: dfs_inv_def inv_stack_def\<close>)
  ultimately show ?thesis using assms(2) by (simp add: dfs_inv_def)
qed

lemma dfs_inv_advance:
  assumes "dfs_inv g st" and "stack st = pre @ (v, nxt) # rest" and "nxt < outStart g ! Suc (nat v)"
    and "0 \<le> dfnum st ! nat (outs g ! nat nxt)"
  shows "dfs_inv g (st \<lparr> stack := pre @ (v, nxt + 1) # rest \<rparr>)"
proof -
  let ?st' = "st \<lparr> stack := pre @ (v, nxt + 1) # rest \<rparr>"
  have act: "active ?st' = active st" by (simp add: active_def assms(2))
  have "inv_frame g (dfnum st) (v, nxt)" using assms(1,2) by (simp add: dfs_inv_def inv_stack_def)
  then have "inv_frame g (dfnum st) (v, nxt + 1)"
    using assms(3,4) unfolding inv_frame_def prod.case zless_add1_eq by auto
  then have "inv_stack g ?st'"
    using assms(1,2) unfolding dfs_inv_def inv_stack_def act by auto
  moreover have "inv_edges g ?st'"
    using assms(1) unfolding dfs_inv_def inv_edges_def act by simp
  ultimately show ?thesis using assms(1) by (simp add: dfs_inv_def)
qed
text \<open>Numbering one more object, below the top frame or, with an empty stack, below the super-root.\<close>

definition visit_allowed :: "ObjectGraph \<Rightarrow> dfsState \<Rightarrow> int \<Rightarrow> int \<Rightarrow> bool" where
  "visit_allowed g st w from \<longleftrightarrow>
     0 \<le> w \<and> nat w < Len g \<and> dfnum st ! nat w = -1 \<and>
     (case stack st of
        [] \<Rightarrow> from = 0 \<and> w \<in> set (roots g)
      | (v, _) # _ \<Rightarrow> from = dfnum st ! nat v \<and> w \<in> set (succs g (nat v)))"

definition visited :: "ObjectGraph \<Rightarrow> int \<Rightarrow> int \<Rightarrow> dfsState \<Rightarrow> dfsState" where
  "visited g w from st =
     st \<lparr> dfnum := (dfnum st)[nat w := int (length (vertex st))], vertex := vertex st @ [w],
          parent := parent st @ [from], stack := (w, outStart g ! nat w) # stack st \<rparr>"

lemma visited_fields:
  "vertex (visited g w from st) = vertex st @ [w]" "parent (visited g w from st) = parent st @ [from]"
  "dfnum (visited g w from st) = (dfnum st)[nat w := int (length (vertex st))]"
  by (simp_all add: visited_def)

lemma visit_eq:
  assumes "wf_graph g" and "inv_num g st" and "visit_allowed g st w from"
  shows "visit g w from st = Inr (visited g w from st)"
  using assms by (auto simp: visit_def visited_def visit_allowed_def inv_num_def wf_graph_def csr_ok_def)

lemma tree_anc_root:
  assumes "inv_tree g st" and "x < length (vertex st)"
  shows "tree_anc st 0 x"
  using assms(2)
proof (induction x rule: less_induct)
  case (less x)
  show ?case
  proof (cases "x = 0")
    case False
    then have "par_of (parent st) x < x"
      using assms(1) less.prems by (simp add: inv_tree_def par_of_def)
    with less False show ?thesis
      using ancestor_of_unfold [of "length (vertex st)" "par_of (parent st)" 0 x] by simp
  qed (simp add: ancestor_of_def)
qed

lemma visit_parent:
  assumes "dfs_inv g st" and "visit_allowed g st w from"
  shows "0 \<le> from" and "nat from < length (vertex st)"
    and "\<And>u. tree_anc st u (nat from) \<longleftrightarrow> u = 0 \<or> u \<in> set (active st)"
    and "if from = 0 then w \<in> set (roots g) else w \<in> set (succs g (nat (vertex st ! nat from)))"
proof -
  have num: "inv_num g st" and stk: "inv_stack g st" using assms(1) by (auto simp: dfs_inv_def)
  show "0 \<le> from" and "nat from < length (vertex st)"
    and "\<And>u. tree_anc st u (nat from) \<longleftrightarrow> u = 0 \<or> u \<in> set (active st)"
    and "if from = 0 then w \<in> set (roots g) else w \<in> set (succs g (nat (vertex st ! nat from)))"
  proof (atomize (full), cases "stack st")
    case Nil
    then have "from = 0" "w \<in> set (roots g)" "active st = []"
      using assms(2) by (auto simp: visit_allowed_def active_def)
    then show "(0 \<le> from \<and> nat from < length (vertex st)) \<and>
      (\<forall>u. tree_anc st u (nat from) \<longleftrightarrow> u = 0 \<or> u \<in> set (active st)) \<and>
      (if from = 0 then w \<in> set (roots g) else w \<in> set (succs g (nat (vertex st ! nat from))))"
      using num ancestor_of_unfold [of "length (vertex st)" "par_of (parent st)" _ 0]
      by (auto simp: inv_num_def)
  next
    case (Cons f rest)
    obtain v nxt where f: "f = (v, nxt)" by (cases f)
    have frm: "from = dfnum st ! nat v" "w \<in> set (succs g (nat v))"
      using assms(2) by (auto simp: visit_allowed_def Cons f)
    have v: "0 \<le> v" "nat v < Len g" "0 < dfnum st ! nat v"
      using stk by (auto simp: inv_stack_def inv_frame_def Cons f)
    then have n: "nat from < length (vertex st)" "vertex st ! nat from = v"
      using num frm(1) by (force simp: inv_num_def)+
    have act: "active st = nat from # active (st \<lparr> stack := rest \<rparr>)"
      by (simp add: active_def Cons f frm(1))
    have "tree_anc st u (nat from) \<longleftrightarrow> u = 0 \<or> u \<in> set (active st)" for u
      using stk unfolding inv_stack_def by (metis act drop_0 length_greater_0_conv list.distinct(1) nth_Cons_0)
    with n frm v show "(0 \<le> from \<and> nat from < length (vertex st)) \<and>
      (\<forall>u. tree_anc st u (nat from) \<longleftrightarrow> u = 0 \<or> u \<in> set (active st)) \<and>
      (if from = 0 then w \<in> set (roots g) else w \<in> set (succs g (nat (vertex st ! nat from))))"
      by simp
  qed
qed

lemma visited_anc:
  assumes "dfs_inv g st" and "visit_allowed g st w from"
  shows "v < length (vertex st) \<Longrightarrow> tree_anc (visited g w from st) u v \<longleftrightarrow> tree_anc st u v"
    and "tree_anc (visited g w from st) u (length (vertex st)) \<longleftrightarrow>
      u = length (vertex st) \<or> u = 0 \<or> u \<in> set (active st)"
proof -
  let ?k = "length (vertex st)" and ?par = "par_of (parent st)" and ?par' = "par_of (parent st @ [from])"
  have len: "length (parent st) = ?k" "0 < ?k" using assms(1) by (auto simp: dfs_inv_def inv_num_def)
  have less: "\<And>d. 0 < d \<Longrightarrow> d < ?k \<Longrightarrow> ?par d < d"
    using assms(1) by (simp add: dfs_inv_def inv_tree_def par_of_def)
  have eq: "\<And>d. d < ?k \<Longrightarrow> ?par' d = ?par d" by (simp add: par_of_def nth_append len)
  have k: "?par' ?k = nat from" by (simp add: par_of_def nth_append len)
  show "tree_anc (visited g w from st) u v \<longleftrightarrow> tree_anc st u v" if "v < ?k"
    using ancestor_of_extend [OF less eq that, of u] by (simp add: visited_def)
  show "tree_anc (visited g w from st) u ?k \<longleftrightarrow> u = ?k \<or> u = 0 \<or> u \<in> set (active st)"
    using ancestor_of_new [OF less eq len(2), of u] visit_parent(2,3) [OF assms]
    by (simp add: visited_def k)
qed

lemma visited_active:
  assumes "dfs_inv g st" and "visit_allowed g st w from"
  shows "active (visited g w from st) = length (vertex st) # active st"
proof -
  have "(dfnum st)[nat w := int (length (vertex st))] ! nat v = dfnum st ! nat v"
    if "(v, nxt) \<in> set (stack st)" for v nxt
    using that assms
    by (auto simp: dfs_inv_def inv_stack_def inv_frame_def visit_allowed_def intro!: nth_list_update_neq)
  moreover have "nat w < length (dfnum st)"
    using assms by (simp add: dfs_inv_def inv_num_def visit_allowed_def)
  ultimately show ?thesis by (auto simp: active_def visited_def)
qed

lemma visited_num:
  assumes "dfs_inv g st" and "visit_allowed g st w from"
  shows "inv_num g (visited g w from st)"
proof -
  let ?k = "length (vertex st)"
  have w: "0 \<le> w" "nat w < length (dfnum st)" "dfnum st ! nat w = -1" "length (dfnum st) = Len g"
    using assms by (auto simp: dfs_inv_def inv_num_def visit_allowed_def)
  have old: "0 \<le> vertex st ! d \<and> nat (vertex st ! d) < Len g \<and> dfnum st ! nat (vertex st ! d) = int d"
    if "0 < d" "d < ?k" for d
    using assms(1) that by (simp add: dfs_inv_def inv_num_def)
  have new: "(dfnum st)[nat w := int ?k] ! nat (vertex st ! d) = int d" if "0 < d" "d < ?k" for d
    using old [OF that] w(3) by (subst nth_list_update_neq) auto
  have "(dfnum st)[nat w := int ?k] ! i = -1 \<or>
      0 < (dfnum st)[nat w := int ?k] ! i \<and> nat ((dfnum st)[nat w := int ?k] ! i) < Suc ?k \<and>
      (vertex st @ [w]) ! nat ((dfnum st)[nat w := int ?k] ! i) = int i" if "i < Len g" for i
  proof (cases "i = nat w")
    case True
    with w assms(1) show ?thesis by (auto simp: dfs_inv_def inv_num_def)
  next
    case False
    then have "(dfnum st)[nat w := int ?k] ! i = dfnum st ! i" by simp
    with that assms(1) show ?thesis by (auto simp: dfs_inv_def inv_num_def nth_append)
  qed
  then show ?thesis
    using assms(1) w old new unfolding dfs_inv_def inv_num_def visited_def
    by (auto simp: nth_append less_Suc_eq)
qed

lemma visited_tree:
  assumes "dfs_inv g st" and "visit_allowed g st w from"
  shows "inv_tree g (visited g w from st)"
  unfolding inv_tree_def
proof (intro conjI allI impI)
  let ?st' = "visited g w from st" and ?k = "length (vertex st)"
  have len: "length (parent st) = ?k" "length (vertex ?st') = Suc ?k"
    using assms(1) by (auto simp: dfs_inv_def inv_num_def visited_def)
  note p = visit_parent [OF assms]
  fix d assume d: "0 < d \<and> d < length (vertex ?st')"
  show "0 \<le> parent ?st' ! d" and "nat (parent ?st' ! d) < d"
    and "if parent ?st' ! d = 0 then vertex ?st' ! d \<in> set (roots g)
      else vertex ?st' ! d \<in> set (succs g (nat (vertex ?st' ! nat (parent ?st' ! d))))"
    using d p assms(1) len
    by (cases "d = ?k", auto simp: visited_def nth_append dfs_inv_def inv_tree_def)+
next
  let ?st' = "visited g w from st" and ?k = "length (vertex st)"
  have tree: "inv_tree g st" using assms(1) by (simp add: dfs_inv_def)
  fix u v x assume a: "tree_anc ?st' u v \<and> v < length (vertex ?st') \<and> u \<le> x \<and> x \<le> v"
  then have vk: "v < ?k \<or> v = ?k" by (auto simp: visited_def)
  show "tree_anc ?st' u x"
  proof (cases "x = ?k")
    case True
    with a vk show ?thesis by auto
  next
    case False
    with a vk have x: "x < ?k" by auto
    have "tree_anc st u x"
    proof (cases "v = ?k")
      case True
      then have "u = 0 \<or> u \<in> set (active st)" using a x visited_anc(2) [OF assms, of u] by auto
      then show ?thesis
        using tree_anc_root [OF tree x] assms(1) a x by (auto simp: dfs_inv_def inv_stack_def)
    next
      case False
      then have v: "v < ?k" using vk by simp
      then have "tree_anc st u v" using visited_anc(1) [OF assms v] a by simp
      then show ?thesis using tree a v unfolding inv_tree_def by blast
    qed
    then show ?thesis using visited_anc(1) [OF assms x] by simp
  qed
qed
lemma visited_stack:
  assumes "wf_graph g" and "dfs_inv g st" and "visit_allowed g st w from"
  shows "inv_stack g (visited g w from st)"
  unfolding inv_stack_def
proof (intro conjI allI impI ballI)
  let ?st' = "visited g w from st" and ?k = "length (vertex st)"
  have w: "0 \<le> w" "nat w < length (dfnum st)" "length (dfnum st) = Len g" "0 < ?k"
    using assms by (auto simp: dfs_inv_def inv_num_def visit_allowed_def)
  have mono: "0 \<le> (dfnum st)[nat w := int ?k] ! i" if "0 \<le> dfnum st ! i" for i
    using that w by (cases "i = nat w") auto
  have pos: "0 < (dfnum st)[nat w := int ?k] ! i" if "0 < dfnum st ! i" for i
    using that w by (cases "i = nat w") auto
  fix f assume f: "f \<in> set (stack ?st')"
  show "inv_frame g (dfnum ?st') f"
  proof (cases "f = (w, outStart g ! nat w)")
    case True
    have "outStart g ! nat w \<le> outStart g ! Suc (nat w)"
      using csr_bounds(2) [of "Len g" "outStart g" "outs g" "nat w"] assms(1) w
      by (simp add: wf_graph_def)
    with w show ?thesis by (auto simp: inv_frame_def True visited_def)
  next
    case False
    then have "inv_frame g (dfnum st) f"
      using f assms(2) by (auto simp: visited_def dfs_inv_def inv_stack_def)
    then show ?thesis using mono pos by (auto simp: inv_frame_def visited_def)
  qed
next
  let ?st' = "visited g w from st" and ?k = "length (vertex st)"
  fix i u assume i: "i < length (active ?st')"
  show "tree_anc ?st' u (active ?st' ! i) \<longleftrightarrow> u = 0 \<or> u \<in> set (drop i (active ?st'))"
  proof (cases i)
    case 0
    then show ?thesis using visited_anc(2) [OF assms(2,3)] by (auto simp: visited_active [OF assms(2,3)])
  next
    case (Suc j)
    then have j: "j < length (active st)" using i by (simp add: visited_active [OF assms(2,3)])
    then have "active st ! j < ?k"
      using active_less [of g st] assms(2) by (simp add: dfs_inv_def)
    then have "tree_anc ?st' u (active st ! j) \<longleftrightarrow> tree_anc st u (active st ! j)"
      by (rule visited_anc(1) [OF assms(2,3)])
    also have "\<dots> \<longleftrightarrow> u = 0 \<or> u \<in> set (drop j (active st))"
      using assms(2) j unfolding dfs_inv_def inv_stack_def by blast
    finally show ?thesis using Suc by (simp add: visited_active [OF assms(2,3)])
  qed
next
  let ?st' = "visited g w from st" and ?k = "length (vertex st)"
  fix d x assume d: "d \<in> set (active ?st')" and x: "d \<le> x \<and> x < length (vertex ?st')"
  have "x < ?k \<or> x = ?k" using x by (auto simp: visited_def)
  then show "tree_anc ?st' d x"
  proof
    assume "x = ?k"
    then show ?thesis using d visited_anc(2) [OF assms(2,3), of d] by (auto simp: visited_active [OF assms(2,3)])
  next
    assume xk: "x < ?k"
    then have "d \<in> set (active st)" using d x by (auto simp: visited_active [OF assms(2,3)])
    then have "tree_anc st d x" using assms(2) x xk unfolding dfs_inv_def inv_stack_def by blast
    then show ?thesis using visited_anc(1) [OF assms(2,3) xk] by simp
  qed
qed

lemma num_less:
  "inv_num g st \<Longrightarrow> i < Len g \<Longrightarrow> dfnum st ! i < int (length (vertex st))"
  by (force simp: inv_num_def)

lemma visited_edges:
  assumes "wf_graph g" and "dfs_inv g st" and "visit_allowed g st w from"
  shows "inv_edges g (visited g w from st)"
  unfolding inv_edges_def
proof (intro conjI allI impI ballI)
  let ?st' = "visited g w from st" and ?k = "length (vertex st)"
  have w: "0 \<le> w" "nat w < length (dfnum st)" "length (dfnum st) = Len g"
    using assms by (auto simp: dfs_inv_def inv_num_def visit_allowed_def)
  fix d t assume d: "0 < d \<and> d < length (vertex ?st') \<and> d \<notin> set (active ?st')"
    and t: "t \<in> set (succs g (nat (vertex ?st' ! d)))"
  then have "d < ?k" "d \<notin> set (active st)"
    by (auto simp: visited_active [OF assms(2,3)] visited_fields)
  with d t have "0 \<le> dfnum st ! nat t"
    using assms(2) by (auto simp: dfs_inv_def inv_edges_def visited_fields nth_append)
  then show "0 \<le> dfnum ?st' ! nat t" using w by (cases "nat t = nat w") (auto simp: visited_def)
next
  let ?st' = "visited g w from st" and ?k = "length (vertex st)"
  have w: "0 \<le> w" "nat w < length (dfnum st)" "length (dfnum st) = Len g" "dfnum st ! nat w = -1"
    and num: "inv_num g st" and edges: "inv_edges g st"
    using assms by (auto simp: dfs_inv_def inv_num_def visit_allowed_def)
  fix d t assume d: "0 < d \<and> d < length (vertex ?st')"
    and t: "t \<in> set (succs g (nat (vertex ?st' ! d)))" and less: "int d < dfnum ?st' ! nat t"
  have tn: "nat t < Len g" using succs_in [OF assms(1) t] by simp
  show "tree_anc ?st' d (nat (dfnum ?st' ! nat t))"
  proof (cases "nat t = nat w")
    case True
    then have k: "dfnum ?st' ! nat t = int ?k" using w by (simp add: visited_def)
    then have dk: "d < ?k" using less by simp
    have "d \<in> set (active st)"
    proof (rule ccontr)
      assume "d \<notin> set (active st)"
      then have "0 \<le> dfnum st ! nat t"
        using edges d t dk by (auto simp: inv_edges_def visited_fields nth_append)
      with True w show False by simp
    qed
    then show ?thesis using visited_anc(2) [OF assms(2,3)] by (simp add: k)
  next
    case False
    then have same: "dfnum ?st' ! nat t = dfnum st ! nat t" by (simp add: visited_def)
    have "dfnum st ! nat t < int ?k" using num tn by (rule num_less)
    then have dk: "d < ?k" "nat (dfnum st ! nat t) < ?k" using less same by auto
    then have "tree_anc st d (nat (dfnum st ! nat t))"
      using edges d t less same by (auto simp: inv_edges_def visited_fields nth_append)
    then show ?thesis using visited_anc(1) [OF assms(2,3) dk(2)] by (simp add: same)
  qed
qed

lemma dfs_inv_visited:
  "wf_graph g \<Longrightarrow> dfs_inv g st \<Longrightarrow> visit_allowed g st w from \<Longrightarrow> dfs_inv g (visited g w from st)"
  unfolding dfs_inv_def [of g "visited g w from st"]
  by (intro conjI visited_num visited_tree visited_stack visited_edges)

subsection \<open>The loops\<close>

text \<open>A step keeps the invariant and never forgets a number.\<close>

definition extends :: "dfsState \<Rightarrow> dfsState \<Rightarrow> bool" where
  "extends st st' \<longleftrightarrow> (\<forall>i. 0 \<le> dfnum st ! i \<longrightarrow> 0 \<le> dfnum st' ! i)"

lemma extends_refl [simp]: "extends st st"
  by (simp add: extends_def)

lemma extends_trans: "extends st st' \<Longrightarrow> extends st' st'' \<Longrightarrow> extends st st''"
  by (simp add: extends_def)

lemma extends_visited:
  assumes "inv_num g st" and "visit_allowed g st w from"
  shows "extends st (visited g w from st)" and "0 \<le> dfnum (visited g w from st) ! nat w"
proof -
  have "nat w < length (dfnum st)" using assms by (simp add: inv_num_def visit_allowed_def)
  then show "0 \<le> dfnum (visited g w from st) ! nat w" by (simp add: visited_def)
  show "extends st (visited g w from st)"
    unfolding extends_def
  proof (intro allI impI)
    fix i assume "0 \<le> dfnum st ! i"
    then show "0 \<le> dfnum (visited g w from st) ! i"
      using \<open>nat w < length (dfnum st)\<close> by (cases "i = nat w") (auto simp: visited_def)
  qed
qed

lemma dfs_step_spec:
  assumes "wf_graph g" and "dfs_inv g st" and "stack st \<noteq> []"
  shows "returns (dfs_step g st) (\<lambda>st'. dfs_inv g st' \<and> extends st st')"
proof -
  obtain v nxt rest where s: "stack st = (v, nxt) # rest" using assms(3) by (cases "stack st") auto
  have num: "inv_num g st" using assms(2) by (simp add: dfs_inv_def)
  have f: "0 \<le> v" "nat v < Len g" "0 < dfnum st ! nat v" "outStart g ! nat v \<le> nxt"
      "nxt \<le> outStart g ! Suc (nat v)"
    using assms(2) by (auto simp: dfs_inv_def inv_stack_def inv_frame_def s)
  have b: "0 \<le> outStart g ! nat v" "outStart g ! Suc (nat v) \<le> int (length (outs g))"
      "length (outStart g) = Suc (Len g)"
    using csr_bounds [of "Len g" "outStart g" "outs g" "nat v"] assms(1) f
    by (auto simp: wf_graph_def csr_ok_def)
  have e: "idx (outStart g) (v + 1) = (Inr (outStart g ! Suc (nat v)) :: (herr, int) go)"
    using f b by (simp add: nat_add_distrib)
  show ?thesis
  proof (cases "nxt = outStart g ! Suc (nat v)")
    case True
    then have "dfs_step g st = Inr (st \<lparr> stack := rest \<rparr>)" by (simp add: dfs_step_def s e)
    then show ?thesis
      using dfs_inv_pop [OF assms(1,2), of v rest] s True by (simp add: extends_def)
  next
    case False
    then have lt: "nxt < outStart g ! Suc (nat v)" using f by simp
    define w where "w = outs g ! nat nxt"
    have iw: "idx (outs g) nxt = (Inr w :: (herr, int) go)" using lt f b by (simp add: w_def)
    have "w \<in> set (succs g (nat v))" using mem_succs [OF assms(1) f(2)] f(4) lt w_def by blast
    then have w: "0 \<le> w" "nat w < Len g" using succs_in [OF assms(1)] by auto
    have idw: "idx (dfnum st) w = (Inr (dfnum st ! nat w) :: (herr, int) go)"
      and idv: "idx (dfnum st) v = (Inr (dfnum st ! nat v) :: (herr, int) go)"
      using w f num by (auto simp: inv_num_def)
    let ?st1 = "st \<lparr> stack := (v, nxt + 1) # rest \<rparr>"
    show ?thesis
    proof (cases "dfnum st ! nat w < 0")
      case neg: True
      let ?from = "dfnum st ! nat v"
      have "dfnum st ! nat w = -1" using neg num w by (force simp: inv_num_def)
      then have ok: "visit_allowed g st w ?from"
        using w \<open>w \<in> set (succs g (nat v))\<close> by (simp add: visit_allowed_def s)
      have "visit_allowed g ?st1 w ?from" using ok by (simp add: visit_allowed_def s)
      then have "dfs_step g st = Inr (visited g w ?from ?st1)"
        using visit_eq [OF assms(1), of ?st1 w ?from] num False neg
        by (simp add: dfs_step_def s e iw idw idv)
      moreover have "visited g w ?from ?st1 =
          visited g w ?from st \<lparr> stack := [(w, outStart g ! nat w)] @ (v, nxt + 1) # rest \<rparr>"
        by (simp add: visited_def)
      moreover have "dfs_inv g (visited g w ?from st \<lparr> stack := [(w, outStart g ! nat w)] @ (v, nxt + 1) # rest \<rparr>)"
        using extends_visited(2) [OF num ok] lt
        by (intro dfs_inv_advance [OF dfs_inv_visited [OF assms(1,2) ok]])
          (auto simp: w_def, simp add: visited_def s)
      ultimately show ?thesis using extends_visited(1) [OF num ok] by (simp add: extends_def)
    next
      case pos: False
      then have "dfs_step g st = Inr ?st1" using False by (simp add: dfs_step_def s e iw idw)
      moreover have "dfs_inv g ?st1"
        using dfs_inv_advance [OF assms(2), of "[]" v nxt rest] s lt pos by (simp add: w_def)
      ultimately show ?thesis by (simp add: extends_def)
    qed
  qed
qed

lemma dfs_loop_spec:
  assumes "wf_graph g" and "dfs_inv g st"
  shows "returns (dfs_loop g st) (\<lambda>st'. dfs_inv g st' \<and> stack st' = [] \<and> extends st st')"
  using assms
proof (induction g st rule: dfs_loop.induct)
  case (1 g st)
  show ?case
  proof (cases "stack st = []")
    case True
    then show ?thesis using 1 by (simp add: dfs_loop.simps [of g st])
  next
    case False
    obtain st' where st': "dfs_step g st = Inr st'" "dfs_inv g st'" "extends st st'"
      using dfs_step_spec [OF 1(2,3) False] by (auto elim!: returnsE)
    from 1(1) [OF False st'(1) 1(2) st'(2)] show ?thesis
      using False st' by (auto simp: dfs_loop.simps [of g st] elim!: returns_mono intro: extends_trans)
  qed
qed
lemma dfs_root_spec:
  assumes "wf_graph g" and "dfs_inv g st" and "stack st = []" and "r \<in> set (roots g)"
  shows "returns (dfs_root g r st)
    (\<lambda>st'. dfs_inv g st' \<and> stack st' = [] \<and> extends st st' \<and> 0 \<le> dfnum st' ! nat r)"
proof -
  have num: "inv_num g st" using assms(2) by (simp add: dfs_inv_def)
  have r: "0 \<le> r" "nat r < Len g" using assms(1,4) by (auto simp: wf_graph_def)
  then have i: "idx (dfnum st) r = (Inr (dfnum st ! nat r) :: (herr, int) go)"
    using num by (auto simp: inv_num_def)
  show ?thesis
  proof (cases "dfnum st ! nat r \<ge> 0")
    case True
    then show ?thesis using assms by (simp add: dfs_root_def i)
  next
    case False
    then have "dfnum st ! nat r = -1" using num r by (force simp: inv_num_def)
    then have ok: "visit_allowed g st r 0" using r assms(3,4) by (simp add: visit_allowed_def)
    let ?st1 = "visited g r 0 st"
    have "dfs_root g r st = dfs_loop g ?st1"
      using False by (simp add: dfs_root_def i visit_eq [OF assms(1) num ok])
    moreover have "returns (dfs_loop g ?st1) (\<lambda>st'. dfs_inv g st' \<and> stack st' = [] \<and> extends ?st1 st')"
      by (rule dfs_loop_spec [OF assms(1) dfs_inv_visited [OF assms(1,2) ok]])
    ultimately show ?thesis
      using extends_visited [OF num ok] by (auto simp: extends_def elim!: returns_mono)
  qed
qed

definition preorder_ok :: "ObjectGraph \<Rightarrow> int list \<Rightarrow> int list \<Rightarrow> int list \<Rightarrow> bool" where
  "preorder_ok g dn vx pr \<longleftrightarrow>
     dfs_inv g \<lparr> dfnum = dn, vertex = vx, parent = pr, stack = [] \<rparr> \<and>
     (\<forall>r \<in> set (roots g). 0 \<le> dn ! nat r)"

lemma dfsPreorder_spec:
  assumes "wf_graph g"
  shows "returns (dfsPreorder g) (\<lambda>(dn, vx, pr). preorder_ok g dn vx pr)"
proof -
  have "returns (gfold (dfs_root g) (roots g) (dfs_init g))
      (\<lambda>st. dfs_inv g st \<and> stack st = [] \<and> (\<forall>r \<in> set (roots g). 0 \<le> dfnum st ! nat r))"
  proof (rule returns_gfold [where I = "\<lambda>pre st. dfs_inv g st \<and> stack st = [] \<and>
      (\<forall>r \<in> set pre. 0 \<le> dfnum st ! nat r)"])
    show "dfs_inv g (dfs_init g) \<and> stack (dfs_init g) = [] \<and> (\<forall>r\<in>set []. 0 \<le> dfnum (dfs_init g) ! nat r)"
      by (simp add: dfs_inv_init) (simp add: dfs_init_def)
  next
    fix pre r post st
    assume "roots g = pre @ r # post"
      and "dfs_inv g st \<and> stack st = [] \<and> (\<forall>r\<in>set pre. 0 \<le> dfnum st ! nat r)"
    then show "returns (dfs_root g r st) (\<lambda>st. dfs_inv g st \<and> stack st = [] \<and>
        (\<forall>r\<in>set (pre @ [r]). 0 \<le> dfnum st ! nat r))"
      using dfs_root_spec [OF assms, of st r] by (auto simp: extends_def elim!: returns_mono)
  qed
  then obtain st where "gfold (dfs_root g) (roots g) (dfs_init g) = Inr st"
    "dfs_inv g st" "stack st = []" "\<forall>r \<in> set (roots g). 0 \<le> dfnum st ! nat r"
    by (auto elim!: returnsE)
  then show ?thesis by (cases st) (simp add: dfsPreorder_def preorder_ok_def)
qed

subsection \<open>The numbered graph\<close>

definition num_edges :: "ObjectGraph \<Rightarrow> int list \<Rightarrow> int list \<Rightarrow> (nat \<times> nat) set" where
  "num_edges g dn vx =
     {(d, nat (dn ! nat t)) | d t. 0 < d \<and> d < length vx \<and> t \<in> set (succs g (nat (vx ! d)))} \<union>
     {(0, nat (dn ! nat r)) | r. r \<in> set (roots g)}"

lemma preorder_facts:
  assumes "preorder_ok g dn vx pr"
  shows "length dn = Len g" and "length pr = length vx" and "0 < length vx"
    and "\<And>d. 0 < d \<Longrightarrow> d < length vx \<Longrightarrow> 0 \<le> vx ! d \<and> nat (vx ! d) < Len g \<and> dn ! nat (vx ! d) = int d"
    and "\<And>i. i < Len g \<Longrightarrow> 0 \<le> dn ! i \<Longrightarrow>
      0 < dn ! i \<and> nat (dn ! i) < length vx \<and> vx ! nat (dn ! i) = int i"
    and "\<And>d. 0 < d \<Longrightarrow> d < length vx \<Longrightarrow> 0 \<le> pr ! d \<and> par_of pr d < d"
    and "\<And>d t. 0 < d \<Longrightarrow> d < length vx \<Longrightarrow> t \<in> set (succs g (nat (vx ! d))) \<Longrightarrow> 0 \<le> dn ! nat t"
    and "\<And>r. r \<in> set (roots g) \<Longrightarrow> 0 \<le> dn ! nat r"
proof -
  let ?st = "\<lparr> dfnum = dn, vertex = vx, parent = pr, stack = [] \<rparr>"
  have N: "inv_num g ?st" and T: "inv_tree g ?st" and E: "inv_edges g ?st"
    and R: "\<forall>r \<in> set (roots g). 0 \<le> dn ! nat r"
    using assms by (auto simp: preorder_ok_def dfs_inv_def)
  show "length dn = Len g" and "length pr = length vx" and "0 < length vx"
    using N by (auto simp: inv_num_def)
  show "0 \<le> vx ! d \<and> nat (vx ! d) < Len g \<and> dn ! nat (vx ! d) = int d"
    if "0 < d" "d < length vx" for d
    using N that by (simp add: inv_num_def)
  show "0 < dn ! i \<and> nat (dn ! i) < length vx \<and> vx ! nat (dn ! i) = int i"
    if "i < Len g" "0 \<le> dn ! i" for i
    using N that by (auto simp: inv_num_def)
  show "0 \<le> pr ! d \<and> par_of pr d < d" if "0 < d" "d < length vx" for d
    using T that by (simp add: inv_tree_def par_of_def)
  show "0 \<le> dn ! nat t" if "0 < d" "d < length vx" "t \<in> set (succs g (nat (vx ! d)))" for d t
    using E that by (auto simp: inv_edges_def active_def)
  show "0 \<le> dn ! nat r" if "r \<in> set (roots g)" for r using R that by simp
qed

lemma preorder_par_edge:
  assumes "preorder_ok g dn vx pr" and "0 < d" and "d < length vx"
  shows "(par_of pr d, d) \<in> num_edges g dn vx"
proof -
  have d: "dn ! nat (vx ! d) = int d" using preorder_facts(4) [OF assms] by simp
  have p: "0 \<le> pr ! d" "par_of pr d < d" using preorder_facts(6) [OF assms] by auto
  have e: "if pr ! d = 0 then vx ! d \<in> set (roots g) else vx ! d \<in> set (succs g (nat (vx ! par_of pr d)))"
    using assms by (auto simp: preorder_ok_def dfs_inv_def inv_tree_def par_of_def)
  show ?thesis
  proof (cases "pr ! d = 0")
    case True
    with e have "(0, nat (dn ! nat (vx ! d))) \<in> num_edges g dn vx" by (auto simp: num_edges_def)
    with True d show ?thesis by (simp add: par_of_def)
  next
    case False
    then have "0 < par_of pr d" "par_of pr d < length vx" using p assms by (auto simp: par_of_def)
    with e False have "(par_of pr d, nat (dn ! nat (vx ! d))) \<in> num_edges g dn vx"
      by (auto simp: num_edges_def)
    with d show ?thesis by simp
  qed
qed

lemma num_edges_head:
  assumes "wf_graph g" and "preorder_ok g dn vx pr" and "(u, v) \<in> num_edges g dn vx"
  shows "0 < v" and "v < length vx"
proof -
  note f = preorder_facts [OF assms(2)]
  obtain t where "v = nat (dn ! nat t)" "nat t < Len g" "0 \<le> dn ! nat t"
    using assms(3) unfolding num_edges_def
  proof
    assume "(u, v) \<in> {(d, nat (dn ! nat t)) |d t. 0 < d \<and> d < length vx \<and> t \<in> set (succs g (nat (vx ! d)))}"
    then obtain t where "v = nat (dn ! nat t)" "0 < u" "u < length vx" "t \<in> set (succs g (nat (vx ! u)))"
      by auto
    then show ?thesis using that f(7) succs_in [OF assms(1)] by blast
  next
    assume "(u, v) \<in> {(0, nat (dn ! nat r)) |r. r \<in> set (roots g)}"
    then obtain r where "v = nat (dn ! nat r)" "r \<in> set (roots g)" by auto
    then show ?thesis using that f(8) assms(1) by (auto simp: wf_graph_def)
  qed
  then show "0 < v" and "v < length vx" using f(5) [of "nat t"] by auto
qed

lemma num_edges_forward:
  assumes "preorder_ok g dn vx pr" and "(u, v) \<in> num_edges g dn vx" and "u < v" and "v < length vx"
  shows "ancestor_of (length vx) (par_of pr) u v"
proof -
  let ?st = "\<lparr> dfnum = dn, vertex = vx, parent = pr, stack = [] \<rparr>"
  have T: "inv_tree g ?st" and E: "inv_edges g ?st"
    using assms(1) by (auto simp: preorder_ok_def dfs_inv_def)
  show ?thesis
  proof (cases "u = 0")
    case True
    then show ?thesis using tree_anc_root [OF T, of v] assms(4) by simp
  next
    case False
    then obtain t where t: "v = nat (dn ! nat t)" "0 < u" "u < length vx" "t \<in> set (succs g (nat (vx ! u)))"
      using assms(2) by (auto simp: num_edges_def)
    then have "int u < dn ! nat t" using assms(3) by simp
    with t E show ?thesis by (auto simp: inv_edges_def)
  qed
qed

lemma preorder_numbering:
  assumes wf: "wf_graph g" and ok: "preorder_ok g dn vx pr"
  shows "dfs_numbering (length vx) (num_edges g dn vx) (par_of pr)"
proof
  note f = preorder_facts [OF ok]
  show "0 < length vx" by (rule f(3))
  show "u < length vx \<and> v < length vx" if "(u, v) \<in> num_edges g dn vx" for u v
    using that f(3) num_edges_head(2) [OF wf ok that] by (auto simp: num_edges_def)
  show "(u, 0) \<notin> num_edges g dn vx" for u
    using num_edges_head(1) [OF wf ok, of u 0] by auto
  show "par_of pr v < v" and "(par_of pr v, v) \<in> num_edges g dn vx" if "0 < v" "v < length vx" for v
    using f(6) preorder_par_edge [OF ok] that by auto
  show "ancestor_of (length vx) (par_of pr) u v" if "(u, v) \<in> num_edges g dn vx" "u < v" for u v
    using num_edges_forward [OF ok that num_edges_head(2) [OF wf ok that(1)]] .
  show "ancestor_of (length vx) (par_of pr) u x"
    if a: "ancestor_of (length vx) (par_of pr) u v" "u \<le> x" "x \<le> v" for u v x
  proof (cases "v < length vx")
    case True
    then show ?thesis using ok a unfolding preorder_ok_def dfs_inv_def inv_tree_def by simp
  next
    case False
    then have "u = v" using a(1) ancestor_of_unfold [of "length vx" "par_of pr" u v] by blast
    with a show ?thesis by (simp add: ancestor_of_def)
  qed
qed
subsection \<open>The object graph below the super-root\<close>

text \<open>\<open>None\<close> is the virtual super-root, whose successors are the GC roots.\<close>

definition flow :: "ObjectGraph \<Rightarrow> (nat option \<times> nat option) set" where
  "flow g = {(None, Some (nat r)) | r. r \<in> set (roots g)} \<union>
            {(Some i, Some (nat t)) | i t. i < Len g \<and> t \<in> set (succs g i)}"

definition reachable :: "ObjectGraph \<Rightarrow> nat \<Rightarrow> bool" where
  "reachable g i \<longleftrightarrow> (None, Some i) \<in> (flow g)\<^sup>*"

definition number_of :: "int list \<Rightarrow> nat option \<Rightarrow> nat" where
  "number_of dn x = (case x of None \<Rightarrow> 0 | Some i \<Rightarrow> nat (dn ! i))"

definition object_at :: "int list \<Rightarrow> nat \<Rightarrow> nat option" where
  "object_at vx d = (if d = 0 then None else Some (nat (vx ! d)))"

definition numbered :: "ObjectGraph \<Rightarrow> int list \<Rightarrow> nat option \<Rightarrow> bool" where
  "numbered g dn x = (case x of None \<Rightarrow> True | Some i \<Rightarrow> i < Len g \<and> 0 \<le> dn ! i)"

lemma object_at_number_of:
  assumes "preorder_ok g dn vx pr" and "numbered g dn x"
  shows "object_at vx (number_of dn x) = x" and "number_of dn x < length vx"
proof -
  have "object_at vx (number_of dn x) = x \<and> number_of dn x < length vx"
  proof (cases x)
    case None
    then show ?thesis using preorder_facts(3) [OF assms(1)] by (simp add: object_at_def number_of_def)
  next
    case (Some i)
    then have "i < Len g" "0 \<le> dn ! i" using assms(2) by (auto simp: numbered_def)
    from preorder_facts(5) [OF assms(1) this] Some show ?thesis
      by (simp add: object_at_def number_of_def)
  qed
  then show "object_at vx (number_of dn x) = x" and "number_of dn x < length vx" by auto
qed

lemma number_of_object_at:
  assumes "preorder_ok g dn vx pr" and "d < length vx"
  shows "number_of dn (object_at vx d) = d" and "numbered g dn (object_at vx d)"
  using assms preorder_facts(4) [OF assms(1), of d]
  by (auto simp: object_at_def number_of_def numbered_def)

lemma flow_numbered:
  assumes "wf_graph g" and "preorder_ok g dn vx pr" and "(x, y) \<in> flow g" and "numbered g dn x"
  shows "numbered g dn y" and "(number_of dn x, number_of dn y) \<in> num_edges g dn vx"
proof -
  note f = preorder_facts [OF assms(2)]
  have "numbered g dn y \<and> (number_of dn x, number_of dn y) \<in> num_edges g dn vx"
  proof (cases x)
    case None
    then obtain r where r: "y = Some (nat r)" "r \<in> set (roots g)" using assms(3) by (auto simp: flow_def)
    then show ?thesis
      using None f(8) [OF r(2)] assms(1) by (auto simp: numbered_def number_of_def num_edges_def wf_graph_def)
  next
    case (Some i)
    then obtain t where t: "y = Some (nat t)" "i < Len g" "t \<in> set (succs g i)"
      using assms(3) by (auto simp: flow_def)
    have i: "0 < dn ! i" "nat (dn ! i) < length vx" "nat (vx ! nat (dn ! i)) = i"
      using f(5) [of i] assms(4) Some by (auto simp: numbered_def)
    then have "0 \<le> dn ! nat t" using f(7) [of "nat (dn ! i)" t] t by auto
    moreover have "nat t < Len g" using succs_in [OF assms(1) t(3)] by simp
    moreover have "(nat (dn ! i), nat (dn ! nat t)) \<in> num_edges g dn vx"
      using i t unfolding num_edges_def by (intro UnI1 CollectI exI [of _ "nat (dn ! i)"] exI [of _ t]) auto
    ultimately show ?thesis using Some t by (simp add: numbered_def number_of_def)
  qed
  then show "numbered g dn y" and "(number_of dn x, number_of dn y) \<in> num_edges g dn vx" by auto
qed

lemma num_edges_flow:
  assumes "wf_graph g" and "preorder_ok g dn vx pr" and "(d, e) \<in> num_edges g dn vx"
  shows "(object_at vx d, object_at vx e) \<in> flow g"
proof -
  note f = preorder_facts [OF assms(2)]
  have e: "object_at vx (nat (dn ! nat t)) = Some (nat t)" if "nat t < Len g" "0 \<le> dn ! nat t" for t
    using f(5) [OF that] by (simp add: object_at_def)
  show ?thesis
  proof (cases "d = 0")
    case True
    then obtain r where r: "e = nat (dn ! nat r)" "r \<in> set (roots g)"
      using assms(3) by (auto simp: num_edges_def)
    then show ?thesis
      using True e [of r] f(8) [OF r(2)] assms(1) by (auto simp: object_at_def flow_def wf_graph_def)
  next
    case False
    then obtain t where t: "e = nat (dn ! nat t)" "d < length vx" "t \<in> set (succs g (nat (vx ! d)))"
      using assms(3) by (auto simp: num_edges_def)
    then have "object_at vx e = Some (nat t)"
      using e [of t] f(7) [of d t] False succs_in [OF assms(1) t(3)] by simp
    then show ?thesis
      using False t f(4) [of d] by (auto simp: object_at_def flow_def)
  qed
qed

lemma numbered_reachable:
  assumes "wf_graph g" and "preorder_ok g dn vx pr" and "i < Len g"
  shows "0 \<le> dn ! i \<longleftrightarrow> reachable g i"
proof
  assume "0 \<le> dn ! i"
  then have num: "numbered g dn (Some i)" using assms(3) by (simp add: numbered_def)
  note n = preorder_numbering [OF assms(1,2)]
  have "(None, object_at vx v) \<in> (flow g)\<^sup>*" if "(0, v) \<in> (num_edges g dn vx)\<^sup>*" for v
    using that
  proof (induction rule: rtrancl_induct)
    case base
    then show ?case by (simp add: object_at_def)
  next
    case (step y z)
    then show ?case
      using num_edges_flow [OF assms(1,2)] by (blast intro: rtrancl_into_rtrancl)
  qed
  moreover have "(0, number_of dn (Some i)) \<in> (num_edges g dn vx)\<^sup>*"
    using dfs_numbering.anc_edges [OF n dfs_numbering.anc_root [OF n]]
      object_at_number_of(2) [OF assms(2) num] by blast
  ultimately show "reachable g i"
    using object_at_number_of(1) [OF assms(2) num] by (metis reachable_def)
next
  assume "reachable g i"
  then have "(None, Some i) \<in> (flow g)\<^sup>*" by (simp add: reachable_def)
  then have "numbered g dn (Some i)"
  proof (induction rule: rtrancl_induct)
    case base
    then show ?case by (simp add: numbered_def)
  next
    case (step y z)
    then show ?case using flow_numbered(1) [OF assms(1,2)] by blast
  qed
  then show "0 \<le> dn ! i" by (simp add: numbered_def)
qed

lemma dominates_numbered:
  assumes wf: "wf_graph g" and ok: "preorder_ok g dn vx pr"
    and "numbered g dn x" and "numbered g dn y"
  shows "dominates (flow g) None x y \<longleftrightarrow>
    dominates (num_edges g dn vx) 0 (number_of dn x) (number_of dn y)"
proof -
  let ?E = "num_edges g dn vx"
  note inv = object_at_number_of [OF ok]
  have fwd: "numbered g dn z \<and> (0, number_of dn z) \<in> (avoiding ?E (number_of dn x))\<^sup>*"
    if "(None, z) \<in> (avoiding (flow g) x)\<^sup>*" for z
    using that
  proof (induction rule: rtrancl_induct)
    case base
    then show ?case by (simp add: numbered_def number_of_def)
  next
    case (step a b)
    then have ab: "(a, b) \<in> flow g" "a \<noteq> x" "b \<noteq> x" by (auto simp: avoiding_def)
    have a: "numbered g dn a" using step.IH by blast
    note e = flow_numbered [OF wf ok ab(1) a]
    have "number_of dn a \<noteq> number_of dn x" "number_of dn b \<noteq> number_of dn x"
      using inv(1) [OF a] inv(1) [OF e(1)] inv(1) [OF assms(3)] ab by metis+
    then have "(number_of dn a, number_of dn b) \<in> avoiding ?E (number_of dn x)"
      using e(2) by (simp add: avoiding_def)
    then show ?case using step.IH e(1) by (blast intro: rtrancl_into_rtrancl)
  qed
  have bwd: "v < length vx \<and> (None, object_at vx v) \<in> (avoiding (flow g) x)\<^sup>*"
    if "(0, v) \<in> (avoiding ?E (number_of dn x))\<^sup>*" for v
    using that
  proof (induction rule: rtrancl_induct)
    case base
    then show ?case using preorder_facts(3) [OF ok] by (simp add: object_at_def)
  next
    case (step a b)
    then have ab: "(a, b) \<in> ?E" "a \<noteq> number_of dn x" "b \<noteq> number_of dn x" by (auto simp: avoiding_def)
    have b: "b < length vx" using num_edges_head(2) [OF wf ok ab(1)] .
    have a: "a < length vx" using step.IH by blast
    have "object_at vx a \<noteq> x" "object_at vx b \<noteq> x"
      using number_of_object_at(1) [OF ok a] number_of_object_at(1) [OF ok b] ab by metis+
    then have "(object_at vx a, object_at vx b) \<in> avoiding (flow g) x"
      using num_edges_flow [OF wf ok ab(1)] by (simp add: avoiding_def)
    then show ?case using step.IH b by (blast intro: rtrancl_into_rtrancl)
  qed
  have "(None, y) \<in> (avoiding (flow g) x)\<^sup>* \<longleftrightarrow>
      (0, number_of dn y) \<in> (avoiding ?E (number_of dn x))\<^sup>*"
    using fwd [of y] bwd [of "number_of dn y"] inv(1) [OF assms(4)] by metis
  moreover have "x = y \<longleftrightarrow> number_of dn x = number_of dn y"
    using inv(1) [OF assms(3)] inv(1) [OF assms(4)] by metis
  ultimately show ?thesis by (simp add: dominates_def)
qed

end
