(* ===== verification/Lengauer_Tarjan.thy ===== *)
theory Lengauer_Tarjan
  imports Hprof_Reader Csr Dominator_Theory
begin

text \<open>
  \<open>lengauerTarjan\<close> of \<open>internal/heap/dominators.go\<close> with its link-eval forest: \<open>compress\<close>, \<open>eval\<close>
  and the three passes over the slices \<open>semi\<close>, \<open>ancestor\<close>, \<open>label\<close>, \<open>idom\<close>,
  \<open>bucketHead\<close> and \<open>bucketNext\<close>. The two loops that follow links, the path collection of
  \<open>compress\<close> and the bucket walk, carry a bound on their turns (the number of vertices); running
  out of it is the outcome \<open>Diverges\<close>. The main lemma \<open>lengauerTarjan_spec\<close> shows for every
  graph numbered in depth-first preorder that the routine returns, with no panic and within the
  bounds, the immediate dominator of every vertex.
\<close>

subsection \<open>The algorithm\<close>

record ltState =
  lt_semi :: "int list"
  lt_ancestor :: "int list"
  lt_label :: "int list"

text \<open>The links from \<open>x\<close> up to the last vertex whose ancestor is not a root of the forest.\<close>

fun compressPath :: "nat \<Rightarrow> int list \<Rightarrow> int \<Rightarrow> int list \<Rightarrow> (herr, int list) go" where
  "compressPath 0 anc x path = Inl (Fault Diverges)"
| "compressPath (Suc n) anc x path =
     gbind (idx anc x) (\<lambda>a.
     gbind (idx anc a) (\<lambda>aa.
     if aa \<noteq> -1 then compressPath n anc a (path @ [x]) else Inr path))"

definition compressStep :: "int \<Rightarrow> ltState \<Rightarrow> (herr, ltState) go" where
  "compressStep y lt =
     gbind (idx (lt_ancestor lt) y) (\<lambda>a.
     gbind (idx (lt_label lt) a) (\<lambda>la.
     gbind (idx (lt_label lt) y) (\<lambda>ly.
     gbind (idx (lt_semi lt) la) (\<lambda>sa.
     gbind (idx (lt_semi lt) ly) (\<lambda>sy.
     gbind (if sa < sy then upd (lt_label lt) y la else Inr (lt_label lt)) (\<lambda>lab.
     gbind (idx (lt_ancestor lt) a) (\<lambda>aa.
     gbind (upd (lt_ancestor lt) y aa) (\<lambda>anc.
     Inr (lt \<lparr> lt_label := lab, lt_ancestor := anc \<rparr>)))))))))"

definition compress :: "int \<Rightarrow> ltState \<Rightarrow> (herr, ltState) go" where
  "compress v lt =
     gbind (compressPath (length (lt_ancestor lt)) (lt_ancestor lt) v []) (\<lambda>path.
     gfold compressStep (rev path) lt)"

definition eval :: "int \<Rightarrow> ltState \<Rightarrow> (herr, int \<times> ltState) go" where
  "eval v lt =
     gbind (idx (lt_ancestor lt) v) (\<lambda>a.
     if a = -1 then Inr (v, lt)
     else gbind (compress v lt) (\<lambda>lt'.
          gbind (idx (lt_label lt') v) (\<lambda>u. Inr (u, lt'))))"

text \<open>The semidominator of \<open>w\<close> from one predecessor \<open>v\<close>.\<close>

definition semiStep :: "int \<Rightarrow> int \<Rightarrow> ltState \<Rightarrow> (herr, ltState) go" where
  "semiStep w v lt =
     gbind (eval v lt) (\<lambda>(u, lt').
     gbind (idx (lt_semi lt') u) (\<lambda>su.
     gbind (idx (lt_semi lt') w) (\<lambda>sw.
     if su < sw
     then gbind (upd (lt_semi lt') w su) (\<lambda>semi'. Inr (lt' \<lparr> lt_semi := semi' \<rparr>))
     else Inr lt')))"

text \<open>The walk along the bucket of \<open>p\<close>, from \<open>v\<close> on.\<close>

fun drainBucket ::
  "nat \<Rightarrow> int \<Rightarrow> int list \<Rightarrow> int \<Rightarrow> ltState \<times> int list \<Rightarrow> (herr, ltState \<times> int list) go" where
  "drainBucket n p bucketNext v (lt, idom) =
     (if v = -1 then Inr (lt, idom)
      else case n of
        0 \<Rightarrow> Inl (Fault Diverges)
      | Suc n' \<Rightarrow>
          gbind (eval v lt) (\<lambda>(u, lt').
          gbind (idx (lt_semi lt') u) (\<lambda>su.
          gbind (idx (lt_semi lt') v) (\<lambda>sv.
          gbind (upd idom v (if su < sv then u else p)) (\<lambda>idom'.
          gbind (idx bucketNext v) (\<lambda>v'.
          drainBucket n' p bucketNext v' (lt', idom')))))))"

declare drainBucket.simps [simp del]

record ltLoop =
  forest :: ltState
  idoms :: "int list"
  bucketHead :: "int list"
  bucketNext :: "int list"

definition ltVertex :: "int list \<Rightarrow> int list \<Rightarrow> int list \<Rightarrow> int \<Rightarrow> ltLoop \<Rightarrow> (herr, ltLoop) go" where
  "ltVertex parent predStart preds w s =
     gbind (gbind (idx predStart w) (\<lambda>a. gbind (idx predStart (w + 1)) (\<lambda>b. slice preds a b))) (\<lambda>vs.
     gbind (gfold (semiStep w) vs (forest s)) (\<lambda>lt.
     gbind (idx (lt_semi lt) w) (\<lambda>sw.
     gbind (idx (bucketHead s) sw) (\<lambda>h.
     gbind (upd (bucketNext s) w h) (\<lambda>bn.
     gbind (upd (bucketHead s) sw w) (\<lambda>bh.
     gbind (idx parent w) (\<lambda>p.
     gbind (upd (lt_ancestor lt) w p) (\<lambda>anc.
     gbind (idx bh p) (\<lambda>v.
     gbind (drainBucket (length bn) p bn v (lt \<lparr> lt_ancestor := anc \<rparr>, idoms s)) (\<lambda>(lt', idom').
     gbind (upd bh p (-1)) (\<lambda>bh'.
     Inr \<lparr> forest = lt', idoms = idom', bucketHead = bh', bucketNext = bn \<rparr>)))))))))))"

definition idomStep :: "int list \<Rightarrow> int \<Rightarrow> int list \<Rightarrow> (herr, int list) go" where
  "idomStep semi w idom =
     gbind (idx idom w) (\<lambda>d.
     gbind (idx semi w) (\<lambda>s.
     if d \<noteq> s then gbind (idx idom d) (\<lambda>dd. upd idom w dd) else Inr idom))"

definition lengauerTarjan :: "nat \<Rightarrow> int list \<Rightarrow> int list \<Rightarrow> int list \<Rightarrow> (herr, int list) go" where
  "lengauerTarjan m parent predStart preds =
     (let ids = map int [0..<m];
          s0 = \<lparr> forest = \<lparr> lt_semi = ids, lt_ancestor = replicate m (-1), lt_label = ids \<rparr>,
                 idoms = replicate m 0, bucketHead = replicate m (-1), bucketNext = replicate m 0 \<rparr>
      in gbind (gfold (ltVertex parent predStart preds) (map int (rev [1..<m])) s0) (\<lambda>s.
         gfold (idomStep (lt_semi (forest s))) (map int [1..<m]) (idoms s)))"

subsection \<open>The link-eval forest\<close>

context dfs_numbering
begin

text \<open>
  \<open>link_ok L a l v\<close>: the forest edge of \<open>v\<close> leads to a proper tree ancestor \<open>a\<close>, everything on the
  tree path below \<open>a\<close> down to \<open>v\<close> is above the threshold \<open>L\<close>, and the label \<open>l\<close> has the least
  semidominator on that path. Vertices up to \<open>L\<close> are the roots of the forest.
\<close>

definition link_ok :: "nat \<Rightarrow> nat \<Rightarrow> nat \<Rightarrow> nat \<Rightarrow> bool" where
  "link_ok L a l v \<longleftrightarrow>
     anc a v \<and> a < v \<and> (\<forall>u. a < u \<and> anc u v \<longrightarrow> L < u) \<and>
     a < l \<and> anc l v \<and> (\<forall>u. a < u \<and> anc u v \<longrightarrow> semi l \<le> semi u)"

definition forest_ok :: "nat \<Rightarrow> ltState \<Rightarrow> bool" where
  "forest_ok L lt \<longleftrightarrow>
     length (lt_semi lt) = m \<and> length (lt_ancestor lt) = m \<and> length (lt_label lt) = m \<and>
     (\<forall>v < m. v \<le> L \<longrightarrow> lt_ancestor lt ! v = -1 \<and> lt_label lt ! v = int v) \<and>
     (\<forall>v < m. L < v \<longrightarrow> lt_semi lt ! v = int (semi v) \<and>
        (\<exists>a l. lt_ancestor lt ! v = int a \<and> lt_label lt ! v = int l \<and> link_ok L a l v))"

lemma forest_linkE:
  assumes "forest_ok L lt" and "v < m" and "L < v"
  obtains a l where "lt_ancestor lt ! v = int a" and "lt_label lt ! v = int l" and "link_ok L a l v"
  using assms unfolding forest_ok_def by blast

lemma forest_root_iff:
  assumes "forest_ok L lt" and "v < m"
  shows "lt_ancestor lt ! v = -1 \<longleftrightarrow> v \<le> L"
  using assms by (cases "v \<le> L") (auto simp: forest_ok_def not_le)

lemma link_label:
  assumes "link_ok L a l v" and "v < m"
  shows "a < m" and "l < m" and "L < l"
  using assms anc_bound by (auto simp: link_ok_def)

lemma link_join:
  assumes "link_ok L a l v" and "link_ok L r l' a" and "L < a"
  shows "link_ok L r (if semi l' < semi l then l' else l) v"
proof -
  have av: "anc a v" "a < v" and ra: "anc r a" "r < a" using assms by (auto simp: link_ok_def)
  have seg: "u = a \<or> a < u \<or> r < u \<and> anc u a" if "r < u" "anc u v" for u
    using that anc_linear [OF that(2) av(1)] by (cases "u \<le> a") auto
  let ?m = "if semi l' < semi l then l' else l"
  have "L < u" if "r < u" "anc u v" for u
    using seg [OF that] that assms by (auto simp: link_ok_def)
  moreover have "semi ?m \<le> semi u" if u: "r < u" "anc u v" for u
  proof (cases "a < u")
    case True
    then have "semi l \<le> semi u" using assms(1) u by (auto simp: link_ok_def)
    then show ?thesis by (simp split: if_splits)
  next
    case False
    then have "anc u a" using anc_linear [OF u(2) av(1)] by simp
    then have "semi l' \<le> semi u" using assms(2) u by (auto simp: link_ok_def)
    then show ?thesis by (simp split: if_splits)
  qed
  moreover have "r < ?m" "anc ?m v"
    using assms av ra by (auto simp: link_ok_def intro: anc_trans)
  moreover have "anc r v" "r < v" using av ra by (auto intro: anc_trans)
  ultimately show ?thesis unfolding link_ok_def by blast
qed

lemma compressStep_spec:
  assumes f: "forest_ok L lt" and v: "v < m" "L < v"
    and a: "lt_ancestor lt ! v = int a" "L < a" "a < m"
    and r: "lt_ancestor lt ! a = int r" "r \<le> L"
  shows "returns (compressStep (int v) lt) (\<lambda>lt'. forest_ok L lt' \<and> lt_semi lt' = lt_semi lt \<and>
    lt_ancestor lt' ! v = int r \<and> (\<forall>x. x \<noteq> v \<longrightarrow> lt_ancestor lt' ! x = lt_ancestor lt ! x))"
proof -
  obtain l where l: "lt_label lt ! v = int l" "link_ok L a l v"
    using forest_linkE [OF f v] a(1) by (metis of_nat_eq_iff)
  obtain l' where l': "lt_label lt ! a = int l'" "link_ok L r l' a"
    using forest_linkE [OF f a(3,2)] r(1) by (metis of_nat_eq_iff)
  have len: "length (lt_semi lt) = m" "length (lt_ancestor lt) = m" "length (lt_label lt) = m"
    using f by (auto simp: forest_ok_def)
  have lm: "l < m" "L < l" "l' < m" "L < l'" using link_label l l' v a by blast+
  then have s: "lt_semi lt ! l = int (semi l)" "lt_semi lt ! l' = int (semi l')"
    using f by (auto simp: forest_ok_def)
  let ?l = "if semi l' < semi l then l' else l"
  let ?lt' = "lt \<lparr> lt_label := (lt_label lt)[v := int ?l], lt_ancestor := (lt_ancestor lt)[v := int r] \<rparr>"
  have "(lt_label lt)[v := int l] = lt_label lt" using l(1) by (metis list_update_id)
  then have "compressStep (int v) lt = Inr ?lt'"
    using a r l l' v lm s len by (simp add: compressStep_def)
  moreover have "link_ok L r ?l v" by (rule link_join [OF l(2) l'(2) a(2)])
  then have "forest_ok L ?lt'"
    using f v len unfolding forest_ok_def by (auto simp: nth_list_update_if)
  ultimately show ?thesis using v len by simp
qed

lemma compressPath_spec:
  assumes f: "forest_ok L lt"
  shows "v < m \<Longrightarrow> L < v \<Longrightarrow> v < n \<Longrightarrow>
    \<exists>p. compressPath n (lt_ancestor lt) (int v) acc = Inr (acc @ p) \<and>
      returns (gfold compressStep (rev p) lt) (\<lambda>lt'. forest_ok L lt' \<and> lt_semi lt' = lt_semi lt \<and>
        (\<exists>r \<le> L. lt_ancestor lt' ! v = int r) \<and>
        (\<forall>x > v. lt_ancestor lt' ! x = lt_ancestor lt ! x))"
proof (induction v arbitrary: n acc rule: less_induct)
  case (less v)
  obtain a l where a: "lt_ancestor lt ! v = int a" "link_ok L a l v"
    using forest_linkE [OF f less.prems(1,2)] by blast
  then have av: "a < v" "a < m" using less.prems by (auto simp: link_ok_def)
  obtain n' where n: "n = Suc n'" using less.prems(3) by (cases n) auto
  have len: "length (lt_ancestor lt) = m" using f by (simp add: forest_ok_def)
  show ?case
  proof (cases "a \<le> L")
    case True
    then have "lt_ancestor lt ! a = -1" using forest_root_iff [OF f av(2)] by simp
    then have "compressPath n (lt_ancestor lt) (int v) acc = Inr acc"
      using n a(1) av less.prems len by simp
    then show ?thesis using f a True by (intro exI [of _ "[]"]) auto
  next
    case False
    then have "lt_ancestor lt ! a \<noteq> -1" using forest_root_iff [OF f av(2)] by simp
    then have step: "compressPath n (lt_ancestor lt) (int v) acc =
        compressPath n' (lt_ancestor lt) (int a) (acc @ [int v])"
      using n a(1) av less.prems len by simp
    have "L < a" "a < n'" using False av n less.prems by auto
    then obtain p where p: "compressPath n' (lt_ancestor lt) (int a) (acc @ [int v]) = Inr ((acc @ [int v]) @ p)"
      and "returns (gfold compressStep (rev p) lt) (\<lambda>lt'. forest_ok L lt' \<and> lt_semi lt' = lt_semi lt \<and>
        (\<exists>r \<le> L. lt_ancestor lt' ! a = int r) \<and> (\<forall>x > a. lt_ancestor lt' ! x = lt_ancestor lt ! x))"
      using less.IH [OF av(1) av(2), of n' "acc @ [int v]"] by blast
    then obtain lt1 r where lt1: "gfold compressStep (rev p) lt = Inr lt1" "forest_ok L lt1"
        "lt_semi lt1 = lt_semi lt" "r \<le> L" "lt_ancestor lt1 ! a = int r"
        "\<forall>x > a. lt_ancestor lt1 ! x = lt_ancestor lt ! x"
      by (auto elim!: returnsE)
    have "returns (compressStep (int v) lt1) (\<lambda>lt'. forest_ok L lt' \<and> lt_semi lt' = lt_semi lt1 \<and>
        lt_ancestor lt' ! v = int r \<and> (\<forall>x. x \<noteq> v \<longrightarrow> lt_ancestor lt' ! x = lt_ancestor lt1 ! x))"
      using lt1 a(1) av \<open>L < a\<close> less.prems by (intro compressStep_spec) auto
    then have "returns (gfold compressStep (rev (int v # p)) lt)
        (\<lambda>lt'. forest_ok L lt' \<and> lt_semi lt' = lt_semi lt \<and> (\<exists>r \<le> L. lt_ancestor lt' ! v = int r) \<and>
          (\<forall>x > v. lt_ancestor lt' ! x = lt_ancestor lt ! x))"
      using lt1 av by (auto simp: gfold_append elim!: returns_mono)
    then show ?thesis using step p by (intro exI [of _ "int v # p"]) simp
  qed
qed

text \<open>What \<open>eval\<close> returns: a linked vertex with the least semidominator, or \<open>v\<close> itself for a root.\<close>

definition eval_result :: "nat \<Rightarrow> nat \<Rightarrow> nat \<Rightarrow> bool" where
  "eval_result L v u \<longleftrightarrow>
     (if v \<le> L then u = v
      else L < u \<and> anc u v \<and> (\<forall>u'. L < u' \<and> anc u' v \<longrightarrow> semi u \<le> semi u'))"

lemma eval_spec:
  assumes f: "forest_ok L lt" and v: "v < m"
  shows "returns (eval (int v) lt) (\<lambda>(u, lt'). forest_ok L lt' \<and> lt_semi lt' = lt_semi lt \<and>
    (\<exists>u'. u = int u' \<and> u' < m \<and> eval_result L v u'))"
proof (cases "v \<le> L")
  case True
  then have "eval (int v) lt = Inr (int v, lt)"
    using f v by (simp add: eval_def forest_ok_def)
  then show ?thesis using f v True by (auto simp: eval_result_def)
next
  case False
  then have vL: "L < v" by simp
  have len: "length (lt_ancestor lt) = m" using f by (simp add: forest_ok_def)
  have na: "lt_ancestor lt ! v \<noteq> -1" using forest_root_iff [OF f v] False by simp
  obtain p where p: "compressPath m (lt_ancestor lt) (int v) [] = Inr p"
    and ret: "returns (gfold compressStep (rev p) lt) (\<lambda>lt'. forest_ok L lt' \<and> lt_semi lt' = lt_semi lt \<and>
        (\<exists>r \<le> L. lt_ancestor lt' ! v = int r) \<and> (\<forall>x > v. lt_ancestor lt' ! x = lt_ancestor lt ! x))"
    using compressPath_spec [OF f v vL v, of "[]"] by auto
  then obtain lt' r where lt': "gfold compressStep (rev p) lt = Inr lt'" "forest_ok L lt'"
      "lt_semi lt' = lt_semi lt" "r \<le> L" "lt_ancestor lt' ! v = int r"
    by (auto elim!: returnsE)
  then obtain l where l: "lt_label lt' ! v = int l" "link_ok L r l v"
    using forest_linkE [OF lt'(2) v vL] by (metis of_nat_eq_iff)
  have "eval (int v) lt = Inr (int l, lt')"
    using na v len p lt' l(1) by (simp add: eval_def compress_def forest_ok_def)
  moreover have "eval_result L v l"
    using l(2) lt'(4) False link_label(3) [OF l(2) v] by (auto simp: eval_result_def link_ok_def)
  moreover have "l < m" using link_label(2) [OF l(2) v] .
  ultimately show ?thesis using lt' by simp
qed

end

subsection \<open>Computing a semidominator\<close>

context dfs_numbering
begin

definition semi_bound_by :: "nat \<Rightarrow> nat \<Rightarrow> nat \<Rightarrow> bool" where
  "semi_bound_by w v s \<longleftrightarrow> (v < w \<longrightarrow> s \<le> v) \<and> (w < v \<longrightarrow> (\<forall>u. w < u \<and> anc u v \<longrightarrow> s \<le> semi u))"

definition semi_inv :: "nat \<Rightarrow> int list \<Rightarrow> ltState \<Rightarrow> bool" where
  "semi_inv w pre lt \<longleftrightarrow>
     forest_ok w lt \<and> (\<forall>v < w. lt_semi lt ! v = int v) \<and>
     (\<exists>s. lt_semi lt ! w = int s \<and> s \<le> w \<and> semi w \<le> s \<and> (\<forall>v. int v \<in> set pre \<longrightarrow> semi_bound_by w v s))"

lemma forest_ok_semi_update [simp]:
  "forest_ok w (lt \<lparr> lt_semi := (lt_semi lt)[w := x] \<rparr>) = forest_ok w lt"
  by (auto simp: forest_ok_def)

lemma semiStep_spec:
  assumes w: "0 < w" "w < m" and I: "semi_inv w pre lt" and v: "(v, w) \<in> E"
  shows "returns (semiStep (int w) (int v) lt) (semi_inv w (pre @ [int v]))"
proof -
  have vm: "v < m" using E_bound [OF v] by simp
  obtain s where f: "forest_ok w lt" and low: "\<forall>v < w. lt_semi lt ! v = int v"
    and s: "lt_semi lt ! w = int s" "s \<le> w" "semi w \<le> s" "\<forall>v. int v \<in> set pre \<longrightarrow> semi_bound_by w v s"
    using I by (auto simp: semi_inv_def)
  obtain u lt' where ev: "eval (int v) lt = Inr (int u, lt')" and f': "forest_ok w lt'"
    and sm: "lt_semi lt' = lt_semi lt" and u: "u < m" "eval_result w v u"
    using eval_spec [OF f vm] by (auto elim!: returnsE)
  have len: "length (lt_semi lt) = m" using f by (simp add: forest_ok_def)
  obtain su where su: "lt_semi lt ! u = int su" "v \<noteq> w \<Longrightarrow> semi w \<le> su \<and> semi_bound_by w v su"
      "v = w \<Longrightarrow> su = s"
  proof (cases "v < w")
    case True
    then have "u = v" using u(2) by (simp add: eval_result_def)
    with True low semi_le [OF semi_path_edge [OF v]] show ?thesis
      by (intro that [of v]) (auto simp: semi_bound_by_def)
  next
    case False
    show ?thesis
    proof (cases "v = w")
      case True
      then have "u = w" using u(2) by (simp add: eval_result_def)
      with True s(1) show ?thesis by (intro that [of s]) auto
    next
      case neq: False
      then have "w < u" "anc u v" "\<forall>u'. w < u' \<and> anc u' v \<longrightarrow> semi u \<le> semi u'"
        using u(2) False by (auto simp: eval_result_def)
      moreover have "lt_semi lt ! u = int (semi u)" using f u(1) \<open>w < u\<close> by (simp add: forest_ok_def)
      moreover have "semi w \<le> semi u" using semi_le_candidate [OF w(1) \<open>w < u\<close> \<open>anc u v\<close> v] .
      ultimately show ?thesis
        using False neq by (intro that [of "semi u"]) (auto simp: semi_bound_by_def)
    qed
  qed
  show ?thesis
  proof (cases "su < s")
    case True
    then have "semiStep (int w) (int v) lt = Inr (lt' \<lparr> lt_semi := (lt_semi lt')[w := int su] \<rparr>)"
      using ev su(1) s(1) u(1) w len by (simp add: semiStep_def sm)
    moreover have "v \<noteq> w" using True su(3) by auto
    then have "semi w \<le> su" "semi_bound_by w v su" using su(2) by auto
    moreover have "semi_bound_by w v' su" if "int v' \<in> set pre" for v'
    proof -
      have "semi_bound_by w v' s" using s(4) that by blast
      then show ?thesis using True unfolding semi_bound_by_def by (meson less_imp_le le_trans)
    qed
    moreover have "forest_ok w (lt' \<lparr> lt_semi := (lt_semi lt)[w := int su] \<rparr>)"
      using f' forest_ok_semi_update [of w lt' "int su"] by (simp add: sm)
    moreover have "w < length (lt_semi lt)" using len w by simp
    ultimately show ?thesis
      using low True s by (auto simp: semi_inv_def sm)
  next
    case False
    then have "semiStep (int w) (int v) lt = Inr lt'"
      using ev su(1) s(1) u(1) w len by (simp add: semiStep_def sm)
    moreover have "semi_bound_by w v s"
    proof (cases "v = w")
      case True
      then show ?thesis by (simp add: semi_bound_by_def)
    next
      case neq: False
      then have "semi_bound_by w v su" using su(2) by blast
      then show ?thesis using False unfolding semi_bound_by_def by (meson not_less le_trans)
    qed
    ultimately show ?thesis using f' low s by (auto simp: semi_inv_def sm)
  qed
qed

lemma semi_loop_spec:
  assumes w: "0 < w" "w < m" and vs: "set vs = int ` {v. (v, w) \<in> E}"
    and f: "forest_ok w lt" and low: "\<forall>v \<le> w. lt_semi lt ! v = int v"
  shows "returns (gfold (semiStep (int w)) vs lt)
    (\<lambda>lt'. forest_ok w lt' \<and> (\<forall>v < w. lt_semi lt' ! v = int v) \<and> lt_semi lt' ! w = int (semi w))"
proof -
  have "returns (gfold (semiStep (int w)) vs lt) (semi_inv w vs)"
  proof (rule returns_gfold [where I = "semi_inv w"])
    show "semi_inv w [] lt"
      using f low semi_less [OF w] by (auto simp: semi_inv_def)
  next
    fix pre x post lt
    assume split: "vs = pre @ x # post" and I: "semi_inv w pre lt"
    have "x \<in> set vs" by (simp add: split)
    then obtain v where "x = int v" "(v, w) \<in> E" using vs by auto
    then show "returns (semiStep (int w) x lt) (semi_inv w (pre @ [x]))"
      using semiStep_spec [OF w I] by simp
  qed
  moreover have "s = semi w"
    if "semi w \<le> s" "s \<le> w" "\<forall>v. int v \<in> set vs \<longrightarrow> semi_bound_by w v s" for s
  proof -
    have b: "semi_bound_by w v s" if "(v, w) \<in> E" for v
      using that \<open>\<forall>v. int v \<in> set vs \<longrightarrow> semi_bound_by w v s\<close> vs by auto
    from semi_candidate [OF w] have "s \<le> semi w"
    proof
      assume "(semi w, w) \<in> E"
      then show ?thesis using b semi_less [OF w] by (auto simp: semi_bound_by_def)
    next
      assume "\<exists>u v. w < u \<and> anc u v \<and> (v, w) \<in> E \<and> semi u \<le> semi w"
      then obtain u v where u: "w < u" "anc u v" "(v, w) \<in> E" "semi u \<le> semi w" by blast
      then have "w < v" using anc_le by fastforce
      with b [OF u(3)] u have "s \<le> semi u" by (auto simp: semi_bound_by_def)
      with u(4) show ?thesis by simp
    qed
    with that show ?thesis by simp
  qed
  ultimately show ?thesis by (auto simp: semi_inv_def elim!: returns_mono)
qed

end

subsection \<open>Buckets\<close>

text \<open>The linked list that starts at \<open>h\<close>.\<close>

fun blist :: "int list \<Rightarrow> int \<Rightarrow> nat list \<Rightarrow> bool" where
  "blist bn h [] \<longleftrightarrow> h = -1"
| "blist bn h (x # xs) \<longleftrightarrow> h = int x \<and> x < length bn \<and> blist bn (bn ! x) xs"

lemma blist_update: "w \<notin> set xs \<Longrightarrow> blist (bn[w := x]) h xs = blist bn h xs"
  by (induction xs arbitrary: h) auto

context dfs_numbering
begin

text \<open>
  After the vertices above \<open>w\<close> have been processed, the bucket of \<open>p\<close> holds those with semidominator
  \<open>p\<close> for which the child of \<open>p\<close> towards them is still to come.
\<close>

definition bucket :: "nat \<Rightarrow> nat \<Rightarrow> nat set" where
  "bucket w p = {v. w < v \<and> v < m \<and> semi v = p \<and> (\<forall>c. w < c \<and> anc c v \<longrightarrow> par c \<noteq> p)}"

definition buckets_ok :: "(nat \<Rightarrow> nat set) \<Rightarrow> int list \<Rightarrow> int list \<Rightarrow> bool" where
  "buckets_ok B bh bn \<longleftrightarrow> length bh = m \<and> length bn = m \<and>
     (\<forall>p < m. \<exists>xs. blist bn (bh ! p) xs \<and> distinct xs \<and> set xs = B p)"

lemma child_towards:
  assumes "anc p v" and "p < v" and "v < m"
  shows "\<exists>c. par c = p \<and> anc c v \<and> p < c"
  using assms
proof (induction v rule: less_induct)
  case (less v)
  have v: "0 < v" using less.prems by simp
  have pv: "anc p (par v)" using anc_par_iff [OF v less.prems(3)] less.prems by auto
  show ?case
  proof (cases "par v = p")
    case True
    with less.prems show ?thesis by (intro exI [of _ v]) simp
  next
    case False
    have "par v < v" using par_less [OF v less.prems(3)] .
    moreover have "p < par v" using anc_le [OF pv] False by simp
    ultimately obtain c where "par c = p" "anc c (par v)" "p < c"
      using less.IH [of "par v"] pv less.prems by auto
    moreover have "anc (par v) v" using anc_par [OF v less.prems(3)] .
    ultimately show ?thesis by (blast intro: anc_trans)
  qed
qed

text \<open>The only child of \<open>par w\<close> at or below \<open>w\<close> that leads to a vertex from \<open>w\<close> on is \<open>w\<close> itself.\<close>

lemma child_is:
  assumes w: "0 < w" "w < m" and c: "par c = par w" "par w < c" "c \<le> w" "anc c v" "w \<le> v"
  shows "c = w"
proof (rule ccontr)
  assume "c \<noteq> w"
  have "anc c w" using interval [OF c(4,3,5)] .
  then have "anc c (par w)" using anc_par_iff [OF w] \<open>c \<noteq> w\<close> by blast
  then show False using anc_le c(2) by fastforce
qed

lemma bucket_other:
  assumes w: "0 < w" "w < m" and "p \<noteq> par w"
  shows "bucket (w - 1) p = bucket w p \<union> (if semi w = p then {w} else {})"
proof (rule set_eqI)
  fix v
  have pre: "w - 1 < c \<longleftrightarrow> w < c \<or> c = w" for c using w by auto
  have c: "(\<forall>c. w - 1 < c \<and> anc c v \<longrightarrow> par c \<noteq> p) \<longleftrightarrow> (\<forall>c. w < c \<and> anc c v \<longrightarrow> par c \<noteq> p)"
    using pre assms(3) by metis
  show "v \<in> bucket (w - 1) p \<longleftrightarrow> v \<in> bucket w p \<union> (if semi w = p then {w} else {})"
  proof (cases "v = w")
    case True
    have "\<forall>c. w < c \<and> anc c w \<longrightarrow> par c \<noteq> p" using anc_le by fastforce
    then show ?thesis using True w c unfolding bucket_def by simp
  next
    case False
    then show ?thesis unfolding bucket_def mem_Collect_eq Un_iff c pre [of v] by simp
  qed
qed

lemma bucket_done:
  assumes w: "0 < w" "w < m"
  shows "bucket (w - 1) (par w) = {}"
proof (rule ccontr)
  assume "bucket (w - 1) (par w) \<noteq> {}"
  then obtain v where vb: "v \<in> bucket (w - 1) (par w)" by blast
  have v: "w \<le> v" "v < m" "semi v = par w" using vb w by (auto simp: bucket_def)
  have v4: "par c \<noteq> par w" if "w - 1 < c" "anc c v" for c using vb that by (simp add: bucket_def)
  have "0 < v" using v w by simp
  then have "anc (par w) v" "par w < v" using semi_anc [of v] semi_less [of v] v by auto
  then obtain c where c: "par c = par w" "anc c v" "par w < c"
    using child_towards [of "par w" v] v by auto
  then have "c \<le> w" using v4 [of c] by (cases "c \<le> w") auto
  then have "c = w" using child_is [OF w c(1,3) _ c(2) v(1)] by simp
  then show False using v4 [of c] c w by simp
qed

lemma bucket_below:
  assumes w: "0 < w" "w < m"
    and v: "v \<in> bucket w (par w) \<union> (if semi w = par w then {w} else {})"
  shows "anc w v" and "w \<le> v" and "v < m" and "semi v = par w"
proof -
  show "w \<le> v" and "v < m" and s: "semi v = par w"
    using v w by (auto simp: bucket_def split: if_splits)
  show "anc w v"
  proof (cases "v = w")
    case False
    then have b: "v \<in> bucket w (par w)" using v by (simp split: if_splits)
    have "0 < v" using \<open>w \<le> v\<close> w by simp
    then have "anc (par w) v" "par w < v" using semi_anc [of v] semi_less [of v] s \<open>v < m\<close> by auto
    then obtain c where c: "par c = par w" "anc c v" "par w < c"
      using child_towards [of "par w" v] \<open>v < m\<close> by auto
    then have "c \<le> w" using b by (auto simp: bucket_def not_le)
    then have "c = w" using child_is [OF w c(1,3) _ c(2) \<open>w \<le> v\<close>] by simp
    with c show ?thesis by simp
  qed simp
qed

lemma segment_below:
  assumes w: "0 < w" "w < m" and "anc w v" and "anc u v"
  shows "par w < u \<longleftrightarrow> w \<le> u"
proof
  assume u: "par w < u"
  show "w \<le> u"
  proof (rule ccontr)
    assume "\<not> w \<le> u"
    then have "anc u w" "u \<noteq> w" using anc_linear [OF assms(4,3)] by auto
    then have "anc u (par w)" using anc_par_iff [OF w] by blast
    then show False using anc_le u by fastforce
  qed
qed (use par_less [OF w] in simp)

subsection \<open>Draining a bucket\<close>

definition idom_rel :: "nat \<Rightarrow> nat \<Rightarrow> bool" where
  "idom_rel v d \<longleftrightarrow>
     (\<exists>u. semi v < u \<and> anc u v \<and> (\<forall>u'. semi v < u' \<and> anc u' v \<longrightarrow> semi u \<le> semi u') \<and>
          d = (if semi u < semi v then u else semi v))"

lemma drainBucket_spec:
  assumes w: "0 < w" "w < m"
  shows "forest_ok (w - 1) lt \<Longrightarrow> blist bn h xs \<Longrightarrow> distinct xs \<Longrightarrow> length xs \<le> n \<Longrightarrow>
    length bn = m \<Longrightarrow> length idom = m \<Longrightarrow>
    \<forall>v \<in> set xs. anc w v \<and> v < m \<and> semi v = par w \<Longrightarrow>
    returns (drainBucket n (int (par w)) bn h (lt, idom)) (\<lambda>(lt', idom').
      forest_ok (w - 1) lt' \<and> lt_semi lt' = lt_semi lt \<and> length idom' = m \<and>
      (\<forall>v. v \<notin> set xs \<longrightarrow> idom' ! v = idom ! v) \<and>
      (\<forall>v \<in> set xs. \<exists>d. idom' ! v = int d \<and> idom_rel v d))"
proof (induction xs arbitrary: h lt idom n)
  case Nil
  then show ?case by (simp add: drainBucket.simps)
next
  case (Cons v xs)
  have v: "anc w v" "v < m" "semi v = par w" "h = int v" using Cons.prems by auto
  have wv: "w \<le> v" using anc_le [OF v(1)] .
  obtain n' where n: "n = Suc n'" using Cons.prems(4) by (cases n) auto
  obtain u lt1 where ev: "eval (int v) lt = Inr (int u, lt1)" and f1: "forest_ok (w - 1) lt1"
    and sm: "lt_semi lt1 = lt_semi lt" and u: "u < m" "eval_result (w - 1) v u"
    using eval_spec [OF Cons.prems(1) v(2)] by (auto elim!: returnsE)
  have "w - 1 < v" using wv w by simp
  then have um: "w - 1 < u" "anc u v" "\<forall>u'. w - 1 < u' \<and> anc u' v \<longrightarrow> semi u \<le> semi u'"
    using u(2) by (auto simp: eval_result_def)
  have s: "lt_semi lt ! u = int (semi u)" "lt_semi lt ! v = int (semi v)" "length (lt_semi lt) = m"
    using Cons.prems(1) um(1) u(1) v(2) \<open>w - 1 < v\<close> by (auto simp: forest_ok_def)
  define d where "d = (if semi u < semi v then u else semi v)"
  have "par w < u'" "w - 1 < u'" if "semi v < u' \<and> anc u' v \<or> w \<le> u' \<and> anc u' v" for u'
    using that segment_below [OF w v(1), of u'] v(3) w by auto
  then have rel: "idom_rel v d"
    unfolding idom_rel_def d_def using um v(3) segment_below [OF w v(1) um(2)]
    by (intro exI [of _ u]) (auto simp: less_le_trans)
  let ?idom1 = "idom[v := int d]"
  have step: "drainBucket n (int (par w)) bn h (lt, idom) =
      drainBucket n' (int (par w)) bn (bn ! v) (lt1, ?idom1)"
    using ev s v u n Cons.prems by (subst drainBucket.simps) (simp add: sm d_def)
  have "returns (drainBucket n' (int (par w)) bn (bn ! v) (lt1, ?idom1)) (\<lambda>(lt', idom').
      forest_ok (w - 1) lt' \<and> lt_semi lt' = lt_semi lt1 \<and> length idom' = m \<and>
      (\<forall>x. x \<notin> set xs \<longrightarrow> idom' ! x = ?idom1 ! x) \<and>
      (\<forall>x \<in> set xs. \<exists>d. idom' ! x = int d \<and> idom_rel x d))"
    using Cons.prems n by (intro Cons.IH f1) auto
  then show ?case
    unfolding step
  proof (rule returns_mono)
    fix r :: "ltState \<times> int list"
    assume r: "case r of (lt', idom') \<Rightarrow> forest_ok (w - 1) lt' \<and> lt_semi lt' = lt_semi lt1 \<and>
      length idom' = m \<and> (\<forall>x. x \<notin> set xs \<longrightarrow> idom' ! x = ?idom1 ! x) \<and>
      (\<forall>x \<in> set xs. \<exists>d. idom' ! x = int d \<and> idom_rel x d)"
    obtain lt' idom' where r': "r = (lt', idom')" by (cases r)
    have "idom' ! v = int d" using r r' Cons.prems v(2) by auto
    with r rel show "case r of (lt', idom') \<Rightarrow> forest_ok (w - 1) lt' \<and> lt_semi lt' = lt_semi lt \<and>
        length idom' = m \<and> (\<forall>x. x \<notin> set (v # xs) \<longrightarrow> idom' ! x = idom ! x) \<and>
        (\<forall>x \<in> set (v # xs). \<exists>d. idom' ! x = int d \<and> idom_rel x d)"
      by (auto simp: r' sm)
  qed
qed

end

subsection \<open>The main loop\<close>

context dfs_numbering
begin

definition inputs_ok :: "int list \<Rightarrow> int list \<Rightarrow> int list \<Rightarrow> bool" where
  "inputs_ok parent predStart preds \<longleftrightarrow>
     length parent = m \<and> (\<forall>v. 0 < v \<and> v < m \<longrightarrow> parent ! v = int (par v)) \<and>
     csr_ok m predStart preds \<and>
     (\<forall>w < m. set (csr_row predStart preds w) = int ` {v. (v, w) \<in> E})"

definition idoms_ok :: "nat \<Rightarrow> int list \<Rightarrow> bool" where
  "idoms_ok w idom \<longleftrightarrow> length idom = m \<and>
     (\<forall>v c. v < m \<and> w < c \<and> anc c v \<and> par c = semi v \<longrightarrow> (\<exists>d. idom ! v = int d \<and> idom_rel v d))"

definition lt_inv :: "nat \<Rightarrow> ltLoop \<Rightarrow> bool" where
  "lt_inv w s \<longleftrightarrow>
     forest_ok w (forest s) \<and> (\<forall>v. v \<le> w \<and> v < m \<longrightarrow> lt_semi (forest s) ! v = int v) \<and>
     buckets_ok (bucket w) (bucketHead s) (bucketNext s) \<and> idoms_ok w (idoms s)"

lemma forest_link:
  assumes "0 < w" and "w < m" and "forest_ok w lt" and "lt_semi lt ! w = int (semi w)"
  shows "forest_ok (w - 1) (lt \<lparr> lt_ancestor := (lt_ancestor lt)[w := int (par w)] \<rparr>)"
proof -
  let ?lt' = "lt \<lparr> lt_ancestor := (lt_ancestor lt)[w := int (par w)] \<rparr>"
  have len: "length (lt_semi lt) = m" "length (lt_ancestor lt) = m" "length (lt_label lt) = m"
    using assms(3) by (auto simp: forest_ok_def)
  have "link_ok (w - 1) (par w) w w"
    unfolding link_ok_def using anc_par [OF assms(1,2)] par_less [OF assms(1,2)] assms(1,2)
    by (auto dest: segment_below [OF assms(1,2) anc_refl] simp: anc_par_iff [OF assms(1,2)])
      (meson anc_le not_less)+
  moreover have "link_ok (w - 1) a l v" if "link_ok w a l v" for a l v
    using that by (fastforce simp: link_ok_def)
  moreover have "lt_label lt ! w = int w" using assms(2,3) by (simp add: forest_ok_def)
  ultimately have "\<exists>a l. lt_ancestor ?lt' ! v = int a \<and> lt_label ?lt' ! v = int l \<and> link_ok (w - 1) a l v"
    if "v < m" "w \<le> v" for v
    using that len assms(2) forest_linkE [OF assms(3) that(1)]
    by (cases "v = w") (simp, simp, metis le_neq_implies_less)
  moreover have "lt_semi lt ! v = int (semi v)" if "v < m" "w \<le> v" for v
    using that assms(3,4) by (cases "v = w") (auto simp: forest_ok_def)
  moreover have "lt_ancestor ?lt' ! v = -1 \<and> lt_label ?lt' ! v = int v" if "v < m" "v \<le> w - 1" for v
    using that assms(1,3) by (auto simp: forest_ok_def)
  moreover have "w - 1 < v \<longleftrightarrow> w \<le> v" for v using assms(1) by auto
  ultimately show ?thesis using len unfolding forest_ok_def by simp
qed

text \<open>Inserting \<open>w\<close> in front of the bucket of its semidominator.\<close>

lemma buckets_insert:
  assumes "0 < w" and "w < m" and "buckets_ok (bucket w) bh bn"
  shows "buckets_ok (\<lambda>p. bucket w p \<union> (if semi w = p then {w} else {}))
    (bh[semi w := int w]) (bn[w := bh ! semi w])"
  unfolding buckets_ok_def
proof (intro conjI allI impI)
  have len: "length bh = m" "length bn = m" using assms(3) by (auto simp: buckets_ok_def)
  then show "length (bh[semi w := int w]) = m" "length (bn[w := bh ! semi w]) = m" by auto
  fix p assume p: "p < m"
  obtain xs where xs: "blist bn (bh ! p) xs" "distinct xs" "set xs = bucket w p"
    using assms(3) p unfolding buckets_ok_def by blast
  have new: "w \<notin> set xs" using xs(3) by (simp add: bucket_def)
  have sm: "semi w < m" using semi_bound assms by blast
  show "\<exists>xs. blist (bn[w := bh ! semi w]) (bh[semi w := int w] ! p) xs \<and> distinct xs \<and>
      set xs = bucket w p \<union> (if semi w = p then {w} else {})"
  proof (cases "semi w = p")
    case True
    with xs new len assms(2) sm show ?thesis
      by (intro exI [of _ "w # xs"]) (simp add: blist_update)
  next
    case False
    with xs new len show ?thesis by (intro exI [of _ xs]) (simp add: blist_update)
  qed
qed

lemma buckets_drained:
  assumes "0 < w" and "w < m"
    and "buckets_ok (\<lambda>p. bucket w p \<union> (if semi w = p then {w} else {})) bh bn"
  shows "buckets_ok (bucket (w - 1)) (bh[par w := -1]) bn"
  unfolding buckets_ok_def
proof (intro conjI allI impI)
  have len: "length bh = m" "length bn = m" using assms(3) by (auto simp: buckets_ok_def)
  then show "length (bh[par w := -1]) = m" "length bn = m" by auto
  fix p assume p: "p < m"
  show "\<exists>xs. blist bn (bh[par w := -1] ! p) xs \<and> distinct xs \<and> set xs = bucket (w - 1) p"
  proof (cases "p = par w")
    case True
    with p len show ?thesis using bucket_done [OF assms(1,2)] by (intro exI [of _ "[]"]) simp
  next
    case False
    then show ?thesis
      using assms(3) p bucket_other [OF assms(1,2) False] unfolding buckets_ok_def by simp
  qed
qed

lemma idoms_drained:
  assumes w: "0 < w" "w < m" and "idoms_ok w idom" and "length idom' = m"
    and keep: "\<And>v. v \<notin> set xs \<Longrightarrow> idom' ! v = idom ! v"
    and new: "\<And>v. v \<in> set xs \<Longrightarrow> \<exists>d. idom' ! v = int d \<and> idom_rel v d"
    and xs: "set xs = bucket w (par w) \<union> (if semi w = par w then {w} else {})"
  shows "idoms_ok (w - 1) idom'"
  unfolding idoms_ok_def
proof (intro conjI allI impI)
  fix v c assume a: "v < m \<and> w - 1 < c \<and> anc c v \<and> par c = semi v"
  show "\<exists>d. idom' ! v = int d \<and> idom_rel v d"
  proof (cases "v \<in> set xs")
    case False
    have "\<exists>c'. w < c' \<and> anc c' v \<and> par c' = semi v"
    proof (rule ccontr)
      assume none: "\<not> ?thesis"
      then have "c = w" using a w by (metis Suc_diff_1 Suc_leI le_neq_implies_less)
      then have c: "semi v = par w" "anc w v" using a by auto
      then have "w \<le> v" using anc_le by blast
      then have "v \<in> set xs" using c a none unfolding xs bucket_def by (cases "v = w") auto
      with False show False by simp
    qed
    then show ?thesis using assms(3) a keep [OF False] unfolding idoms_ok_def by auto
  qed (use new in blast)
qed (rule assms(4))

lemma ltVertex_spec:
  assumes w: "0 < w" "w < m" and io: "inputs_ok parent predStart preds" and I: "lt_inv w s"
  shows "returns (ltVertex parent predStart preds (int w) s) (lt_inv (w - 1))"
proof -
  have csr: "csr_ok m predStart preds" and vs: "set (csr_row predStart preds w) = int ` {v. (v, w) \<in> E}"
    and pw: "parent ! w = int (par w)" "length parent = m"
    using io w by (auto simp: inputs_ok_def)
  have f: "forest_ok w (forest s)" and low: "\<forall>v \<le> w. lt_semi (forest s) ! v = int v"
    and b: "buckets_ok (bucket w) (bucketHead s) (bucketNext s)" and i: "idoms_ok w (idoms s)"
    using I w by (auto simp: lt_inv_def)
  have slice: "gbind (idx predStart (int w)) (\<lambda>a. gbind (idx predStart (int w + 1)) (\<lambda>b. slice preds a b)) =
      (Inr (csr_row predStart preds w) :: (herr, int list) go)"
    by (rule csr_slice [OF csr w(2)])
  obtain lt where lt: "gfold (semiStep (int w)) (csr_row predStart preds w) (forest s) = Inr lt"
    and lf: "forest_ok w lt" and lo: "\<forall>v < w. lt_semi lt ! v = int v" and lw: "lt_semi lt ! w = int (semi w)"
    using semi_loop_spec [OF w vs f low] by (auto elim!: returnsE)
  let ?bn = "(bucketNext s)[w := bucketHead s ! semi w]"
  let ?bh = "(bucketHead s)[semi w := int w]"
  let ?lt1 = "lt \<lparr> lt_ancestor := (lt_ancestor lt)[w := int (par w)] \<rparr>"
  have len: "length (bucketHead s) = m" "length (bucketNext s) = m" "length (lt_semi lt) = m"
    "length (lt_ancestor lt) = m"
    using b lf by (auto simp: buckets_ok_def forest_ok_def)
  have sm: "semi w < m" "par w < m" using semi_bound w par_less by (blast, meson less_trans)
  have b1: "buckets_ok (\<lambda>p. bucket w p \<union> (if semi w = p then {w} else {})) ?bh ?bn"
    by (rule buckets_insert [OF w b])
  then obtain xs where xs: "blist ?bn (?bh ! par w) xs" "distinct xs"
    "set xs = bucket w (par w) \<union> (if semi w = par w then {w} else {})"
    using sm(2) unfolding buckets_ok_def by blast
  have below: "\<forall>v \<in> set xs. anc w v \<and> v < m \<and> semi v = par w"
    using bucket_below [OF w] xs(3) by blast
  have bn_len: "length ?bn = m" and il: "length (idoms s) = m" using len i by (auto simp: idoms_ok_def)
  have xm: "length xs \<le> m"
    using distinct_card [OF xs(2)] below card_mono [of "{..<m}" "set xs"] by auto
  obtain lt2 idom' where dr: "drainBucket m (int (par w)) ?bn (?bh ! par w) (?lt1, idoms s) = Inr (lt2, idom')"
    and d: "forest_ok (w - 1) lt2" "lt_semi lt2 = lt_semi ?lt1" "length idom' = m"
      "\<forall>v. v \<notin> set xs \<longrightarrow> idom' ! v = idoms s ! v"
      "\<forall>v \<in> set xs. \<exists>d. idom' ! v = int d \<and> idom_rel v d"
    using drainBucket_spec [OF w forest_link [OF w lf lw] xs(1,2) xm bn_len il below]
    by (auto elim!: returnsE)
  have "ltVertex parent predStart preds (int w) s =
      Inr \<lparr> forest = lt2, idoms = idom', bucketHead = ?bh[par w := -1], bucketNext = ?bn \<rparr>"
    using slice lt lw len sm w pw dr by (simp add: ltVertex_def)
  moreover have "idoms_ok (w - 1) idom'"
    using d by (intro idoms_drained [OF w i d(3) _ _ xs(3)]) auto
  moreover have "buckets_ok (bucket (w - 1)) (?bh[par w := -1]) ?bn" by (rule buckets_drained [OF w b1])
  moreover have "\<forall>v. v \<le> w - 1 \<and> v < m \<longrightarrow> lt_semi lt2 ! v = int v"
    using lo w d(2) by auto
  ultimately show ?thesis using d(1) by (simp add: lt_inv_def)
qed

lemma lt_inv_init:
  "lt_inv (m - 1) \<lparr> forest = \<lparr> lt_semi = map int [0..<m], lt_ancestor = replicate m (-1),
       lt_label = map int [0..<m] \<rparr>, idoms = replicate m 0, bucketHead = replicate m (-1),
     bucketNext = replicate m 0 \<rparr>"
proof -
  have none: "\<not> m - 1 < v" if "v < m" for v using that by simp
  then have "bucket (m - 1) p = {}" for p by (auto simp: bucket_def)
  then have "buckets_ok (bucket (m - 1)) (replicate m (-1)) (replicate m 0)"
    unfolding buckets_ok_def by (auto intro!: exI [of _ "[]"])
  moreover have "idoms_ok (m - 1) (replicate m 0)"
    using none anc_bound by (auto simp: idoms_ok_def)
  ultimately show ?thesis using none by (auto simp: lt_inv_def forest_ok_def)
qed

lemma lt_loop_spec:
  assumes "inputs_ok parent predStart preds"
  shows "k < m \<Longrightarrow> lt_inv k s \<Longrightarrow>
    returns (gfold (ltVertex parent predStart preds) (map int (rev [1..<Suc k])) s) (lt_inv 0)"
proof (induction k arbitrary: s)
  case 0
  then show ?case by simp
next
  case (Suc k)
  have "returns (ltVertex parent predStart preds (int (Suc k)) s) (lt_inv k)"
    using ltVertex_spec [OF _ Suc.prems(1) assms Suc.prems(2)] by simp
  moreover have "rev [1..<Suc (Suc k)] = Suc k # rev [1..<Suc k]" by simp
  ultimately show ?case using Suc by (auto intro: returns_gbind simp del: upt_Suc)
qed

subsection \<open>The last pass\<close>

lemma idom_rel_semi:
  assumes "0 < v" and "v < m" and "idom_rel v (semi v)"
  shows "idom_num E v = semi v"
proof -
  obtain u where u: "semi v < u" "anc u v" "\<forall>u'. semi v < u' \<and> anc u' v \<longrightarrow> semi u \<le> semi u'"
    "semi v = (if semi u < semi v then u else semi v)"
    using assms(3) by (auto simp: idom_rel_def)
  then have "semi v \<le> semi u" by (auto split: if_splits)
  then show ?thesis using u by (intro idom_semi assms) (auto intro: le_trans)
qed

lemma idom_rel_other:
  assumes "0 < v" and "v < m" and "idom_rel v d" and "d \<noteq> semi v"
  shows "d < v" and "0 < d" and "idom_num E v = idom_num E d"
proof -
  obtain u where u: "semi v < u" "anc u v" "\<forall>u'. semi v < u' \<and> anc u' v \<longrightarrow> semi u \<le> semi u'"
    "d = (if semi u < semi v then u else semi v)"
    using assms(3) by (auto simp: idom_rel_def)
  then have d: "d = u" "semi u < semi v" using assms(4) by (auto split: if_splits)
  then have "u \<noteq> v" by auto
  then show "d < v" and "0 < d" using d u anc_le [OF u(2)] by auto
  show "idom_num E v = idom_num E d"
    using u d anc_linear [OF semi_anc [OF assms(1,2)] u(2)]
    by (intro idom_of_smaller_semi assms) auto
qed

lemma final_pass_spec:
  assumes semis: "length semis = m" "\<forall>v. 0 < v \<and> v < m \<longrightarrow> semis ! v = int (semi v)"
    and "length idom = m" and rel: "\<forall>v. 0 < v \<and> v < m \<longrightarrow> (\<exists>d. idom ! v = int d \<and> idom_rel v d)"
  shows "returns (gfold (idomStep semis) (map int [1..<m]) idom)
    (\<lambda>idom'. length idom' = m \<and>
       (\<forall>v. 0 < v \<and> v < m \<longrightarrow> idom' ! v = int (idom_num E v)))"
proof -
  let ?I = "\<lambda>pre idom'. length idom' = m \<and>
    (\<forall>v. 0 < v \<and> v < m \<longrightarrow> (if v \<le> length pre then idom' ! v = int (idom_num E v) else idom' ! v = idom ! v))"
  have "returns (gfold (idomStep semis) (map int [1..<m]) idom) (?I (map int [1..<m]))"
  proof (rule returns_gfold [where I = ?I])
    show "?I [] idom" using assms by simp
  next
    fix pre x post idom'
    assume split: "map int [1..<m] = pre @ x # post" and I: "?I pre idom'"
    have "length pre < m - 1" using arg_cong [OF split, of length] by simp
    moreover have "x = map int [1..<m] ! length pre" by (simp only: split nth_append_length)
    ultimately have x: "x = int (Suc (length pre))" "Suc (length pre) < m" by (auto simp del: upt_Suc)
    define w where "w = Suc (length pre)"
    have w: "0 < w" "w < m" "x = int w" using x by (auto simp: w_def)
    obtain d where d: "idom' ! w = int d" "idom_rel w d" using I rel w by (auto simp: w_def)
    have "\<exists>e. idomStep semis x idom' = Inr (idom'[w := int (idom_num E w)])"
    proof (cases "d = semi w")
      case True
      then have "idom_num E w = d" using idom_rel_semi w d by simp
      then have "idomStep semis x idom' = Inr idom'"
        using d w True semis I by (simp add: idomStep_def)
      moreover have "idom'[w := int (idom_num E w)] = idom'"
        using d(1) \<open>idom_num E w = d\<close> by (metis list_update_id)
      ultimately show ?thesis by simp
    next
      case False
      note o = idom_rel_other [OF w(1,2) d(2) False]
      then have "idom' ! d = int (idom_num E w)" using I w by (auto simp: w_def)
      then show ?thesis using d w False semis I o by (simp add: idomStep_def)
    qed
    then show "returns (idomStep semis x idom') (?I (pre @ [x]))"
      using I w by (auto simp: w_def nth_list_update_if)
  qed
  then show ?thesis by (rule returns_mono) auto
qed

theorem lengauerTarjan_spec:
  assumes "inputs_ok parent predStart preds"
  shows "returns (lengauerTarjan m parent predStart preds)
    (\<lambda>idom. length idom = m \<and> (\<forall>v. 0 < v \<and> v < m \<longrightarrow> idom ! v = int (idom_num E v)))"
proof -
  let ?s0 = "\<lparr> forest = \<lparr> lt_semi = map int [0..<m], lt_ancestor = replicate m (-1),
       lt_label = map int [0..<m] \<rparr>, idoms = replicate m 0, bucketHead = replicate m (-1),
     bucketNext = replicate m 0 \<rparr>"
  have "returns (gfold (ltVertex parent predStart preds) (map int (rev [1..<m])) ?s0) (lt_inv 0)"
    using lt_loop_spec [OF assms _ lt_inv_init] m_pos by simp
  then obtain s where s: "gfold (ltVertex parent predStart preds) (map int (rev [1..<m])) ?s0 = Inr s"
    and I: "lt_inv 0 s" by (auto elim!: returnsE)
  have semis: "length (lt_semi (forest s)) = m"
    "\<forall>v. 0 < v \<and> v < m \<longrightarrow> lt_semi (forest s) ! v = int (semi v)"
    using I by (auto simp: lt_inv_def forest_ok_def)
  have idoms: "length (idoms s) = m" using I by (simp add: lt_inv_def idoms_ok_def)
  have "\<exists>d. idoms s ! v = int d \<and> idom_rel v d" if v: "0 < v" "v < m" for v
  proof -
    obtain c where "par c = semi v" "anc c v" "semi v < c"
      using child_towards [OF semi_anc semi_less] v by blast
    then show ?thesis using I v unfolding lt_inv_def idoms_ok_def by (metis gr_zeroI not_less_zero)
  qed
  then show ?thesis
    using final_pass_spec [OF semis idoms] s by (simp add: lengauerTarjan_def Let_def)
qed

end

end
