(* ===== verification/Go_Float.thy ===== *)
theory Go_Float
  imports Complex_Main Go_Prelude
begin

text \<open>
  Go's \<open>float64\<close>: the finite values are the rational numbers of IEEE 754 binary64, and every
  operation rounds the exact rational result to the nearest of them, ties to the even significand.
  The sign of zero is not represented; no modelled code observes it. The definitions compute, so the
  percentages and thresholds of the modelled code can be evaluated bit for bit.
\<close>

subsection \<open>Rounding\<close>

datatype f64 = Fin rat | PInf | NInf | NaN

definition pow2 :: "int \<Rightarrow> rat" where
  "pow2 e = (if 0 \<le> e then 2 ^ nat e else 1 / 2 ^ nat (- e))"

text \<open>Round half to even.\<close>

definition rne :: "rat \<Rightarrow> int" where
  "rne x =
     (let f = \<lfloor>x\<rfloor>; r = x - of_int f
      in if r < 1 / 2 then f else if 1 / 2 < r then f + 1 else if even f then f else f + 1)"

fun nlog2 :: "nat \<Rightarrow> nat" where
  "nlog2 n = (if n < 2 then 0 else Suc (nlog2 (n div 2)))"

declare nlog2.simps [simp del]

text \<open>The binary exponent of a positive rational: the \<open>e\<close> with \<open>2\<^sup>e \<le> q < 2\<^sup>e\<^sup>+\<^sup>1\<close>.\<close>

definition rlog2 :: "rat \<Rightarrow> int" where
  "rlog2 q =
     (let (n, d) = quotient_of q; e = int (nlog2 (nat n)) - int (nlog2 (nat d))
      in if pow2 e \<le> q then e else e - 1)"

text \<open>The spacing of the values around \<open>q\<close>, and the value nearest to \<open>q\<close>.\<close>

definition ulp :: "rat \<Rightarrow> rat" where
  "ulp q = pow2 (max (-1022) (rlog2 \<bar>q\<bar>) - 52)"

definition f64_of_rat :: "rat \<Rightarrow> f64" where
  "f64_of_rat q =
     (if q = 0 then Fin 0
      else let r = of_int (rne (q / ulp q)) * ulp q
           in if pow2 1024 \<le> r then PInf else if r \<le> - pow2 1024 then NInf else Fin r)"

subsection \<open>Operations\<close>

definition f_of_int :: "int \<Rightarrow> f64" where
  "f_of_int i = f64_of_rat (of_int i)"

fun f_add :: "f64 \<Rightarrow> f64 \<Rightarrow> f64" where
  "f_add (Fin x) (Fin y) = f64_of_rat (x + y)"
| "f_add NaN _ = NaN"
| "f_add _ NaN = NaN"
| "f_add PInf NInf = NaN"
| "f_add NInf PInf = NaN"
| "f_add PInf _ = PInf"
| "f_add _ PInf = PInf"
| "f_add NInf _ = NInf"
| "f_add _ NInf = NInf"

fun f_neg :: "f64 \<Rightarrow> f64" where
  "f_neg (Fin x) = Fin (- x)"
| "f_neg PInf = NInf"
| "f_neg NInf = PInf"
| "f_neg NaN = NaN"

definition f_sub :: "f64 \<Rightarrow> f64 \<Rightarrow> f64" where
  "f_sub x y = f_add x (f_neg y)"

text \<open>An infinity with the sign of \<open>x\<close>; \<open>NaN\<close> for zero.\<close>

definition inf_of :: "rat \<Rightarrow> f64" where
  "inf_of x = (if 0 < x then PInf else if x < 0 then NInf else NaN)"

fun f_mul :: "f64 \<Rightarrow> f64 \<Rightarrow> f64" where
  "f_mul (Fin x) (Fin y) = f64_of_rat (x * y)"
| "f_mul NaN _ = NaN"
| "f_mul _ NaN = NaN"
| "f_mul (Fin x) PInf = inf_of x"
| "f_mul (Fin x) NInf = inf_of (- x)"
| "f_mul PInf (Fin x) = inf_of x"
| "f_mul NInf (Fin x) = inf_of (- x)"
| "f_mul PInf PInf = PInf"
| "f_mul NInf NInf = PInf"
| "f_mul PInf NInf = NInf"
| "f_mul NInf PInf = NInf"

text \<open>Division by zero gives an infinity or \<open>NaN\<close>; the divisor's zero counts as positive.\<close>

fun f_div :: "f64 \<Rightarrow> f64 \<Rightarrow> f64" where
  "f_div (Fin x) (Fin y) = (if y = 0 then inf_of x else f64_of_rat (x / y))"
| "f_div NaN _ = NaN"
| "f_div _ NaN = NaN"
| "f_div (Fin x) _ = Fin 0"
| "f_div PInf (Fin y) = (if y < 0 then NInf else PInf)"
| "f_div NInf (Fin y) = (if y < 0 then PInf else NInf)"
| "f_div _ _ = NaN"

fun f_lt :: "f64 \<Rightarrow> f64 \<Rightarrow> bool" where
  "f_lt (Fin x) (Fin y) = (x < y)"
| "f_lt NaN _ = False"
| "f_lt _ NaN = False"
| "f_lt NInf NInf = False"
| "f_lt NInf _ = True"
| "f_lt PInf _ = False"
| "f_lt _ PInf = True"
| "f_lt _ _ = False"

fun f_eq :: "f64 \<Rightarrow> f64 \<Rightarrow> bool" where
  "f_eq NaN _ = False"
| "f_eq _ NaN = False"
| "f_eq x y = (x = y)"

definition f_le :: "f64 \<Rightarrow> f64 \<Rightarrow> bool" where
  "f_le x y \<longleftrightarrow> f_lt x y \<or> f_eq x y"

subsection \<open>Evaluation\<close>

lemma floor_quotient: "\<lfloor>numeral a / numeral b :: rat\<rfloor> = numeral a div numeral b"
  by (metis floor_divide_of_int_eq of_int_numeral)

lemma quotient_of_quotient:
  "quotient_of (numeral a / numeral b) =
     (let g = gcd (numeral a) (numeral b) in (numeral a div g, numeral b div g))"
  by (simp add: rat_divide_code rat_number_expand quotient_of_Fract Rat.normalize_def Let_def)

lemma quotient_of_inverse: "quotient_of (1 / numeral b) = (1, numeral b)"
  by (simp add: rat_divide_code rat_number_expand quotient_of_Fract Rat.normalize_def Let_def)

lemma nlog2_numeral: "nlog2 (numeral n) = (if numeral n < (2::nat) then 0 else Suc (nlog2 (numeral n div 2)))"
  by (subst nlog2.simps) (rule refl)

lemma nlog2_small: "nlog2 0 = 0" "nlog2 1 = 0" "nlog2 (Suc 0) = 0"
  by (simp_all add: nlog2.simps)

text \<open>Facts that evaluate a rounding on numerals.\<close>

lemmas float_eval = f64_of_rat_def ulp_def rlog2_def pow2_def rne_def Let_def nlog2_numeral nlog2_small
  floor_quotient quotient_of_quotient quotient_of_inverse gcd_non_0_int

end
