(* ===== verification/Go_Heap.thy ===== *)
theory Go_Heap
  imports Go_Prelude
begin

text \<open>
  Package \<open>container/heap\<close> of the Go library: \<open>up\<close>, \<open>down\<close>, \<open>Push\<close> and \<open>Fix\<close> on a slice ordered
  by a comparator. The lemmas show that both keep the elements and restore the heap order, and that
  the first element of a heap is minimal.
\<close>

subsection \<open>Sifting\<close>

definition heap_swap :: "'a list \<Rightarrow> nat \<Rightarrow> nat \<Rightarrow> 'a list" where
  "heap_swap xs i j = xs[i := xs ! j, j := xs ! i]"

function heap_up :: "('a \<Rightarrow> 'a \<Rightarrow> bool) \<Rightarrow> 'a list \<Rightarrow> nat \<Rightarrow> 'a list" where
  "heap_up lt xs j =
     (let i = (j - 1) div 2
      in if i = j \<or> \<not> lt (xs ! j) (xs ! i) then xs else heap_up lt (heap_swap xs i j) i)"
  by auto
termination by (relation "measure (\<lambda>(_, _, j). j)") auto

definition min_child :: "('a \<Rightarrow> 'a \<Rightarrow> bool) \<Rightarrow> 'a list \<Rightarrow> nat \<Rightarrow> nat \<Rightarrow> nat" where
  "min_child lt xs n i =
     (let j1 = 2 * i + 1; j2 = j1 + 1 in if j2 < n \<and> lt (xs ! j2) (xs ! j1) then j2 else j1)"

function heap_down :: "('a \<Rightarrow> 'a \<Rightarrow> bool) \<Rightarrow> 'a list \<Rightarrow> nat \<Rightarrow> nat \<Rightarrow> 'a list \<times> nat" where
  "heap_down lt xs n i =
     (if n \<le> 2 * i + 1 then (xs, i)
      else let j = min_child lt xs n i
           in if \<not> lt (xs ! j) (xs ! i) then (xs, i) else heap_down lt (heap_swap xs i j) n j)"
  by auto
termination by (relation "measure (\<lambda>(_, _, n, i). n - i)") (auto simp: min_child_def Let_def)

declare heap_up.simps [simp del] heap_down.simps [simp del]

definition heap_Push :: "('a \<Rightarrow> 'a \<Rightarrow> bool) \<Rightarrow> 'a list \<Rightarrow> 'a \<Rightarrow> 'a list" where
  "heap_Push lt xs x = heap_up lt (xs @ [x]) (length xs)"

definition heap_Fix :: "('a \<Rightarrow> 'a \<Rightarrow> bool) \<Rightarrow> 'a list \<Rightarrow> nat \<Rightarrow> 'a list" where
  "heap_Fix lt xs i =
     (let (ys, i') = heap_down lt xs (length xs) i in if i < i' then ys else heap_up lt ys i)"

subsection \<open>The elements are kept\<close>

lemma mset_heap_swap: "i < length xs \<Longrightarrow> j < length xs \<Longrightarrow> mset (heap_swap xs i j) = mset xs"
  unfolding heap_swap_def by (rule mset_swap)

lemma length_heap_swap [simp]: "length (heap_swap xs i j) = length xs"
  by (simp add: heap_swap_def)

lemma nth_heap_swap:
  "i < length xs \<Longrightarrow> j < length xs \<Longrightarrow>
     heap_swap xs i j ! k = (if k = j then xs ! i else if k = i then xs ! j else xs ! k)"
  by (auto simp: heap_swap_def nth_upd)

lemma mset_heap_up: "j < length xs \<Longrightarrow> mset (heap_up lt xs j) = mset xs"
proof (induction lt xs j rule: heap_up.induct)
  case (1 lt xs j)
  let ?i = "(j - 1) div 2"
  have "?i < length xs" using 1(2) by linarith
  then show ?case using 1 by (subst heap_up.simps) (auto simp: Let_def mset_heap_swap)
qed

lemma min_child_bound: "2 * i + 1 < n \<Longrightarrow> i < min_child lt xs n i \<and> min_child lt xs n i < n"
  by (auto simp: min_child_def Let_def)

lemma mset_heap_down:
  "n \<le> length xs \<Longrightarrow> i < n \<Longrightarrow> mset (fst (heap_down lt xs n i)) = mset xs"
proof (induction lt xs n i rule: heap_down.induct)
  case (1 lt xs n i)
  show ?case
  proof (cases "2 * i + 1 < n")
    case True
    let ?j = "min_child lt xs n i"
    have "?j < n" using min_child_bound [OF True] by blast
    then show ?thesis using 1 True by (subst heap_down.simps) (auto simp: Let_def mset_heap_swap)
  qed (subst heap_down.simps, simp)
qed

subsection \<open>The heap order\<close>

definition heap_ok :: "('a \<Rightarrow> 'a \<Rightarrow> bool) \<Rightarrow> 'a list \<Rightarrow> bool" where
  "heap_ok lt xs \<longleftrightarrow> (\<forall>k. 0 < k \<and> k < length xs \<longrightarrow> \<not> lt (xs ! k) (xs ! ((k - 1) div 2)))"

text \<open>The order may fail only between \<open>j\<close> and its parent, or only between \<open>i\<close> and its children.\<close>

definition heap_but_up :: "('a \<Rightarrow> 'a \<Rightarrow> bool) \<Rightarrow> 'a list \<Rightarrow> nat \<Rightarrow> bool" where
  "heap_but_up lt xs j \<longleftrightarrow>
     (\<forall>k. 0 < k \<and> k < length xs \<and> k \<noteq> j \<longrightarrow> \<not> lt (xs ! k) (xs ! ((k - 1) div 2))) \<and>
     (\<forall>k. 0 < k \<and> k < length xs \<and> (k - 1) div 2 = j \<and> 0 < j \<longrightarrow> \<not> lt (xs ! k) (xs ! ((j - 1) div 2)))"

definition heap_but_down :: "('a \<Rightarrow> 'a \<Rightarrow> bool) \<Rightarrow> 'a list \<Rightarrow> nat \<Rightarrow> bool" where
  "heap_but_down lt xs i \<longleftrightarrow>
     (\<forall>k. 0 < k \<and> k < length xs \<and> (k - 1) div 2 \<noteq> i \<longrightarrow> \<not> lt (xs ! k) (xs ! ((k - 1) div 2))) \<and>
     (\<forall>k. 0 < k \<and> k < length xs \<and> (k - 1) div 2 = i \<and> 0 < i \<longrightarrow> \<not> lt (xs ! k) (xs ! ((i - 1) div 2)))"

context comparator begin

lemma heap_up_done:
  assumes "heap_but_up lt xs j" and "(j - 1) div 2 = j \<or> \<not> lt (xs ! j) (xs ! ((j - 1) div 2))"
  shows "heap_ok lt xs"
  unfolding heap_ok_def
proof (intro allI impI)
  fix k assume k: "0 < k \<and> k < length xs"
  show "\<not> lt (xs ! k) (xs ! ((k - 1) div 2))"
  proof (cases "k = j")
    case False
    then show ?thesis using assms(1) k unfolding heap_but_up_def by blast
  next
    case eq: True
    then have "(j - 1) div 2 \<noteq> j" using k by auto
    then show ?thesis using assms(2) eq by simp
  qed
qed

text \<open>Swapping an element with its larger parent moves the only possible violation to the parent.\<close>

lemma heap_swap_up:
  assumes but: "heap_but_up lt xs j" and jl: "j < length xs" and ij: "(j - 1) div 2 < j"
    and l: "lt (xs ! j) (xs ! ((j - 1) div 2))"
  shows "heap_but_up lt (heap_swap xs ((j - 1) div 2) j) ((j - 1) div 2)"
  unfolding heap_but_up_def
proof (intro conjI allI impI)
  let ?i = "(j - 1) div 2"
  let ?ys = "heap_swap xs ?i j" and ?p = "(?i - 1) div 2"
  have i: "?i < length xs" using jl ij by simp
  note nth = nth_heap_swap [OF i jl]
  have o1: "\<not> lt (xs ! k) (xs ! ((k - 1) div 2))" if "0 < k" "k < length xs" "k \<noteq> j" for k
    using but that unfolding heap_but_up_def by blast
  have o2: "\<not> lt (xs ! k) (xs ! ?i)" if "0 < k" "k < length xs" "(k - 1) div 2 = j" for k
    using but that ij unfolding heap_but_up_def by auto
  fix k
  { assume k: "0 < k \<and> k < length ?ys \<and> k \<noteq> ?i"
    then have k': "0 < k" "k < length xs" "k \<noteq> ?i" by auto
    consider "k = j" | "k \<noteq> j" "(k - 1) div 2 = j" | "k \<noteq> j" "(k - 1) div 2 = ?i" "(k - 1) div 2 \<noteq> j"
      | "k \<noteq> j" "(k - 1) div 2 \<noteq> ?i" "(k - 1) div 2 \<noteq> j" by blast
    then show "\<not> lt (?ys ! k) (?ys ! ((k - 1) div 2))"
    proof cases
      case 1
      then show ?thesis unfolding nth using less_asym [OF l] ij by auto
    next
      case 2
      then show ?thesis unfolding nth using o2 [OF k'(1,2)] k' by simp
    next
      case 3
      then have "\<not> lt (xs ! k) (xs ! j)" using o1 [OF k'(1,2) 3(1)] l by (metis less_asym less_negtrans)
      then show ?thesis unfolding nth using 3 k' by simp
    next
      case 4
      then show ?thesis unfolding nth using o1 [OF k'(1,2)] k' by simp
    qed }
  { assume k: "0 < k \<and> k < length ?ys \<and> (k - 1) div 2 = ?i \<and> 0 < ?i"
    have p: "?p < ?i" and ik: "?i < k" using k by linarith+
    have ip: "\<not> lt (xs ! ?i) (xs ! ?p)" using o1 [of ?i] k i ij by simp
    moreover have "\<not> lt (xs ! k) (xs ! ?i)" if "k \<noteq> j" using o1 [of k] k that by simp
    ultimately have "\<not> lt (xs ! k) (xs ! ?p)" if "k \<noteq> j" using that less_negtrans by blast
    then show "\<not> lt (?ys ! k) (?ys ! ?p)" unfolding nth using ip ik p ij by auto }
qed

lemma heap_up_ok: "j < length xs \<Longrightarrow> heap_but_up lt xs j \<Longrightarrow> heap_ok lt (heap_up lt xs j)"
proof (induction j arbitrary: xs rule: less_induct)
  case (less j)
  let ?i = "(j - 1) div 2"
  show ?case
  proof (cases "?i = j \<or> \<not> lt (xs ! j) (xs ! ?i)")
    case True
    then show ?thesis
      using heap_up_done [OF less.prems(2)] by (subst heap_up.simps) (simp add: Let_def)
  next
    case False
    then have l: "lt (xs ! j) (xs ! ?i)" and ij: "?i < j" by auto
    have "heap_ok lt (heap_up lt (heap_swap xs ?i j) ?i)"
      using less.IH [OF ij] heap_swap_up [OF less.prems(2,1) ij l] ij less.prems(1) by simp
    then show ?thesis using False by (subst heap_up.simps) (simp add: Let_def)
  qed
qed

end

context comparator begin

lemma min_child_least:
  assumes "2 * i + 1 < n" and "0 < k" and "k < n" and "(k - 1) div 2 = i"
  shows "\<not> lt (xs ! k) (xs ! min_child lt xs n i)"
proof -
  have "k = 2 * i + 1 \<or> k = 2 * i + 2" using assms(2,4) by linarith
  then show ?thesis using assms(1,3) less_asym by (auto simp: min_child_def Let_def)
qed

lemma heap_down_done:
  assumes "heap_but_down lt xs i"
    and "\<And>k. 0 < k \<Longrightarrow> k < length xs \<Longrightarrow> (k - 1) div 2 = i \<Longrightarrow> \<not> lt (xs ! k) (xs ! i)"
  shows "heap_ok lt xs"
  using assms unfolding heap_ok_def heap_but_down_def by metis

text \<open>Swapping an element with its least child moves the only possible violation to the child.\<close>

lemma heap_swap_down:
  assumes but: "heap_but_down lt xs i" and i: "i < length xs" and ch: "2 * i + 1 < length xs"
    and l: "lt (xs ! min_child lt xs (length xs) i) (xs ! i)"
  shows "heap_but_down lt (heap_swap xs i (min_child lt xs (length xs) i)) (min_child lt xs (length xs) i)"
  unfolding heap_but_down_def
proof (intro conjI allI impI)
  let ?j = "min_child lt xs (length xs) i"
  let ?ys = "heap_swap xs i ?j"
  have j: "i < ?j" "?j < length xs" using min_child_bound [OF ch] by auto
  have pj: "(?j - 1) div 2 = i" by (auto simp: min_child_def Let_def)
  note least = min_child_least [OF ch, of _ xs] and nth = nth_heap_swap [OF i j(2)]
  have o1: "\<not> lt (xs ! k) (xs ! ((k - 1) div 2))" if "0 < k" "k < length xs" "(k - 1) div 2 \<noteq> i" for k
    using but that unfolding heap_but_down_def by blast
  have o2: "\<not> lt (xs ! k) (xs ! ((i - 1) div 2))" if "0 < k" "k < length xs" "(k - 1) div 2 = i" "0 < i" for k
    using but that unfolding heap_but_down_def by auto
  fix k
  { assume "0 < k \<and> k < length ?ys \<and> (k - 1) div 2 \<noteq> ?j"
    then have k: "0 < k" "k < length xs" "(k - 1) div 2 \<noteq> ?j" by auto
    consider "k = ?j" | "k \<noteq> ?j" "(k - 1) div 2 = i" | "k = i" | "k \<noteq> ?j" "k \<noteq> i" "(k - 1) div 2 \<noteq> i"
      by blast
    then show "\<not> lt (?ys ! k) (?ys ! ((k - 1) div 2))"
    proof cases
      case 1
      then show ?thesis unfolding nth using less_asym [OF l] pj j by auto
    next
      case 2
      then have "k \<noteq> i" using k(1) by linarith
      then show ?thesis unfolding nth using least [OF k(1,2) 2(2)] 2 j by simp
    next
      case 3
      then have "(k - 1) div 2 \<noteq> i" using k(1) by linarith
      then show ?thesis unfolding nth using o2 [OF _ j(2) pj] 3 k j by auto
    next
      case 4
      then show ?thesis unfolding nth using o1 [OF k(1,2) 4(3)] k(3) by simp
    qed }
  { assume "0 < k \<and> k < length ?ys \<and> (k - 1) div 2 = ?j \<and> 0 < ?j"
    then have k: "0 < k" "k < length xs" "(k - 1) div 2 = ?j" by auto
    have "?j < k" using k by linarith
    then show "\<not> lt (?ys ! k) (?ys ! ((?j - 1) div 2))"
      unfolding nth pj using o1 [OF k(1,2)] k(3) j by simp }
qed

lemma heap_down_ok:
  "i < length xs \<Longrightarrow> heap_but_down lt xs i \<Longrightarrow> heap_ok lt (fst (heap_down lt xs (length xs) i))"
proof (induction "length xs - i" arbitrary: i xs rule: less_induct)
  case less
  let ?j = "min_child lt xs (length xs) i"
  show ?case
  proof (cases "2 * i + 1 < length xs \<and> lt (xs ! ?j) (xs ! i)")
    case False
    have "\<not> lt (xs ! k) (xs ! i)" if "0 < k" "k < length xs" "(k - 1) div 2 = i" for k
    proof -
      have ch: "2 * i + 1 < length xs" using that by linarith
      then show ?thesis using min_child_least [OF ch that] False less_negtrans by blast
    qed
    then have "heap_ok lt xs" by (rule heap_down_done [OF less.prems(2)])
    then show ?thesis using False by (subst heap_down.simps) (auto simp: Let_def)
  next
    case True
    then have ch: "2 * i + 1 < length xs" and l: "lt (xs ! ?j) (xs ! i)" by auto
    have j: "i < ?j" "?j < length xs" using min_child_bound [OF ch, of lt xs] by auto
    then have "length xs - ?j < length xs - i" by linarith
    then have "heap_ok lt (fst (heap_down lt (heap_swap xs i ?j) (length (heap_swap xs i ?j)) ?j))"
      using less.hyps [of "heap_swap xs i ?j" ?j] heap_swap_down [OF less.prems(2,1) ch l] j by simp
    then show ?thesis using ch l by (subst heap_down.simps) (simp add: Let_def)
  qed
qed

lemma heap_root_least:
  assumes "heap_ok lt xs" and "k < length xs"
  shows "\<not> lt (xs ! k) (xs ! 0)"
  using assms(2)
proof (induction k rule: less_induct)
  case (less k)
  show ?case
  proof (cases "k = 0")
    case True
    then show ?thesis using less_asym by blast
  next
    case False
    then have p: "(k - 1) div 2 < k" by linarith
    have "\<not> lt (xs ! ((k - 1) div 2)) (xs ! 0)" using less.IH [OF p] p less.prems by simp
    moreover have "\<not> lt (xs ! k) (xs ! ((k - 1) div 2))"
      using assms(1) less.prems False unfolding heap_ok_def by blast
    ultimately show ?thesis using less_negtrans by blast
  qed
qed

lemma heap_Push_ok:
  assumes "heap_ok lt xs"
  shows "heap_ok lt (heap_Push lt xs x)"
proof -
  have "heap_but_up lt (xs @ [x]) (length xs)"
    unfolding heap_but_up_def
  proof (intro conjI allI impI)
    fix k assume k: "0 < k \<and> k < length (xs @ [x]) \<and> k \<noteq> length xs"
    then have "k < length xs" "(k - 1) div 2 < length xs" by auto
    then show "\<not> lt ((xs @ [x]) ! k) ((xs @ [x]) ! ((k - 1) div 2))"
      using assms k unfolding heap_ok_def by (simp add: nth_append)
  next
    fix k assume "0 < k \<and> k < length (xs @ [x]) \<and> (k - 1) div 2 = length xs \<and> 0 < length xs"
    then have "k \<le> length xs" "(k - 1) div 2 = length xs" "0 < k" by auto
    then have False by linarith
    then show "\<not> lt ((xs @ [x]) ! k) ((xs @ [x]) ! ((length xs - 1) div 2))" ..
  qed
  then show ?thesis unfolding heap_Push_def by (intro heap_up_ok) auto
qed

lemma heap_Fix_root_ok:
  assumes "heap_ok lt xs" and "xs \<noteq> []"
  shows "heap_ok lt (heap_Fix lt (xs[0 := x]) 0)" and "mset (heap_Fix lt (xs[0 := x]) 0) = mset (xs[0 := x])"
proof -
  let ?ys = "xs[0 := x]"
  have ne: "0 < length ?ys" using assms(2) by simp
  have "heap_but_down lt ?ys 0"
    unfolding heap_but_down_def
  proof (intro conjI allI impI)
    fix k assume k: "0 < k \<and> k < length ?ys \<and> (k - 1) div 2 \<noteq> 0"
    then have "?ys ! k = xs ! k" "?ys ! ((k - 1) div 2) = xs ! ((k - 1) div 2)" by (auto simp: nth_upd)
    then show "\<not> lt (?ys ! k) (?ys ! ((k - 1) div 2))" using assms(1) k unfolding heap_ok_def by auto
  qed simp
  note ok = heap_down_ok [OF ne this] and ms = mset_heap_down [where lt = lt, OF order_refl ne]
  have up0: "heap_up lt zs 0 = zs" for zs by (subst heap_up.simps) (simp add: Let_def)
  show "heap_ok lt (heap_Fix lt ?ys 0)" "mset (heap_Fix lt ?ys 0) = mset ?ys"
    using ok ms by (auto simp: heap_Fix_def up0 split: prod.splits)
qed

lemma mset_heap_Push: "mset (heap_Push lt xs x) = add_mset x (mset xs)"
  by (simp add: heap_Push_def mset_heap_up)

text \<open>
  Selecting the greatest \<open>limit\<close> elements with a bounded heap: push until it is full, then replace
  the root by every element that outranks it.
\<close>

end

definition top_step :: "('a \<Rightarrow> 'a \<Rightarrow> bool) \<Rightarrow> nat \<Rightarrow> 'a \<Rightarrow> 'a list \<Rightarrow> 'a list" where
  "top_step lt limit d h =
     (if length h < limit then heap_Push lt h d
      else if 0 < limit \<and> lt (h ! 0) d then heap_Fix lt (h[0 := d]) 0 else h)"

context comparator begin

definition selects :: "nat \<Rightarrow> 'a list \<Rightarrow> 'a list \<Rightarrow> bool" where
  "selects limit xs h \<longleftrightarrow> length h = min limit (length xs) \<and>
     (\<exists>rest. mset xs = mset h + rest \<and> (\<forall>y \<in> set h. \<forall>x \<in># rest. \<not> lt y x))"

lemma selects_permuted: "mset h = mset h' \<Longrightarrow> selects limit xs h \<Longrightarrow> selects limit xs h'"
  unfolding selects_def by (metis mset_eq_length mset_eq_setD)

lemma top_step_ok:
  assumes "heap_ok lt h" and "selects limit xs h"
  shows "heap_ok lt (top_step lt limit d h) \<and> selects limit (xs @ [d]) (top_step lt limit d h)"
proof -
  obtain rest where r: "mset xs = mset h + rest" "\<And>y x. y \<in> set h \<Longrightarrow> x \<in># rest \<Longrightarrow> \<not> lt y x"
    and len: "length h = min limit (length xs)" using assms(2) unfolding selects_def by auto
  consider "length h < limit" | "length h = limit" "limit = 0 \<or> \<not> lt (h ! 0) d"
    | "length h = limit" "0 < limit" "lt (h ! 0) d" using len by linarith
  then show ?thesis
  proof cases
    case 1
    then have "length h = length xs" using len by simp
    then have "rest = {#}" using arg_cong [OF r(1), of size] by simp
    moreover have "length (heap_Push lt h d) = Suc (length h)"
      using mset_heap_Push [of h d] by (metis mset_eq_length size_mset size_add_mset)
    ultimately show ?thesis
      using 1 r(1) len heap_Push_ok [OF assms(1)] by (auto simp: top_step_def selects_def mset_heap_Push)
  next
    case 2
    have "\<not> lt y d" if y: "y \<in> set h" for y
    proof -
      have "0 < limit" using y 2(1) by (cases h) auto
      then have "\<not> lt (h ! 0) d" using 2(2) by simp
      moreover obtain k where "k < length h" "h ! k = y" using y by (auto simp: in_set_conv_nth)
      ultimately show ?thesis using heap_root_least [OF assms(1)] less_negtrans by blast
    qed
    then have "selects limit (xs @ [d]) h"
      unfolding selects_def using r len 2(1) by (auto intro!: exI [of _ "add_mset d rest"])
    then show ?thesis using 2 assms(1) by (auto simp: top_step_def)
  next
    case 3
    then have ne: "h \<noteq> []" by auto
    let ?h = "heap_Fix lt (h[0 := d]) 0"
    note fx = heap_Fix_root_ok [OF assms(1) ne, of d]
    have h: "h = h ! 0 # tl h" using ne by (cases h) auto
    have m: "mset ?h = add_mset d (mset (tl h))" unfolding fx(2) by (subst h) simp
    have "selects limit (xs @ [d]) ?h"
      unfolding selects_def
    proof (intro conjI exI [of _ "add_mset (h ! 0) rest"] ballI)
      have "length ?h = length h" using fx(2) by (metis length_list_update mset_eq_length)
      then show "length ?h = min limit (length (xs @ [d]))" using 3(1) len by simp
      show "mset (xs @ [d]) = mset ?h + add_mset (h ! 0) rest"
        unfolding m using r(1) by (subst (asm) h) simp
      fix y x assume y: "y \<in> set ?h" and x: "x \<in># add_mset (h ! 0) rest"
      have "set ?h = insert d (set (tl h))" using m by (metis set_mset_add_mset_insert set_mset_mset)
      then have "y = d \<or> y \<in> set h" using y ne by (auto intro: list.set_sel(2))
      moreover have "\<not> lt y (h ! 0)" if "y \<in> set h" for y
        using that heap_root_least [OF assms(1)] by (auto simp: in_set_conv_nth)
      moreover have "\<not> lt (h ! 0) z" if "z \<in># rest" for z using r(2) [OF _ that] ne by simp
      moreover have "\<not> lt d (h ! 0)" using less_asym [OF 3(3)] .
      ultimately show "\<not> lt y x" using x less_negtrans by (metis insert_iff set_mset_add_mset_insert)
    qed
    then show ?thesis using 3 fx(1) by (simp add: top_step_def)
  qed
qed

lemma top_fold:
  "heap_ok lt (fold (top_step lt limit) xs []) \<and> selects limit xs (fold (top_step lt limit) xs [])"
proof (induction xs rule: rev_induct)
  case Nil
  then show ?case by (simp add: heap_ok_def selects_def)
next
  case (snoc x xs)
  then show ?case using top_step_ok [of "fold (top_step lt limit) xs []" limit xs x] by simp
qed

end

end
