(* ===== verification/Dominator_Tree.thy ===== *)
theory Dominator_Tree
  imports Heap_Retained
begin

text \<open>
  The dominator tree as \<open>ComputeRetained\<close> uses it: subtrees, the bottom-up accumulation of sizes, the
  child lists and the walk that aggregates by class. The lemmas hold in every depth-first numbering:
  accumulation gives each vertex the sum over its subtree, and the walk credits a class with each
  vertex below one of its instances exactly once, within the bound on its turns.
\<close>

subsection \<open>Subtrees of the dominator tree\<close>

context dfs_numbering begin

definition subtree :: "nat \<Rightarrow> nat set" where
  "subtree x = {e. e < m \<and> dom x e}"

lemma subtree_root: "subtree 0 = {..<m}"
  using dom_root by (auto simp: subtree_def)

lemma finite_subtree [simp]: "finite (subtree x)"
  by (simp add: subtree_def)

lemma subtree_self: "x < m \<Longrightarrow> x \<in> subtree x"
  by (simp add: subtree_def dominates_def)

lemma subtree_le: "e \<in> subtree x \<Longrightarrow> x \<le> e"
  using dom_anc anc_le by (auto simp: subtree_def)

text \<open>A vertex below \<open>x\<close> is \<open>x\<close> itself or lies below exactly one child of \<open>x\<close>.\<close>

lemma child_exists:
  assumes "e \<in> subtree x" and "e \<noteq> x"
  shows "\<exists>c. 0 < c \<and> c < m \<and> idom_num E c = x \<and> e \<in> subtree c"
  using assms
proof (induction e rule: less_induct)
  case (less e)
  have e: "e < m" "dom x e" "x \<le> e" using less.prems subtree_le by (auto simp: subtree_def)
  then have "0 < e" using less.prems by simp
  show ?case
  proof (cases "idom_num E e = x")
    case True
    then show ?thesis using \<open>0 < e\<close> e subtree_self by blast
  next
    case False
    have i: "idom_num E e < e" using idom_dom [OF \<open>0 < e\<close> e(1)] by simp
    have "dom x (idom_num E e)" using dom_idom_iff [OF \<open>0 < e\<close> e(1)] e less.prems by auto
    then obtain c where c: "0 < c" "c < m" "idom_num E c = x" "idom_num E e \<in> subtree c"
      using less.IH [OF i] False i e by (auto simp: subtree_def)
    then have "e \<in> subtree c"
      using dom_trans idom_dom(1) [OF \<open>0 < e\<close> e(1)] e by (auto simp: subtree_def)
    with c show ?thesis by blast
  qed
qed

lemma subtree_child:
  assumes "0 < c" and "c < m" and "idom_num E c = x"
  shows "subtree c \<subseteq> subtree x" and "x \<notin> subtree c"
proof -
  show "subtree c \<subseteq> subtree x"
    using dom_trans idom_dom(1) [OF assms(1,2)] assms(3) by (auto simp: subtree_def)
  show "x \<notin> subtree c" using subtree_le idom_dom(2) [OF assms(1,2)] assms(3) by fastforce
qed

lemma subtree_siblings:
  assumes "0 < c" "c < m" "0 < c'" "c' < m" "idom_num E c = idom_num E c'" "c \<noteq> c'"
  shows "subtree c \<inter> subtree c' = {}"
proof -
  have *: False if "0 < a" "a < m" "0 < b" "b < m" "idom_num E a = idom_num E b" "a \<noteq> b" "a \<le> b"
    "e \<in> subtree a" "e \<in> subtree b" for a b e
  proof -
    have e: "e < m" "dom a e" "dom b e" using that by (auto simp: subtree_def)
    have "anc a b" using anc_linear dom_anc e that by blast
    then have "dom a b" using dom_between [OF e(2)] dom_anc e by blast
    then have "dom a (idom_num E a)" using dom_idom_iff [of b a] that by auto
    then have "a \<in> subtree a" "a \<le> idom_num E a"
      using dom_anc [of a "idom_num E a"] anc_le idom_dom(2) [of a] that subtree_self by auto
    then show False using idom_dom(2) [OF that(1,2)] by simp
  qed
  then show ?thesis using assms by (metis disjoint_iff linear)
qed

subsection \<open>Retained sizes\<close>

text \<open>After the vertices above \<open>k\<close> have been credited, \<open>x\<close> holds its own size and the subtrees of
  its children above \<open>k\<close>.\<close>

definition credited :: "nat \<Rightarrow> nat \<Rightarrow> nat set" where
  "credited k x = insert x (\<Union>c \<in> {c. k < c \<and> c < m \<and> idom_num E c = x}. subtree c)"

lemma credited_finite [simp]: "finite (credited k x)"
  by (simp add: credited_def)

lemma credited_all:
  assumes "x < m" and "k \<le> x"
  shows "credited k x = subtree x"
proof
  show "credited k x \<subseteq> subtree x"
  proof
    fix e assume "e \<in> credited k x"
    then consider "e = x" | c where "k < c" "c < m" "idom_num E c = x" "e \<in> subtree c"
      by (auto simp: credited_def)
    then show "e \<in> subtree x"
    proof cases
      case 2
      then show ?thesis using subtree_child(1) [of c x] by auto
    qed (use assms subtree_self in simp)
  qed
  have "e \<in> credited k x" if e: "e \<in> subtree x" for e
  proof (cases "e = x")
    case False
    then obtain c where c: "0 < c" "c < m" "idom_num E c = x" "e \<in> subtree c"
      using child_exists [OF e False] by blast
    then have "k < c" using idom_dom(2) [of c] assms by simp
    with c show ?thesis by (auto simp: credited_def)
  qed (simp add: credited_def)
  then show "subtree x \<subseteq> credited k x" by blast
qed

lemma credited_none: "x < m \<Longrightarrow> credited (m - 1) x = {x}"
  by (auto simp: credited_def)

lemma credited_step:
  assumes "0 < k" and "k < m"
  shows "credited (k - 1) x = (if idom_num E k = x then credited k x \<union> subtree k else credited k x)"
    and "idom_num E k = x \<Longrightarrow> credited k x \<inter> subtree k = {}"
proof -
  have k: "k - 1 < c \<longleftrightarrow> c = k \<or> k < c" for c using assms(1) by arith
  have "{c. k - 1 < c \<and> c < m \<and> idom_num E c = x} =
      (if idom_num E k = x then insert k {c. k < c \<and> c < m \<and> idom_num E c = x}
       else {c. k < c \<and> c < m \<and> idom_num E c = x})"
    unfolding k using assms(2) by auto
  then show "credited (k - 1) x = (if idom_num E k = x then credited k x \<union> subtree k else credited k x)"
    by (auto simp: credited_def)
  assume x: "idom_num E k = x"
  have "subtree c \<inter> subtree k = {}" if "k < c" "c < m" "idom_num E c = x" for c
    using subtree_siblings [of c k] assms x that by simp
  then show "credited k x \<inter> subtree k = {}"
    using subtree_child(2) [OF assms x] by (auto simp: credited_def)
qed

lemma accumulate_spec:
  assumes idom: "length idom = m" "\<And>v. 0 < v \<Longrightarrow> v < m \<Longrightarrow> idom ! v = int (idom_num E v)"
    and own: "length own = m"
  shows "returns (accumulate idom own)
    (\<lambda>ret. length ret = m \<and> (\<forall>x < m. ret ! x = (\<Sum>e \<in> subtree x. own ! e)))"
proof -
  let ?I = "\<lambda>k ret. length ret = m \<and> (\<forall>x < m. ret ! x = (\<Sum>e \<in> credited k x. own ! e))"
  have step: "returns (creditDominator idom k ret) (?I (k - 1))" if k: "0 < k" "k < m" and I: "?I k ret" for k ret
  proof -
    let ?p = "idom_num E k"
    have p: "?p < k" using idom_dom(2) [OF k] .
    have eq: "creditDominator idom k ret = Inr (ret[?p := ret ! ?p + ret ! k])"
      using k p I idom by (simp add: creditDominator_def)
    have "ret ! k = (\<Sum>e \<in> subtree k. own ! e)" using I k credited_all [OF k(2) order_refl] by auto
    then have "ret ! ?p + ret ! k = (\<Sum>e \<in> credited (k - 1) ?p. own ! e)"
      using I k p credited_step [OF k, of ?p] by (simp add: sum.union_disjoint)
    then show ?thesis using eq I credited_step(1) [OF k] k p by (auto simp: nth_list_update_if)
  qed
  have "returns (gfold (creditDominator idom) (rev [1..<Suc k]) ret) (?I 0)" if "k < m" "?I k ret" for k ret
    using that
  proof (induction k arbitrary: ret)
    case 0
    then show ?case by simp
  next
    case (Suc k)
    have "returns (creditDominator idom (Suc k) ret) (?I k)" using step [OF _ Suc.prems(1,2)] by simp
    moreover have "rev [1..<Suc (Suc k)] = Suc k # rev [1..<Suc k]" by simp
    ultimately show ?case using Suc by (auto intro!: returns_gbind simp del: upt_Suc)
  qed
  from this [of "m - 1" own] have "returns (accumulate idom own) (?I 0)"
    using m_pos own credited_none by (simp add: accumulate_def)
  then show ?thesis using credited_all by (auto elim!: returns_mono)
qed

end

subsection \<open>The walk over the dominator tree\<close>

definition class_at :: "ObjectGraph \<Rightarrow> int list \<Rightarrow> nat \<Rightarrow> nat" where
  "class_at g vx d = nat (cls g ! nat (vx ! d))"

definition size_at :: "ObjectGraph \<Rightarrow> int list \<Rightarrow> nat \<Rightarrow> i64" where
  "size_at g vx d = shallow g ! nat (vx ! d)"

definition credit :: "(nat \<Rightarrow> nat) \<Rightarrow> (nat \<Rightarrow> i64) \<Rightarrow> (nat \<Rightarrow> i64) \<Rightarrow> nat set \<Rightarrow> nat \<Rightarrow> ClassRetained \<Rightarrow> ClassRetained" where
  "credit k sh rt S c e =
     e \<lparr> cr_Instances := cr_Instances e + (\<Sum>x \<in> S. if k x = c then 1 else 0),
         cr_ShallowBytes := cr_ShallowBytes e + (\<Sum>x \<in> S. if k x = c then sh x else 0),
         cr_RetainedBytes := cr_RetainedBytes e + (\<Sum>x \<in> S. if k x = c then rt x else 0) \<rparr>"

definition credit_all :: "(nat \<Rightarrow> nat) \<Rightarrow> (nat \<Rightarrow> i64) \<Rightarrow> (nat \<Rightarrow> i64) \<Rightarrow> nat set \<Rightarrow> ClassRetained list \<Rightarrow> ClassRetained list" where
  "credit_all k sh rt S cs = map (\<lambda>(c, e). credit k sh rt S c e) (enumerate 0 cs)"

lemma length_credit_all [simp]: "length (credit_all k sh rt S cs) = length cs"
  by (simp add: credit_all_def)

lemma nth_credit_all: "c < length cs \<Longrightarrow> credit_all k sh rt S cs ! c = credit k sh rt S c (cs ! c)"
  by (simp add: credit_all_def nth_enumerate_eq)

lemma credit_all_empty: "credit_all k sh rt {} cs = cs"
  by (rule nth_equalityI) (simp_all add: nth_credit_all credit_def)

lemma credit_all_union:
  assumes "finite S" and "finite T" and "S \<inter> T = {}"
  shows "credit_all k sh rt T (credit_all k sh rt S cs) = credit_all k sh rt (S \<union> T) cs"
  by (rule nth_equalityI) (use assms in \<open>simp_all add: nth_credit_all credit_def sum.union_disjoint add.assoc\<close>)

lemma credit_all_single:
  assumes "k x < length cs"
  shows "credit_all k sh rt {x} cs = cs[k x := (cs ! k x) \<lparr>
    cr_Instances := cr_Instances (cs ! k x) + 1, cr_ShallowBytes := cr_ShallowBytes (cs ! k x) + sh x,
    cr_RetainedBytes := cr_RetainedBytes (cs ! k x) + rt x \<rparr>]"
  by (rule nth_equalityI) (simp_all add: nth_credit_all credit_def nth_list_update_if)

context dfs_numbering begin

definition kids_of :: "nat \<Rightarrow> nat list" where
  "kids_of x = filter (\<lambda>c. idom_num E c = x) [1..<m]"

definition tree_csr :: "int list \<Rightarrow> int list \<Rightarrow> bool" where
  "tree_csr cstart kids \<longleftrightarrow> csr_ok m cstart kids \<and> (\<forall>x < m. csr_row cstart kids x = map int (kids_of x))"

lemma dominatorChildren_spec:
  assumes "length idom = m" and "\<And>v. 0 < v \<Longrightarrow> v < m \<Longrightarrow> idom ! v = int (idom_num E v)"
  shows "returns (dominatorChildren idom) (\<lambda>(cstart, kids). tree_csr cstart kids)"
proof -
  let ?es = "map (\<lambda>d. (idom ! d, int d)) [1..<m]"
  have es: "?es = map (\<lambda>d. (int (idom_num E d), int d)) [1..<m]" using assms(2) by auto
  have "idom_num E v < m" if "0 < v" "v < m" for v using idom_dom(2) [OF that] that by simp
  then have "\<forall>e \<in> set ?es. 0 \<le> fst e \<and> fst e < int m" unfolding es by auto
  from csr_build_spec [where 'e = herr and z = "0::int", OF this]
  have "returns (csr_build m 0 ?es :: (herr, int list \<times> int list) go)
    (\<lambda>(start, xs). csr_ok m start xs \<and> length xs = length ?es \<and> (\<forall>i<m. csr_row start xs i = row_of ?es i))" .
  moreover have "row_of ?es x = map int (kids_of x)" for x
    unfolding es by (simp add: row_of_def kids_of_def filter_map o_def)
  ultimately show ?thesis
    unfolding dominatorChildren_def assms(1) by (auto simp: tree_csr_def elim!: returns_mono)
qed

lemma set_kids_of: "set (kids_of x) = {c. 0 < c \<and> c < m \<and> idom_num E c = x}"
  by (auto simp: kids_of_def)

lemma distinct_kids_of: "distinct (kids_of x)"
  by (simp add: kids_of_def)

definition walk_rest :: "int list \<Rightarrow> nat \<Rightarrow> int \<Rightarrow> nat set" where
  "walk_rest cstart d nxt = (\<Union>c \<in> set (drop (nat (nxt - cstart ! d)) (kids_of d)). subtree c)"

lemma walk_rest_finite [simp]: "finite (walk_rest cstart d nxt)"
  by (simp add: walk_rest_def)

lemma tree_csr_row:
  assumes "tree_csr cstart kids" and "d < m"
  shows "0 \<le> cstart ! d" and "cstart ! d \<le> cstart ! Suc d" and "cstart ! Suc d \<le> int (length kids)"
    and "length cstart = m + 1" and "length (kids_of d) = nat (cstart ! Suc d - cstart ! d)"
    and "\<And>nxt. cstart ! d \<le> nxt \<Longrightarrow> nxt < cstart ! Suc d \<Longrightarrow>
      kids ! nat nxt = int (kids_of d ! nat (nxt - cstart ! d))"
proof -
  have ok: "csr_ok m cstart kids" and row: "csr_row cstart kids d = map int (kids_of d)"
    using assms by (auto simp: tree_csr_def)
  note b = csr_bounds [OF ok assms(2)]
  show "0 \<le> cstart ! d" "cstart ! d \<le> cstart ! Suc d" "cstart ! Suc d \<le> int (length kids)" by (fact b)+
  show "length cstart = m + 1" using ok by (simp add: csr_ok_def)
  have "length (csr_row cstart kids d) = nat (cstart ! Suc d - cstart ! d)"
    using b by (simp add: csr_row_def)
  then show len: "length (kids_of d) = nat (cstart ! Suc d - cstart ! d)" unfolding row by simp
  fix nxt assume n: "cstart ! d \<le> nxt" "nxt < cstart ! Suc d"
  have "csr_row cstart kids d ! nat (nxt - cstart ! d) = kids ! nat nxt"
    using n b by (simp add: csr_row_def flip: nat_add_distrib)
  then show "kids ! nat nxt = int (kids_of d ! nat (nxt - cstart ! d))" using n len unfolding row by simp
qed

lemma walk_rest_done:
  assumes "tree_csr cstart kids" and "d < m"
  shows "walk_rest cstart d (cstart ! Suc d) = {}"
  using tree_csr_row [OF assms] by (simp add: walk_rest_def)

lemma walk_rest_start:
  assumes "c < m"
  shows "walk_rest cstart c (cstart ! c) = subtree c - {c}"
proof -
  have "credited c c = subtree c" by (rule credited_all) (use assms in auto)
  moreover have "{b. c < b \<and> b < m \<and> idom_num E b = c} = {b. 0 < b \<and> b < m \<and> idom_num E b = c}"
    using idom_dom(2) by auto
  moreover have "c \<notin> subtree b" if "0 < b" "b < m" "idom_num E b = c" for b
    using subtree_child(2) [OF that] .
  ultimately show ?thesis by (auto simp: walk_rest_def set_kids_of credited_def)
qed

lemma walk_rest_step:
  assumes "tree_csr cstart kids" and "d < m" and "cstart ! d \<le> nxt" and "nxt < cstart ! Suc d"
  defines "c \<equiv> kids_of d ! nat (nxt - cstart ! d)"
  shows "0 < c" and "c < m" and "idom_num E c = d" and "kids ! nat nxt = int c"
    and "walk_rest cstart d nxt = subtree c \<union> walk_rest cstart d (nxt + 1)"
    and "subtree c \<inter> walk_rest cstart d (nxt + 1) = {}"
proof -
  note r = tree_csr_row [OF assms(1,2)]
  let ?i = "nat (nxt - cstart ! d)"
  have i: "?i < length (kids_of d)" using r assms by simp
  then have "c \<in> set (kids_of d)" unfolding c_def by (rule nth_mem)
  then show c: "0 < c" "c < m" "idom_num E c = d" by (auto simp: set_kids_of)
  show "kids ! nat nxt = int c" unfolding c_def using r(6) assms(3,4) by simp
  have split: "drop ?i (kids_of d) = c # drop (Suc ?i) (kids_of d)"
    unfolding c_def using i by (rule Cons_nth_drop_Suc [symmetric])
  have "nat (nxt + 1 - cstart ! d) = Suc ?i" using assms(3) by simp
  then have rest: "walk_rest cstart d (nxt + 1) = (\<Union>b \<in> set (drop (Suc ?i) (kids_of d)). subtree b)"
    by (simp add: walk_rest_def)
  show "walk_rest cstart d nxt = subtree c \<union> walk_rest cstart d (nxt + 1)"
    unfolding rest by (simp add: walk_rest_def split)
  have "distinct (c # drop (Suc ?i) (kids_of d))"
    unfolding split [symmetric] by (simp add: distinct_kids_of)
  then have "subtree c \<inter> subtree b = {}" if "b \<in> set (drop (Suc ?i) (kids_of d))" for b
    using that c in_set_dropD [OF that] by (intro subtree_siblings) (auto simp: set_kids_of)
  then show "subtree c \<inter> walk_rest cstart d (nxt + 1) = {}" unfolding rest by blast
qed

text \<open>The class counters on the path from the root to \<open>d\<close>.\<close>

definition path_counts :: "(nat \<Rightarrow> nat) \<Rightarrow> nat \<Rightarrow> int list \<Rightarrow> bool" where
  "path_counts k d op \<longleftrightarrow> (\<forall>c < length op. op ! c = int (card {y. 0 < y \<and> y < m \<and> dom y d \<and> k y = c}))"

definition outermost :: "(nat \<Rightarrow> nat) \<Rightarrow> nat \<Rightarrow> bool" where
  "outermost k x \<longleftrightarrow> (\<forall>y. 0 < y \<and> y < m \<and> y \<noteq> x \<and> dom y x \<longrightarrow> k y \<noteq> k x)"

lemma path_counts_child:
  assumes "0 < c" and "c < m" and "idom_num E c = d" and "path_counts k d op" and "k c < length op"
  shows "op ! k c = 0 \<longleftrightarrow> outermost k c" and "path_counts k c (op[k c := op ! k c + 1])"
proof -
  have dom: "dom y c \<longleftrightarrow> y = c \<or> dom y d" for y using dom_idom_iff [OF assms(1,2)] assms(3) by simp
  have nd: "\<not> dom c d"
    using dom_anc [of c d] anc_le [of c d] idom_dom(2) [OF assms(1,2)] assms(2,3) by auto
  let ?A = "\<lambda>d j. {y. 0 < y \<and> y < m \<and> dom y d \<and> k y = j}"
  have fin: "finite (?A d j)" for j by simp
  have op: "op ! j = int (card (?A d j))" if "j < length op" for j
    using assms(4) that by (simp add: path_counts_def)
  have "op ! k c = 0 \<longleftrightarrow> ?A d (k c) = {}" using op [OF assms(5)] fin by simp
  also have "\<dots> \<longleftrightarrow> outermost k c" unfolding outermost_def dom using nd by auto
  finally show "op ! k c = 0 \<longleftrightarrow> outermost k c" .
  have "?A c j = (if j = k c then insert c (?A d j) else ?A d j)" for j
    unfolding dom using assms(1,2) by auto
  then have "card (?A c j) = (if j = k c then Suc (card (?A d j)) else card (?A d j))" for j
    using nd fin by simp
  then show "path_counts k c (op[k c := op ! k c + 1])"
    unfolding path_counts_def using op assms(5) by (auto simp: nth_list_update_if)
qed

end

context dfs_numbering begin

definition walk_ok :: "ObjectGraph \<Rightarrow> int list \<Rightarrow> i64 list \<Rightarrow> bool" where
  "walk_ok g vx ret \<longleftrightarrow> wf_graph g \<and> length vx = m \<and> length ret = m \<and>
     (\<forall>d. 0 < d \<and> d < m \<longrightarrow> 0 \<le> vx ! d \<and> nat (vx ! d) < Len g)"

definition outer_retained :: "(nat \<Rightarrow> nat) \<Rightarrow> i64 list \<Rightarrow> nat \<Rightarrow> i64" where
  "outer_retained k ret x = (if outermost k x then ret ! x else 0)"

lemma walk_class:
  assumes "walk_ok g vx ret" and "0 < d" and "d < m"
  shows "0 \<le> vx ! d" and "nat (vx ! d) < Len g" and "cls g ! nat (vx ! d) = int (class_at g vx d)"
    and "class_at g vx d < length (classNames g)"
proof -
  show v: "0 \<le> vx ! d" "nat (vx ! d) < Len g" using assms by (auto simp: walk_ok_def)
  then have "cls g ! nat (vx ! d) \<in> set (cls g)" using assms(1) by (auto simp: walk_ok_def wf_graph_def)
  then have "0 \<le> cls g ! nat (vx ! d) \<and> nat (cls g ! nat (vx ! d)) < length (classNames g)"
    using assms(1) by (auto simp: walk_ok_def wf_graph_def)
  then show "cls g ! nat (vx ! d) = int (class_at g vx d)" "class_at g vx d < length (classNames g)"
    by (auto simp: class_at_def)
qed

lemma enterNode_eq:
  assumes w: "walk_ok g vx ret" and t: "tree_csr cstart kids" and d: "0 < c" "c < m" "idom_num E c = d"
    and p: "path_counts (class_at g vx) d op"
    and len: "length op = length (classNames g)" "length cs = length (classNames g)"
  shows "enterNode g vx ret cstart (int c) \<lparr> a_classes = cs, onPath = op, a_stack = st \<rparr> =
    Inr \<lparr> a_classes = credit_all (class_at g vx) (size_at g vx) (outer_retained (class_at g vx) ret) {c} cs,
          onPath = op[class_at g vx c := op ! class_at g vx c + 1], a_stack = (int c, cstart ! c) # st \<rparr>"
proof -
  let ?k = "class_at g vx c"
  note v = walk_class [OF w d(1,2)]
  have out: "op ! ?k = 0 \<longleftrightarrow> outermost (class_at g vx) c"
    using path_counts_child(1) [OF d p] v(4) len by simp
  have vx: "idx vx (int c) = Inr (vx ! c)" and r: "idx ret (int c) = Inr (ret ! c)"
    using w d by (simp_all add: walk_ok_def)
  have "length (cls g) = Len g" "length (shallow g) = Len g" using w by (auto simp: walk_ok_def wf_graph_def)
  then have c: "idx (cls g) (vx ! c) = Inr (int ?k)" and sh: "idx (shallow g) (vx ! c) = Inr (size_at g vx c)"
    using v by (simp_all add: size_at_def nat_less_iff)
  have cst: "idx cstart (int c) = Inr (cstart ! c)" using tree_csr_row(4) [OF t d(2)] d(2) by simp
  show ?thesis
    using v(4) len out by (simp add: enterNode_def vx c sh r cst credit_all_single outer_retained_def Let_def)
qed

lemma leaveNode_eq:
  assumes w: "walk_ok g vx ret" and "d < m" and "length op = length (classNames g)"
  shows "leaveNode g vx (int d) \<lparr> a_classes = cs, onPath = op, a_stack = st \<rparr> =
    Inr \<lparr> a_classes = cs, onPath = (if d = 0 then op
          else op[class_at g vx d := op ! class_at g vx d - 1]), a_stack = st \<rparr>"
proof (cases "d = 0")
  case False
  then have "0 < d" by simp
  note v = walk_class [OF w this assms(2)]
  have "length (cls g) = Len g" using w by (auto simp: walk_ok_def wf_graph_def)
  then have c: "idx (cls g) (vx ! d) = Inr (int (class_at g vx d))" using v by (simp add: nat_less_iff)
  have vx: "idx vx (int d) = Inr (vx ! d)" using w assms(2) by (simp add: walk_ok_def)
  show ?thesis using False v(4) assms(3) by (simp add: leaveNode_def vx c)
qed (simp add: leaveNode_def)

lemma aggLoop_walk:
  assumes w: "walk_ok g vx ret" and t: "tree_csr cstart kids"
  defines "k \<equiv> class_at g vx"
  defines "cr \<equiv> credit_all k (size_at g vx) (outer_retained k ret)"
  assumes "d < m" and "path_counts k d op"
    and "length op = length (classNames g)" and "length cs = length (classNames g)"
    and "cstart ! d \<le> nxt" and "nxt \<le> cstart ! Suc d"
  shows "aggLoop (n + 2 * card (walk_rest cstart d nxt) + 1) g vx ret cstart kids
      \<lparr> a_classes = cs, onPath = op, a_stack = (int d, nxt) # st \<rparr> =
    aggLoop n g vx ret cstart kids
      \<lparr> a_classes = cr (walk_rest cstart d nxt) cs,
        onPath = (if d = 0 then op else op[k d := op ! k d - 1]), a_stack = st \<rparr>"
  using assms(5-)
proof (induction "card (walk_rest cstart d nxt)" arbitrary: n d nxt cs op st rule: less_induct)
  case less
  note row = tree_csr_row [OF t \<open>d < m\<close>]
  have nat1: "nat (int d + 1) = Suc d" by simp
  have idx: "idx cstart (int d + 1) = Inr (cstart ! Suc d)" using row(4) \<open>d < m\<close> by (simp add: nat1)
  show ?case
  proof (cases "nxt = cstart ! Suc d")
    case True
    then show ?thesis
      using walk_rest_done [OF t \<open>d < m\<close>] leaveNode_eq [OF w \<open>d < m\<close> less.prems(3)]
      by (subst aggLoop.simps) (simp add: idx cr_def credit_all_empty k_def)
  next
    case False
    then have nxt: "nxt < cstart ! Suc d" using less.prems by simp
    define c where "c = kids_of d ! nat (nxt - cstart ! d)"
    note s = walk_rest_step [OF t \<open>d < m\<close> \<open>cstart ! d \<le> nxt\<close> nxt, folded c_def]
    note v = walk_class [OF w s(1,2)]
    let ?S = "subtree c - {c}" and ?R = "walk_rest cstart d (nxt + 1)"
    let ?op = "op[k c := op ! k c + 1]" and ?m = "n + 2 * card ?R + 1"
    have start: "walk_rest cstart c (cstart ! c) = ?S" by (rule walk_rest_start [OF s(2)])
    have cin: "c \<in> subtree c" using subtree_self s(2) .
    have card: "card (walk_rest cstart d nxt) = Suc (card ?S) + card ?R"
      unfolding s(5) card.remove [OF finite_subtree cin, symmetric] using s(6)
      by (simp add: card_Un_disjoint)
    have fuel: "n + 2 * card (walk_rest cstart d nxt) + 1 = Suc (?m + 2 * card ?S + 1)" by (simp add: card)
    have kid: "idx kids nxt = Inr (int c)"
      using s(4) nxt row less.prems(5) by simp
    have pc: "path_counts k c ?op"
      using path_counts_child(2) [OF s(1-3) less.prems(2)] v(4) less.prems(3) by (simp add: k_def)
    have opk: "k c < length op" using v(4) less.prems(3) by (simp add: k_def)
    have ent: "enterNode g vx ret cstart (int c)
        \<lparr> a_classes = cs, onPath = op, a_stack = (int d, nxt + 1) # st \<rparr> =
        Inr \<lparr> a_classes = cr {c} cs, onPath = ?op, a_stack = (int c, cstart ! c) # (int d, nxt + 1) # st \<rparr>"
      using enterNode_eq [OF w t s(1-3)] less.prems unfolding cr_def k_def by blast
    have "aggLoop (n + 2 * card (walk_rest cstart d nxt) + 1) g vx ret cstart kids
        \<lparr> a_classes = cs, onPath = op, a_stack = (int d, nxt) # st \<rparr> =
      aggLoop (?m + 2 * card ?S + 1) g vx ret cstart kids
        \<lparr> a_classes = cr {c} cs, onPath = ?op, a_stack = (int c, cstart ! c) # (int d, nxt + 1) # st \<rparr>"
      unfolding fuel by (subst aggLoop.simps) (simp add: idx False kid ent)
    also have "\<dots> = aggLoop ?m g vx ret cstart kids
        \<lparr> a_classes = cr ?S (cr {c} cs), onPath = op, a_stack = (int d, nxt + 1) # st \<rparr>"
    proof -
      have "card ?S < card (walk_rest cstart d nxt)" using card by simp
      note IH = less.hyps [of c "cstart ! c", unfolded start, OF this s(2) pc]
      have "?op[k c := ?op ! k c - 1] = op" using opk by simp
      then show ?thesis
        using IH [of "cr {c} cs" "?m" "(int d, nxt + 1) # st"] s(1) less.prems tree_csr_row(2) [OF t s(2)]
        by (simp add: cr_def)
    qed
    also have "cr ?S (cr {c} cs) = cr (subtree c) cs"
      unfolding cr_def using cin by (subst credit_all_union) (auto simp: insert_absorb)
    also have "aggLoop ?m g vx ret cstart kids
        \<lparr> a_classes = cr (subtree c) cs, onPath = op, a_stack = (int d, nxt + 1) # st \<rparr> =
      aggLoop n g vx ret cstart kids
        \<lparr> a_classes = cr ?R (cr (subtree c) cs),
          onPath = (if d = 0 then op else op[k d := op ! k d - 1]), a_stack = st \<rparr>"
      using less.hyps [of d "nxt + 1" op "cr (subtree c) cs" n st] less.prems nxt card
      by (simp add: cr_def)
    also have "cr ?R (cr (subtree c) cs) = cr (walk_rest cstart d nxt) cs"
      unfolding cr_def s(5) using s(6) by (subst credit_all_union) auto
    finally show ?thesis .
  qed
qed

lemma aggregateClasses_spec:
  assumes w: "walk_ok g vx ret" and t: "tree_csr cstart kids"
  shows "aggregateClasses g vx ret cstart kids =
    Inr (credit_all (class_at g vx) (size_at g vx) (outer_retained (class_at g vx) ret) {1..<m}
          (map newClass (classNames g)))"
proof -
  let ?k = "class_at g vx"
  let ?op = "replicate (length (classNames g)) (0::int)"
  have none: "{y. 0 < y \<and> y < m \<and> dom y 0 \<and> ?k y = c} = {}" for c using dom_of_root by auto
  have "path_counts ?k 0 ?op" unfolding path_counts_def none by simp
  note walk = aggLoop_walk [OF w t m_pos this, of "map newClass (classNames g)" "cstart ! 0" 1 "[]"]
  have all: "walk_rest cstart 0 (cstart ! 0) = {1..<m}"
    unfolding walk_rest_start [OF m_pos] subtree_root by auto
  have fuel: "2 * length vx = 1 + 2 * card {1..<m} + 1" using w m_pos by (simp add: walk_ok_def)
  have first: "idx cstart 0 = Inr (cstart ! 0)" using tree_csr_row(4) [OF t m_pos] by simp
  have stop: "aggLoop n g vx ret cstart kids \<lparr> a_classes = cs, onPath = op, a_stack = [] \<rparr> =
      Inr \<lparr> a_classes = cs, onPath = op, a_stack = [] \<rparr>" for n cs op
    by (subst aggLoop.simps) simp
  have "cstart ! 0 \<le> cstart ! Suc 0" using tree_csr_row(2) [OF t m_pos] .
  note walk [OF _ _ order_refl this, unfolded all stop]
  then show ?thesis unfolding aggregateClasses_def first fuel gbind.simps by simp
qed

end

context dfs_numbering begin

text \<open>Crediting only outermost instances counts every vertex below an instance exactly once.\<close>

definition class_cover :: "(nat \<Rightarrow> nat) \<Rightarrow> nat \<Rightarrow> nat set" where
  "class_cover k c = {e. e < m \<and> (\<exists>x. 0 < x \<and> dom x e \<and> k x = c)}"

lemma outermost_above:
  assumes "0 < x" and "x < m" and "k x = c"
  shows "\<exists>y. 0 < y \<and> y < m \<and> dom y x \<and> k y = c \<and> outermost k y"
  using assms
proof (induction x rule: less_induct)
  case (less x)
  show ?case
  proof (cases "outermost k x")
    case True
    then show ?thesis using less.prems by (auto simp: dominates_def)
  next
    case False
    then obtain y where y: "0 < y" "y < m" "y \<noteq> x" "dom y x" "k y = c"
      using less.prems by (auto simp: outermost_def)
    then have "y < x" using dom_anc [OF y(4) less.prems(2)] anc_le [of y x] by auto
    from less.IH [OF this y(1,2,5)] y(4) show ?thesis using dom_trans by blast
  qed
qed

lemma outermost_disjoint:
  assumes "0 < x" "x < m" "0 < y" "y < m" "k x = k y" "outermost k x" "outermost k y" "x \<noteq> y"
  shows "subtree x \<inter> subtree y = {}"
proof -
  have *: False if "0 < a" "outermost k b" "k a = k b" "a \<noteq> b" "a \<le> b" "b < m"
    "e \<in> subtree a" "e \<in> subtree b" for a b e
  proof -
    have e: "e < m" "dom a e" "dom b e" using that by (auto simp: subtree_def)
    have "anc a b" using anc_linear dom_anc e that by blast
    then have "dom a b" using dom_between [OF e(2)] dom_anc e by blast
    then show False using that unfolding outermost_def by auto
  qed
  show ?thesis using *[of x y] *[of y x] assms by (metis disjoint_iff linear)
qed

lemma sum_outermost:
  assumes "\<And>x. x < m \<Longrightarrow> ret ! x = (\<Sum>e \<in> subtree x. own e)"
  shows "(\<Sum>x \<in> {1..<m}. if k x = c then outer_retained k ret x else 0) = (\<Sum>e \<in> class_cover k c. own e)"
proof -
  let ?O = "{x \<in> {1..<m}. k x = c \<and> outermost k x}"
  have "(\<Sum>x \<in> {1..<m}. if k x = c then outer_retained k ret x else 0) = (\<Sum>x \<in> ?O. ret ! x)"
    unfolding sum.inter_filter [OF finite_atLeastLessThan] outer_retained_def by (intro sum.cong) auto
  also have "\<dots> = (\<Sum>x \<in> ?O. \<Sum>e \<in> subtree x. own e)" by (intro sum.cong) (auto simp: assms)
  also have "\<dots> = (\<Sum>e \<in> (\<Union>x \<in> ?O. subtree x). own e)"
  proof (rule sum.UNION_disjoint [symmetric])
    have "subtree x \<inter> subtree y = {}" if "x \<in> ?O" "y \<in> ?O" "x \<noteq> y" for x y
      by (rule outermost_disjoint [where k = k]) (use that in auto)
    then show "\<forall>x \<in> ?O. \<forall>y \<in> ?O. x \<noteq> y \<longrightarrow> subtree x \<inter> subtree y = {}" by blast
  qed auto
  also have "(\<Union>x \<in> ?O. subtree x) = class_cover k c"
  proof
    show "(\<Union>x \<in> ?O. subtree x) \<subseteq> class_cover k c"
      unfolding class_cover_def subtree_def by (auto simp: Suc_le_eq)
    show "class_cover k c \<subseteq> (\<Union>x \<in> ?O. subtree x)"
    proof
      fix e assume "e \<in> class_cover k c"
      then obtain x where x: "e < m" "0 < x" "dom x e" "k x = c" by (auto simp: class_cover_def)
      then have "x < m" using dom_anc [OF x(3,1)] anc_bound by blast
      from outermost_above [where k = k, OF x(2) this x(4)] obtain y
        where y: "0 < y" "y < m" "dom y x" "k y = c" "outermost k y" by auto
      then have "e \<in> subtree y" using dom_trans [OF y(3) x(3)] x(1) by (simp add: subtree_def)
      then show "e \<in> (\<Union>x \<in> ?O. subtree x)" using y by (auto simp: Suc_le_eq)
    qed
  qed
  finally show ?thesis .
qed

end

end
