(* ===== verification/Retained_Sizes.thy ===== *)
theory Retained_Sizes
  imports Dominator_Tree
begin

text \<open>
  \<open>ComputeRetained\<close> on well-formed object graphs. The depth-first numbering of a well-formed graph
  interprets the numbering locale, so the results on dominator trees apply to it; the theorems
  restate them for objects: retained sizes, reachability, immediate dominators and class totals.
\<close>

subsection \<open>The stages of \<open>ComputeRetained\<close>\<close>

lemma reachEdges_eq:
  assumes wf: "wf_graph g" and ok: "preorder_ok g dn vx pr"
  shows "reachEdges g dn vx = Inr
    (concat (map (\<lambda>d. map (\<lambda>t. (dn ! nat t, int d)) (succs g (nat (vx ! d)))) [1..<length vx]) @
     map (\<lambda>r. (dn ! nat r, 0)) (roots g))"
proof -
  note f = preorder_facts [OF ok]
  let ?row = "\<lambda>d. map (\<lambda>t. (dn ! nat t, int d)) (succs g (nat (vx ! d)))"
  have row: "gbind (idx vx (int d)) (\<lambda>v. gbind (Out g v) (\<lambda>ws. gbind (gmapM (idx dn) ws)
      (\<lambda>ts. Inr (es @ map (\<lambda>t. (t, int d)) ts)))) = (Inr (es @ ?row d) :: (herr, (int \<times> int) list) go)"
    if "d \<in> set [1..<length vx]" for d es
  proof -
    have d: "0 < d" "d < length vx" using that by auto
    have v: "0 \<le> vx ! d" "nat (vx ! d) < Len g" using f(4) [OF d] by auto
    have "Out g (vx ! d) = Inr (succs g (nat (vx ! d)))" using Out_in [OF wf v(2)] v(1) by simp
    moreover have "gmapM (idx dn) (succs g (nat (vx ! d))) =
        (Inr (map (\<lambda>t. dn ! nat t) (succs g (nat (vx ! d)))) :: (herr, int list) go)"
    proof (rule gmapM_Inr)
      fix t assume "t \<in> set (succs g (nat (vx ! d)))"
      from succs_in [OF wf this] f(1) show "idx dn t = (Inr (dn ! nat t) :: (herr, int) go)"
        by (auto simp: nat_less_iff)
    qed
    ultimately show ?thesis using d by (simp add: o_def)
  qed
  have fold: "fold (\<lambda>d es. es @ ?row d) ds es = es @ concat (map ?row ds)" for ds es
    by (induction ds arbitrary: es) simp_all
  have "gmapM (idx dn) (roots g) = (Inr (map (\<lambda>r. dn ! nat r) (roots g)) :: (herr, int list) go)"
    using wf f(1) by (intro gmapM_Inr idx_in) (auto simp: wf_graph_def nat_less_iff)
  then show ?thesis
    unfolding reachEdges_def by (subst gfold_Inr [OF row]) (simp_all add: fold o_def)
qed

lemma predecessors_spec:
  assumes wf: "wf_graph g" and ok: "preorder_ok g dn vx pr"
  shows "returns (predecessors g dn vx) (\<lambda>(predStart, preds). csr_ok (length vx) predStart preds \<and>
    (\<forall>w < length vx. set (csr_row predStart preds w) = int ` {v. (v, w) \<in> num_edges g dn vx}))"
proof -
  note f = preorder_facts [OF ok]
  let ?es = "concat (map (\<lambda>d. map (\<lambda>t. (dn ! nat t, int d)) (succs g (nat (vx ! d)))) [1..<length vx]) @
     map (\<lambda>r. (dn ! nat r, 0)) (roots g)"
  have num: "0 \<le> dn ! nat t \<and> dn ! nat t < int (length vx)" if "nat t < Len g" "0 \<le> dn ! nat t" for t
    using f(5) [OF that] by (auto simp: nat_less_iff)
  have s: "0 \<le> dn ! nat t \<and> dn ! nat t < int (length vx)"
    if "0 < d" "d < length vx" "t \<in> set (succs g (nat (vx ! d)))" for d t
    using num f(7) [OF that] succs_in [OF wf that(3)] by blast
  have r: "0 \<le> dn ! nat t \<and> dn ! nat t < int (length vx)" if "t \<in> set (roots g)" for t
    using num f(8) [OF that] wf that by (auto simp: wf_graph_def)
  have "\<forall>e \<in> set ?es. 0 \<le> fst e \<and> fst e < int (length vx)"
  proof
    fix e assume "e \<in> set ?es"
    then consider d t where "0 < d" "d < length vx" "t \<in> set (succs g (nat (vx ! d)))" "e = (dn ! nat t, int d)"
      | t where "t \<in> set (roots g)" "e = (dn ! nat t, 0)" by auto
    then show "0 \<le> fst e \<and> fst e < int (length vx)" by cases (use s r in auto)
  qed
  note spec = csr_build_spec [where 'e = herr and z = "0::int", OF this]
  have "(int w, x) \<in> set ?es \<longleftrightarrow> x \<in> int ` {v. (v, w) \<in> num_edges g dn vx}" (is "?L \<longleftrightarrow> ?R") for w x
  proof
    assume ?L
    then consider d t where "0 < d" "d < length vx" "t \<in> set (succs g (nat (vx ! d)))" "int w = dn ! nat t" "x = int d"
      | t where "t \<in> set (roots g)" "int w = dn ! nat t" "x = int 0" by auto
    then show ?R
    proof cases
      case 1
      then have "w = nat (dn ! nat t)" by simp
      with 1 show ?thesis by (auto simp: num_edges_def)
    next
      case 2
      then have "w = nat (dn ! nat t)" by simp
      with 2 show ?thesis by (auto simp: num_edges_def)
    qed
  next
    assume ?R
    then obtain v where v: "x = int v" "(v, w) \<in> num_edges g dn vx" by auto
    then consider t where "0 < v" "v < length vx" "t \<in> set (succs g (nat (vx ! v)))" "w = nat (dn ! nat t)"
      | t where "v = 0" "t \<in> set (roots g)" "w = nat (dn ! nat t)" by (auto simp: num_edges_def)
    then show ?L
    proof cases
      case 1
      then have "int w = dn ! nat t" using s by simp
      then have "(int w, x) = (dn ! nat t, int v)" using v by simp
      moreover have "v \<in> set [1..<length vx]" using 1 by simp
      ultimately have "(int w, x) \<in> (\<Union>d \<in> set [1..<length vx].
          (\<lambda>t. (dn ! nat t, int d)) ` set (succs g (nat (vx ! d))))"
        using 1(3) by (intro UN_I [of v] image_eqI [of _ _ t]) simp_all
      then show ?thesis by simp
    next
      case 2
      then have "int w = dn ! nat t" using r by simp
      then show ?thesis using 2 v by auto
    qed
  qed
  then have "set (row_of ?es w) = int ` {v. (v, w) \<in> num_edges g dn vx}" for w
    unfolding set_eq_iff set_row_of by blast
  then show ?thesis
    using spec unfolding predecessors_def reachEdges_eq [OF wf ok] by (auto elim!: returns_mono)
qed

lemma ownSizes_eq:
  assumes wf: "wf_graph g" and ok: "preorder_ok g dn vx pr"
  shows "returns (ownSizes g vx) (\<lambda>own. length own = length vx \<and> own ! 0 = 0 \<and>
    (\<forall>d. 0 < d \<and> d < length vx \<longrightarrow> own ! d = size_at g vx d))"
proof -
  note f = preorder_facts [OF ok]
  let ?I = "\<lambda>pre own. length own = length vx \<and> own ! 0 = 0 \<and> (\<forall>d \<in> set pre. own ! d = size_at g vx d)"
  have "returns (ownSizes g vx) (?I [1..<length vx])"
    unfolding ownSizes_def
  proof (rule returns_gfold)
    show "?I [] (replicate (length vx) 0)" using f(3) by simp
    fix pre d post and own :: "i64 list"
    assume split: "[1..<length vx] = pre @ d # post" and I: "?I pre own"
    have "d \<in> set [1..<length vx]" by (simp only: split) simp
    then have d: "0 < d" "d < length vx" by auto
    have "length (shallow g) = Len g" using wf by (simp add: wf_graph_def)
    then have "idx (shallow g) (vx ! d) = (Inr (size_at g vx d) :: (herr, i64) go)"
      using f(4) [OF d] by (auto simp: size_at_def nat_less_iff)
    then show "returns (gbind (idx vx (int d)) (\<lambda>v. gbind (idx (shallow g) v) (upd own (int d))) :: (herr, i64 list) go)
        (?I (pre @ [d]))"
      using d I by (auto simp: nth_upd)
  qed
  then show ?thesis by (auto elim!: returns_mono)
qed

subsection \<open>The numbering of a well-formed graph\<close>

typedef heap_graph = "{g. wf_graph g}" morphisms graph_of Heap
proof -
  have "wf_graph \<lparr> IDSize = 8, Unresolved = 0, ids = [], cls = [], shallow = [], outStart = [0], outs = [],
    roots = [], gcRoots = [], predCSR = None, classNames = [], classObjOf = [] \<rparr>"
    by (simp add: wf_graph_def Len_def csr_ok_def)
  then show ?thesis by blast
qed

definition preorder_of :: "heap_graph \<Rightarrow> int list \<times> int list \<times> int list" where
  "preorder_of G = (case dfsPreorder (graph_of G) of Inr p \<Rightarrow> p | Inl _ \<Rightarrow> ([], [], []))"

definition pre_dfnum :: "heap_graph \<Rightarrow> int list" where "pre_dfnum G = fst (preorder_of G)"
definition pre_vertex :: "heap_graph \<Rightarrow> int list" where "pre_vertex G = fst (snd (preorder_of G))"
definition pre_parent :: "heap_graph \<Rightarrow> int list" where "pre_parent G = snd (snd (preorder_of G))"

definition heap_edges :: "heap_graph \<Rightarrow> (nat \<times> nat) set" where
  "heap_edges G = num_edges (graph_of G) (pre_dfnum G) (pre_vertex G)"

lemma wf_graph_of [simp]: "wf_graph (graph_of G)"
  using graph_of by simp

lemma preorder_of_ok: "preorder_ok (graph_of G) (pre_dfnum G) (pre_vertex G) (pre_parent G)"
  and dfsPreorder_of: "dfsPreorder (graph_of G) = Inr (pre_dfnum G, pre_vertex G, pre_parent G)"
  using dfsPreorder_spec [OF wf_graph_of, of G]
  by (auto simp: pre_dfnum_def pre_vertex_def pre_parent_def preorder_of_def elim!: returnsE)

interpretation heap_dfs: dfs_numbering "length (pre_vertex G)" "heap_edges G" "par_of (pre_parent G)" for G
  unfolding heap_edges_def by (rule preorder_numbering [OF wf_graph_of preorder_of_ok])

definition snapshot_ok :: "heap_graph \<Rightarrow> RetainedSnapshot \<Rightarrow> bool" where
  "snapshot_ok G s \<longleftrightarrow>
     Graph s = graph_of G \<and> s_dfnum s = pre_dfnum G \<and> s_vertex s = pre_vertex G \<and>
     TotalShallowBytes s = sum_list (shallow (graph_of G)) \<and>
     ReachableObjects s = int (length (pre_vertex G)) - 1 \<and> ReachableBytes s = s_retained s ! 0 \<and>
     length (s_idom s) = length (pre_vertex G) \<and> length (s_retained s) = length (pre_vertex G) \<and>
     (\<forall>d. 0 < d \<and> d < length (pre_vertex G) \<longrightarrow> s_idom s ! d = int (idom_num (heap_edges G) d)) \<and>
     heap_dfs.tree_csr G (childStart s) (children s) \<and>
     (\<forall>d < length (pre_vertex G). s_retained s ! d =
        (\<Sum>e \<in> heap_dfs.subtree G d. if e = 0 then 0 else size_at (graph_of G) (pre_vertex G) e)) \<and>
     classes s = credit_all (class_at (graph_of G) (pre_vertex G)) (size_at (graph_of G) (pre_vertex G))
       (heap_dfs.outer_retained G (class_at (graph_of G) (pre_vertex G)) (s_retained s))
       {1..<length (pre_vertex G)} (map newClass (classNames (graph_of G)))"

lemma heap_inputs_ok:
  "returns (predecessors (graph_of G) (pre_dfnum G) (pre_vertex G))
     (\<lambda>(predStart, preds). heap_dfs.inputs_ok G (pre_parent G) predStart preds)"
proof -
  note f = preorder_facts [OF preorder_of_ok [of G]]
  have "pre_parent G ! v = int (par_of (pre_parent G) v)" if "0 < v" "v < length (pre_vertex G)" for v
    using f(6) [OF that] by (simp add: par_of_def)
  then show ?thesis
    using predecessors_spec [OF wf_graph_of preorder_of_ok [of G], folded heap_edges_def] f(2)
    by (auto simp: heap_dfs.inputs_ok_def elim!: returns_mono)
qed

lemma ComputeRetained_heap: "returns (ComputeRetained (graph_of G)) (snapshot_ok G)"
proof -
  let ?g = "graph_of G" and ?vx = "pre_vertex G"
  let ?m = "length ?vx"
  note f = preorder_facts [OF preorder_of_ok [of G]]
  obtain ps pd where p: "predecessors ?g (pre_dfnum G) ?vx = Inr (ps, pd)"
    and io: "heap_dfs.inputs_ok G (pre_parent G) ps pd"
    using heap_inputs_ok [of G] by (auto elim!: returnsE)
  obtain idom where l: "lengauerTarjan ?m (pre_parent G) ps pd = Inr idom" and il: "length idom = ?m"
    and i: "\<And>v. 0 < v \<Longrightarrow> v < ?m \<Longrightarrow> idom ! v = int (idom_num (heap_edges G) v)"
    using heap_dfs.lengauerTarjan_spec [OF io] by (auto elim!: returnsE)
  obtain own where o: "ownSizes ?g ?vx = Inr own" and ol: "length own = ?m" "own ! 0 = 0"
    and os: "\<And>d. 0 < d \<Longrightarrow> d < ?m \<Longrightarrow> own ! d = size_at ?g ?vx d"
    using ownSizes_eq [OF wf_graph_of preorder_of_ok [of G]] by (auto elim!: returnsE)
  obtain ret where r: "accumulate idom own = Inr ret" and rl: "length ret = ?m"
    and rs: "\<And>x. x < ?m \<Longrightarrow> ret ! x = (\<Sum>e \<in> heap_dfs.subtree G x. own ! e)"
    using heap_dfs.accumulate_spec [OF il i ol(1)] by (auto elim!: returnsE)
  obtain cst kids where c: "dominatorChildren idom = Inr (cst, kids)" and t: "heap_dfs.tree_csr G cst kids"
    using heap_dfs.dominatorChildren_spec [OF il i] by (auto elim!: returnsE)
  have w: "heap_dfs.walk_ok G ?g ?vx ret" using rl f(4) by (auto simp: heap_dfs.walk_ok_def)
  have "own ! e = (if e = 0 then 0 else size_at ?g ?vx e)" if "e \<in> heap_dfs.subtree G x" for e x
    using that ol os [of e] by (auto simp: heap_dfs.subtree_def)
  then have "ret ! x = (\<Sum>e \<in> heap_dfs.subtree G x. if e = 0 then 0 else size_at ?g ?vx e)" if "x < ?m" for x
    unfolding rs [OF that] by (intro sum.cong) auto
  moreover have "idx ret 0 = (Inr (ret ! 0) :: (herr, i64) go)" using rl f(3) by simp
  ultimately show ?thesis
    using il rl i t by (simp add: ComputeRetained_def dfsPreorder_of p l o r c heap_dfs.aggregateClasses_spec [OF w t]
      snapshot_ok_def)
qed


subsection \<open>What the snapshot says about the object graph\<close>

lemma dominates_reachable:
  assumes "reachable g i" and "dominates (flow g) None (Some j) (Some i)"
  shows "reachable g j"
proof (rule ccontr)
  assume "\<not> reachable g j"
  then have j: "(None, Some j) \<notin> (flow g)\<^sup>*" by (simp add: reachable_def)
  have "(None, y) \<in> (avoiding (flow g) (Some j))\<^sup>*" if "(None, y) \<in> (flow g)\<^sup>*" for y
    using that
  proof (induction rule: rtrancl_induct)
    case (step y z)
    then have "(None, z) \<in> (flow g)\<^sup>*" by (blast intro: rtrancl_into_rtrancl)
    with step j have "(y, z) \<in> avoiding (flow g) (Some j)" by (auto simp: avoiding_def)
    with step.IH show ?case by (rule rtrancl_into_rtrancl)
  qed simp
  moreover have "(None, Some i) \<in> (flow g)\<^sup>*" using assms(1) by (simp add: reachable_def)
  ultimately show False using assms(2) j by (auto simp: dominates_def)
qed

lemma reachable_Len:
  assumes "wf_graph g" and "reachable g i"
  shows "i < Len g"
proof -
  have "(None, Some i) \<in> (flow g)\<^sup>*" using assms(2) by (simp add: reachable_def)
  then obtain x where "(x, Some i) \<in> flow g" by (auto elim: rtranclE)
  moreover have "\<forall>r \<in> set (roots g). nat r < Len g" using assms(1) by (simp add: wf_graph_def)
  ultimately show ?thesis using succs_in [OF assms(1)] by (auto simp: flow_def)
qed

definition retainedSet :: "ObjectGraph \<Rightarrow> nat \<Rightarrow> nat set" where
  "retainedSet g i = {j. reachable g j \<and> dominates (flow g) None (Some i) (Some j)}"

lemma object_bij:
  assumes "\<And>d. d \<in> S \<Longrightarrow> 0 < d \<and> d < length (pre_vertex G)"
  shows "bij_betw (\<lambda>d. nat (pre_vertex G ! d)) S ((\<lambda>d. nat (pre_vertex G ! d)) ` S)"
proof (rule inj_on_imp_bij_betw, rule inj_onI)
  note f = preorder_facts [OF preorder_of_ok [of G]]
  fix a b assume "a \<in> S" "b \<in> S" "nat (pre_vertex G ! a) = nat (pre_vertex G ! b)"
  then show "a = b" using f(4) [of a] f(4) [of b] assms by (metis of_nat_eq_iff)
qed

lemma objects_image:
  "(\<lambda>d. nat (pre_vertex G ! d)) ` {d. 0 < d \<and> d < length (pre_vertex G) \<and> P d} =
     {j. reachable (graph_of G) j \<and> P (nat (pre_dfnum G ! j))}"
proof -
  note ok = preorder_of_ok [of G]
  note f = preorder_facts [OF ok]
  note r = numbered_reachable [OF wf_graph_of ok]
  show ?thesis
  proof (intro equalityI subsetI)
    fix j assume "j \<in> (\<lambda>d. nat (pre_vertex G ! d)) ` {d. 0 < d \<and> d < length (pre_vertex G) \<and> P d}"
    then obtain d where d: "0 < d" "d < length (pre_vertex G)" "P d" "j = nat (pre_vertex G ! d)" by auto
    then show "j \<in> {j. reachable (graph_of G) j \<and> P (nat (pre_dfnum G ! j))}"
      using f(4) [OF d(1,2)] r [of j] by auto
  next
    fix j assume "j \<in> {j. reachable (graph_of G) j \<and> P (nat (pre_dfnum G ! j))}"
    then have j: "reachable (graph_of G) j" "P (nat (pre_dfnum G ! j))" by auto
    have "j < Len (graph_of G)" using reachable_Len [OF wf_graph_of j(1)] .
    moreover from this have "0 \<le> pre_dfnum G ! j" using r j(1) by simp
    ultimately have "0 < nat (pre_dfnum G ! j)" "nat (pre_dfnum G ! j) < length (pre_vertex G)"
      "nat (pre_vertex G ! nat (pre_dfnum G ! j)) = j" using f(5) [of j] by auto
    with j(2) show "j \<in> (\<lambda>d. nat (pre_vertex G ! d)) ` {d. 0 < d \<and> d < length (pre_vertex G) \<and> P d}"
      by (metis (mono_tags, lifting) image_eqI mem_Collect_eq)
  qed
qed

text \<open>Sums over preorder numbers are sums over reachable objects.\<close>

lemma sum_objects:
  "(\<Sum>d \<in> {d. 0 < d \<and> d < length (pre_vertex G) \<and> P d}. h (nat (pre_vertex G ! d))) =
     (\<Sum>j \<in> {j. reachable (graph_of G) j \<and> P (nat (pre_dfnum G ! j))}. h j)"
  using sum.reindex_bij_betw [OF object_bij [of "{d. 0 < d \<and> d < length (pre_vertex G) \<and> P d}" G], of h]
  by (simp add: objects_image)

lemma dominates_heap:
  assumes "reachable (graph_of G) i" and "reachable (graph_of G) j"
  shows "dominates (flow (graph_of G)) None (Some i) (Some j) \<longleftrightarrow>
    dominates (heap_edges G) 0 (nat (pre_dfnum G ! i)) (nat (pre_dfnum G ! j))"
proof -
  note r = numbered_reachable [OF wf_graph_of preorder_of_ok [of G]]
  have "numbered (graph_of G) (pre_dfnum G) (Some x)" if "reachable (graph_of G) x" for x
    using r [of x] that reachable_Len [OF wf_graph_of that] by (simp add: numbered_def)
  from dominates_numbered [OF wf_graph_of preorder_of_ok [of G] this this, OF assms]
  show ?thesis by (simp add: number_of_def heap_edges_def)
qed

lemma reachable_number:
  assumes "reachable (graph_of G) i"
  shows "0 < pre_dfnum G ! i" and "nat (pre_dfnum G ! i) < length (pre_vertex G)"
    and "pre_vertex G ! nat (pre_dfnum G ! i) = int i" and "i < length (pre_dfnum G)"
proof -
  note f = preorder_facts [OF preorder_of_ok [of G]]
  have i: "i < Len (graph_of G)" using reachable_Len [OF wf_graph_of assms] .
  then have "0 \<le> pre_dfnum G ! i" using numbered_reachable [OF wf_graph_of preorder_of_ok i] assms by simp
  from f(5) [OF i this] show "0 < pre_dfnum G ! i" "nat (pre_dfnum G ! i) < length (pre_vertex G)"
    "pre_vertex G ! nat (pre_dfnum G ! i) = int i" by auto
  show "i < length (pre_dfnum G)" using i f(1) by simp
qed

lemma unreachable_number:
  assumes "\<not> reachable (graph_of G) i" and "i < Len (graph_of G)"
  shows "pre_dfnum G ! i < 0" and "i < length (pre_dfnum G)"
  using numbered_reachable [OF wf_graph_of preorder_of_ok assms(2)] assms preorder_facts(1) [OF preorder_of_ok [of G]]
  by auto

lemma heap_graphE:
  assumes "wf_graph g"
  obtains G where "g = graph_of G"
  using assms by (metis Heap_inverse mem_Collect_eq)

lemma ComputeRetained_obtain:
  assumes "wf_graph g"
  obtains G s where "g = graph_of G" and "ComputeRetained g = Inr s" and "snapshot_ok G s"
  using ComputeRetained_heap heap_graphE [OF assms] by (metis returnsE)

lemma subtree_sum:
  assumes "reachable (graph_of G) i"
  shows "(\<Sum>e \<in> heap_dfs.subtree G (nat (pre_dfnum G ! i)).
      if e = 0 then 0 else size_at (graph_of G) (pre_vertex G) e) =
    (\<Sum>j \<in> retainedSet (graph_of G) i. shallow (graph_of G) ! j)"
proof -
  let ?d = "nat (pre_dfnum G ! i)"
  have d: "0 < ?d" using reachable_number(1) [OF assms] by simp
  have pos: "0 < e" if "dominates (heap_edges G) 0 ?d e" for e
    using that heap_dfs.dom_of_root [of G ?d] d by (cases "e = 0") auto
  then have "heap_dfs.subtree G ?d = {e. 0 < e \<and> e < length (pre_vertex G) \<and> dominates (heap_edges G) 0 ?d e}"
    by (auto simp: heap_dfs.subtree_def)
  then have "(\<Sum>e \<in> heap_dfs.subtree G ?d. if e = 0 then 0 else size_at (graph_of G) (pre_vertex G) e) =
    (\<Sum>e \<in> {e. 0 < e \<and> e < length (pre_vertex G) \<and> dominates (heap_edges G) 0 ?d e}.
       shallow (graph_of G) ! nat (pre_vertex G ! e))"
    by (intro sum.cong) (auto simp: size_at_def)
  also have "\<dots> = (\<Sum>j \<in> {j. reachable (graph_of G) j \<and> dominates (heap_edges G) 0 ?d (nat (pre_dfnum G ! j))}.
      shallow (graph_of G) ! j)"
    by (rule sum_objects)
  also have "{j. reachable (graph_of G) j \<and> dominates (heap_edges G) 0 ?d (nat (pre_dfnum G ! j))} =
      retainedSet (graph_of G) i"
    using dominates_heap [OF assms] by (auto simp: retainedSet_def)
  finally show ?thesis .
qed

theorem Retained_spec:
  assumes "wf_graph g" and "i < Len g"
  shows "gbind (ComputeRetained g) (\<lambda>s. Retained s (int i)) =
    Inr (if reachable g i then \<Sum>j \<in> retainedSet g i. shallow g ! j else 0)"
proof -
  obtain G s where g: "g = graph_of G" and s: "ComputeRetained g = Inr s" "snapshot_ok G s"
    by (rule ComputeRetained_obtain [OF assms(1)])
  have sd: "s_dfnum s = pre_dfnum G" and len: "length (s_retained s) = length (pre_vertex G)"
    and ret: "\<And>d. d < length (pre_vertex G) \<Longrightarrow> s_retained s ! d =
        (\<Sum>e \<in> heap_dfs.subtree G d. if e = 0 then 0 else size_at (graph_of G) (pre_vertex G) e)"
    using s(2) by (auto simp: snapshot_ok_def)
  show ?thesis
  proof (cases "reachable g i")
    case True
    then have r: "reachable (graph_of G) i" by (simp add: g)
    note n = reachable_number [OF r]
    have "idx (s_retained s) (pre_dfnum G ! i) = (Inr (s_retained s ! nat (pre_dfnum G ! i)) :: (herr, i64) go)"
      using n len by (simp add: nat_less_iff)
    then show ?thesis using n True ret [OF n(2)] subtree_sum [OF r]
      by (simp add: s Retained_def sd) (simp add: g)
  next
    case False
    then have "\<not> reachable (graph_of G) i" "i < Len (graph_of G)" using assms(2) by (auto simp: g)
    from unreachable_number [OF this] False show ?thesis by (simp add: s Retained_def sd)
  qed
qed

theorem Reachable_spec:
  assumes "wf_graph g" and "i < Len g"
  shows "gbind (ComputeRetained g) (\<lambda>s. Reachable s (int i)) = Inr (reachable g i)"
proof -
  obtain G s where g: "g = graph_of G" and s: "ComputeRetained g = Inr s" "snapshot_ok G s"
    by (rule ComputeRetained_obtain [OF assms(1)])
  have sd: "s_dfnum s = pre_dfnum G" using s(2) by (simp add: snapshot_ok_def)
  show ?thesis
    using reachable_number [of G i] unreachable_number [of G i] assms(2)
    unfolding s(1) gbind.simps Reachable_def sd by (cases "reachable g i") (auto simp: g)
qed

lemma is_idom_heap:
  assumes "reachable (graph_of G) i"
  shows "is_idom (flow (graph_of G)) None (object_at (pre_vertex G) (idom_num (heap_edges G) (nat (pre_dfnum G ! i)))) (Some i)"
proof -
  let ?w = "nat (pre_dfnum G ! i)" and ?F = "flow (graph_of G)" and ?dn = "pre_dfnum G"
  let ?d = "idom_num (heap_edges G) ?w"
  note ok = preorder_of_ok [of G]
  note n = reachable_number [OF assms]
  have w: "0 < ?w" "?w < length (pre_vertex G)" using n by auto
  have d: "?d < length (pre_vertex G)" using heap_dfs.idom_dom(2) [OF w] w by simp
  have I: "is_idom (heap_edges G) 0 ?d ?w" by (rule heap_dfs.is_idom_num [OF w])
  have nd: "number_of ?dn (object_at (pre_vertex G) ?d) = ?d"
    and nmd: "numbered (graph_of G) ?dn (object_at (pre_vertex G) ?d)"
    using number_of_object_at [OF ok d] by auto
  have nw: "number_of ?dn (Some i) = ?w" by (simp add: number_of_def)
  have nmw: "numbered (graph_of G) ?dn (Some i)"
    using n reachable_Len [OF wf_graph_of assms] by (simp add: numbered_def)
  note dom = dominates_numbered [OF wf_graph_of ok, folded heap_edges_def]
  have num: "numbered (graph_of G) ?dn x" if "dominates ?F None x (Some i)" for x
  proof (cases x)
    case (Some j)
    then have "reachable (graph_of G) j" using dominates_reachable [OF assms] that by simp
    then show ?thesis
      using Some reachable_number(1) [of G j] reachable_Len [OF wf_graph_of, of G j] by (simp add: numbered_def)
  qed (simp add: numbered_def)
  have inj: "x = Some i" if "numbered (graph_of G) ?dn x" "number_of ?dn x = ?w" for x
    using object_at_number_of(1) [OF ok that(1)] object_at_number_of(1) [OF ok nmw] that(2) nw by simp
  show ?thesis
    unfolding is_idom_def
  proof (intro conjI allI impI)
    show "object_at (pre_vertex G) ?d \<noteq> Some i"
      using nd nw I by (metis is_idom_def)
    show "dominates ?F None (object_at (pre_vertex G) ?d) (Some i)"
      unfolding dom [OF nmd nmw] nd nw using I by (simp add: is_idom_def)
    fix x assume x: "dominates ?F None x (Some i) \<and> x \<noteq> Some i"
    then have nx: "numbered (graph_of G) ?dn x" using num by blast
    have "dominates (heap_edges G) 0 (number_of ?dn x) ?w" using x dom [OF nx nmw] nw by simp
    moreover have "number_of ?dn x \<noteq> ?w" using inj [OF nx] x by blast
    ultimately have "dominates (heap_edges G) 0 (number_of ?dn x) ?d" using I by (simp add: is_idom_def)
    then show "dominates ?F None x (object_at (pre_vertex G) ?d)" unfolding dom [OF nx nmd] nd .
  qed
qed

theorem ImmediateDominator_spec:
  assumes "wf_graph g" and "i < Len g"
  shows "returns (gbind (ComputeRetained g) (\<lambda>s. ImmediateDominator s (int i)))
    (\<lambda>d. if reachable g i then is_idom (flow g) None (map_option nat d) (Some i) else d = None)"
proof -
  obtain G s where g: "g = graph_of G" and s: "ComputeRetained g = Inr s" "snapshot_ok G s"
    by (rule ComputeRetained_obtain [OF assms(1)])
  have sd: "s_dfnum s = pre_dfnum G" "s_vertex s = pre_vertex G" "length (s_idom s) = length (pre_vertex G)"
    and si: "\<And>d. 0 < d \<Longrightarrow> d < length (pre_vertex G) \<Longrightarrow> s_idom s ! d = int (idom_num (heap_edges G) d)"
    using s(2) by (auto simp: snapshot_ok_def)
  show ?thesis
  proof (cases "reachable g i")
    case True
    then have r: "reachable (graph_of G) i" by (simp add: g)
    note n = reachable_number [OF r]
    let ?w = "nat (pre_dfnum G ! i)"
    have w: "0 < ?w" using n by simp
    have p: "idx (s_idom s) (pre_dfnum G ! i) = (Inr (int (idom_num (heap_edges G) ?w)) :: (herr, int) go)"
      using n sd si [OF w n(2)] by (simp add: nat_less_iff)
    have "idom_num (heap_edges G) ?w < length (pre_vertex G)" using heap_dfs.idom_dom(2) [OF w n(2)] n(2) by simp
    then show ?thesis
      using n True is_idom_heap [OF r]
      unfolding s(1) gbind.simps ImmediateDominator_def sd by (auto simp: p g object_at_def)
  next
    case False
    then have "\<not> reachable (graph_of G) i" "i < Len (graph_of G)" using assms(2) by (auto simp: g)
    from unreachable_number [OF this] False show ?thesis by (simp add: s ImmediateDominator_def sd)
  qed
qed

theorem ComputeRetained_totals:
  assumes "wf_graph g"
  shows "returns (ComputeRetained g) (\<lambda>s. Graph s = g \<and>
    ReachableObjects s = int (card {i. reachable g i}) \<and>
    ReachableBytes s = (\<Sum>i \<in> {i. reachable g i}. shallow g ! i) \<and>
    TotalShallowBytes s = sum_list (shallow g))"
proof -
  obtain G s where g: "g = graph_of G" and s: "ComputeRetained g = Inr s" "snapshot_ok G s"
    by (rule ComputeRetained_obtain [OF assms(1)])
  note f = preorder_facts [OF preorder_of_ok [of G]]
  let ?D = "{d. 0 < d \<and> d < length (pre_vertex G) \<and> True}"
  have "card ?D = card {j. reachable (graph_of G) j \<and> True}"
    using bij_betw_same_card [OF object_bij [of ?D G]] unfolding objects_image by simp
  moreover have "?D = {1..<length (pre_vertex G)}" by auto
  ultimately have "card {i. reachable (graph_of G) i} = length (pre_vertex G) - 1" by simp
  then have "int (card {i. reachable (graph_of G) i}) = int (length (pre_vertex G)) - 1" using f(3) by linarith
  then have "ReachableObjects s = int (card {i. reachable g i})"
    using s(2) by (simp add: snapshot_ok_def g)
  moreover have "(\<Sum>e \<in> heap_dfs.subtree G 0. if e = 0 then 0 else size_at (graph_of G) (pre_vertex G) e) =
      (\<Sum>d \<in> ?D. shallow (graph_of G) ! nat (pre_vertex G ! d))"
    unfolding heap_dfs.subtree_root by (rule sum.mono_neutral_cong_right) (auto simp: size_at_def)
  then have "ReachableBytes s = (\<Sum>i \<in> {i. reachable g i}. shallow g ! i)"
    using s(2) f(3) sum_objects [where G = G and P = "\<lambda>_. True" and h = "\<lambda>j. shallow (graph_of G) ! j"]
    by (simp add: snapshot_ok_def g)
  ultimately show ?thesis using s by (simp add: snapshot_ok_def g)
qed

theorem class_aggregate:
  assumes "wf_graph g" and "c < length (classNames g)"
  defines "insts \<equiv> {i. reachable g i \<and> nat (cls g ! i) = c}"
  shows "returns (ComputeRetained g) (\<lambda>s. length (classes s) = length (classNames g) \<and>
    cr_ClassName (classes s ! c) = classNames g ! c \<and>
    cr_Instances (classes s ! c) = of_nat (card insts) \<and>
    cr_ShallowBytes (classes s ! c) = (\<Sum>i \<in> insts. shallow g ! i) \<and>
    cr_RetainedBytes (classes s ! c) = (\<Sum>j \<in> (\<Union>i \<in> insts. retainedSet g i). shallow g ! j))"
proof -
  obtain G s where g: "g = graph_of G" and s: "ComputeRetained g = Inr s" "snapshot_ok G s"
    by (rule ComputeRetained_obtain [OF assms(1)])
  let ?vx = "pre_vertex G" and ?g = "graph_of G"
  let ?k = "class_at ?g ?vx"
  note f = preorder_facts [OF preorder_of_ok [of G]]
  have cs: "classes s = credit_all ?k (size_at ?g ?vx) (heap_dfs.outer_retained G ?k (s_retained s))
       {1..<length ?vx} (map newClass (classNames ?g))"
    and ret: "\<And>x. x < length ?vx \<Longrightarrow> s_retained s ! x =
      (\<Sum>e \<in> heap_dfs.subtree G x. if e = 0 then 0 else size_at ?g ?vx e)"
    using s(2) by (auto simp: snapshot_ok_def)
  have c: "c < length (map newClass (classNames ?g))" using assms(2) by (simp add: g)
  have range: "{1..<length ?vx} = {d. 0 < d \<and> d < length ?vx}" by auto
  have insts: "insts = {j. reachable ?g j \<and> ?k (nat (pre_dfnum G ! j)) = c}"
    using reachable_number(3) [of G] by (auto simp: insts_def g class_at_def)
  have filt: "(\<Sum>x \<in> {1..<length ?vx}. if ?k x = c then h (nat (?vx ! x)) else 0) = (\<Sum>j \<in> insts. h j)"
    for h :: "nat \<Rightarrow> i64"
    unfolding range insts by (subst sum.inter_filter [symmetric]) 
      (simp_all add: sum_objects [where G = G and P = "\<lambda>x. ?k x = c" and h = h])
  have inst: "(\<Sum>x \<in> {1..<length ?vx}. if ?k x = c then 1 else 0) = (of_nat (card insts) :: i64)"
    using filt [of "\<lambda>_. 1"] by simp
  have cover: "(\<Sum>e \<in> heap_dfs.class_cover G ?k c. if e = 0 then 0 else size_at ?g ?vx e) =
      (\<Sum>j \<in> (\<Union>i \<in> insts. retainedSet g i). shallow g ! j)"
  proof -
    let ?P = "\<lambda>e. \<exists>x. 0 < x \<and> dominates (heap_edges G) 0 x e \<and> ?k x = c"
    have "(\<Sum>e \<in> heap_dfs.class_cover G ?k c. if e = 0 then 0 else size_at ?g ?vx e) =
      (\<Sum>e \<in> {e. 0 < e \<and> e < length ?vx \<and> ?P e}. shallow ?g ! nat (?vx ! e))"
      by (rule sum.mono_neutral_cong_right) (auto simp: heap_dfs.class_cover_def size_at_def)
    also have "\<dots> = (\<Sum>j \<in> {j. reachable ?g j \<and> ?P (nat (pre_dfnum G ! j))}. shallow ?g ! j)"
      by (rule sum_objects)
    also have "{j. reachable ?g j \<and> ?P (nat (pre_dfnum G ! j))} = (\<Union>i \<in> insts. retainedSet g i)"
    proof (intro equalityI subsetI)
      fix j assume "j \<in> {j. reachable ?g j \<and> ?P (nat (pre_dfnum G ! j))}"
      then obtain x where j: "reachable ?g j" and x: "0 < x" "dominates (heap_edges G) 0 x (nat (pre_dfnum G ! j))"
        "?k x = c" by auto
      have "x < length ?vx"
        using heap_dfs.dom_anc [OF x(2)] heap_dfs.anc_bound reachable_number(2) [OF j] by blast
      from f(4) [OF x(1) this] obtain i where i: "?vx ! x = int i" "i < Len ?g" "pre_dfnum G ! i = int x"
        by (metis nat_0_le)
      then have r: "reachable ?g i" using numbered_reachable [OF wf_graph_of preorder_of_ok i(2)] by simp
      then have "i \<in> insts" using x i by (simp add: insts)
      moreover have "j \<in> retainedSet g i"
        using dominates_heap [OF r j] x i j by (simp add: retainedSet_def g)
      ultimately show "j \<in> (\<Union>i \<in> insts. retainedSet g i)" by blast
    next
      fix j assume "j \<in> (\<Union>i \<in> insts. retainedSet g i)"
      then obtain i where i: "i \<in> insts" "reachable ?g j" "dominates (flow ?g) None (Some i) (Some j)"
        by (auto simp: retainedSet_def g)
      then have r: "reachable ?g i" "?k (nat (pre_dfnum G ! i)) = c" by (auto simp: insts)
      then show "j \<in> {j. reachable ?g j \<and> ?P (nat (pre_dfnum G ! j))}"
        using dominates_heap [OF r(1) i(2)] i reachable_number(1) [OF r(1)]
        by (auto intro!: exI [of _ "nat (pre_dfnum G ! i)"])
    qed
    finally show ?thesis by (simp add: g)
  qed
  have "classes s ! c = credit ?k (size_at ?g ?vx) (heap_dfs.outer_retained G ?k (s_retained s))
       {1..<length ?vx} c (newClass (classNames ?g ! c))"
    using c by (simp add: cs nth_credit_all)
  moreover have "(\<Sum>x \<in> {1..<length ?vx}. if ?k x = c then size_at ?g ?vx x else 0) = (\<Sum>j \<in> insts. shallow g ! j)"
    unfolding size_at_def by (subst filt) (simp add: g)
  moreover note heap_dfs.sum_outermost [OF ret, of ?k c] cover inst
  moreover have "length (classes s) = length (classNames g)" by (simp add: cs g)
  ultimately show ?thesis
    unfolding s(1) returns_Inr by (simp add: credit_def newClass_def g)
qed

subsection \<open>Ranking selects the largest\<close>

interpretation by_retained: comparator "retained_less s" for s
proof
  show "\<not> retained_less s y x" if "retained_less s x y" for x y
    using that by (auto simp: retained_less_def Let_def split: if_splits)
  show "\<not> retained_less s x z" if "\<not> retained_less s x y" "\<not> retained_less s y z" for x y z
    using that by (auto simp: retained_less_def Let_def sint_eq_iff split: if_splits)
qed

interpretation by_retained_desc: comparator "\<lambda>a b. retained_less s b a" for s
  by unfold_locales (metis by_retained.less_asym, metis by_retained.less_negtrans)

interpretation by_class: comparator class_less
proof
  show "\<not> class_less y x" if "class_less x y" for x y
    using that by (auto simp: class_less_def split: if_splits)
  show "\<not> class_less x z" if "\<not> class_less x y" "\<not> class_less y z" for x y z
    using that by (auto simp: class_less_def sint_eq_iff split: if_splits)
qed

theorem topRetained_spec:
  fixes s lmt
  defines "n \<equiv> length (s_vertex s) - 1"
  defines "out \<equiv> topRetained s lmt"
  shows "length out = (if lmt \<le> 0 then n else min (nat lmt) n)"
    and "distinct out" and "set out \<subseteq> {1..n}"
    and "sorted_wrt (\<lambda>a b. \<not> retained_less s a b) out"
    and "\<And>a b. a \<in> set out \<Longrightarrow> b \<in> {1..n} - set out \<Longrightarrow> \<not> retained_less s a b"
proof -
  let ?limit = "if lmt \<le> 0 \<or> lmt > int n then n else nat lmt"
  define items where "items = fold (top_step (retained_less s) ?limit) [1..<Suc n] []"
  have out: "out = sort_slice (\<lambda>a b. retained_less s b a) items"
    by (simp add: out_def items_def topRetained_def n_def Let_def del: upt_Suc)
  have "by_retained.selects s ?limit [1..<Suc n] items"
    unfolding items_def using by_retained.top_fold by blast
  then obtain rest where len: "length items = min ?limit (length [1..<Suc n])"
    and ms: "mset [1..<Suc n] = mset items + rest"
    and sel: "\<And>y x. y \<in> set items \<Longrightarrow> x \<in># rest \<Longrightarrow> \<not> retained_less s y x"
    unfolding by_retained.selects_def by blast
  have set: "set out = set items" by (simp add: out)
  have all: "set items \<union> set_mset rest = {1..n}"
    using arg_cong [OF ms, of set_mset] by (simp only: set_mset_mset set_mset_union) auto
  have "distinct [1..<Suc n]" by simp
  then have "\<forall>x. count (mset [1..<Suc n]) x \<le> 1" by (simp add: distinct_count_atmost_1)
  then have "\<forall>x. count (mset items) x \<le> 1" unfolding ms by (metis add_leE count_union)
  then have "\<forall>x. count (mset items) x = (if x \<in> set items then 1 else 0)"
    by (metis One_nat_def Suc_leI count_greater_zero_iff le_antisym not_in_iff set_mset_mset)
  then have "distinct items" by (simp add: distinct_count_atmost_1)
  then show "distinct out" by (simp add: out)
  show "length out = (if lmt \<le> 0 then n else min (nat lmt) n)" using len by (auto simp: out)
  show "set out \<subseteq> {1..n}" using all by (auto simp: set)
  show "sorted_wrt (\<lambda>a b. \<not> retained_less s a b) out"
    unfolding out by (rule by_retained_desc.sorted_sort_slice)
  show "\<not> retained_less s a b" if "a \<in> set out" "b \<in> {1..n} - set out" for a b
    using that sel all by (auto simp: set)
qed

lemma suspect_returns:
  assumes "snapshot_ok G s" and "0 < d" and "d < length (s_vertex s)"
  shows "returns (suspect s d) (\<lambda>r. rs_RetainedBytes r = s_retained s ! d \<and>
    rs_ID r = ids (graph_of G) ! nat (s_vertex s ! d))"
proof -
  have s: "Graph s = graph_of G" "s_vertex s = pre_vertex G" "length (s_retained s) = length (s_vertex s)"
    using assms(1) by (auto simp: snapshot_ok_def)
  have v: "0 \<le> s_vertex s ! d" "nat (s_vertex s ! d) < Len (graph_of G)"
    using preorder_facts(4) [OF preorder_of_ok [of G], of d] assms s by auto
  have "length (shallow (graph_of G)) = Len (graph_of G)" "length (ids (graph_of G)) = Len (graph_of G)"
    using wf_graph_of [of G] by (auto simp: wf_graph_def Len_def)
  then have i: "idx (ids (graph_of G)) (s_vertex s ! d) = (Inr (ids (graph_of G) ! nat (s_vertex s ! d)) :: (herr, u64) go)"
    and sh: "\<exists>b. idx (shallow (graph_of G)) (s_vertex s ! d) = (Inr b :: (herr, i64) go)"
    using v by (auto simp: nat_less_iff)
  have dn: "\<exists>nm. DisplayName (graph_of G) (s_vertex s ! d) = Inr nm"
    using ClassName_in [OF wf_graph_of v(2)] v(1) by (auto simp: DisplayName_def split: option.splits)
  from sh dn obtain b nm where "idx (shallow (graph_of G)) (s_vertex s ! d) = (Inr b :: (herr, i64) go)"
    "DisplayName (graph_of G) (s_vertex s ! d) = Inr nm" by blast
  then show ?thesis using assms(3) s i by (simp add: suspect_def)
qed

theorem Dominators_spec:
  assumes "wf_graph g"
  shows "returns (Dominators g topN) (\<lambda>r.
    length (Suspects r) = (if topN \<le> 0 then card {i. reachable g i} else min (nat topN) (card {i. reachable g i})) \<and>
    sorted_wrt (\<lambda>a b. sint (rs_RetainedBytes b) \<le> sint (rs_RetainedBytes a)) (Suspects r) \<and>
    sorted_wrt (\<lambda>a b. sint (cr_RetainedBytes b) \<le> sint (cr_RetainedBytes a)) (Classes r))"
proof -
  obtain G s where g: "g = graph_of G" and s: "ComputeRetained g = Inr s" "snapshot_ok G s"
    by (rule ComputeRetained_obtain [OF assms])
  have ro: "ReachableObjects s = int (card {i. reachable g i})"
    using ComputeRetained_totals [OF assms] s(1) by simp
  have "ReachableObjects s = int (length (s_vertex s)) - 1" using s(2) by (simp add: snapshot_ok_def)
  then have n: "length (s_vertex s) - 1 = card {i. reachable g i}" using ro by linarith
  note top = topRetained_spec [where s = s and lmt = topN, unfolded n]
  have "returns (gmapM (suspect s) (topRetained s topN))
      (list_all2 (\<lambda>d r. rs_RetainedBytes r = s_retained s ! d) (topRetained s topN))"
  proof (rule gmapM_returns)
    fix d assume "d \<in> set (topRetained s topN)"
    then have "0 < d" "d < length (s_vertex s)" using topRetained_spec(3) [where s = s and lmt = topN] by fastforce+
    from suspect_returns [OF s(2) this] show "returns (suspect s d) (\<lambda>r. rs_RetainedBytes r = s_retained s ! d)"
      by (rule returns_mono) simp
  qed
  then obtain ss where ss: "gmapM (suspect s) (topRetained s topN) = Inr ss"
    and rel: "list_all2 (\<lambda>d r. rs_RetainedBytes r = s_retained s ! d) (topRetained s topN) ss"
    by (auto elim: returnsE)
  have len: "length ss = length (topRetained s topN)" using rel by (simp add: list_all2_lengthD)
  have ret: "rs_RetainedBytes (ss ! i) = s_retained s ! (topRetained s topN ! i)" if "i < length ss" for i
    using list_all2_nthD2 [OF rel that] .
  have desc: "sint (s_retained s ! b) \<le> sint (s_retained s ! a)" if "\<not> retained_less s a b" for a b
    using that by (auto simp: retained_less_def Let_def split: if_splits)
  have "sorted_wrt (\<lambda>a b. sint (rs_RetainedBytes b) \<le> sint (rs_RetainedBytes a)) ss"
    unfolding sorted_wrt_iff_nth_less
  proof (intro allI impI)
    fix i j assume ij: "i < j" "j < length ss"
    then have "\<not> retained_less s (topRetained s topN ! i) (topRetained s topN ! j)"
      using top(4) len by (simp add: sorted_wrt_iff_nth_less)
    from desc [OF this] show "sint (rs_RetainedBytes (ss ! j)) \<le> sint (rs_RetainedBytes (ss ! i))"
      using ret ij by simp
  qed
  moreover have "sorted_wrt (\<lambda>a b. sint (cr_RetainedBytes b) \<le> sint (cr_RetainedBytes a)) (rankClasses s topN)"
  proof -
    have *: "sorted_wrt (\<lambda>a b. sint (cr_RetainedBytes b) \<le> sint (cr_RetainedBytes a)) (sort_slice class_less cs)" for cs
      using by_class.sorted_sort_slice [of cs]
      by (rule sorted_wrt_mono_rel [rotated]) (auto simp: class_less_def split: if_splits)
    then show ?thesis by (simp add: rankClasses_def Let_def sorted_wrt_take)
  qed
  ultimately show ?thesis using ss len top(1) by (simp add: Dominators_def s RankRetained_def)
qed

end
