(* ===== verification/Go_Fmt.thy ===== *)
theory Go_Fmt
  imports Go_Float
begin

text \<open>
  The verbs of package \<open>fmt\<close> the sources use on numbers, \<open>strings.Join\<close>, and the conversion of a
  \<open>float64\<close> to \<open>int64\<close>.
\<close>

fun join :: "string \<Rightarrow> string list \<Rightarrow> string" where
  "join sep [] = []"
| "join sep [x] = x"
| "join sep (x # y # xs) = x @ sep @ join sep (y # xs)"

fun dec_nat :: "nat \<Rightarrow> string" where
  "dec_nat n = (if n < 10 then [char_of (48 + n)] else dec_nat (n div 10) @ [char_of (48 + n mod 10)])"

declare dec_nat.simps [simp del]

text \<open>\<open>%d\<close>.\<close>

definition dec :: "int \<Rightarrow> string" where
  "dec i = (if i < 0 then ''-'' @ dec_nat (nat (- i)) else dec_nat (nat i))"

text \<open>
  \<open>%.0f\<close> and \<open>%.1f\<close>: the exact value rounded to the given number of decimals, ties to even. A negative
  value keeps its sign even when it rounds to zero.
\<close>

definition sign :: "rat \<Rightarrow> string" where
  "sign q = (if q < 0 then ''-'' else '''')"

fun fixed0 :: "f64 \<Rightarrow> string" where
  "fixed0 (Fin q) = sign q @ dec_nat (nat \<bar>rne q\<bar>)"
| "fixed0 PInf = ''+Inf''"
| "fixed0 NInf = ''-Inf''"
| "fixed0 NaN = ''NaN''"

fun fixed1 :: "f64 \<Rightarrow> string" where
  "fixed1 (Fin q) = (let t = nat \<bar>rne (10 * q)\<bar> in sign q @ dec_nat (t div 10) @ ''.'' @ dec_nat (t mod 10))"
| "fixed1 PInf = ''+Inf''"
| "fixed1 NInf = ''-Inf''"
| "fixed1 NaN = ''NaN''"

text \<open>
  \<open>int64(x)\<close> truncates; for values \<open>int64\<close> cannot represent the language leaves the result to the
  implementation, the parameter \<open>oob\<close>.
\<close>

definition rtrunc :: "rat \<Rightarrow> int" where
  "rtrunc q = (if q < 0 then - \<lfloor>- q\<rfloor> else \<lfloor>q\<rfloor>)"

definition f_to_i64 :: "(f64 \<Rightarrow> i64) \<Rightarrow> f64 \<Rightarrow> i64" where
  "f_to_i64 oob x =
     (case x of
        Fin q \<Rightarrow> (let t = rtrunc q in if - (2 ^ 63) \<le> t \<and> t < 2 ^ 63 then word_of_int t else oob x)
      | _ \<Rightarrow> oob x)"

end
