(* ===== verification/Heap_Paths.thy ===== *)
theory Heap_Paths
  imports Heap_Graph Go_Fmt
begin

text \<open>
  Paths from GC roots (\<open>internal/heap/paths.go\<close>): the cached reverse adjacency, the backward
  breadth-first search of \<open>PathsToGCRoots\<close>, \<open>InstancesOf\<close> and the rendering of a path. The lemmas
  show that the search ends without a panic, that every path it returns is a chain of references
  from a rooted object to a target, and that the first one is a shortest such chain.
\<close>

subsection \<open>Reverse adjacency\<close>

record PathStep =
  ps_ID :: u64
  ps_ClassName :: string

record RootPath =
  rp_Roots :: "GCRoot list"
  Steps :: "PathStep list"

text \<open>The pairs (target, source) in the order the filling pass enumerates them.\<close>

definition refEdges :: "ObjectGraph \<Rightarrow> (herr, (int \<times> int) list) go" where
  "refEdges g = gfold (\<lambda>v es. gbind (Out g (int v)) (\<lambda>ws. Inr (es @ map (\<lambda>w. (w, int v)) ws)))
     [0..<Len g] []"

definition graphPredecessors :: "ObjectGraph \<Rightarrow> (herr, ObjectGraph \<times> int list \<times> int list) go" where
  "graphPredecessors g =
     (case predCSR g of
        Some (start, preds) \<Rightarrow> Inr (g, start, preds)
      | None \<Rightarrow>
          gbind (csr_counts (Len g) (map (\<lambda>w. (w, ())) (outs g))) (\<lambda>counts.
          gbind (csr_prefix (Len g) counts) (\<lambda>start.
          gbind (refEdges g) (\<lambda>es.
          gbind (csr_fill es (replicate (length (outs g)) 0) (take (Len g) start)) (\<lambda>(preds, _).
          Inr (g \<lparr> predCSR := Some (start, preds) \<rparr>, start, preds))))))"

subsection \<open>The search\<close>

definition unvisited :: int where "unvisited = -2"

definition target :: int where "target = -1"

record bfsState =
  nexts :: "int list"
  queue :: "int list"
  paths :: "RootPath list"

text \<open>Following \<open>next\<close> to a target; \<open>n\<close> bounds the number of steps.\<close>

fun pathSteps :: "nat \<Rightarrow> ObjectGraph \<Rightarrow> int list \<Rightarrow> int \<Rightarrow> (herr, PathStep list) go" where
  "pathSteps n g nx v =
     (if v < 0 then Inr []
      else case n of
        0 \<Rightarrow> Inl (Fault Diverges)
      | Suc n' \<Rightarrow>
          gbind (idx (ids g) v) (\<lambda>oid.
          gbind (DisplayName g v) (\<lambda>nm.
          gbind (idx nx v) (\<lambda>w.
          gbind (pathSteps n' g nx w) (\<lambda>rest.
          Inr (\<lparr> ps_ID = oid, ps_ClassName = nm \<rparr> # rest))))))"

declare pathSteps.simps [simp del]

definition pathFrom :: "ObjectGraph \<Rightarrow> int \<Rightarrow> int list \<Rightarrow> GCRoot list \<Rightarrow> (herr, RootPath) go" where
  "pathFrom g v nx rs =
     gbind (pathSteps (Len g) g nx v) (\<lambda>ss. Inr \<lparr> rp_Roots = rs, Steps = ss \<rparr>)"

definition seedTarget :: "int \<Rightarrow> bfsState \<Rightarrow> (herr, bfsState) go" where
  "seedTarget t st =
     gbind (idx (nexts st) t) (\<lambda>x.
     if x = unvisited
     then gbind (upd (nexts st) t target) (\<lambda>nx. Inr (st \<lparr> nexts := nx, queue := queue st @ [t] \<rparr>))
     else Inr st)"

definition visitPred :: "int \<Rightarrow> int \<Rightarrow> bfsState \<Rightarrow> (herr, bfsState) go" where
  "visitPred v u st =
     gbind (idx (nexts st) u) (\<lambda>x.
     if x = unvisited
     then gbind (upd (nexts st) u v) (\<lambda>nx. Inr (st \<lparr> nexts := nx, queue := queue st @ [u] \<rparr>))
     else Inr st)"

definition bfsVisit :: "ObjectGraph \<Rightarrow> int list \<Rightarrow> int list \<Rightarrow> int \<Rightarrow> bfsState \<Rightarrow> (herr, bfsState) go" where
  "bfsVisit g predStart preds v st =
     (let rs = RootsOf g v
      in if rs \<noteq> []
         then gbind (pathFrom g v (nexts st) rs) (\<lambda>p. Inr (st \<lparr> paths := paths st @ [p] \<rparr>))
         else gbind (gbind (idx predStart v) (\<lambda>a. gbind (idx predStart (v + 1)) (\<lambda>b. slice preds a b))) (\<lambda>us.
              gfold (visitPred v) us st))"

fun bfsLoop ::
  "nat \<Rightarrow> ObjectGraph \<Rightarrow> int list \<Rightarrow> int list \<Rightarrow> int \<Rightarrow> nat \<Rightarrow> bfsState \<Rightarrow> (herr, bfsState) go" where
  "bfsLoop n g predStart preds maxPaths head st =
     (if head < length (queue st) \<and> int (length (paths st)) < maxPaths
      then (case n of
              0 \<Rightarrow> Inl (Fault Diverges)
            | Suc n' \<Rightarrow>
                gbind (idx (queue st) (int head)) (\<lambda>v.
                gbind (bfsVisit g predStart preds v st) (\<lambda>st'.
                bfsLoop n' g predStart preds maxPaths (Suc head) st')))
      else Inr st)"

declare bfsLoop.simps [simp del]

definition PathsToGCRoots :: "ObjectGraph \<Rightarrow> int list \<Rightarrow> int \<Rightarrow> (herr, ObjectGraph \<times> RootPath list) go" where
  "PathsToGCRoots g targets maxPaths =
     (if maxPaths \<le> 0 \<or> targets = [] then Inr (g, [])
      else gbind (graphPredecessors g) (\<lambda>(g', predStart, preds).
           gbind (gfold seedTarget targets
             \<lparr> nexts = replicate (Len g) unvisited, queue = [], paths = [] \<rparr>) (\<lambda>st.
           gbind (bfsLoop (Len g) g' predStart preds maxPaths 0 st) (\<lambda>st'. Inr (g', paths st')))))"

subsection \<open>Instances and rendering\<close>

definition InstancesOf :: "ObjectGraph \<Rightarrow> string \<Rightarrow> (herr, int list) go" where
  "InstancesOf g name =
     (let match = map (\<lambda>nm. nm = name) (classNames g)
      in if True \<notin> set match then Inr []
         else gfold (\<lambda>(i, c) out. gbind (idx match c) (\<lambda>b. Inr (if b then out @ [int i] else out)))
                (enumerate 0 (cls g)) [])"

definition rootKinds :: "GCRoot list \<Rightarrow> RootKind list" where
  "rootKinds rs = fold (\<lambda>r seen. if Kind r \<in> set seen then seen else seen @ [Kind r]) rs []"

text \<open>The arrow is the UTF-8 encoding of U+2192.\<close>

definition arrow :: string where
  "arrow = '' '' @ map char_of [0xE2, 0x86, 0x92 :: nat] @ '' ''"

definition stepString :: "PathStep \<Rightarrow> string" where
  "stepString st = ps_ClassName st @ '' (0x'' @ hex (unat (ps_ID st)) @ '')''"

text \<open>The string a \<open>RootKind\<close> constant stands for.\<close>

fun kindName :: "RootKind \<Rightarrow> string" where
  "kindName RootUnknown = ''unknown''"
| "kindName RootJNIGlobal = ''jni_global''"
| "kindName RootJNILocal = ''jni_local''"
| "kindName RootJavaFrame = ''java_frame''"
| "kindName RootNativeStack = ''native_stack''"
| "kindName RootStickyClass = ''sticky_class''"
| "kindName RootThreadBlock = ''thread_block''"
| "kindName RootMonitorUsed = ''monitor_used''"
| "kindName RootThreadObject = ''thread_object''"
| "kindName RootInternedString = ''interned_string''"
| "kindName RootFinalizing = ''finalizing''"
| "kindName RootDebugger = ''debugger''"
| "kindName RootReferenceCleanup = ''reference_cleanup''"
| "kindName RootVMInternal = ''vm_internal''"
| "kindName RootJNIMonitor = ''jni_monitor''"

definition rootPathString :: "RootPath \<Rightarrow> string" where
  "rootPathString p =
     ''['' @ join '', '' (map kindName (rootKinds (rp_Roots p))) @ ''] '' @
     join arrow (map stepString (Steps p))"

subsection \<open>The reverse adjacency\<close>

lemma csr_rows_concat:
  assumes "csr_ok n start xs"
  shows "concat (map (csr_row start xs) [0..<n]) = xs"
proof -
  have "concat (map (csr_row start xs) [0..<k]) = take (nat (start ! k)) xs" if "k \<le> n" for k
    using that
  proof (induction k)
    case 0
    then show ?case using assms by (simp add: csr_ok_def)
  next
    case (Suc k)
    then have "k < n" by simp
    note b = csr_bounds [OF assms this]
    have "nat (start ! Suc k) = nat (start ! k) + nat (start ! Suc k - start ! k)" using b by simp
    then have "take (nat (start ! Suc k)) xs =
        take (nat (start ! k)) xs @ take (nat (start ! Suc k - start ! k)) (drop (nat (start ! k)) xs)"
      by (simp add: take_add)
    then show ?case using Suc by (simp add: csr_row_def)
  qed
  from this [of n] show ?thesis using assms by (simp add: csr_ok_def)
qed

lemma gfold_map: "gfold f (map h xs) s = gfold (\<lambda>x. f (h x)) xs s"
proof (induction xs arbitrary: s)
  case (Cons x xs)
  then show ?case by (simp cong: gbind_cong)
qed simp

lemma csr_counts_fst: "csr_counts n (map (\<lambda>e. (fst e, ())) es) = csr_counts n es"
  unfolding csr_counts_def gfold_map by (simp add: case_prod_unfold)

definition ref_edges :: "ObjectGraph \<Rightarrow> (int \<times> int) list" where
  "ref_edges g = concat (map (\<lambda>v. map (\<lambda>w. (w, int v)) (succs g v)) [0..<Len g])"

lemma refEdges_eq:
  assumes "wf_graph g"
  shows "refEdges g = Inr (ref_edges g)"
proof -
  let ?row = "\<lambda>v. map (\<lambda>w. (w, int v)) (succs g v)"
  have row: "gbind (Out g (int v)) (\<lambda>ws. Inr (es @ map (\<lambda>w. (w, int v)) ws)) = Inr (es @ ?row v)"
    if "v \<in> set [0..<Len g]" for v es
    using Out_in [OF assms, of v] that by simp
  have fold: "fold (\<lambda>d es. es @ ?row d) ds es = es @ concat (map ?row ds)" for ds es
    by (induction ds arbitrary: es) simp_all
  show ?thesis unfolding refEdges_def ref_edges_def by (subst gfold_Inr [OF row]) (simp_all add: fold)
qed

lemma outs_ref_edges: "wf_graph g \<Longrightarrow> outs g = map fst (ref_edges g)"
  using csr_rows_concat [of "Len g" "outStart g" "outs g"]
  by (simp add: wf_graph_def ref_edges_def succs_def map_concat o_def cong: map_cong)

definition preds_ok :: "ObjectGraph \<Rightarrow> int list \<Rightarrow> int list \<Rightarrow> bool" where
  "preds_ok g start preds \<longleftrightarrow> csr_ok (Len g) start preds \<and>
     (\<forall>v < Len g. set (csr_row start preds v) = {int u | u. u < Len g \<and> int v \<in> set (succs g u)})"

definition cache_ok :: "ObjectGraph \<Rightarrow> bool" where
  "cache_ok g = (case predCSR g of None \<Rightarrow> True | Some (start, preds) \<Rightarrow> preds_ok g start preds)"

lemma graphPredecessors_spec:
  assumes wf: "wf_graph g" and "cache_ok g"
  shows "returns (graphPredecessors g) (\<lambda>(g', start, preds).
    preds_ok g start preds \<and> (\<exists>c. g' = g \<lparr> predCSR := Some c \<rparr>) \<and> predCSR g' = Some (start, preds))"
proof (cases "predCSR g")
  case (Some c)
  obtain start preds where c: "c = (start, preds)" by (cases c)
  have "g = g \<lparr> predCSR := predCSR g \<rparr>" by simp
  then have "g = g \<lparr> predCSR := Some (start, preds) \<rparr>" unfolding Some c .
  then have "\<exists>c. g = g \<lparr> predCSR := Some c \<rparr>" by (rule exI)
  then show ?thesis using assms(2) Some c by (simp add: graphPredecessors_def cache_ok_def)
next
  case None
  let ?es = "ref_edges g"
  have bound: "0 \<le> w \<and> w < int (Len g)" if "w \<in> set (succs g v)" for w v
    using succs_in [OF wf that] by auto
  then have es: "\<forall>e \<in> set ?es. 0 \<le> fst e \<and> fst e < int (Len g)" by (auto simp: ref_edges_def)
  have pairs: "map (\<lambda>w. (w, ())) (outs g) = map (\<lambda>e. (fst e, ())) ?es"
    unfolding outs_ref_edges [OF wf] by simp
  obtain counts start where cs: "csr_counts (Len g) ?es = (Inr counts :: (herr, int list) go)"
    "csr_prefix (Len g) counts = (Inr start :: (herr, int list) go)"
    and b: "returns (csr_build (Len g) 0 ?es :: (herr, int list \<times> int list) go)
      (\<lambda>(s, xs). csr_ok (Len g) s xs \<and> length xs = length ?es \<and> (\<forall>i<Len g. csr_row s xs i = row_of ?es i))"
    using csr_build_spec [where 'e = herr and z = "0::int", OF es]
    by (auto simp: csr_build_def go_simps elim!: returnsE)
  from b obtain xs fl where ok: "csr_ok (Len g) start xs" "length xs = length ?es"
      "\<forall>i<Len g. csr_row start xs i = row_of ?es i"
    and total: "idx start (int (Len g)) = (Inr (start ! Len g) :: (herr, int) go)"
    and fill: "csr_fill ?es (replicate (nat (start ! Len g)) 0) (take (Len g) start) = (Inr (xs, fl) :: (herr, _) go)"
    by (auto simp: csr_build_def cs go_simps idx_eq_Inr elim!: returnsE)
  have "nat (start ! Len g) = length (outs g)" using ok outs_ref_edges [OF wf] by (simp add: csr_ok_def)
  then have eq: "graphPredecessors g = Inr (g \<lparr> predCSR := Some (start, xs) \<rparr>, start, xs)"
    using fill by (simp add: graphPredecessors_def None pairs csr_counts_fst cs refEdges_eq [OF wf])
  have "x \<in> set (row_of ?es v) \<longleftrightarrow> (\<exists>u. x = int u \<and> u < Len g \<and> int v \<in> set (succs g u))" for x v
    unfolding set_row_of ref_edges_def by auto
  then have "preds_ok g start xs" using ok by (auto simp: preds_ok_def)
  then show ?thesis unfolding eq by auto
qed

subsection \<open>Reference paths\<close>

definition rooted :: "ObjectGraph \<Rightarrow> nat \<Rightarrow> bool" where
  "rooted g v \<longleftrightarrow> int v \<in> set (roots g)"

definition ref_path :: "ObjectGraph \<Rightarrow> nat list \<Rightarrow> bool" where
  "ref_path g vs \<longleftrightarrow> vs \<noteq> [] \<and> set vs \<subseteq> {..<Len g} \<and>
     (\<forall>i. Suc i < length vs \<longrightarrow> int (vs ! Suc i) \<in> set (succs g (vs ! i)))"

text \<open>A chain of references from a rooted object to one of the targets.\<close>

definition root_path :: "ObjectGraph \<Rightarrow> nat set \<Rightarrow> nat list \<Rightarrow> bool" where
  "root_path g T vs \<longleftrightarrow> ref_path g vs \<and> rooted g (hd vs) \<and> last vs \<in> T"

definition step_of :: "ObjectGraph \<Rightarrow> nat \<Rightarrow> PathStep" where
  "step_of g v = \<lparr> ps_ID = ids g ! v,
     ps_ClassName = (case DisplayName g (int v) of Inr nm \<Rightarrow> nm | Inl _ \<Rightarrow> []) \<rparr>"

lemma ref_path_Cons:
  "ref_path g (v # vs) \<longleftrightarrow> v < Len g \<and>
     (vs = [] \<or> ref_path g vs \<and> int (hd vs) \<in> set (succs g v))"
proof (cases vs)
  case Nil
  then show ?thesis by (simp add: ref_path_def)
next
  case (Cons w ws)
  have "(\<forall>i. Suc i < length (v # vs) \<longrightarrow> int ((v # vs) ! Suc i) \<in> set (succs g ((v # vs) ! i))) \<longleftrightarrow>
      int w \<in> set (succs g v) \<and> (\<forall>i. Suc i < length vs \<longrightarrow> int (vs ! Suc i) \<in> set (succs g (vs ! i)))"
    (is "?L \<longleftrightarrow> ?R")
  proof
    assume L: ?L
    then show ?R using L [rule_format, of 0] L [rule_format, of "Suc _"] Cons by auto
  next
    assume R: ?R
    show ?L
    proof (intro allI impI)
      fix i assume "Suc i < length (v # vs)"
      then show "int ((v # vs) ! Suc i) \<in> set (succs g ((v # vs) ! i))"
        using R Cons by (cases i) auto
    qed
  qed
  then show ?thesis by (auto simp: ref_path_def Cons)
qed

text \<open>From any chain, its part after the last rooted object before the end.\<close>

lemma last_rooted:
  assumes "root_path g T vs"
  shows "\<exists>ws. root_path g T ws \<and> length ws \<le> length vs \<and> (\<forall>x \<in> set (tl ws). \<not> rooted g x)"
  using assms
proof (induction vs rule: length_induct)
  case (1 vs)
  show ?case
  proof (cases "\<exists>x \<in> set (tl vs). rooted g x")
    case False
    then show ?thesis using 1(2) by blast
  next
    case True
    then obtain x ys zs where split: "tl vs = ys @ x # zs" and x: "rooted g x" by (auto simp: in_set_conv_decomp)
    have ne: "vs \<noteq> []" using 1(2) by (auto simp: root_path_def ref_path_def)
    then have vs: "vs = hd vs # ys @ x # zs" using split by (metis list.collapse)
    have suffix: "ref_path g (bs)" if "ref_path g (as @ bs)" "bs \<noteq> []" for as bs
      using that by (induction as) (auto simp: ref_path_Cons)
    have "ref_path g (x # zs)"
      using suffix [of "hd vs # ys" "x # zs"] 1(2) vs by (auto simp: root_path_def)
    moreover have "last (x # zs) \<in> T" using 1(2) vs by (metis append_Cons last_appendR list.distinct(1) root_path_def)
    ultimately have "root_path g T (x # zs)" using x by (simp add: root_path_def)
    moreover have "length (x # zs) < length vs" by (subst vs) simp
    ultimately show ?thesis using 1(1) by (meson le_trans less_imp_le)
  qed
qed

subsection \<open>The invariant of the search\<close>

text \<open>
  \<open>lv\<close> is the distance to the target of each queued object, \<open>k\<close> the number of predecessors of the
  current object already visited.
\<close>

definition bfs_base :: "ObjectGraph \<Rightarrow> nat set \<Rightarrow> int list \<Rightarrow> nat list \<Rightarrow> (nat \<Rightarrow> nat) \<Rightarrow> bool" where
  "bfs_base g T nx Q lv \<longleftrightarrow>
     length nx = Len g \<and> distinct Q \<and> set Q \<subseteq> {..<Len g} \<and>
     (\<forall>u < Len g. nx ! u = unvisited \<longleftrightarrow> u \<notin> set Q) \<and>
     (\<forall>u \<in> set Q. (nx ! u = target \<and> u \<in> T \<and> lv u = 0) \<or>
        (\<exists>v \<in> set Q. nx ! u = int v \<and> int v \<in> set (succs g u) \<and> lv u = Suc (lv v))) \<and>
     sorted (map lv Q) \<and> (\<forall>i < length Q. lv (Q ! i) \<le> i)"

definition bfs_closed :: "ObjectGraph \<Rightarrow> nat list \<Rightarrow> (nat \<Rightarrow> nat) \<Rightarrow> nat \<Rightarrow> bool" where
  "bfs_closed g Q lv head \<longleftrightarrow>
     (\<forall>i < head. i < length Q \<and> \<not> rooted g (Q ! i) \<longrightarrow>
        (\<forall>u < Len g. int (Q ! i) \<in> set (succs g u) \<longrightarrow> u \<in> set Q \<and> lv u \<le> Suc (lv (Q ! i)))) \<and>
     (head < length Q \<longrightarrow> (\<forall>u \<in> set Q. lv u \<le> Suc (lv (Q ! head))))"

text \<open>A chain to the targets without rooted objects after its first one is explored in time.\<close>

lemma bfs_complete:
  assumes base: "bfs_base g T nx Q lv" and closed: "bfs_closed g Q lv head" and T: "T \<subseteq> set Q"
    and "T \<subseteq> {..<Len g}"
    and "ref_path g ws" and "last ws \<in> T" and "\<forall>x \<in> set (tl ws). \<not> rooted g x"
    and "head \<le> length Q" and "head < length Q \<Longrightarrow> length ws \<le> Suc (lv (Q ! head))"
    and lvT: "\<And>t. t \<in> T \<Longrightarrow> lv t = 0"
  shows "hd ws \<in> set Q \<and> lv (hd ws) < length ws"
  using assms(5-7,9)
proof (induction ws)
  case Nil
  then show ?case by (simp add: ref_path_def)
next
  case (Cons v ws)
  show ?case
  proof (cases "ws = []")
    case True
    then show ?thesis using Cons.prems T lvT by auto
  next
    case False
    have p: "ref_path g ws" "int (hd ws) \<in> set (succs g v)" "v < Len g"
      using Cons.prems(1) False by (auto simp: ref_path_Cons)
    have hd: "\<not> rooted g (hd ws)" using Cons.prems(3) False by simp
    have tl: "\<forall>x \<in> set (tl ws). \<not> rooted g x" using Cons.prems(3) False by (auto intro: list.set_sel(2))
    have lst: "last ws \<in> T" using Cons.prems(2) False by simp
    have "length ws \<le> Suc (lv (Q ! head))" if "head < length Q" using Cons.prems(4) [OF that] by simp
    from Cons.IH [OF p(1) lst tl this] have IH: "hd ws \<in> set Q" "lv (hd ws) < length ws" by auto
    obtain i where i: "i < length Q" "Q ! i = hd ws" using IH(1) by (auto simp: in_set_conv_nth)
    have "i < head"
    proof (rule ccontr)
      assume "\<not> i < head"
      then have h: "head < length Q" "head \<le> i" using i by auto
      have "lv (Q ! head) \<le> lv (Q ! i)"
        using base h i sorted_nth_mono [of "map lv Q" head i] by (simp add: bfs_base_def)
      moreover have "length ws \<le> lv (Q ! head)" using Cons.prems(4) [OF h(1)] by simp
      ultimately show False using IH(2) i by simp
    qed
    then have "v \<in> set Q \<and> lv v \<le> Suc (lv (hd ws))"
      using closed i hd p unfolding bfs_closed_def by metis
    then show ?thesis using IH(2) by simp
  qed
qed

definition good_path :: "ObjectGraph \<Rightarrow> nat set \<Rightarrow> nat \<Rightarrow> nat \<Rightarrow> RootPath \<Rightarrow> bool" where
  "good_path g T r k p \<longleftrightarrow> (\<exists>vs. ref_path g vs \<and> hd vs = r \<and> last vs \<in> T \<and> length vs = Suc k \<and>
     Steps p = map (step_of g) vs \<and> rp_Roots p = RootsOf g (int r))"

lemma bfs_next:
  assumes "bfs_base g T nx Q lv" and "u \<in> set Q"
  shows "(nx ! u = target \<and> u \<in> T \<and> lv u = 0) \<or>
    (\<exists>v \<in> set Q. nx ! u = int v \<and> int v \<in> set (succs g u) \<and> lv u = Suc (lv v))"
  using assms unfolding bfs_base_def by blast

lemma pathSteps_spec:
  assumes wf: "wf_graph g" and base: "bfs_base g T nx Q lv" and "u \<in> set Q" and "lv u < n"
  shows "\<exists>vs. pathSteps n g nx (int u) = Inr (map (step_of g) vs) \<and>
    ref_path g vs \<and> hd vs = u \<and> last vs \<in> T \<and> length vs = Suc (lv u)"
  using assms(3,4)
proof (induction n arbitrary: u)
  case 0
  then show ?case by simp
next
  case (Suc n)
  have u: "u < Len g" using base Suc.prems(1) by (auto simp: bfs_base_def)
  have nx: "idx nx (int u) = (Inr (nx ! u) :: (herr, int) go)" using base u by (simp add: bfs_base_def)
  have oid: "idx (ids g) (int u) = (Inr (ids g ! u) :: (herr, u64) go)" using u by (simp add: Len_def)
  have "\<exists>nm. DisplayName g (int u) = Inr nm"
    using ClassName_in [OF wf u] by (auto simp: DisplayName_def split: option.splits)
  then obtain nm where nm: "DisplayName g (int u) = Inr nm" by blast
  have st: "step_of g u = \<lparr> ps_ID = ids g ! u, ps_ClassName = nm \<rparr>" by (simp add: step_of_def nm)
  note unfold = pathSteps.simps [of "Suc n" g nx "int u"]
  from bfs_next [OF base Suc.prems(1)] show ?case
  proof
    assume t: "nx ! u = target \<and> u \<in> T \<and> lv u = 0"
    then have "pathSteps n g nx (nx ! u) = Inr []" by (subst pathSteps.simps) (simp add: target_def)
    then show ?thesis
      using t u unfolding unfold by (intro exI [of _ "[u]"]) (simp add: nx oid nm st ref_path_Cons)
  next
    assume "\<exists>v \<in> set Q. nx ! u = int v \<and> int v \<in> set (succs g u) \<and> lv u = Suc (lv v)"
    then obtain v where v: "v \<in> set Q" "nx ! u = int v" "int v \<in> set (succs g u)" "lv u = Suc (lv v)" by blast
    from Suc.IH [OF v(1)] v(4) Suc.prems(2) obtain vs where
      vs: "pathSteps n g nx (int v) = Inr (map (step_of g) vs)" "ref_path g vs" "hd vs = v" "last vs \<in> T"
        "length vs = Suc (lv v)" by auto
    then have "vs \<noteq> []" by auto
    then show ?thesis
      using vs v u unfolding unfold by (intro exI [of _ "u # vs"]) (simp add: nx oid nm st ref_path_Cons)
  qed
qed

subsection \<open>One object of the queue\<close>

lemma bfs_base_snoc:
  assumes base: "bfs_base g T nx Q lv" and v: "v \<in> set Q" and u: "u < Len g" "u \<notin> set Q"
    and arc: "int v \<in> set (succs g u)" and top: "\<forall>x \<in> set Q. lv x \<le> Suc (lv v)"
  shows "bfs_base g T (nx[u := int v]) (Q @ [u]) (lv(u := Suc (lv v)))"
proof -
  let ?lv = "lv(u := Suc (lv v))" and ?nx = "nx[u := int v]"
  note b = base [unfolded bfs_base_def]
  have same: "map ?lv Q = map lv Q" using u(2) by auto
  have "v \<noteq> u" using v u(2) by blast
  obtain i where i: "i < length Q" "Q ! i = v" using v by (auto simp: in_set_conv_nth)
  then have "lv v \<le> i" using b by blast
  then have lvl: "?lv ((Q @ [u]) ! j) \<le> j" if "j < length (Q @ [u])" for j
    using that b i u(2) by (auto simp: nth_append nth_mem less_Suc_eq)
  have nexts: "(?nx ! x = target \<and> x \<in> T \<and> ?lv x = 0) \<or>
      (\<exists>w \<in> set (Q @ [u]). ?nx ! x = int w \<and> int w \<in> set (succs g x) \<and> ?lv x = Suc (?lv w))"
    if x: "x \<in> set (Q @ [u])" for x
  proof (cases "x = u")
    case True
    then show ?thesis using v arc u b \<open>v \<noteq> u\<close> by (auto intro: bexI [of _ v])
  next
    case False
    then have xq: "x \<in> set Q" using x by simp
    have "?nx ! x = nx ! x" using False by simp
    moreover have "w \<noteq> u" if "w \<in> set Q" for w using that u(2) by blast
    ultimately show ?thesis using bfs_next [OF base xq] False by auto
  qed
  show ?thesis
    unfolding bfs_base_def
  proof (intro conjI)
    show "\<forall>x<Len g. (?nx ! x = unvisited) = (x \<notin> set (Q @ [u]))"
      using b by (auto simp: nth_upd unvisited_def)
    show "sorted (map ?lv (Q @ [u]))"
      using b top same by (auto simp: sorted_append simp del: map_eq_conv)
  qed (use b u lvl nexts in auto)
qed

lemma visitPreds_spec:
  assumes base: "bfs_base g T (nexts st) Q lv" and q: "queue st = map int Q" and v: "v \<in> set Q"
    and us: "\<forall>u \<in> set us. \<exists>n. u = int n \<and> n < Len g \<and> int v \<in> set (succs g n)"
    and top: "\<forall>x \<in> set Q. lv x \<le> Suc (lv v)"
  shows "returns (gfold (visitPred (int v)) us st) (\<lambda>st'. \<exists>R lv'.
    queue st' = map int (Q @ R) \<and> paths st' = paths st \<and> bfs_base g T (nexts st') (Q @ R) lv' \<and>
    (\<forall>x \<in> set Q. lv' x = lv x) \<and> (\<forall>x \<in> set (Q @ R). lv' x \<le> Suc (lv v)) \<and> nat ` set us \<subseteq> set (Q @ R))"
    (is "returns _ (?J us)")
proof (rule returns_gfold [where I = ?J])
  show "?J [] st" using assms by (intro exI [of _ "[]"] exI [of _ lv]) simp
next
  fix pre u post s assume split: "us = pre @ u # post" and "?J pre s"
  then obtain R lv' where J: "queue s = map int (Q @ R)" "paths s = paths st"
    "bfs_base g T (nexts s) (Q @ R) lv'" "\<forall>x \<in> set Q. lv' x = lv x"
    "\<forall>x \<in> set (Q @ R). lv' x \<le> Suc (lv v)" "nat ` set pre \<subseteq> set (Q @ R)" by blast
  obtain n where n: "u = int n" "n < Len g" "int v \<in> set (succs g n)" using us split by auto
  have len: "length (nexts s) = Len g" and vis: "nexts s ! n = unvisited \<longleftrightarrow> n \<notin> set (Q @ R)"
    using J(3) n(2) by (auto simp: bfs_base_def)
  have vQ: "v \<in> set (Q @ R)" and lvv: "lv' v = lv v" using v J(4) by auto
  show "returns (visitPred (int v) u s) (?J (pre @ [u]))"
  proof (cases "n \<in> set (Q @ R)")
    case True
    then have "visitPred (int v) u s = Inr s" using n len vis by (simp add: visitPred_def)
    moreover have "?J (pre @ [u]) s" using J True n(1) by (intro exI [of _ R] exI [of _ lv']) simp
    ultimately show ?thesis by simp
  next
    case False
    let ?s = "s \<lparr> nexts := (nexts s)[n := int v], queue := queue s @ [u] \<rparr>"
    have eq: "visitPred (int v) u s = Inr ?s" using n len vis False by (simp add: visitPred_def)
    have "bfs_base g T ((nexts s)[n := int v]) ((Q @ R) @ [n]) (lv'(n := Suc (lv' v)))"
      by (rule bfs_base_snoc [OF J(3) vQ n(2) False n(3)]) (use J(5) lvv in simp)
    then have "?J (pre @ [u]) ?s"
      using J False n(1) lvv by (intro exI [of _ "R @ [n]"] exI [of _ "lv'(n := Suc (lv' v))"]) (auto simp: fun_upd_def)
    then show ?thesis unfolding eq by simp
  qed
qed

definition bfs_inv :: "ObjectGraph \<Rightarrow> nat set \<Rightarrow> bfsState \<Rightarrow> nat \<Rightarrow> nat list \<Rightarrow> (nat \<Rightarrow> nat) \<Rightarrow> bool" where
  "bfs_inv g T st head Q lv \<longleftrightarrow>
     queue st = map int Q \<and> bfs_base g T (nexts st) Q lv \<and> bfs_closed g Q lv head \<and>
     T \<subseteq> set Q \<and> (\<forall>t \<in> T. lv t = 0) \<and> head \<le> length Q \<and>
     list_all2 (\<lambda>r. good_path g T r (lv r)) (filter (rooted g) (take head Q)) (paths st)"

lemma bfs_inv_rooted:
  assumes wf: "wf_graph g" and I: "bfs_inv g T st head Q lv" and h: "head < length Q"
    and r: "rooted g (Q ! head)"
  shows "returns (bfsVisit g ps pd (int (Q ! head)) st) (\<lambda>st'. bfs_inv g T st' (Suc head) Q lv)"
proof -
  let ?v = "Q ! head"
  have base: "bfs_base g T (nexts st) Q lv" and closed: "bfs_closed g Q lv head"
    using I by (auto simp: bfs_inv_def)
  have v: "?v \<in> set Q" using h by simp
  have "length Q \<le> Len g"
  proof -
    have "card (set Q) \<le> card {..<Len g}" using base by (intro card_mono) (auto simp: bfs_base_def)
    then show ?thesis using base distinct_card [of Q] by (simp add: bfs_base_def)
  qed
  then have "lv ?v < Len g" using base h unfolding bfs_base_def by (meson le_trans less_le_trans not_less)
  from pathSteps_spec [OF wf base v this] obtain vs where
    vs: "pathSteps (Len g) g (nexts st) (int ?v) = Inr (map (step_of g) vs)"
      "ref_path g vs" "hd vs = ?v" "last vs \<in> T" "length vs = Suc (lv ?v)" by auto
  have ne: "RootsOf g (int ?v) \<noteq> []" using r RootsOf_empty [OF wf] by (simp add: rooted_def)
  let ?p = "\<lparr> rp_Roots = RootsOf g (int ?v), Steps = map (step_of g) vs \<rparr>"
  have eq: "bfsVisit g ps pd (int ?v) st = Inr (st \<lparr> paths := paths st @ [?p] \<rparr>)"
    using ne vs(1) by (simp add: bfsVisit_def pathFrom_def Let_def)
  have good: "good_path g T ?v (lv ?v) ?p" using vs by (auto simp: good_path_def)
  have top: "lv u \<le> Suc (lv (Q ! Suc head))" if "Suc head < length Q" "u \<in> set Q" for u
  proof -
    have "lv (Q ! head) \<le> lv (Q ! Suc head)"
      using base that sorted_nth_mono [of "map lv Q" head "Suc head"] by (simp add: bfs_base_def)
    then show ?thesis using closed h that unfolding bfs_closed_def by (meson Suc_le_mono le_trans)
  qed
  have "bfs_closed g Q lv (Suc head)"
    using closed r top unfolding bfs_closed_def by (auto simp: less_Suc_eq)
  moreover have "list_all2 (\<lambda>r. good_path g T r (lv r)) (filter (rooted g) (take (Suc head) Q)) (paths st @ [?p])"
    using I r good h by (simp add: bfs_inv_def take_Suc_conv_app_nth list_all2_appendI)
  ultimately show ?thesis using I h unfolding eq bfs_inv_def by simp
qed

lemma bfs_inv_unrooted:
  assumes wf: "wf_graph g" and I: "bfs_inv g T st head Q lv" and h: "head < length Q"
    and r: "\<not> rooted g (Q ! head)" and p: "preds_ok g ps pd"
  shows "returns (bfsVisit g ps pd (int (Q ! head)) st) (\<lambda>st'. \<exists>Q' lv'. bfs_inv g T st' (Suc head) Q' lv')"
proof -
  let ?v = "Q ! head"
  have base: "bfs_base g T (nexts st) Q lv" and closed: "bfs_closed g Q lv head" and q: "queue st = map int Q"
    using I by (auto simp: bfs_inv_def)
  have v: "?v \<in> set Q" using h by simp
  then have vl: "?v < Len g" using base by (auto simp: bfs_base_def)
  have e: "RootsOf g (int ?v) = []" using r RootsOf_empty [OF wf] by (simp add: rooted_def)
  let ?us = "csr_row ps pd ?v"
  have ok: "csr_ok (Len g) ps pd" and row: "set ?us = {int u | u. u < Len g \<and> int ?v \<in> set (succs g u)}"
    using p vl by (auto simp: preds_ok_def)
  have sl: "gbind (idx ps (int ?v)) (\<lambda>a. gbind (idx ps (int ?v + 1)) (\<lambda>b. slice pd a b)) =
      (Inr ?us :: (herr, int list) go)" by (rule csr_slice [OF ok vl])
  have eq: "bfsVisit g ps pd (int ?v) st = gfold (visitPred (int ?v)) ?us st"
    using e sl by (simp add: bfsVisit_def Let_def)
  have "\<forall>u \<in> set ?us. \<exists>n. u = int n \<and> n < Len g \<and> int ?v \<in> set (succs g n)" unfolding row by auto
  moreover have "\<forall>x \<in> set Q. lv x \<le> Suc (lv ?v)" using closed h by (simp add: bfs_closed_def)
  ultimately obtain st' R lv' where st': "gfold (visitPred (int ?v)) ?us st = Inr st'"
    and J: "queue st' = map int (Q @ R)" "paths st' = paths st" "bfs_base g T (nexts st') (Q @ R) lv'"
    "\<forall>x \<in> set Q. lv' x = lv x" "\<forall>x \<in> set (Q @ R). lv' x \<le> Suc (lv ?v)" "nat ` set ?us \<subseteq> set (Q @ R)"
    using visitPreds_spec [OF base q v] by (blast elim: returnsE)
  have lvv: "lv' (Q ! i) = lv (Q ! i)" if "i < length Q" for i using J(4) that by simp
  have preds: "u \<in> set (Q @ R)" if "u < Len g" "int ?v \<in> set (succs g u)" for u
  proof -
    have "int u \<in> set ?us" using that row by blast
    then show ?thesis using J(6) by force
  qed
  have "bfs_closed g (Q @ R) lv' (Suc head)"
    unfolding bfs_closed_def
  proof (intro conjI allI impI ballI)
    fix i u assume i: "i < Suc head" "i < length (Q @ R) \<and> \<not> rooted g ((Q @ R) ! i)"
      and u: "u < Len g" "int ((Q @ R) ! i) \<in> set (succs g u)"
    have iq: "i < length Q" "(Q @ R) ! i = Q ! i" using i(1) h by (auto simp: nth_append)
    have "u \<in> set (Q @ R) \<and> lv' u \<le> Suc (lv' (Q ! i))"
    proof (cases "i = head")
      case True
      then show ?thesis using preds [OF u(1)] u(2) iq J(5) lvv h by auto
    next
      case False
      then have "i < head" using i(1) by simp
      moreover have "\<not> rooted g (Q ! i)" "int (Q ! i) \<in> set (succs g u)" using i u iq by auto
      ultimately have "u \<in> set Q \<and> lv u \<le> Suc (lv (Q ! i))"
        using closed iq(1) u(1) unfolding bfs_closed_def by blast
      then show ?thesis using J(4) lvv iq by auto
    qed
    then show "u \<in> set (Q @ R)" "lv' u \<le> Suc (lv' ((Q @ R) ! i))" using iq by auto
  next
    fix u assume s: "Suc head < length (Q @ R)" and u: "u \<in> set (Q @ R)"
    have "sorted (map lv' (Q @ R))" using J(3) by (simp add: bfs_base_def)
    from sorted_nth_mono [OF this, of head "Suc head"] s
    have "lv' ((Q @ R) ! head) \<le> lv' ((Q @ R) ! Suc head)" by (simp del: map_append)
    then have "lv ?v \<le> lv' ((Q @ R) ! Suc head)" using lvv [OF h] h by (simp add: nth_append)
    then show "lv' u \<le> Suc (lv' ((Q @ R) ! Suc head))" using J(5) u by (meson Suc_le_mono le_trans)
  qed
  moreover have "filter (rooted g) (take (Suc head) (Q @ R)) = filter (rooted g) (take head Q)"
    using h r by (simp add: take_Suc_conv_app_nth)
  moreover have "list_all2 (\<lambda>r. good_path g T r (lv' r)) (filter (rooted g) (take head Q)) (paths st)"
  proof -
    have ps: "list_all2 (\<lambda>r. good_path g T r (lv r)) (filter (rooted g) (take head Q)) (paths st)"
      using I by (simp add: bfs_inv_def)
    have lvs: "lv' x = lv x" if "x \<in> set (filter (rooted g) (take head Q))" for x
      using that J(4) by (auto dest: in_set_takeD)
    show ?thesis by (rule list.rel_mono_strong [OF ps]) (simp only: lvs)
  qed
  ultimately have "bfs_inv g T st' (Suc head) (Q @ R) lv'"
    using I J h unfolding bfs_inv_def by auto
  then show ?thesis unfolding eq st' by auto
qed

lemma visitPreds_paths: "gfold (visitPred v) us st = Inr st' \<Longrightarrow> paths st' = paths st"
proof (induction us arbitrary: st)
  case (Cons u us)
  from Cons.prems obtain s where s: "visitPred v u st = Inr s" "gfold (visitPred v) us s = Inr st'"
    by (auto simp: go_simps)
  then have "paths s = paths st" by (auto simp: visitPred_def go_simps split: if_splits)
  then show ?case using Cons.IH [OF s(2)] by simp
qed simp

lemma bfsLoop_spec:
  assumes wf: "wf_graph g" and p: "preds_ok g ps pd"
  shows "bfs_inv g T st head Q lv \<Longrightarrow> Len g \<le> n + head \<Longrightarrow>
    returns (bfsLoop n g ps pd mx head st) (\<lambda>st'. \<exists>head' Q' lv'. bfs_inv g T st' head' Q' lv' \<and>
      (int (length (paths st)) \<le> mx \<longrightarrow> int (length (paths st')) \<le> mx) \<and>
      (head' = length Q' \<or> mx \<le> int (length (paths st'))))"
proof (induction n arbitrary: st head Q lv)
  case 0
  have "length Q \<le> Len g"
  proof -
    have "card (set Q) \<le> card {..<Len g}" using 0 by (intro card_mono) (auto simp: bfs_base_def bfs_inv_def)
    then show ?thesis using 0 distinct_card [of Q] by (simp add: bfs_base_def bfs_inv_def)
  qed
  then have "length Q = head" using 0 by (simp add: bfs_inv_def)
  moreover have "length (queue st) = length Q" using 0 by (simp add: bfs_inv_def)
  ultimately show ?case using 0 by (subst bfsLoop.simps) auto
next
  case (Suc n)
  have q: "queue st = map int Q" and hq: "head \<le> length Q" using Suc.prems by (auto simp: bfs_inv_def)
  show ?case
  proof (cases "head < length (queue st) \<and> int (length (paths st)) < mx")
    case False
    then have "head = length Q \<or> mx \<le> int (length (paths st))" using hq q by auto
    then show ?thesis using False Suc.prems by (subst bfsLoop.simps) auto
  next
    case True
    then have h: "head < length Q" using q by simp
    have "\<exists>st' Q' lv'. bfsVisit g ps pd (int (Q ! head)) st = Inr st' \<and> bfs_inv g T st' (Suc head) Q' lv'"
      using bfs_inv_rooted [OF wf Suc.prems(1) h] bfs_inv_unrooted [OF wf Suc.prems(1) h _ p]
      by (cases "rooted g (Q ! head)") (blast elim: returnsE)+
    then obtain st' Q' lv' where st': "bfsVisit g ps pd (int (Q ! head)) st = Inr st'"
      and I': "bfs_inv g T st' (Suc head) Q' lv'" by blast
    have len: "length (paths st') \<le> Suc (length (paths st))"
      using st' by (auto simp: bfsVisit_def Let_def go_simps split: if_splits dest: visitPreds_paths)
    have eq: "bfsLoop (Suc n) g ps pd mx head st = bfsLoop n g ps pd mx (Suc head) st'"
      using True h q st' by (subst bfsLoop.simps) simp
    show ?thesis unfolding eq using Suc.IH [OF I'] Suc.prems(2) len True by (auto elim!: returns_mono)
  qed
qed

subsection \<open>The result of the search\<close>

lemma seed_spec:
  assumes "\<forall>t \<in> set targets. 0 \<le> t \<and> nat t < Len g"
  shows "returns (gfold seedTarget targets
      \<lparr> nexts = replicate (Len g) unvisited, queue = [], paths = [] \<rparr>)
    (\<lambda>st. \<exists>Q. bfs_inv g (nat ` set targets) st 0 Q (\<lambda>_. 0))"
proof -
  let ?T = "nat ` set targets"
  let ?J = "\<lambda>pre (st :: bfsState). paths st = [] \<and> (\<exists>Q. queue st = map int Q \<and> bfs_base g ?T (nexts st) Q (\<lambda>_. 0) \<and>
    set Q = nat ` set pre)"
  have "returns (gfold seedTarget targets
      \<lparr> nexts = replicate (Len g) unvisited, queue = [], paths = [] \<rparr>) (?J targets)"
  proof (rule returns_gfold [where I = ?J])
    show "?J [] \<lparr> nexts = replicate (Len g) unvisited, queue = [], paths = [] \<rparr>"
      by (simp add: bfs_base_def)
  next
    fix pre t post and st :: bfsState assume split: "targets = pre @ t # post" and J: "?J pre st"
    then obtain Q where Q: "queue st = map int Q" "bfs_base g ?T (nexts st) Q (\<lambda>_. 0)" "set Q = nat ` set pre"
      by blast
    have t: "0 \<le> t" "nat t < Len g" "nat t \<in> ?T" using assms split by auto
    have b: "length (nexts st) = Len g" "nexts st ! nat t = unvisited \<longleftrightarrow> nat t \<notin> set Q"
      using Q(2) t(2) by (auto simp: bfs_base_def)
    have ix: "idx (nexts st) t = (Inr (nexts st ! nat t) :: (herr, int) go)"
      and up: "upd (nexts st) t target = (Inr ((nexts st)[nat t := target]) :: (herr, int list) go)"
      using t b by (auto simp: nat_less_iff)
    show "returns (seedTarget t st) (?J (pre @ [t]))"
    proof (cases "nat t \<in> set Q")
      case True
      then have "?J (pre @ [t]) st" using J Q by (auto simp: insert_absorb)
      then show ?thesis using True b ix by (simp add: seedTarget_def)
    next
      case False
      have nx: "u = nat t \<or> u \<in> set Q \<and> nexts st ! u = target" if "u \<in> set (Q @ [nat t])" for u
        using that bfs_next [OF Q(2), of u] by auto
      have "bfs_base g ?T ((nexts st)[nat t := target]) (Q @ [nat t]) (\<lambda>_. 0)"
        using Q(2) False t b(1) nx unfolding bfs_base_def
        by (auto simp: nth_upd target_def unvisited_def sorted_append)
      then have "?J (pre @ [t]) (st \<lparr> nexts := (nexts st)[nat t := target], queue := queue st @ [t] \<rparr>)"
        using J Q t(1) by (auto intro!: exI [of _ "Q @ [nat t]"])
      then show ?thesis using False b ix up by (simp add: seedTarget_def)
    qed
  qed
  then show ?thesis
    by (rule returns_mono) (auto simp: bfs_inv_def bfs_closed_def)
qed

lemma predCSR_update [simp]:
  "wf_graph (g \<lparr> predCSR := c \<rparr>) = wf_graph g" "Len (g \<lparr> predCSR := c \<rparr>) = Len g"
  "succs (g \<lparr> predCSR := c \<rparr>) i = succs g i" "RootsOf (g \<lparr> predCSR := c \<rparr>) j = RootsOf g j"
  "DisplayName (g \<lparr> predCSR := c \<rparr>) j = DisplayName g j"
  by (simp_all add: wf_graph_def Len_def succs_def RootsOf_def DisplayName_def ClassName_def split: option.split)

lemma preds_ok_update [simp]: "preds_ok (g \<lparr> predCSR := c \<rparr>) ps pd = preds_ok g ps pd"
  by (simp add: preds_ok_def)

lemma path_update [simp]:
  "rooted (g \<lparr> predCSR := c \<rparr>) = rooted g" "step_of (g \<lparr> predCSR := c \<rparr>) = step_of g"
  "ref_path (g \<lparr> predCSR := c \<rparr>) = ref_path g"
  by (simp_all add: fun_eq_iff rooted_def step_of_def ref_path_def)

lemma good_path_update [simp]: "good_path (g \<lparr> predCSR := c \<rparr>) = good_path g"
  by (simp add: fun_eq_iff good_path_def)

lemma bfs_inv_update [simp]: "bfs_inv (g \<lparr> predCSR := c \<rparr>) T st h Q lv = bfs_inv g T st h Q lv"
  by (simp add: bfs_inv_def bfs_base_def bfs_closed_def)

lemma bfs_shortest:
  assumes I: "bfs_inv g T st head Q lv" and T: "T \<subseteq> {..<Len g}"
    and fin: "head = length Q \<or> paths st \<noteq> []" and vs: "root_path g T vs"
  defines "rs \<equiv> filter (rooted g) (take head Q)"
  shows "rs \<noteq> [] \<and> lv (hd rs) < length vs"
proof -
  have base: "bfs_base g T (nexts st) Q lv" and closed: "bfs_closed g Q lv head" and TQ: "T \<subseteq> set Q"
    and lvT: "\<forall>t \<in> T. lv t = 0" and hq: "head \<le> length Q" and rel: "length rs = length (paths st)"
    using I list_all2_lengthD by (auto simp: bfs_inv_def rs_def)
  have sQ: "sorted (map lv Q)" using base by (simp add: bfs_base_def)
  then have srs: "sorted (map lv rs)"
    unfolding rs_def by (intro sorted_filter) (simp add: take_map [symmetric] sorted_wrt_take)
  obtain ws where ws: "root_path g T ws" "length ws \<le> length vs" "\<forall>x \<in> set (tl ws). \<not> rooted g x"
    using last_rooted [OF vs] by blast
  then have w: "ref_path g ws" "last ws \<in> T" "rooted g (hd ws)" by (auto simp: root_path_def)
  note complete = bfs_complete [OF base closed TQ T w(1,2) ws(3) hq]
  show ?thesis
  proof (cases "rs = []")
    case True
    then have "head = length Q" using fin rel by auto
    then have "hd ws \<in> set Q" using complete lvT by blast
    then have "hd ws \<in> set rs" using w(3) \<open>head = length Q\<close> by (simp add: rs_def)
    then show ?thesis using True by simp
  next
    case False
    let ?r = "hd rs"
    have "?r \<in> set (take head Q)" using False by (metis filter_is_subset hd_in_set rs_def subsetD)
    then obtain i where i: "i < head" "i < length Q" "Q ! i = ?r" by (auto simp: in_set_conv_nth)
    have "lv ?r < length ws"
    proof (rule ccontr)
      assume "\<not> lv ?r < length ws"
      then have short: "length ws \<le> lv ?r" by simp
      have "length ws \<le> Suc (lv (Q ! head))" if h: "head < length Q"
        using sorted_nth_mono [OF sQ, of i head] i h short by simp
      then have hd: "hd ws \<in> set Q" "lv (hd ws) < length ws" using complete lvT by blast+
      then obtain j where j: "j < length Q" "Q ! j = hd ws" by (auto simp: in_set_conv_nth)
      have "j < i"
        using sorted_nth_mono [OF sQ, of i j] i j hd short by (cases "j < i") auto
      then have "take head Q ! j = hd ws" "j < length (take head Q)" using i j by auto
      then have "hd ws \<in> set (take head Q)" by (metis nth_mem)
      then have "hd ws \<in> set rs" using w(3) by (simp add: rs_def)
      then have "lv ?r \<le> lv (hd ws)" using srs False by (cases rs) auto
      then show False using hd(2) short by simp
    qed
    then show ?thesis using False ws(2) by simp
  qed
qed

theorem PathsToGCRoots_spec:
  assumes wf: "wf_graph g" and c: "cache_ok g" and t: "\<forall>t \<in> set targets. 0 \<le> t \<and> nat t < Len g"
    and mx: "0 < mx" and ne: "targets \<noteq> []"
  defines "T \<equiv> nat ` set targets"
  shows "returns (PathsToGCRoots g targets mx) (\<lambda>(g', ps). int (length ps) \<le> mx \<and>
    (\<exists>vss. length vss = length ps \<and> distinct (map hd vss) \<and> sorted (map length vss) \<and>
       (\<forall>i < length ps. root_path g T (vss ! i) \<and> Steps (ps ! i) = map (step_of g) (vss ! i) \<and>
          rp_Roots (ps ! i) = RootsOf g (int (hd (vss ! i)))) \<and>
       (\<forall>vs. root_path g T vs \<longrightarrow> vss \<noteq> [] \<and> length (hd vss) \<le> length vs)))"
proof -
  obtain start preds k where gp: "graphPredecessors g = Inr (g \<lparr> predCSR := Some k \<rparr>, start, preds)"
    and p: "preds_ok g start preds" using graphPredecessors_spec [OF wf c] by (auto elim!: returnsE)
  obtain st0 Q0 where st0: "gfold seedTarget targets
      \<lparr> nexts = replicate (Len g) unvisited, queue = [], paths = [] \<rparr> = Inr st0"
    and I0: "bfs_inv g T st0 0 Q0 (\<lambda>_. 0)" using seed_spec [OF t] unfolding T_def by (auto elim!: returnsE)
  have "paths st0 = []" using I0 by (simp add: bfs_inv_def)
  let ?g = "g \<lparr> predCSR := Some k \<rparr>"
  obtain st head Q lv where st: "bfsLoop (Len g) ?g start preds mx 0 st0 = Inr st"
    and I: "bfs_inv g T st head Q lv" and len: "int (length (paths st)) \<le> mx"
    and fin: "head = length Q \<or> mx \<le> int (length (paths st))"
    using bfsLoop_spec [of ?g start preds T st0 0 Q0 "\<lambda>_. 0" "Len g" mx] wf p I0 mx \<open>paths st0 = []\<close>
    by (auto elim!: returnsE)
  let ?rs = "filter (rooted g) (take head Q)"
  have rel: "list_all2 (\<lambda>r. good_path g T r (lv r)) ?rs (paths st)" using I by (simp add: bfs_inv_def)
  have n: "length ?rs = length (paths st)" using rel by (rule list_all2_lengthD)
  have "\<forall>i < length (paths st). \<exists>vs. ref_path g vs \<and> hd vs = ?rs ! i \<and> last vs \<in> T \<and>
      length vs = Suc (lv (?rs ! i)) \<and> Steps (paths st ! i) = map (step_of g) vs \<and>
      rp_Roots (paths st ! i) = RootsOf g (int (?rs ! i))"
    using rel by (auto simp: list_all2_conv_all_nth good_path_def)
  then obtain f where f: "\<And>i. i < length (paths st) \<Longrightarrow> ref_path g (f i) \<and> hd (f i) = ?rs ! i \<and>
      last (f i) \<in> T \<and> length (f i) = Suc (lv (?rs ! i)) \<and> Steps (paths st ! i) = map (step_of g) (f i) \<and>
      rp_Roots (paths st ! i) = RootsOf g (int (?rs ! i))"
    by metis
  let ?vss = "map f [0..<length (paths st)]"
  have hds: "map hd ?vss = ?rs" by (rule nth_equalityI) (use f n in auto)
  have lens: "map length ?vss = map (Suc \<circ> lv) ?rs" by (rule nth_equalityI) (use f n in auto)
  have "rooted g (?rs ! i)" if "i < length (paths st)" for i
    using nth_mem [of i ?rs] n that by simp
  then have paths: "\<forall>i < length (paths st). root_path g T (?vss ! i) \<and>
      Steps (paths st ! i) = map (step_of g) (?vss ! i) \<and>
      rp_Roots (paths st ! i) = RootsOf g (int (hd (?vss ! i)))"
    using f by (simp add: root_path_def)
  have base: "distinct Q" "sorted (map lv Q)" using I by (auto simp: bfs_inv_def bfs_base_def)
  have "sorted (map lv ?rs)"
    by (intro sorted_filter) (simp add: take_map [symmetric] sorted_wrt_take base)
  then have srt: "sorted (map length ?vss)" unfolding lens by (simp add: sorted_map o_def)
  have dist: "distinct (map hd ?vss)" unfolding hds using base by simp
  have TL: "T \<subseteq> {..<Len g}" using t by (auto simp: T_def)
  have short: "?vss \<noteq> [] \<and> length (hd ?vss) \<le> length vs" if vs: "root_path g T vs" for vs
  proof -
    have "head = length Q \<or> paths st \<noteq> []" using fin mx by auto
    from bfs_shortest [OF I TL this vs] have r: "?rs \<noteq> []" "lv (hd ?rs) < length vs" by auto
    then have "0 < length (paths st)" using n by auto
    then have v: "?vss \<noteq> []" "hd ?vss = f 0" by (auto simp: hd_map upt_rec)
    have "hd ?rs = ?rs ! 0" using r(1) by (simp add: hd_conv_nth)
    then have "length (f 0) \<le> length vs" using f [OF \<open>0 < length (paths st)\<close>] r(2) by simp
    then show ?thesis using v by simp
  qed
  have "PathsToGCRoots g targets mx = Inr (?g, paths st)"
    using mx ne by (simp add: PathsToGCRoots_def gp st0 st)
  moreover have "length ?vss = length (paths st)" by simp
  ultimately show ?thesis using len dist srt paths short by (simp only: returns_Inr prod.case) blast
qed

end
