(* ===== verification/Heap_Leaks.thy ===== *)
theory Heap_Leaks
  imports Retained_Sizes Heap_Paths
begin

text \<open>
  The leak-suspect report (\<open>internal/heap/leaks.go\<close>). The reverse adjacency is cached in the graph,
  so the functions that ask for a path return the snapshot with the cache filled. A Go map is
  iterated in an unspecified order; the model takes the order of insertion, and the report is sorted
  afterwards.
\<close>

subsection \<open>The report\<close>

record LeakOptions =
  lo_ThresholdPercent :: f64
  lo_MaxSuspects :: int

record AccumulationPoint =
  ap_ID :: u64
  ap_ClassName :: string
  ap_RetainedBytes :: i64
  ap_PercentOfHeap :: f64
  DirectChildren :: int
  Depth :: nat

record LeakSuspect =
  ls_Kind :: string
  ls_ClassName :: string
  ls_ID :: u64
  ls_Instances :: i64
  ls_RetainedBytes :: i64
  ls_PercentOfHeap :: f64
  Accumulation :: "AccumulationPoint option"
  PathToRoot :: "RootPath option"
  Description :: string

record LeakReport =
  lr_TotalShallowBytes :: i64
  lr_ReachableObjects :: int
  lr_ReachableBytes :: i64
  lr_ThresholdPercent :: f64
  lr_Suspects :: "LeakSuspect list"

definition LeakSuspectObject :: string where "LeakSuspectObject = ''object''"
definition LeakSuspectClass :: string where "LeakSuspectClass = ''class''"
definition DefaultLeakThresholdPercent :: f64 where "DefaultLeakThresholdPercent = Fin 10"
definition defaultMaxLeakSuspects :: int where "defaultMaxLeakSuspects = 10"
definition accumulationRatio :: f64 where "accumulationRatio = f64_of_rat (4 / 5)"

subsection \<open>Byte counts\<close>

text \<open>The loop divides by 1024 until less than 1024 is left; \<open>exp\<close> indexes the unit letters.\<close>

function formatUnit :: "int \<Rightarrow> int \<Rightarrow> nat \<Rightarrow> int \<times> nat" where
  "formatUnit m d e = (if 1024 \<le> m then formatUnit (m div 1024) (d * 1024) (Suc e) else (d, e))"
  by auto
termination by (relation "measure (\<lambda>(m, _, _). nat m)") auto

declare formatUnit.simps [simp del]

definition formatBytes :: "i64 \<Rightarrow> (herr, string) go" where
  "formatBytes n =
     (if sint n < 1024 then Inr (dec (sint n) @ '' B'')
      else let (d, e) = formatUnit (sint n div 1024) 1024 0
           in gbind (idx ''KMGTPE'' (int e)) (\<lambda>u.
              Inr (fixed1 (f_div (f_of_int (sint n)) (f_of_int d)) @ '' '' @ [u] @ ''iB'')))"

subsection \<open>Accumulation points\<close>

definition betterChild :: "RetainedSnapshot \<Rightarrow> int \<Rightarrow> int \<Rightarrow> (herr, int) go" where
  "betterChild s c best =
     (if best = -1 then Inr c
      else gbind (idx (s_retained s) c) (\<lambda>rc.
           gbind (idx (s_retained s) best) (\<lambda>rb. Inr (if sint rc > sint rb then c else best))))"

definition childrenOf :: "RetainedSnapshot \<Rightarrow> int \<Rightarrow> (herr, int list) go" where
  "childrenOf s d =
     gbind (idx (childStart s) d) (\<lambda>a. gbind (idx (childStart s) (d + 1)) (\<lambda>b. slice (children s) a b))"

text \<open>The descent; \<open>n\<close> bounds its depth by the number of vertices.\<close>

fun descend_children :: "nat \<Rightarrow> RetainedSnapshot \<Rightarrow> int \<Rightarrow> nat \<Rightarrow> (herr, int \<times> nat) go" where
  "descend_children n s d depth =
     gbind (childrenOf s d) (\<lambda>cs.
     gbind (gfold (betterChild s) cs (-1)) (\<lambda>best.
     if best = -1 then Inr (d, depth)
     else gbind (idx (s_retained s) best) (\<lambda>rb.
          gbind (idx (s_retained s) d) (\<lambda>rd.
          if f_lt (f_of_int (sint rb)) (f_mul accumulationRatio (f_of_int (sint rd))) then Inr (d, depth)
          else (case n of
                  0 \<Rightarrow> Inl (Fault Diverges)
                | Suc n' \<Rightarrow> descend_children n' s best (Suc depth))))))"

declare descend_children.simps [simp del]

definition accumulationPoint :: "RetainedSnapshot \<Rightarrow> int \<Rightarrow> (herr, AccumulationPoint \<times> int) go" where
  "accumulationPoint s d0 =
     gbind (descend_children (length (s_vertex s)) s d0 0) (\<lambda>(d, depth).
     gbind (idx (s_vertex s) d) (\<lambda>obj.
     gbind (idx (ids (Graph s)) obj) (\<lambda>oid.
     gbind (DisplayName (Graph s) obj) (\<lambda>nm.
     gbind (idx (s_retained s) d) (\<lambda>r.
     gbind (idx (childStart s) (d + 1)) (\<lambda>b.
     gbind (idx (childStart s) d) (\<lambda>a.
     Inr (\<lparr> ap_ID = oid, ap_ClassName = nm, ap_RetainedBytes = r, ap_PercentOfHeap = percentOf s r,
            DirectChildren = b - a, Depth = depth \<rparr>, d))))))))"

definition shortestPath :: "RetainedSnapshot \<Rightarrow> int \<Rightarrow> (herr, RetainedSnapshot \<times> RootPath option) go" where
  "shortestPath s d =
     gbind (idx (s_vertex s) d) (\<lambda>obj.
     gbind (PathsToGCRoots (Graph s) [obj] 1) (\<lambda>(g, ps).
     Inr (s \<lparr> Graph := g \<rparr>, case ps of [] \<Rightarrow> None | p # _ \<Rightarrow> Some p)))"

subsection \<open>Suspects\<close>

definition describeObjectSuspect :: "LeakSuspect \<Rightarrow> (herr, string) go" where
  "describeObjectSuspect ls =
     gbind (formatBytes (ls_RetainedBytes ls)) (\<lambda>fb.
     let b0 = ls_ClassName ls @ '' (0x'' @ hex (unat (ls_ID ls)) @ '') retains '' @ fb @ '' ('' @
              fixed1 (ls_PercentOfHeap ls) @ ''% of the reachable heap).''
     in gbind (case Accumulation ls of
                 None \<Rightarrow> Inr b0
               | Some acc \<Rightarrow>
                   if Depth acc > 0
                   then gbind (formatBytes (ap_RetainedBytes acc)) (\<lambda>fa.
                        Inr (b0 @ '' Memory accumulates in '' @ ap_ClassName acc @ '' (0x'' @
                             hex (unat (ap_ID acc)) @ ''), which retains '' @ fa @
                             (if DirectChildren acc > 0
                              then '' across '' @ dec (DirectChildren acc) @ '' directly dominated objects''
                              else '''') @ ''.''))
                   else if DirectChildren acc > 1
                   then Inr (b0 @ '' It directly dominates '' @ dec (DirectChildren acc) @ '' objects.'')
                   else Inr b0) (\<lambda>b1.
        Inr (case PathToRoot ls of
               None \<Rightarrow> b1
             | Some p \<Rightarrow> b1 @ '' Shortest path from a GC root: '' @ rootPathString p @ ''.'')))"

definition objectSuspect :: "RetainedSnapshot \<Rightarrow> int \<Rightarrow> (herr, RetainedSnapshot \<times> LeakSuspect) go" where
  "objectSuspect s d =
     gbind (idx (s_vertex s) d) (\<lambda>obj.
     gbind (accumulationPoint s d) (\<lambda>(acc, accD).
     gbind (DisplayName (Graph s) obj) (\<lambda>nm.
     gbind (idx (ids (Graph s)) obj) (\<lambda>oid.
     gbind (idx (s_retained s) d) (\<lambda>r.
     gbind (shortestPath s accD) (\<lambda>(s', p).
     let ls = \<lparr> ls_Kind = LeakSuspectObject, ls_ClassName = nm, ls_ID = oid, ls_Instances = 1,
                ls_RetainedBytes = r, ls_PercentOfHeap = percentOf s r, Accumulation = Some acc,
                PathToRoot = p, Description = [] \<rparr>
     in gbind (describeObjectSuspect ls) (\<lambda>desc. Inr (s', ls \<lparr> Description := desc \<rparr>))))))))"

record classGroup =
  gr_count :: i64
  gr_retained :: i64
  gr_largest :: int

definition groupAdd :: "RetainedSnapshot \<Rightarrow> int \<Rightarrow> classGroup \<Rightarrow> (herr, classGroup) go" where
  "groupAdd s d grp =
     gbind (idx (s_retained s) d) (\<lambda>rd.
     gbind (idx (s_retained s) (gr_largest grp)) (\<lambda>rl.
     Inr (grp \<lparr> gr_count := gr_count grp + 1, gr_retained := gr_retained grp + rd,
                gr_largest := (if sint rd > sint rl then d else gr_largest grp) \<rparr>)))"

definition classSuspect :: "RetainedSnapshot \<Rightarrow> classGroup \<Rightarrow> (herr, RetainedSnapshot \<times> LeakSuspect) go" where
  "classSuspect s grp =
     gbind (idx (s_vertex s) (gr_largest grp)) (\<lambda>obj.
     gbind (ClassName (Graph s) obj) (\<lambda>nm.
     gbind (shortestPath s (gr_largest grp)) (\<lambda>(s', p).
     gbind (formatBytes (gr_retained grp)) (\<lambda>fb.
     let pc = percentOf s (gr_retained grp);
         d0 = dec (sint (gr_count grp)) @ '' instances of '' @ nm @ '' together retain '' @ fb @ '' ('' @
              fixed1 pc @ ''% of the reachable heap); none is dominated by another object, so each '' @
              ''is held directly by GC roots or shared referrers.'';
         d1 = (case p of None \<Rightarrow> d0
               | Some q \<Rightarrow> d0 @ '' Largest instance path: '' @ rootPathString q @ ''.'')
     in Inr (s', \<lparr> ls_Kind = LeakSuspectClass, ls_ClassName = nm, ls_ID = 0, ls_Instances = gr_count grp,
                   ls_RetainedBytes = gr_retained grp, ls_PercentOfHeap = pc, Accumulation = None,
                   PathToRoot = p, Description = d1 \<rparr>)))))"

definition suspect_less :: "LeakSuspect \<Rightarrow> LeakSuspect \<Rightarrow> bool" where
  "suspect_less x y =
     (if ls_RetainedBytes x \<noteq> ls_RetainedBytes y then sint (ls_RetainedBytes x) > sint (ls_RetainedBytes y)
      else if ls_ClassName x \<noteq> ls_ClassName y then ls_ClassName x < ls_ClassName y
      else ls_ID x < ls_ID y)"

subsection \<open>\<open>LeakSuspects\<close>\<close>

record leakState =
  lk_snap :: RetainedSnapshot
  lk_found :: "LeakSuspect list"
  lk_groups :: "(int, classGroup) gomap"

definition leakThreshold :: "(f64 \<Rightarrow> i64) \<Rightarrow> i64 \<Rightarrow> f64 \<Rightarrow> i64" where
  "leakThreshold oob reachableBytes percent =
     (let t = f_to_i64 oob (f_div (f_mul (f_of_int (sint reachableBytes)) percent) (f_of_int 100))
      in if sint t < 1 then 1 else t)"

definition leakChild :: "i64 \<Rightarrow> int \<Rightarrow> leakState \<Rightarrow> (herr, leakState) go" where
  "leakChild threshold d st =
     (let s = lk_snap st in
      gbind (idx (s_retained s) d) (\<lambda>r.
      if sint r \<ge> sint threshold
      then gbind (objectSuspect s d) (\<lambda>(s', ls).
           Inr (st \<lparr> lk_snap := s', lk_found := lk_found st @ [ls] \<rparr>))
      else gbind (idx (s_vertex s) d) (\<lambda>obj.
           if map_of (classObjOf (Graph s)) obj \<noteq> None then Inr st
           else gbind (idx (cls (Graph s)) obj) (\<lambda>c.
                gbind (groupAdd s d (case map_of (lk_groups st) c of
                         Some grp \<Rightarrow> grp
                       | None \<Rightarrow> \<lparr> gr_count = 0, gr_retained = 0, gr_largest = d \<rparr>)) (\<lambda>grp.
                Inr (st \<lparr> lk_groups := mput c grp (lk_groups st) \<rparr>))))))"

definition leakGroup :: "i64 \<Rightarrow> int \<times> classGroup \<Rightarrow> leakState \<Rightarrow> (herr, leakState) go" where
  "leakGroup threshold kg st =
     (let grp = snd kg in
      if sint (gr_count grp) > 1 \<and> sint (gr_retained grp) \<ge> sint threshold
      then gbind (classSuspect (lk_snap st) grp) (\<lambda>(s', ls).
           Inr (st \<lparr> lk_snap := s', lk_found := lk_found st @ [ls] \<rparr>))
      else Inr st)"

definition LeakSuspects ::
  "(f64 \<Rightarrow> i64) \<Rightarrow> RetainedSnapshot \<Rightarrow> LeakOptions \<Rightarrow> (herr, RetainedSnapshot \<times> LeakReport) go" where
  "LeakSuspects oob s opts =
     (let percent = (if f_le (lo_ThresholdPercent opts) (Fin 0) then DefaultLeakThresholdPercent
                     else lo_ThresholdPercent opts);
          mx = (if lo_MaxSuspects opts \<le> 0 then defaultMaxLeakSuspects else lo_MaxSuspects opts);
          rep = \<lparr> lr_TotalShallowBytes = TotalShallowBytes s, lr_ReachableObjects = ReachableObjects s,
                  lr_ReachableBytes = ReachableBytes s, lr_ThresholdPercent = percent, lr_Suspects = [] \<rparr>
      in if sint (ReachableBytes s) \<le> 0 then Inr (s, rep)
         else let threshold = leakThreshold oob (ReachableBytes s) percent in
              gbind (childrenOf s 0) (\<lambda>cs.
              gbind (gfold (leakChild threshold) cs \<lparr> lk_snap = s, lk_found = [], lk_groups = [] \<rparr>) (\<lambda>st.
              gbind (gfold (leakGroup threshold) (lk_groups st) st) (\<lambda>st'.
              let out = sort_slice suspect_less (lk_found st');
                  out = (if int (length out) > mx then take (nat mx) out else out)
              in Inr (lk_snap st', rep \<lparr> lr_Suspects := out \<rparr>)))))"

subsection \<open>Rendering a byte count never fails\<close>

lemma formatUnit_bound:
  "0 \<le> m \<Longrightarrow> m < 1024 ^ Suc k \<Longrightarrow> snd (formatUnit m d e) \<le> e + k"
proof (induction k arbitrary: m d e)
  case 0
  then show ?case by (subst formatUnit.simps) simp
next
  case (Suc k)
  have "m div 1024 < 1024 ^ Suc k" using Suc.prems by (auto simp: div_less_iff_less_mult)
  then show ?case
    using Suc.IH [of "m div 1024" "d * 1024" "Suc e"] Suc.prems(1) by (subst formatUnit.simps) auto
qed

lemma formatBytes_returns: "returns (formatBytes n) (\<lambda>_. True)"
proof (cases "sint n < 1024")
  case False
  have "sint n < 2 ^ 63" using sint_lt [of n] by simp
  then have "sint n div 1024 < 1024 ^ Suc 5" by (simp add: div_less_iff_less_mult)
  moreover have "0 \<le> sint n div 1024" using False by (simp add: pos_imp_zdiv_nonneg_iff)
  ultimately have "snd (formatUnit (sint n div 1024) 1024 0) \<le> 5"
    using formatUnit_bound [of "sint n div 1024" 5 1024 0] by simp
  then show ?thesis using False by (auto simp: formatBytes_def Let_def split: prod.splits)
qed (simp add: formatBytes_def)

subsection \<open>Snapshots with a filled cache\<close>

definition snap_ok :: "heap_graph \<Rightarrow> RetainedSnapshot \<Rightarrow> bool" where
  "snap_ok G s \<longleftrightarrow> (\<exists>c. Graph s = graph_of G \<lparr> predCSR := c \<rparr>) \<and> cache_ok (Graph s) \<and>
     snapshot_ok G (s \<lparr> Graph := graph_of G \<rparr>)"

lemma PathsToGCRoots_graph:
  assumes "wf_graph g" and "cache_ok g" and "PathsToGCRoots g ts mx = Inr (g', ps)"
  shows "\<exists>c. g' = g \<lparr> predCSR := c \<rparr>" and "cache_ok g'"
proof -
  have "(\<exists>c. g' = g \<lparr> predCSR := c \<rparr>) \<and> cache_ok g'"
  proof (cases "mx \<le> 0 \<or> ts = []")
    case True
    then have "g' = g" using assms(3) by (simp add: PathsToGCRoots_def)
    moreover have "g = g \<lparr> predCSR := predCSR g \<rparr>" by simp
    ultimately show ?thesis using assms(2) by blast
  next
    case False
    then obtain st pd where gp: "graphPredecessors g = Inr (g', st, pd)"
      using assms(3) by (auto simp: PathsToGCRoots_def go_simps)
    have "preds_ok g st pd" "\<exists>c. g' = g \<lparr> predCSR := Some c \<rparr>" "predCSR g' = Some (st, pd)"
      using graphPredecessors_spec [OF assms(1,2)] unfolding gp by auto
    then show ?thesis by (auto simp: cache_ok_def)
  qed
  then show "\<exists>c. g' = g \<lparr> predCSR := c \<rparr>" and "cache_ok g'" by auto
qed

text \<open>A reachable object has a chain of references from a rooted one.\<close>

lemma reachable_root_path:
  assumes "wf_graph g" and "reachable g i"
  shows "\<exists>vs. root_path g {i} vs"
proof -
  have "(\<exists>vs. root_path g {j} vs)" if "(None, x) \<in> (flow g)\<^sup>*" "x = Some j" for x j
    using that
  proof (induction arbitrary: j rule: rtrancl_induct)
    case (step y z)
    show ?case
    proof (cases y)
      case None
      then obtain r where "z = Some (nat r)" "r \<in> set (roots g)" using step(2) by (auto simp: flow_def)
      moreover from this have "0 \<le> r" "nat r < Len g" using assms(1) by (auto simp: wf_graph_def)
      ultimately have "root_path g {j} [j]"
        using step.prems by (auto simp: root_path_def ref_path_Cons rooted_def)
      then show ?thesis by blast
    next
      case (Some k)
      then obtain t where t: "z = Some (nat t)" "k < Len g" "t \<in> set (succs g k)"
        using step(2) by (auto simp: flow_def)
      obtain vs where vs: "root_path g {k} vs" using step.IH [OF Some] by blast
      then have ne: "vs \<noteq> []" by (auto simp: root_path_def ref_path_def)
      have j: "int j \<in> set (succs g k)" "j < Len g" using t step.prems succs_in [OF assms(1) t(3)] by auto
      have "ref_path g (as @ [j])" if "ref_path g as" "last as = k" for as
        using that
      proof (induction as)
        case (Cons a as)
        then show ?case using j by (cases as) (auto simp: ref_path_Cons)
      qed (simp add: ref_path_def)
      then have "root_path g {j} (vs @ [j])" using vs ne by (auto simp: root_path_def)
      then show ?thesis by blast
    qed
  qed simp
  then show ?thesis using assms(2) by (simp add: reachable_def)
qed

lemma snap_facts:
  assumes "snap_ok G s"
  shows "wf_graph (Graph s)" and "cache_ok (Graph s)" and "Len (Graph s) = Len (graph_of G)"
    and "s_vertex s = pre_vertex G" and "length (s_retained s) = length (pre_vertex G)"
    and "heap_dfs.tree_csr G (childStart s) (children s)"
    and "\<And>d. 0 < d \<Longrightarrow> d < length (pre_vertex G) \<Longrightarrow>
      0 \<le> pre_vertex G ! d \<and> nat (pre_vertex G ! d) < Len (graph_of G) \<and> reachable (graph_of G) (nat (pre_vertex G ! d))"
proof -
  obtain c where c: "Graph s = graph_of G \<lparr> predCSR := c \<rparr>" using assms by (auto simp: snap_ok_def)
  show "wf_graph (Graph s)" "cache_ok (Graph s)" "Len (Graph s) = Len (graph_of G)"
    using assms by (auto simp: c snap_ok_def)
  show "s_vertex s = pre_vertex G" "length (s_retained s) = length (pre_vertex G)"
    "heap_dfs.tree_csr G (childStart s) (children s)"
    using assms by (auto simp: snap_ok_def snapshot_ok_def)
  fix d assume d: "0 < d" "d < length (pre_vertex G)"
  note f = preorder_facts(4) [OF preorder_of_ok [of G] d]
  then show "0 \<le> pre_vertex G ! d \<and> nat (pre_vertex G ! d) < Len (graph_of G) \<and>
      reachable (graph_of G) (nat (pre_vertex G ! d))"
    using numbered_reachable [OF wf_graph_of preorder_of_ok [of G], of "nat (pre_vertex G ! d)"] by auto
qed

lemma shortestPath_returns:
  assumes s: "snap_ok G s" and d: "0 < d" "d < length (pre_vertex G)"
  shows "returns (shortestPath s (int d)) (\<lambda>(s', p). snap_ok G s' \<and> p \<noteq> None \<and>
    (\<exists>g. s' = s \<lparr> Graph := g \<rparr>))"
proof -
  note f = snap_facts [OF s] and v = snap_facts(7) [OF s d]
  let ?v = "pre_vertex G ! d"
  obtain c where c: "Graph s = graph_of G \<lparr> predCSR := c \<rparr>" using s by (auto simp: snap_ok_def)
  have vx: "idx (s_vertex s) (int d) = (Inr ?v :: (herr, int) go)" using f(4) d by simp
  have "\<forall>t \<in> set [?v]. 0 \<le> t \<and> nat t < Len (Graph s)" using v f(3) by simp
  note spec = PathsToGCRoots_spec [OF f(1,2) this, of 1]
  have "returns (PathsToGCRoots (Graph s) [?v] 1) (\<lambda>(g', ps).
      \<forall>vs. root_path (Graph s) {nat ?v} vs \<longrightarrow> ps \<noteq> [])"
    by (rule returns_mono, rule spec) auto
  then obtain g' ps where P: "PathsToGCRoots (Graph s) [?v] 1 = Inr (g', ps)"
    and ex: "\<forall>vs. root_path (Graph s) {nat ?v} vs \<longrightarrow> ps \<noteq> []" by (auto elim!: returnsE)
  have "\<exists>vs. root_path (Graph s) {nat ?v} vs"
    using reachable_root_path [OF wf_graph_of] v unfolding c by (simp add: root_path_def)
  then have "ps \<noteq> []" using ex by auto
  then obtain q qs where ps: "ps = q # qs" by (cases ps) auto
  note g' = PathsToGCRoots_graph [OF f(1,2) P]
  obtain c' where "g' = Graph s \<lparr> predCSR := c' \<rparr>" using g'(1) by blast
  then have "\<exists>c. g' = graph_of G \<lparr> predCSR := c \<rparr>" unfolding c by auto
  then have "snap_ok G (s \<lparr> Graph := g' \<rparr>)" using s g'(2) by (auto simp: snap_ok_def)
  then show ?thesis by (auto simp: shortestPath_def vx P ps)
qed

subsection \<open>The descent ends\<close>

lemma childrenOf_eq:
  assumes "snap_ok G s" and "d < length (pre_vertex G)"
  shows "childrenOf s (int d) = Inr (map int (heap_dfs.kids_of G d))"
proof -
  have t: "heap_dfs.tree_csr G (childStart s) (children s)" by (rule snap_facts(6) [OF assms(1)])
  then have ok: "csr_ok (length (pre_vertex G)) (childStart s) (children s)"
    and row: "csr_row (childStart s) (children s) d = map int (heap_dfs.kids_of G d)"
    using assms(2) by (auto simp: heap_dfs.tree_csr_def)
  show ?thesis unfolding childrenOf_def row [symmetric] by (rule csr_slice [OF ok assms(2)])
qed

lemma betterChild_fold:
  assumes "\<forall>c \<in> set cs. c < length (s_retained s)"
  shows "returns (gfold (betterChild s) (map int cs) (-1))
    (\<lambda>best. if cs = [] then best = -1 else \<exists>c \<in> set cs. best = int c)"
proof -
  have "returns (gfold (betterChild s) (map int cs) (-1))
    (\<lambda>best. if map int cs = [] then best = -1 else best \<in> set (map int cs))"
  proof (rule returns_gfold [where I = "\<lambda>pre best. if pre = [] then best = -1 else best \<in> set pre"])
    fix pre c post best assume split: "map int cs = pre @ c # post"
      and I: "if pre = [] then best = -1 else best \<in> set pre"
    have in_range: "0 \<le> x \<and> x < int (length (s_retained s))" if "x \<in> set (pre @ [c])" for x
    proof -
      have "x \<in> set (map int cs)" using that unfolding split by auto
      then show ?thesis using assms by auto
    qed
    show "returns (betterChild s c best) (\<lambda>best. if pre @ [c] = [] then best = -1 else best \<in> set (pre @ [c]))"
      using I in_range [of c] in_range [of best] by (auto simp: betterChild_def split: if_splits)
  qed simp
  then show ?thesis by (rule returns_mono) (auto split: if_splits)
qed

lemma kids_facts:
  "c \<in> set (heap_dfs.kids_of G d) \<Longrightarrow> 0 < c \<and> d < c \<and> c < length (pre_vertex G)"
  using heap_dfs.idom_dom(2) [of c G] by (auto simp: heap_dfs.set_kids_of)

lemma descend_returns:
  assumes s: "snap_ok G s"
  shows "d < length (pre_vertex G) \<Longrightarrow> length (pre_vertex G) \<le> n + d + 1 \<Longrightarrow>
    returns (descend_children n s (int d) depth)
      (\<lambda>(e, _). \<exists>e'. e = int e' \<and> d \<le> e' \<and> e' < length (pre_vertex G))"
proof (induction n arbitrary: d depth)
  case n: 0
  have "heap_dfs.kids_of G d = []"
    using kids_facts [of _ G d] n by (metis Suc_eq_plus1 add_0 le_less_Suc_eq list.set_intros(1) neq_Nil_conv not_less_eq order_less_le_trans)
  then show ?case
    using n childrenOf_eq [OF s n(1)] by (subst descend_children.simps) simp
next
  case n: (Suc n)
  note f = snap_facts [OF s]
  let ?ks = "heap_dfs.kids_of G d"
  have "\<forall>c \<in> set ?ks. c < length (s_retained s)" using kids_facts f(5) by simp
  from betterChild_fold [OF this] obtain best where b: "gfold (betterChild s) (map int ?ks) (-1) = Inr best"
    and best: "if ?ks = [] then best = -1 else \<exists>c \<in> set ?ks. best = int c" by (auto elim: returnsE)
  show ?case
  proof (cases "best = -1")
    case True
    then show ?thesis using n childrenOf_eq [OF s n(2)] b by (subst descend_children.simps) simp
  next
    case False
    then obtain c where c: "c \<in> set ?ks" "best = int c" using best by (auto split: if_splits)
    note k = kids_facts [OF c(1)]
    have "returns (descend_children n s (int c) (Suc depth))
        (\<lambda>(e, _). \<exists>e'. e = int e' \<and> c \<le> e' \<and> e' < length (pre_vertex G))"
      by (rule n.IH) (use k n.prems in auto)
    then have IH: "returns (descend_children n s (int c) (Suc depth))
        (\<lambda>(e, _). \<exists>e'. e = int e' \<and> d \<le> e' \<and> e' < length (pre_vertex G))"
      by (rule returns_mono) (use k in auto)
    have r: "idx (s_retained s) (int c) = (Inr (s_retained s ! c) :: (herr, i64) go)"
      "idx (s_retained s) (int d) = (Inr (s_retained s ! d) :: (herr, i64) go)"
      using k f(5) n.prems by simp_all
    show ?thesis
      using IH n.prems childrenOf_eq [OF s n.prems(1)] b c(2) r by (subst descend_children.simps) simp
  qed
qed

subsection \<open>Suspects are built without a panic\<close>

lemma object_lookups:
  assumes "snap_ok G s" and "0 < d" and "d < length (pre_vertex G)"
  shows "\<exists>v. idx (s_vertex s) (int d) = (Inr v :: (herr, int) go) \<and>
    (\<exists>x. idx (ids (Graph s)) v = (Inr x :: (herr, u64) go)) \<and> (\<exists>x. DisplayName (Graph s) v = Inr x) \<and>
    (\<exists>x. ClassName (Graph s) v = Inr x) \<and> (\<exists>x. idx (cls (Graph s)) v = (Inr x :: (herr, int) go)) \<and>
    idx (s_retained s) (int d) = (Inr (s_retained s ! d) :: (herr, i64) go) \<and>
    (\<exists>x. idx (childStart s) (int d) = (Inr x :: (herr, int) go)) \<and>
    (\<exists>x. idx (childStart s) (int d + 1) = (Inr x :: (herr, int) go))"
proof -
  note f = snap_facts [OF assms(1)] and v = snap_facts(7) [OF assms]
  let ?v = "pre_vertex G ! d"
  have n: "nat ?v < Len (Graph s)" "0 \<le> ?v" using v f(3) by auto
  have c: "ClassName (Graph s) ?v = Inr (classNames (Graph s) ! nat (cls (Graph s) ! nat ?v))"
    using ClassName_in [OF f(1) n(1)] n(2) by simp
  then have dn: "\<exists>x. DisplayName (Graph s) ?v = Inr x" by (auto simp: DisplayName_def split: option.splits)
  have "length (cls (Graph s)) = Len (Graph s)" using f(1) by (simp add: wf_graph_def)
  then have k: "idx (cls (Graph s)) ?v = (Inr (cls (Graph s) ! nat ?v) :: (herr, int) go)"
    and i: "idx (ids (Graph s)) ?v = (Inr (ids (Graph s) ! nat ?v) :: (herr, u64) go)"
    using n by (auto simp: Len_def nat_less_iff)
  have l: "length (childStart s) = length (pre_vertex G) + 1"
    by (rule heap_dfs.tree_csr_row(4) [OF f(6) assms(3)])
  have st: "idx (childStart s) (int d) = (Inr (childStart s ! d) :: (herr, int) go)"
    "\<exists>x. idx (childStart s) (int d + 1) = (Inr x :: (herr, int) go)" using l assms(3) by auto
  show ?thesis using f(4,5) assms(3) c dn k i st by (intro exI [of _ ?v]) auto
qed

lemma accumulationPoint_returns:
  assumes s: "snap_ok G s" and d: "0 < d" "d < length (pre_vertex G)"
  shows "returns (accumulationPoint s (int d)) (\<lambda>(acc, e). \<exists>e'. e = int e' \<and> 0 < e' \<and> e' < length (pre_vertex G))"
proof -
  have "length (s_vertex s) = length (pre_vertex G)" using snap_facts(4) [OF s] by simp
  then obtain e depth where e: "descend_children (length (s_vertex s)) s (int d) 0 = Inr (int e, depth)"
    "d \<le> e" "e < length (pre_vertex G)"
    using descend_returns [OF s d(2), of "length (s_vertex s)" 0] by (auto elim!: returnsE)
  have pos: "0 < e" using d(1) e(2) by simp
  from object_lookups [OF s pos e(3)] e pos show ?thesis
    by (auto simp: accumulationPoint_def)
qed

lemma describeObjectSuspect_returns: "returns (describeObjectSuspect ls) (\<lambda>_. True)"
proof -
  have f: "\<exists>x. formatBytes n = Inr x" for n using formatBytes_returns [of n] by (auto elim: returnsE)
  obtain x where x: "formatBytes (ls_RetainedBytes ls) = Inr x" using f by blast
  show ?thesis
  proof (cases "Accumulation ls")
    case None
    then show ?thesis by (simp add: describeObjectSuspect_def x Let_def)
  next
    case (Some acc)
    obtain y where "formatBytes (ap_RetainedBytes acc) = Inr y" using f by blast
    then show ?thesis using Some by (simp add: describeObjectSuspect_def x Let_def)
  qed
qed

lemma objectSuspect_returns:
  assumes s: "snap_ok G s" and d: "0 < d" "d < length (pre_vertex G)"
  shows "returns (objectSuspect s (int d)) (\<lambda>(s', ls). snap_ok G s' \<and> (\<exists>g. s' = s \<lparr> Graph := g \<rparr>) \<and>
    ls_RetainedBytes ls = s_retained s ! d \<and> PathToRoot ls \<noteq> None)"
proof -
  obtain v x nm where o: "idx (s_vertex s) (int d) = (Inr v :: (herr, int) go)"
    "DisplayName (Graph s) v = Inr nm" "idx (ids (Graph s)) v = (Inr x :: (herr, u64) go)"
    "idx (s_retained s) (int d) = (Inr (s_retained s ! d) :: (herr, i64) go)"
    using object_lookups [OF s d] by blast
  obtain acc e where a: "accumulationPoint s (int d) = Inr (acc, int e)" "0 < e" "e < length (pre_vertex G)"
    using accumulationPoint_returns [OF s d] by (auto elim!: returnsE)
  obtain s' p where p: "shortestPath s (int e) = Inr (s', p)" "snap_ok G s'" "p \<noteq> None" "\<exists>g. s' = s \<lparr> Graph := g \<rparr>"
    using shortestPath_returns [OF s a(2,3)] by (auto elim!: returnsE)
  show ?thesis
    unfolding objectSuspect_def o a p gbind.simps prod.case Let_def
    by (rule returns_gbind [OF describeObjectSuspect_returns]) (use p in auto)
qed

lemma classSuspect_returns:
  assumes s: "snap_ok G s" and d: "0 < d" "d < length (pre_vertex G)" "gr_largest grp = int d"
  shows "returns (classSuspect s grp) (\<lambda>(s', ls). snap_ok G s' \<and> (\<exists>g. s' = s \<lparr> Graph := g \<rparr>) \<and>
    ls_RetainedBytes ls = gr_retained grp \<and> PathToRoot ls \<noteq> None)"
proof -
  obtain v nm where o: "idx (s_vertex s) (int d) = (Inr v :: (herr, int) go)" "ClassName (Graph s) v = Inr nm"
    using object_lookups [OF s d(1,2)] by blast
  obtain s' p where p: "shortestPath s (int d) = Inr (s', p)" "snap_ok G s'" "p \<noteq> None" "\<exists>g. s' = s \<lparr> Graph := g \<rparr>"
    using shortestPath_returns [OF s d(1,2)] by (auto elim!: returnsE)
  obtain y where "formatBytes (gr_retained grp) = Inr y"
    using formatBytes_returns [of "gr_retained grp"] by (auto elim: returnsE)
  then show ?thesis using p by (simp add: classSuspect_def d(3) o Let_def)
qed

subsection \<open>The report\<close>

definition leak_inv :: "heap_graph \<Rightarrow> i64 \<Rightarrow> i64 list \<Rightarrow> leakState \<Rightarrow> bool" where
  "leak_inv G threshold ret st \<longleftrightarrow> snap_ok G (lk_snap st) \<and> s_retained (lk_snap st) = ret \<and>
     (\<forall>ls \<in> set (lk_found st). sint threshold \<le> sint (ls_RetainedBytes ls) \<and> PathToRoot ls \<noteq> None) \<and>
     (\<forall>(c, grp) \<in> set (lk_groups st). \<exists>d. gr_largest grp = int d \<and> 0 < d \<and> d < length (pre_vertex G))"

lemma leakChild_returns:
  assumes I: "leak_inv G th ret st" and d: "0 < d" "d < length (pre_vertex G)"
  shows "returns (leakChild th (int d) st) (leak_inv G th ret)"
proof -
  let ?s = "lk_snap st"
  have s: "snap_ok G ?s" and ret: "s_retained ?s = ret" using I by (auto simp: leak_inv_def)
  obtain v c where o: "idx (s_vertex ?s) (int d) = (Inr v :: (herr, int) go)"
    "idx (cls (Graph ?s)) v = (Inr c :: (herr, int) go)"
    "idx (s_retained ?s) (int d) = (Inr (s_retained ?s ! d) :: (herr, i64) go)"
    using object_lookups [OF s d] by blast
  show ?thesis
  proof (cases "sint (s_retained ?s ! d) \<ge> sint th")
    case True
    obtain s' ls where "objectSuspect ?s (int d) = Inr (s', ls)" "snap_ok G s'" "\<exists>g. s' = ?s \<lparr> Graph := g \<rparr>"
      "ls_RetainedBytes ls = s_retained ?s ! d" "PathToRoot ls \<noteq> None"
      using objectSuspect_returns [OF s d] by (auto elim!: returnsE)
    then show ?thesis using True I ret by (auto simp: leakChild_def o leak_inv_def)
  next
    case False
    show ?thesis
    proof (cases "map_of (classObjOf (Graph ?s)) v = None")
      case True
      let ?g0 = "case map_of (lk_groups st) c of Some grp \<Rightarrow> grp
        | None \<Rightarrow> \<lparr> gr_count = 0, gr_retained = 0, gr_largest = int d \<rparr>"
      have "\<exists>e. gr_largest ?g0 = int e \<and> 0 < e \<and> e < length (pre_vertex G)"
        using I d by (auto simp: leak_inv_def split: option.splits dest!: map_of_SomeD)
      then obtain e where e: "gr_largest ?g0 = int e" "0 < e" "e < length (pre_vertex G)" by blast
      have "idx (s_retained ?s) (int e) = (Inr (s_retained ?s ! e) :: (herr, i64) go)"
        using object_lookups [OF s e(2,3)] by blast
      then obtain grp where grp: "groupAdd ?s (int d) ?g0 = Inr grp" "gr_largest grp = int d \<or> gr_largest grp = int e"
        by (simp add: groupAdd_def o e(1))
      let ?ok = "\<lambda>(c :: int, grp). \<exists>d. gr_largest grp = int d \<and> 0 < d \<and> d < length (pre_vertex G)"
      have "\<forall>kg \<in> set (lk_groups st). ?ok kg" using I by (simp add: leak_inv_def)
      moreover have "?ok (c, grp)" using grp(2) d e by auto
      ultimately have "\<forall>kg \<in> set (mput c grp (lk_groups st)). ?ok kg"
        using set_mput [of c grp "lk_groups st"] by blast
      moreover have "leakChild th (int d) st = Inr (st \<lparr> lk_groups := mput c grp (lk_groups st) \<rparr>)"
        using True False grp(1) by (simp add: leakChild_def Let_def o)
      ultimately show ?thesis using I by (simp add: leak_inv_def)
    next
      case False': False
      then show ?thesis using False I by (simp add: leakChild_def Let_def o)
    qed
  qed
qed

lemma leakGroup_returns:
  assumes I: "leak_inv G th ret st" and k: "kg \<in> set gs"
    and gs: "\<forall>(c, grp) \<in> set gs. \<exists>d. gr_largest grp = int d \<and> 0 < d \<and> d < length (pre_vertex G)"
  shows "returns (leakGroup th kg st) (leak_inv G th ret)"
proof -
  let ?s = "lk_snap st"
  have s: "snap_ok G ?s" using I by (simp add: leak_inv_def)
  obtain d where d: "gr_largest (snd kg) = int d" "0 < d" "d < length (pre_vertex G)" using gs k by fastforce
  obtain s' ls where "classSuspect ?s (snd kg) = Inr (s', ls)" "snap_ok G s'" "\<exists>g. s' = ?s \<lparr> Graph := g \<rparr>"
    "ls_RetainedBytes ls = gr_retained (snd kg)" "PathToRoot ls \<noteq> None"
    using classSuspect_returns [OF s d(2,3,1)] by (auto elim!: returnsE)
  then show ?thesis using I by (auto simp: leakGroup_def Let_def leak_inv_def)
qed

interpretation by_suspect: comparator suspect_less
proof
  show "\<not> suspect_less y x" if "suspect_less x y" for x y
    using that by (auto simp: suspect_less_def split: if_splits)
  show "\<not> suspect_less x z" if "\<not> suspect_less x y" "\<not> suspect_less y z" for x y z
    using that by (auto simp: suspect_less_def sint_eq_iff split: if_splits)
qed

lemma snap_ok_computed: "snapshot_ok G s \<Longrightarrow> predCSR (graph_of G) = None \<Longrightarrow> snap_ok G s"
proof -
  assume s: "snapshot_ok G s" and n: "predCSR (graph_of G) = None"
  then have g: "Graph s = graph_of G" by (simp add: snapshot_ok_def)
  have "graph_of G = graph_of G \<lparr> predCSR := predCSR (graph_of G) \<rparr>" by simp
  then have "\<exists>c. graph_of G = graph_of G \<lparr> predCSR := c \<rparr>" by (rule exI)
  moreover have "snapshot_ok G (s \<lparr> Graph := graph_of G \<rparr>)" using s by (simp add: snapshot_ok_def)
  ultimately show ?thesis using s g n by (simp add: snap_ok_def cache_ok_def)
qed

theorem LeakSuspects_spec:
  fixes opts :: LeakOptions
  assumes "wf_graph g" and "predCSR g = None"
  defines "mx \<equiv> if lo_MaxSuspects opts \<le> 0 then 10 else lo_MaxSuspects opts"
  shows "returns (gbind (ComputeRetained g) (\<lambda>s. LeakSuspects oob s opts)) (\<lambda>(s, rep).
    int (length (lr_Suspects rep)) \<le> mx \<and>
    sorted_wrt (\<lambda>x y. sint (ls_RetainedBytes y) \<le> sint (ls_RetainedBytes x)) (lr_Suspects rep) \<and>
    (\<forall>ls \<in> set (lr_Suspects rep).
       sint (leakThreshold oob (ReachableBytes s) (lr_ThresholdPercent rep)) \<le> sint (ls_RetainedBytes ls) \<and>
       PathToRoot ls \<noteq> None))"
proof -
  obtain G s where g: "g = graph_of G" and s: "ComputeRetained g = Inr s" "snapshot_ok G s"
    by (rule ComputeRetained_obtain [OF assms(1)])
  have sn: "snap_ok G s" using snap_ok_computed [OF s(2)] assms(2) g by simp
  let ?pc = "if f_le (lo_ThresholdPercent opts) (Fin 0) then DefaultLeakThresholdPercent else lo_ThresholdPercent opts"
  let ?th = "leakThreshold oob (ReachableBytes s) ?pc" and ?ret = "s_retained s"
  show ?thesis
  proof (cases "sint (ReachableBytes s) \<le> 0")
    case True
    then show ?thesis by (simp add: s LeakSuspects_def Let_def mx_def)
  next
    case False
    have m: "0 < length (pre_vertex G)" by (rule heap_dfs.m_pos)
    let ?ks = "heap_dfs.kids_of G 0"
    have "leak_inv G ?th ?ret \<lparr> lk_snap = s, lk_found = [], lk_groups = [] \<rparr>" using sn by (simp add: leak_inv_def)
    then have "returns (gfold (leakChild ?th) (map int ?ks) \<lparr> lk_snap = s, lk_found = [], lk_groups = [] \<rparr>)
        (leak_inv G ?th ?ret)"
    proof (rule returns_gfold [where I = "\<lambda>_. leak_inv G ?th ?ret"])
      fix pre c post st assume split: "map int ?ks = pre @ c # post" and I: "leak_inv G ?th ?ret st"
      have "c \<in> set (map int ?ks)" unfolding split by simp
      then obtain d where "c = int d" "0 < d" "d < length (pre_vertex G)" using kids_facts [of _ G 0] by auto
      then show "returns (leakChild ?th c st) (leak_inv G ?th ?ret)" using leakChild_returns [OF I] by simp
    qed
    then obtain st where st: "gfold (leakChild ?th) (map int ?ks) \<lparr> lk_snap = s, lk_found = [], lk_groups = [] \<rparr> = Inr st"
      and I: "leak_inv G ?th ?ret st" by (auto elim: returnsE)
    have gs: "\<forall>(c, grp) \<in> set (lk_groups st). \<exists>d. gr_largest grp = int d \<and> 0 < d \<and> d < length (pre_vertex G)"
      using I by (simp add: leak_inv_def)
    have "returns (gfold (leakGroup ?th) (lk_groups st) st) (leak_inv G ?th ?ret)"
    proof (rule returns_gfold [where I = "\<lambda>_. leak_inv G ?th ?ret"])
      fix pre kg post st' assume split: "lk_groups st = pre @ kg # post" and I': "leak_inv G ?th ?ret st'"
      have "kg \<in> set (lk_groups st)" unfolding split by simp
      from leakGroup_returns [OF I' this gs] show "returns (leakGroup ?th kg st') (leak_inv G ?th ?ret)" .
    qed (rule I)
    then obtain st' where st': "gfold (leakGroup ?th) (lk_groups st) st = Inr st'"
      and I': "leak_inv G ?th ?ret st'" by (auto elim: returnsE)
    let ?out = "sort_slice suspect_less (lk_found st')"
    let ?res = "if int (length ?out) > mx then take (nat mx) ?out else ?out"
    have rb: "ReachableBytes (lk_snap st') = ReachableBytes s"
    proof -
      have "snapshot_ok G (lk_snap st' \<lparr> Graph := graph_of G \<rparr>)" using I' by (simp add: leak_inv_def snap_ok_def)
      then have "ReachableBytes (lk_snap st') = s_retained (lk_snap st') ! 0" by (simp add: snapshot_ok_def)
      also have "\<dots> = s_retained s ! 0" using I' by (simp add: leak_inv_def)
      finally show ?thesis using s(2) by (simp add: snapshot_ok_def)
    qed
    have run: "LeakSuspects oob s opts = Inr (lk_snap st',
        \<lparr> lr_TotalShallowBytes = TotalShallowBytes s, lr_ReachableObjects = ReachableObjects s,
          lr_ReachableBytes = ReachableBytes s, lr_ThresholdPercent = ?pc, lr_Suspects = ?res \<rparr>)"
      using False childrenOf_eq [OF sn m] st st' by (simp add: LeakSuspects_def Let_def mx_def defaultMaxLeakSuspects_def)
    have "sorted_wrt (\<lambda>x y. sint (ls_RetainedBytes y) \<le> sint (ls_RetainedBytes x)) ?out"
      using by_suspect.sorted_sort_slice [of "lk_found st'"]
      by (rule sorted_wrt_mono_rel [rotated]) (auto simp: suspect_less_def split: if_splits)
    then have "sorted_wrt (\<lambda>x y. sint (ls_RetainedBytes y) \<le> sint (ls_RetainedBytes x)) ?res"
      by (simp add: sorted_wrt_take)
    moreover have "int (length ?res) \<le> mx" by (simp add: mx_def)
    moreover have "set ?res \<subseteq> set (lk_found st')" using set_take_subset [of "nat mx" ?out] by auto
    moreover have "\<forall>ls \<in> set (lk_found st'). sint ?th \<le> sint (ls_RetainedBytes ls) \<and> PathToRoot ls \<noteq> None"
      using I' by (simp add: leak_inv_def)
    ultimately show ?thesis by (simp add: s run rb subset_iff)
  qed
qed

end
