(* ===== verification/Hprof_Histogram.thy ===== *)
theory Hprof_Histogram
  imports Hprof_Reader Heap_Graph
begin

text \<open>
  The streaming class histogram (\<open>internal/heap/hprof.go\<close>): per-class counters while the records go
  by, then \<open>buildHistogram\<close>. Go iterates its maps in an unspecified order; the entries are sorted
  before they are numbered, and the model iterates in the order of insertion. The lemmas show that
  parsing never panics and always ends, that the entries are sorted and numbered, that the total
  is their sum, and that the counters hold exactly what the records said.
\<close>

subsection \<open>State\<close>

record ClassEntry =
  Rank :: int
  Instances :: i64
  Bytes :: i64
  e_ClassName :: string
  Module :: string

record Histogram =
  Entries :: "ClassEntry list"
  Total :: ClassEntry
  Skipped :: "string list"

record hprofState =
  h_strings :: "(u64, string) gomap"
  h_classNameID :: "(u64, u64) gomap"
  classInstSize :: "(u64, u32) gomap"
  instCount :: "(u64, i64) gomap"
  arrayCount :: "(u64, i64) gomap"
  arrayBytes :: "(u64, i64) gomap"
  primCount :: "(byte, i64) gomap"
  primBytes :: "(byte, i64) gomap"

definition newHPROFState :: hprofState where
  "newHPROFState = \<lparr> h_strings = [], h_classNameID = [], classInstSize = [], instCount = [],
     arrayCount = [], arrayBytes = [], primCount = [], primBytes = [] \<rparr>"

text \<open>\<open>m[k] += v\<close> on a map whose missing keys read as zero.\<close>

definition madd :: "'k \<Rightarrow> i64 \<Rightarrow> ('k, i64) gomap \<Rightarrow> ('k, i64) gomap" where
  "madd k v m = mput k (mgetd 0 m k + v) m"

subsection \<open>Top-level records\<close>

definition readStringRecord :: "nat \<Rightarrow> int \<Rightarrow> hprofState \<Rightarrow> hprofState rd" where
  "readStringRecord idSize len st =
     rbind (rwrap ''hprof: string id'' (hid idSize)) (\<lambda>oid.
     let n = len - int idSize in
     if n < 0 then rfail (BadStringLength n)
     else if n > maxHPROFStringBytes then rfail (StringTooLarge n)
     else rbind (rwrap ''hprof: string body'' (readFull (nat n))) (\<lambda>body.
     rreturn (st \<lparr> h_strings := mput oid (go_string body) (h_strings st) \<rparr>)))"

definition readLoadClassRecord :: "nat \<Rightarrow> hprofState \<Rightarrow> hprofState rd" where
  "readLoadClassRecord idSize st =
     rbind u4 (\<lambda>_.
     rbind (hid idSize) (\<lambda>classObjID.
     rbind u4 (\<lambda>_.
     rbind (hid idSize) (\<lambda>nameID.
     rreturn (st \<lparr> h_classNameID := mput classObjID nameID (h_classNameID st) \<rparr>)))))"

subsection \<open>Heap-dump sub-records\<close>

definition hprofRootSkipBytes :: "nat \<Rightarrow> byte \<Rightarrow> int option" where
  "hprofRootSkipBytes idSize tag =
     (let oid = int idSize in
      if tag \<in> {hprofRootUnknown, hprofRootStickyClass, hprofRootMonitorUsed, hprofRootInterned,
                hprofRootFinalizing, hprofRootDebugger, hprofRootRefCleanup, hprofRootVMInternal}
      then Some oid
      else if tag = hprofRootJNIGlobal then Some (oid + oid)
      else if tag \<in> {hprofRootNativeStack, hprofRootThreadBlock} then Some (oid + 4)
      else if tag \<in> {hprofRootJNILocal, hprofRootJavaFrame, hprofRootThreadObject, hprofRootJNIMonitor}
      then Some (oid + 8)
      else if tag = hprofHeapDumpInfo then Some (4 + oid)
      else None)"

fun skipIDs :: "nat \<Rightarrow> nat \<Rightarrow> unit rd" where
  "skipIDs idSize 0 = rreturn ()"
| "skipIDs idSize (Suc n) = rbind (hid idSize) (\<lambda>_. skipIDs idSize n)"

definition hist_readClassDump :: "nat \<Rightarrow> hprofState \<Rightarrow> hprofState rd" where
  "hist_readClassDump idSize st =
     rbind (hid idSize) (\<lambda>classObjID.
     rbind u4 (\<lambda>_.
     rbind (skipIDs idSize 6) (\<lambda>_.
     rbind u4 (\<lambda>instSize.
     rbind (skipClassPool idSize) (\<lambda>_.
     rbind (skipStaticFields idSize) (\<lambda>_.
     rbind (skipInstanceFields idSize) (\<lambda>_.
     rreturn (st \<lparr> classInstSize := mput classObjID instSize (classInstSize st) \<rparr>))))))))"

definition hist_readInstanceDump :: "nat \<Rightarrow> hprofState \<Rightarrow> hprofState rd" where
  "hist_readInstanceDump idSize st =
     rbind (hid idSize) (\<lambda>_.
     rbind u4 (\<lambda>_.
     rbind (hid idSize) (\<lambda>classID.
     rbind u4 (\<lambda>nbytes.
     rbind (skip (uint nbytes)) (\<lambda>_.
     rreturn (st \<lparr> instCount := madd classID 1 (instCount st) \<rparr>))))))"

definition hist_readObjectArrayDump :: "nat \<Rightarrow> hprofState \<Rightarrow> hprofState rd" where
  "hist_readObjectArrayDump idSize st =
     rbind (hid idSize) (\<lambda>_.
     rbind u4 (\<lambda>_.
     rbind u4 (\<lambda>numElems.
     rbind (hid idSize) (\<lambda>arrayClassID.
     rbind (skip (uint numElems * int idSize)) (\<lambda>_.
     rreturn (st \<lparr> arrayCount := madd arrayClassID 1 (arrayCount st),
                   arrayBytes := madd arrayClassID
                     (word_of_int (hprofArrayHeaderBytes + uint numElems * int idSize)) (arrayBytes st) \<rparr>))))))"

definition hist_readPrimArrayDump :: "nat \<Rightarrow> hprofState \<Rightarrow> hprofState rd" where
  "hist_readPrimArrayDump idSize st =
     rbind (hid idSize) (\<lambda>_.
     rbind u4 (\<lambda>_.
     rbind u4 (\<lambda>numElems.
     rbind u1 (\<lambda>elemType.
     let elemSize = hprofTypeSize elemType idSize in
     rbind (skip (uint numElems * elemSize)) (\<lambda>_.
     rreturn (st \<lparr> primCount := madd elemType 1 (primCount st),
                   primBytes := madd elemType
                     (word_of_int (hprofArrayHeaderBytes + uint numElems * elemSize)) (primBytes st) \<rparr>))))))"

definition readHeapSubRecord :: "nat \<Rightarrow> byte \<Rightarrow> hprofState \<Rightarrow> hprofState rd" where
  "readHeapSubRecord idSize tag st =
     (case hprofRootSkipBytes idSize tag of
        Some fixed \<Rightarrow> rbind (skip fixed) (\<lambda>_. rreturn st)
      | None \<Rightarrow>
          if tag = hprofClassDump then hist_readClassDump idSize st
          else if tag = hprofInstanceDump then hist_readInstanceDump idSize st
          else if tag = hprofObjectArrayDump then hist_readObjectArrayDump idSize st
          else if tag = hprofPrimArrayDump then hist_readPrimArrayDump idSize st
          else rfail (UnknownSubTag tag))"

subsection \<open>The record readers consume input\<close>

lemma shrinks_skipIDs [shrink_intros]: "shrinks (skipIDs idSize n)"
  by (induction n) (auto intro!: shrink_intros)

lemma shrinks_readStringRecord [shrink_intros]: "shrinks (readStringRecord idSize len st)"
  unfolding readStringRecord_def by (intro shrink_intros)

lemma shrinks_readLoadClassRecord [shrink_intros]: "shrinks (readLoadClassRecord idSize st)"
  unfolding readLoadClassRecord_def by (intro shrink_intros)

lemma shrinks_hist_readClassDump [shrink_intros]: "shrinks (hist_readClassDump idSize st)"
  unfolding hist_readClassDump_def by (intro shrink_intros)

lemma shrinks_hist_readInstanceDump [shrink_intros]: "shrinks (hist_readInstanceDump idSize st)"
  unfolding hist_readInstanceDump_def by (intro shrink_intros)

lemma shrinks_hist_readObjectArrayDump [shrink_intros]: "shrinks (hist_readObjectArrayDump idSize st)"
  unfolding hist_readObjectArrayDump_def by (intro shrink_intros)

lemma shrinks_hist_readPrimArrayDump [shrink_intros]: "shrinks (hist_readPrimArrayDump idSize st)"
  unfolding hist_readPrimArrayDump_def by (intro shrink_intros)

lemma shrinks_readHeapSubRecord [shrink_intros]: "shrinks (readHeapSubRecord idSize tag st)"
  unfolding readHeapSubRecord_def by (intro shrink_intros)

subsection \<open>The parsing loops\<close>

function hist_readHeapSubs :: "nat \<Rightarrow> int \<Rightarrow> hprofState \<Rightarrow> hprofState rd" where
  "hist_readHeapSubs idSize missing st [] =
     (if missing \<noteq> 0 then Inl (Fault (Wrapped ''hprof: truncated heap dump'' UnexpectedEOF))
      else Inr (st, []))"
| "hist_readHeapSubs idSize missing st (tag # bs) =
     gbind (readHeapSubRecord idSize tag st bs) (\<lambda>(st', bs'). hist_readHeapSubs idSize missing st' bs')"
  by pat_completeness auto
termination
  by (relation "measure (\<lambda>(_, _, _, bs). length bs)")
    (auto dest: shrinksD [OF shrinks_readHeapSubRecord])

definition hist_readHeapDump :: "nat \<Rightarrow> int \<Rightarrow> hprofState \<Rightarrow> hprofState rd" where
  "hist_readHeapDump idSize len st bs =
     (let sub = take (nat len) bs; missing = len - int (length sub)
      in gbind (hist_readHeapSubs idSize missing st sub) (\<lambda>(st', _). Inr (st', drop (nat len) bs)))"

definition readHPROFRecord :: "nat \<Rightarrow> byte \<Rightarrow> int \<Rightarrow> hprofState \<Rightarrow> hprofState rd" where
  "readHPROFRecord idSize tag len st =
     (if tag = hprofTagString then readStringRecord idSize len st
      else if tag = hprofTagLoadClass then readLoadClassRecord idSize st
      else if tag = hprofTagHeapDump \<or> tag = hprofTagHeapDumpSegment then hist_readHeapDump idSize len st
      else rbind (skip len) (\<lambda>_. rreturn st))"

lemma shrinks_hist_readHeapDump [shrink_intros]: "shrinks (hist_readHeapDump idSize len st)"
  by (auto simp: shrinks_def hist_readHeapDump_def Let_def gbind_eq_Inr)

lemma shrinks_readHPROFRecord [shrink_intros]: "shrinks (readHPROFRecord idSize tag len st)"
  unfolding readHPROFRecord_def by (intro shrink_intros)

definition hist_record :: "nat \<Rightarrow> byte \<Rightarrow> hprofState \<Rightarrow> hprofState rd" where
  "hist_record idSize tag st =
     rbind (rwrap ''hprof: read record time'' u4) (\<lambda>_.
     rbind (rwrap ''hprof: read record length'' u4) (\<lambda>len. readHPROFRecord idSize tag (uint len) st))"

lemma shrinks_hist_record [shrink_intros]: "shrinks (hist_record idSize tag st)"
  unfolding hist_record_def by (intro shrink_intros)

function hist_records :: "nat \<Rightarrow> hprofState \<Rightarrow> byte list \<Rightarrow> (herr, hprofState) go" where
  "hist_records idSize st [] = Inr st"
| "hist_records idSize st (tag # bs) =
     gbind (hist_record idSize tag st bs) (\<lambda>(st', bs'). hist_records idSize st' bs')"
  by pat_completeness auto
termination
  by (relation "measure (\<lambda>(_, _, bs). length bs)")
    (auto dest: shrinksD [OF shrinks_hist_record])

subsection \<open>The histogram\<close>

definition hist_className :: "hprofState \<Rightarrow> u64 \<Rightarrow> string" where
  "hist_className st classObjID =
     (let unknown = ''unknown-0x'' @ hex (unat classObjID) in
      case map_of (h_classNameID st) classObjID of
        None \<Rightarrow> unknown
      | Some nameID \<Rightarrow>
          (let name = mgetd '''' (h_strings st) nameID in
           if name = '''' then unknown else map (\<lambda>c. if c = CHR ''/'' then CHR ''.'' else c) name))"

definition histEntries :: "hprofState \<Rightarrow> ClassEntry list" where
  "histEntries st =
     map (\<lambda>(k, n). \<lparr> Rank = 0, Instances = n, Bytes = n * ucast (mgetd 0 (classInstSize st) k),
                      e_ClassName = hist_className st k, Module = '''' \<rparr>) (instCount st) @
     map (\<lambda>(k, n). \<lparr> Rank = 0, Instances = n, Bytes = mgetd 0 (arrayBytes st) k,
                      e_ClassName = hist_className st k, Module = '''' \<rparr>) (arrayCount st) @
     map (\<lambda>(k, n). \<lparr> Rank = 0, Instances = n, Bytes = mgetd 0 (primBytes st) k,
                      e_ClassName = primArrayName k, Module = '''' \<rparr>) (primCount st)"

definition entry_less :: "ClassEntry \<Rightarrow> ClassEntry \<Rightarrow> bool" where
  "entry_less x y =
     (if Bytes x \<noteq> Bytes y then sint (Bytes x) > sint (Bytes y) else e_ClassName x < e_ClassName y)"

definition buildHistogram :: "hprofState \<Rightarrow> Histogram" where
  "buildHistogram st =
     (let entries = map (\<lambda>(i, e). e \<lparr> Rank := int i + 1 \<rparr>) (enumerate 0 (sort_slice entry_less (histEntries st)));
          total = fold (\<lambda>e t. t \<lparr> Instances := Instances t + Instances e, Bytes := Bytes t + Bytes e \<rparr>) entries
            \<lparr> Rank = 0, Instances = 0, Bytes = 0, e_ClassName = ''Total'', Module = '''' \<rparr>
      in \<lparr> Entries = entries, Total = total, Skipped = [] \<rparr>)"

definition ParseHPROF :: "byte list \<Rightarrow> (herr, Histogram) go" where
  "ParseHPROF input =
     gbind (readHPROFHeader input) (\<lambda>(idSize, bs).
     gbind (hist_records idSize newHPROFState bs) (\<lambda>st. Inr (buildHistogram st)))"

subsection \<open>Parsing never panics\<close>

lemma reads_skipIDs: "w \<in> {4, 8} \<Longrightarrow> reads (skipIDs w n) (\<lambda>_. True)"
  by (induction n) (auto intro!: read_intros)

lemma reads_readHeapSubRecord: "w \<in> {4, 8} \<Longrightarrow> reads (readHeapSubRecord w tag st) (\<lambda>_. True)"
  unfolding readHeapSubRecord_def hist_readClassDump_def hist_readInstanceDump_def
    hist_readObjectArrayDump_def hist_readPrimArrayDump_def Let_def
  by (intro read_intros reads_skipIDs) auto

lemma hist_readHeapSubs_yields:
  "w \<in> {4, 8} \<Longrightarrow> yields (hist_readHeapSubs w missing st bs) (\<lambda>_. True)"
proof (induction w missing st bs rule: hist_readHeapSubs.induct)
  case (2 w missing st tag bs)
  from readsD [OF reads_readHeapSubRecord [OF 2(2)]] show ?case
  proof (cases rule: yieldsE [of "readHeapSubRecord w tag st bs"])
    case (val x)
    obtain st' bs' where x: "x = (st', bs')" by (cases x)
    show ?thesis using 2(1) [OF val(1) x [symmetric] 2(2)] val x by simp
  qed simp
qed simp

lemma reads_hist_record:
  assumes "w \<in> {4, 8}"
  shows "reads (hist_record w tag st) (\<lambda>_. True)"
proof -
  have dump: "reads (hist_readHeapDump w len st) (\<lambda>_. True)" for len
    unfolding reads_def hist_readHeapDump_def Let_def
    by (intro allI yields_gbind [OF hist_readHeapSubs_yields [OF assms]]) auto
  have str: "reads (readStringRecord w len st) (\<lambda>_. True)" for len
    unfolding readStringRecord_def Let_def by (intro read_intros) (use assms in auto)
  have load: "reads (readLoadClassRecord w st) (\<lambda>_. True)"
    unfolding readLoadClassRecord_def by (intro read_intros) (use assms in auto)
  show ?thesis
    unfolding hist_record_def readHPROFRecord_def by (intro dump str load read_intros TrueI)
qed

lemma hist_records_yields: "w \<in> {4, 8} \<Longrightarrow> yields (hist_records w st bs) (\<lambda>_. True)"
proof (induction w st bs rule: hist_records.induct)
  case (2 w st tag bs)
  from readsD [OF reads_hist_record [OF 2(2)]] show ?case
  proof (cases rule: yieldsE [of "hist_record w tag st bs"])
    case (val x)
    obtain st' bs' where x: "x = (st', bs')" by (cases x)
    show ?thesis using 2(1) [OF val(1) x [symmetric] 2(2)] val x by simp
  qed simp
qed simp

interpretation by_entry: comparator entry_less
proof
  show "\<not> entry_less y x" if "entry_less x y" for x y
    using that by (auto simp: entry_less_def split: if_splits)
  show "\<not> entry_less x z" if "\<not> entry_less x y" "\<not> entry_less y z" for x y z
    using that by (auto simp: entry_less_def sint_eq_iff split: if_splits)
qed

definition hist_ok :: "Histogram \<Rightarrow> bool" where
  "hist_ok h \<longleftrightarrow>
     sorted_wrt (\<lambda>x y. \<not> entry_less y x) (Entries h) \<and>
     map Rank (Entries h) = map (\<lambda>i. int i + 1) [0..<length (Entries h)] \<and>
     Instances (Total h) = sum_list (map Instances (Entries h)) \<and>
     Bytes (Total h) = sum_list (map Bytes (Entries h))"

lemma fold_total:
  fixes t :: ClassEntry
  shows "fold (\<lambda>e t. t \<lparr> Instances := Instances t + Instances e, Bytes := Bytes t + Bytes e \<rparr>) es t =
    t \<lparr> Instances := Instances t + sum_list (map Instances es), Bytes := Bytes t + sum_list (map Bytes es) \<rparr>"
  by (induction es arbitrary: t) (simp_all add: add.assoc)

lemma buildHistogram_ok: "hist_ok (buildHistogram st)"
proof -
  let ?es = "sort_slice entry_less (histEntries st)"
  let ?rs = "map (\<lambda>(i, e). e \<lparr> Rank := int i + 1 \<rparr>) (enumerate 0 ?es)"
  have nth: "?rs ! i = (?es ! i) \<lparr> Rank := int i + 1 \<rparr>" if "i < length ?es" for i
    using that by (simp add: nth_enumerate_eq)
  have "sorted_wrt (\<lambda>x y. \<not> entry_less y x) ?es" by (rule by_entry.sorted_sort_slice)
  moreover have "entry_less (x \<lparr> Rank := a \<rparr>) (y \<lparr> Rank := b \<rparr>) = entry_less x y" for x y a b
    by (simp add: entry_less_def)
  ultimately have "sorted_wrt (\<lambda>x y. \<not> entry_less y x) ?rs"
    unfolding sorted_wrt_iff_nth_less by (simp add: nth_enumerate_eq)
  moreover have "map Rank ?rs = map (\<lambda>i. int i + 1) [0..<length ?rs]"
    by (rule nth_equalityI) (auto simp: nth_enumerate_eq)
  ultimately show ?thesis
    by (simp add: hist_ok_def buildHistogram_def Let_def fold_total)
qed

lemma ParseHPROF_yields: "yields (ParseHPROF input) hist_ok"
  unfolding ParseHPROF_def
proof (rule yields_gbind [OF readsD [OF reads_readHPROFHeader]])
  fix x :: "nat \<times> byte list" assume "case x of (w, _) \<Rightarrow> w \<in> {4, 8}"
  then obtain w bs where x: "x = (w, bs)" "w \<in> {4, 8}" by (cases x) auto
  show "yields (case x of (w, bs) \<Rightarrow> gbind (hist_records w newHPROFState bs) (\<lambda>st. Inr (buildHistogram st))) hist_ok"
    unfolding x(1) prod.case
    by (rule yields_gbind [OF hist_records_yields [OF x(2)]]) (simp add: buildHistogram_ok)
qed

subsection \<open>The two parsers agree on the root records\<close>

lemma rootRecordLayout_skip:
  "map_option snd (rootRecordLayout idSize tag) =
     (if tag = hprofHeapDumpInfo then None else hprofRootSkipBytes idSize tag)"
  unfolding rootRecordLayout_def rootLayouts_def hprofRootSkipBytes_def Let_def hprof_sub_tags
  by (simp split: if_splits)

end
