(* ===== verification/Heap_Parse.thy ===== *)
theory Heap_Parse
  imports Heap_Graph
begin

text \<open>
  \<open>ParseObjectGraph\<close> of \<open>internal/heap/graph.go\<close>: the streaming parser that turns an HPROF dump
  into the object graph. The state is the source's \<open>graphState\<close> without \<open>scratch\<close>, a buffer reused
  between records whose contents are copied into the builder before the next use, and without
  \<open>segLeft\<close>, which is computed from the number of bytes the dump lacks (\<open>missing\<close>) and the bytes
  left in the segment. The lemmas show that the parser terminates on every input, never panics, and
  returns a well-formed graph.
\<close>

subsection \<open>State\<close>

definition maxInstanceFieldBytes :: u32 where
  "maxInstanceFieldBytes = 16 * 2 ^ 20"

record classLayout =
  superID :: u64
  fieldTypes :: "byte list"
  instSize :: u32

record pendingInstance =
  parseIdx :: int
  pend_classID :: u64
  pend_fields :: "byte list"

record graphState =
  gs_idSize :: nat
  strings :: "(u64, string) gomap"
  classNameID :: "(u64, u64) gomap"
  layouts :: "(u64, classLayout) gomap"
  pending :: "pendingInstance list"
  bld :: graphBuilder
  classClass :: int

definition newGraphState :: "nat \<Rightarrow> graphState" where
  "newGraphState idSize =
     (let (cc, b) = classFor \<lparr> key_classID = 0, key_primType = 0 \<rparr> javaLangClass (newGraphBuilder idSize)
      in \<lparr> gs_idSize = idSize, strings = [], classNameID = [], layouts = [], pending = [],
           bld = b, classClass = cc \<rparr>)"

subsection \<open>Walking an instance's fields\<close>

definition readID :: "byte list \<Rightarrow> nat \<Rightarrow> (herr, u64) go" where
  "readID b idSize =
     (if idSize = 4 then gbind (slice b 0 4) (\<lambda>x. Inr (ucast (be32 x)))
      else gbind (slice b 0 8) (\<lambda>x. Inr (be64 x)))"

text \<open>
  The inner loop of \<open>instanceRefs\<close>: the first component of the result is set when the field data
  ends before the declared fields do.
\<close>

fun fieldRefs ::
  "nat \<Rightarrow> byte list \<Rightarrow> byte list \<Rightarrow> int \<Rightarrow> u64 list \<Rightarrow> (herr, bool \<times> int \<times> u64 list) go" where
  "fieldRefs idSize fdata [] offset out = Inr (False, offset, out)"
| "fieldRefs idSize fdata (typ # typs) offset out =
     (let size = hprofTypeSize typ idSize in
      if offset + size > int (length fdata) then Inr (True, offset, out)
      else gbind
        (if typ = hprofTypeObject
         then gbind (slice fdata offset (offset + size)) (\<lambda>b.
              gbind (readID b idSize) (\<lambda>r. Inr (out @ [r])))
         else Inr out)
        (\<lambda>out'. fieldRefs idSize fdata typs (offset + size) out'))"

function superRefs ::
  "graphState \<Rightarrow> byte list \<Rightarrow> nat \<Rightarrow> u64 \<Rightarrow> int \<Rightarrow> u64 list \<Rightarrow> (herr, u64 list \<times> bool) go" where
  "superRefs st fdata depth c offset out =
     (if c = 0 then Inr (out, True)
      else if depth > length (layouts st) then Inr (out, True)
      else case map_of (layouts st) c of
             None \<Rightarrow> Inr (out, False)
           | Some layout \<Rightarrow>
               gbind (fieldRefs (gs_idSize st) fdata (fieldTypes layout) offset out)
                 (\<lambda>(short, offset', out').
                    if short then Inr (out', True)
                    else superRefs st fdata (Suc depth) (superID layout) offset' out'))"
  by pat_completeness auto
termination
  by (relation "measure (\<lambda>(st, _, depth, _, _, _). Suc (length (layouts st)) - depth)") auto

declare superRefs.simps [simp del]

definition instanceRefs ::
  "graphState \<Rightarrow> u64 \<Rightarrow> byte list \<Rightarrow> u64 list \<Rightarrow> (herr, u64 list \<times> bool) go" where
  "instanceRefs st classID fdata out = superRefs st fdata 0 classID 0 (out @ [classID])"

subsection \<open>Top-level records\<close>

definition readString :: "int \<Rightarrow> graphState \<Rightarrow> graphState rd" where
  "readString len st =
     rbind (rwrap ''hprof: string id'' (hid (gs_idSize st))) (\<lambda>oid.
     let n = len - int (gs_idSize st) in
     if n < 0 \<or> n > maxHPROFStringBytes then rfail (BadStringLength n)
     else rbind (rwrap ''hprof: string body'' (readFull (nat n))) (\<lambda>body.
     rreturn (st \<lparr> strings := mput oid (go_string body) (strings st) \<rparr>)))"

definition readLoadClass :: "graphState \<Rightarrow> graphState rd" where
  "readLoadClass st =
     rbind u4 (\<lambda>_.
     rbind (hid (gs_idSize st)) (\<lambda>classObjID.
     rbind u4 (\<lambda>_.
     rbind (hid (gs_idSize st)) (\<lambda>nameID.
     rreturn (st \<lparr> classNameID := mput classObjID nameID (classNameID st) \<rparr>)))))"

subsection \<open>Heap-dump sub-records\<close>

fun readIDs :: "nat \<Rightarrow> nat \<Rightarrow> u64 list rd" where
  "readIDs idSize 0 = rreturn []"
| "readIDs idSize (Suc n) =
     rbind (hid idSize) (\<lambda>r. rbind (readIDs idSize n) (\<lambda>rs. rreturn (r # rs)))"

fun readStaticRefsLoop :: "nat \<Rightarrow> nat \<Rightarrow> u64 list \<Rightarrow> u64 list rd" where
  "readStaticRefsLoop idSize 0 refs = rreturn refs"
| "readStaticRefsLoop idSize (Suc n) refs =
     rbind (hid idSize) (\<lambda>_.
     rbind u1 (\<lambda>typ.
     if typ \<noteq> hprofTypeObject
     then rbind (skip (hprofTypeSize typ idSize)) (\<lambda>_. readStaticRefsLoop idSize n refs)
     else rbind (hid idSize) (\<lambda>ref. readStaticRefsLoop idSize n (refs @ [ref]))))"

definition readStaticRefs :: "nat \<Rightarrow> u64 list \<Rightarrow> u64 list rd" where
  "readStaticRefs idSize refs = rbind u2 (\<lambda>count. readStaticRefsLoop idSize (unat count) refs)"

fun readInstanceFieldTypesLoop :: "nat \<Rightarrow> nat \<Rightarrow> byte list \<Rightarrow> byte list rd" where
  "readInstanceFieldTypesLoop idSize 0 types = rreturn types"
| "readInstanceFieldTypesLoop idSize (Suc n) types =
     rbind (hid idSize) (\<lambda>_.
     rbind u1 (\<lambda>typ. readInstanceFieldTypesLoop idSize n (types @ [typ])))"

definition readInstanceFieldTypes :: "nat \<Rightarrow> byte list rd" where
  "readInstanceFieldTypes idSize =
     rbind u2 (\<lambda>count. readInstanceFieldTypesLoop idSize (unat count) [])"

definition readClassDump :: "limits \<Rightarrow> graphState \<Rightarrow> graphState rd" where
  "readClassDump L st =
     (let w = gs_idSize st in
      rbind (hid w) (\<lambda>classObjID.
      rbind u4 (\<lambda>_.
      rbind (readIDs w 6) (\<lambda>hdr.
      rbind u4 (\<lambda>isz.
      rbind (skipClassPool w) (\<lambda>_.
      rbind (readStaticRefs w [hdr ! 0, hdr ! 1]) (\<lambda>refs.
      rbind (readInstanceFieldTypes w) (\<lambda>types.
      let st1 = st \<lparr> layouts := mput classObjID
                       \<lparr> superID = hdr ! 0, fieldTypes = types, instSize = isz \<rparr> (layouts st) \<rparr>;
          (_, b) = classFor \<lparr> key_classID = classObjID, key_primType = 0 \<rparr> '''' (bld st1)
      in rbind (rlift (addObject L classObjID (classClass st1) 0 refs b)) (\<lambda>(_, b').
         rreturn (st1 \<lparr> bld := b' \<rparr>))))))))))"

definition readInstanceDump :: "limits \<Rightarrow> int \<Rightarrow> graphState \<Rightarrow> graphState rd" where
  "readInstanceDump L missing st =
     (let w = gs_idSize st in
      rbind (hid w) (\<lambda>objID.
      rbind u4 (\<lambda>_.
      rbind (hid w) (\<lambda>classID.
      rbind u4 (\<lambda>nbytes.
      rbind rleft (\<lambda>left.
      let segLeft = missing + int left in
      (if nbytes > maxInstanceFieldBytes \<or> uint nbytes > segLeft
       then rfail (InstanceTooLarge objID nbytes)
       else rbind (readFull (unat nbytes)) (\<lambda>fdata.
         let (c, b) = classFor \<lparr> key_classID = classID, key_primType = 0 \<rparr> '''' (bld st);
             buffer = rbind (rlift (addObject L objID c (ucast nbytes) [] b)) (\<lambda>(p, b').
               rreturn (st \<lparr> bld := b',
                 pending := pending st @
                   [\<lparr> parseIdx = p, pend_classID = classID, pend_fields = fdata \<rparr>] \<rparr>))
         in case map_of (layouts st) classID of
              None \<Rightarrow> buffer
            | Some layout \<Rightarrow>
                rbind (rlift (instanceRefs st classID fdata [])) (\<lambda>(refs, complete).
                if complete
                then rbind (rlift (addObject L objID c (ucast (instSize layout)) refs b)) (\<lambda>(_, b').
                     rreturn (st \<lparr> bld := b' \<rparr>))
                else buffer)))))))))"

definition readObjectArray :: "limits \<Rightarrow> graphState \<Rightarrow> graphState rd" where
  "readObjectArray L st =
     (let w = gs_idSize st in
      rbind (hid w) (\<lambda>objID.
      rbind u4 (\<lambda>_.
      rbind u4 (\<lambda>numElems.
      rbind (hid w) (\<lambda>arrayClassID.
      rbind (readIDs w (unat numElems)) (\<lambda>refs.
      let (c, b) = classFor \<lparr> key_classID = arrayClassID, key_primType = 0 \<rparr> '''' (bld st);
          sh = of_int (hprofArrayHeaderBytes + uint numElems * int w)
      in rbind (rlift (addObject L objID c sh refs b)) (\<lambda>(_, b').
         rreturn (st \<lparr> bld := b' \<rparr>))))))))"

definition readPrimArray :: "limits \<Rightarrow> graphState \<Rightarrow> graphState rd" where
  "readPrimArray L st =
     (let w = gs_idSize st in
      rbind (hid w) (\<lambda>objID.
      rbind u4 (\<lambda>_.
      rbind u4 (\<lambda>numElems.
      rbind u1 (\<lambda>elemType.
      let elemSize = hprofTypeSize elemType w;
          (c, b) = classFor \<lparr> key_classID = 0, key_primType = elemType \<rparr> (primArrayName elemType) (bld st)
      in rbind (rlift (addObject L objID c (of_int (hprofArrayHeaderBytes + uint numElems * elemSize)) [] b))
           (\<lambda>(_, b').
         rbind (skip (uint numElems * elemSize)) (\<lambda>_.
         rreturn (st \<lparr> bld := b' \<rparr>))))))))"

definition readRoot :: "RootKind \<Rightarrow> int \<Rightarrow> graphState \<Rightarrow> graphState rd" where
  "readRoot kind totalBytes st =
     rbind (hid (gs_idSize st)) (\<lambda>objID.
     let rest = totalBytes - int (gs_idSize st) in
     rbind (if hasThreadSerial kind then rbind u4 (\<lambda>serial. rreturn (serial, rest - 4))
            else rreturn (0, rest)) (\<lambda>(serial, rest').
     let b = bld st;
         b1 = (if kind = RootThreadObject \<and> objID \<noteq> 0
               then b \<lparr> threadBySerial := mput serial objID (threadBySerial b) \<rparr> else b);
         b2 = (if objID \<noteq> 0
               then b1 \<lparr> b_roots := b_roots b1 @
                      [\<lparr> root_id = objID, root_kind = kind, threadSerial = serial \<rparr>] \<rparr>
               else b1)
     in rbind (skip rest') (\<lambda>_. rreturn (st \<lparr> bld := b2 \<rparr>))))"

definition readHeapSub :: "limits \<Rightarrow> int \<Rightarrow> byte \<Rightarrow> graphState \<Rightarrow> graphState rd" where
  "readHeapSub L missing tag st =
     (case rootRecordLayout (gs_idSize st) tag of
        Some (kind, n) \<Rightarrow> readRoot kind n st
      | None \<Rightarrow>
          if tag = hprofClassDump then readClassDump L st
          else if tag = hprofInstanceDump then readInstanceDump L missing st
          else if tag = hprofObjectArrayDump then readObjectArray L st
          else if tag = hprofPrimArrayDump then readPrimArray L st
          else if tag = hprofHeapDumpInfo
          then rbind (skip (4 + int (gs_idSize st))) (\<lambda>_. rreturn st)
          else rfail (UnknownSubTag tag))"

subsection \<open>Every reader consumes its input\<close>

lemma shrinks_readIDs [shrink_intros]: "shrinks (readIDs w n)"
  by (induction n) (auto intro!: shrink_intros)

lemma shrinks_readStaticRefsLoop [shrink_intros]: "shrinks (readStaticRefsLoop w n refs)"
  by (induction n arbitrary: refs) (auto intro!: shrink_intros)

lemma shrinks_readInstanceFieldTypesLoop [shrink_intros]:
  "shrinks (readInstanceFieldTypesLoop w n types)"
  by (induction n arbitrary: types) (auto intro!: shrink_intros)

lemma shrinks_readStaticRefs [shrink_intros]: "shrinks (readStaticRefs w refs)"
  unfolding readStaticRefs_def by (intro shrink_intros)

lemma shrinks_readInstanceFieldTypes [shrink_intros]: "shrinks (readInstanceFieldTypes w)"
  unfolding readInstanceFieldTypes_def by (intro shrink_intros)

lemma shrinks_readString [shrink_intros]: "shrinks (readString len st)"
  unfolding readString_def by (intro shrink_intros)

lemma shrinks_readLoadClass [shrink_intros]: "shrinks (readLoadClass st)"
  unfolding readLoadClass_def by (intro shrink_intros)

lemma shrinks_readClassDump [shrink_intros]: "shrinks (readClassDump L st)"
  unfolding readClassDump_def Let_def by (intro shrink_intros)

lemma shrinks_readInstanceDump [shrink_intros]: "shrinks (readInstanceDump L missing st)"
  unfolding readInstanceDump_def Let_def by (intro shrink_intros)

lemma shrinks_readObjectArray [shrink_intros]: "shrinks (readObjectArray L st)"
  unfolding readObjectArray_def Let_def by (intro shrink_intros)

lemma shrinks_readPrimArray [shrink_intros]: "shrinks (readPrimArray L st)"
  unfolding readPrimArray_def Let_def by (intro shrink_intros)

lemma shrinks_readRoot [shrink_intros]: "shrinks (readRoot kind n st)"
  unfolding readRoot_def Let_def by (intro shrink_intros)

lemma shrinks_readHeapSub [shrink_intros]: "shrinks (readHeapSub L missing tag st)"
  unfolding readHeapSub_def by (intro shrink_intros)

subsection \<open>The parsing loops\<close>

definition errTruncated :: herr where
  "errTruncated = Wrapped ''hprof: truncated heap dump'' UnexpectedEOF"

text \<open>The builder's sticky size-limit error, checked after every record.\<close>

definition checkErr :: "graphState \<Rightarrow> (herr, graphState) go" where
  "checkErr st = (case b_err (bld st) of Some e \<Rightarrow> Inl (Fault e) | None \<Rightarrow> Inr st)"

function readHeapSubs :: "limits \<Rightarrow> int \<Rightarrow> graphState \<Rightarrow> graphState rd" where
  "readHeapSubs L missing st [] =
     (if missing \<noteq> 0 then Inl (Fault errTruncated) else Inr (st, []))"
| "readHeapSubs L missing st (tag # bs) =
     gbind (readHeapSub L missing tag st bs) (\<lambda>(st', bs').
     gbind (checkErr st') (\<lambda>st''. readHeapSubs L missing st'' bs'))"
  by pat_completeness auto
termination
  by (relation "measure (\<lambda>(_, _, _, bs). length bs)")
    (auto dest: shrinksD [OF shrinks_readHeapSub])

text \<open>\<open>readHeapDump\<close> runs over at most \<open>len\<close> bytes; the dump ends early when \<open>missing\<close> is positive.\<close>

definition readHeapDump :: "limits \<Rightarrow> int \<Rightarrow> graphState \<Rightarrow> graphState rd" where
  "readHeapDump L len st bs =
     (let sub = take (nat len) bs; missing = len - int (length sub)
      in gbind (readHeapSubs L missing st sub) (\<lambda>(st', _). Inr (st', drop (nat len) bs)))"

definition readRecord :: "limits \<Rightarrow> byte \<Rightarrow> int \<Rightarrow> graphState \<Rightarrow> graphState rd" where
  "readRecord L tag len st =
     (if tag = hprofTagString then readString len st
      else if tag = hprofTagLoadClass then readLoadClass st
      else if tag = hprofTagHeapDump \<or> tag = hprofTagHeapDumpSegment then readHeapDump L len st
      else rbind (skip len) (\<lambda>_. rreturn st))"

lemma shrinks_readHeapDump [shrink_intros]: "shrinks (readHeapDump L len st)"
  by (auto simp: shrinks_def readHeapDump_def Let_def gbind_eq_Inr)

lemma shrinks_readRecord [shrink_intros]: "shrinks (readRecord L tag len st)"
  unfolding readRecord_def by (intro shrink_intros)

text \<open>One record after its tag: time stamp, length, body, then the error check.\<close>

definition parseRecord :: "limits \<Rightarrow> byte \<Rightarrow> graphState \<Rightarrow> graphState rd" where
  "parseRecord L tag st =
     rbind (rwrap ''hprof: read record time'' u4) (\<lambda>_.
     rbind (rwrap ''hprof: read record length'' u4) (\<lambda>len.
     rbind (readRecord L tag (uint len) st) (\<lambda>st'. rlift (checkErr st'))))"

lemma shrinks_parseRecord [shrink_intros]: "shrinks (parseRecord L tag st)"
  unfolding parseRecord_def by (intro shrink_intros)

function parseRecords :: "limits \<Rightarrow> graphState \<Rightarrow> byte list \<Rightarrow> (herr, graphState) go" where
  "parseRecords L st [] = Inr st"
| "parseRecords L st (tag # bs) =
     gbind (parseRecord L tag st bs) (\<lambda>(st', bs'). parseRecords L st' bs')"
  by pat_completeness auto
termination
  by (relation "measure (\<lambda>(_, _, bs). length bs)")
    (auto dest: shrinksD [OF shrinks_parseRecord])

subsection \<open>Finishing the graph\<close>

definition className :: "graphState \<Rightarrow> classKey \<Rightarrow> string" where
  "className st k =
     (let unknown = ''unknown-0x'' @ hex (unat (key_classID k)) in
      case map_of (classNameID st) (key_classID k) of
        None \<Rightarrow> unknown
      | Some nameID \<Rightarrow>
          (case map_of (strings st) nameID of
             Some s \<Rightarrow> if s \<noteq> '''' then map (\<lambda>c. if c = CHR ''/'' then CHR ''.'' else c) s else unknown
           | None \<Rightarrow> unknown))"

definition resolvePending ::
  "limits \<Rightarrow> graphState \<Rightarrow> pendingInstance \<Rightarrow> graphBuilder \<Rightarrow> (herr, graphBuilder) go" where
  "resolvePending L st inst b =
     (case map_of (layouts st) (pend_classID inst) of
        None \<Rightarrow> Inr b
      | Some layout \<Rightarrow>
          gbind (upd (b_shallow b) (parseIdx inst) (ucast (instSize layout))) (\<lambda>sh.
          gbind (instanceRefs st (pend_classID inst) (pend_fields inst) []) (\<lambda>(refs, _).
          appendRefs L (parseIdx inst) refs (b \<lparr> b_shallow := sh \<rparr>))))"

definition finalize :: "limits \<Rightarrow> graphState \<Rightarrow> (herr, ObjectGraph) go" where
  "finalize L st =
     gbind (gfold (resolvePending L st) (pending st) (bld st)) (\<lambda>b.
     gbind (build (className st) b) (\<lambda>g.
     Inr (g \<lparr> Unresolved := Unresolved g +
               length (filter (\<lambda>inst. map_of (layouts st) (pend_classID inst) = None) (pending st)) \<rparr>)))"

definition ParseObjectGraph :: "limits \<Rightarrow> byte list \<Rightarrow> (herr, ObjectGraph) go" where
  "ParseObjectGraph L input =
     gbind (readHPROFHeader input) (\<lambda>(idSize, bs).
     gbind (parseRecords L (newGraphState idSize) bs) (\<lambda>st. finalize L st))"

subsection \<open>The parser never panics\<close>

definition wf_state :: "limits \<Rightarrow> graphState \<Rightarrow> bool" where
  "wf_state L st \<longleftrightarrow>
     wf_builder L (bld st) \<and> gs_idSize st \<in> {4, 8} \<and>
     0 \<le> classClass st \<and> nat (classClass st) < length (classKeys (bld st)) \<and>
     (\<forall>inst \<in> set (pending st). parseIdx inst < int (length (b_ids (bld st))) \<and>
        (b_err (bld st) = None \<longrightarrow> 0 \<le> parseIdx inst))"

lemma hprofTypeSize_nonneg [simp]: "0 \<le> hprofTypeSize typ idSize"
  by (simp add: hprofTypeSize_def)

lemma fieldRefs_spec:
  assumes "idSize \<in> {4, 8}" and "0 \<le> offset"
  shows "returns (fieldRefs idSize fdata typs offset out) (\<lambda>(_, offset', _). 0 \<le> offset')"
  using assms(2)
proof (induction typs arbitrary: offset out)
  case Nil
  then show ?case by simp
next
  case (Cons ty tys)
  have "0 \<le> offset + hprofTypeSize ty idSize" using Cons.prems by simp
  note IH = Cons.IH [OF this]
  show ?case
  proof (cases "offset + hprofTypeSize ty idSize > int (length fdata)")
    case False
    show ?thesis
    proof (cases "ty = hprofTypeObject")
      case True
      then have size: "hprofTypeSize ty idSize = int idSize" by (simp add: hprofTypeSize_def)
      have "\<exists>r. readID (take idSize (drop (nat offset) fdata)) idSize = Inr r"
        using assms(1) False size Cons.prems by (auto simp: readID_def)
      then obtain r where "readID (take idSize (drop (nat offset) fdata)) idSize = Inr r" by blast
      then show ?thesis
        using IH [of "out @ [r]"] False True size Cons.prems by (simp add: Let_def)
    qed (use IH False in \<open>simp add: Let_def\<close>)
  qed (use Cons.prems in \<open>simp add: Let_def\<close>)
qed

lemma superRefs_returns:
  "gs_idSize st \<in> {4, 8} \<Longrightarrow> 0 \<le> offset \<Longrightarrow>
     returns (superRefs st fdata depth c offset out) (\<lambda>_. True)"
proof (induction st fdata depth c offset out rule: superRefs.induct)
  case (1 st fdata depth c offset out)
  show ?case
  proof (cases "c = 0 \<or> depth > length (layouts st)")
    case True
    then show ?thesis by (subst superRefs.simps) auto
  next
    case False
    show ?thesis
    proof (cases "map_of (layouts st) c")
      case None
      with False show ?thesis by (subst superRefs.simps) simp
    next
      case (Some layout)
      obtain short offset' out' where
        f: "fieldRefs (gs_idSize st) fdata (fieldTypes layout) offset out = Inr (short, offset', out')"
        and o: "0 \<le> offset'"
        using fieldRefs_spec [OF 1(2,3), of fdata "fieldTypes layout" out] by (auto elim!: returnsE)
      show ?thesis
      proof (cases short)
        case True
        with False Some f show ?thesis by (subst superRefs.simps) simp
      next
        case short: False
        have "returns (superRefs st fdata (Suc depth) (superID layout) offset' out') (\<lambda>_. True)"
          using 1(1) [OF _ _ Some f refl refl] False short 1(2) o by simp
        with False Some f short show ?thesis by (subst superRefs.simps) simp
      qed
    qed
  qed
qed

lemma instanceRefs_returns:
  "gs_idSize st \<in> {4, 8} \<Longrightarrow> returns (instanceRefs st classID fdata out) (\<lambda>_. True)"
  unfolding instanceRefs_def by (rule superRefs_returns) auto

lemma reads_readIDs: "w \<in> {4, 8} \<Longrightarrow> reads (readIDs w n) (\<lambda>_. True)"
  by (induction n) (auto intro!: read_intros)

lemma reads_readStaticRefsLoop:
  "w \<in> {4, 8} \<Longrightarrow> reads (readStaticRefsLoop w n refs) (\<lambda>_. True)"
  by (induction n arbitrary: refs) (auto intro!: read_intros)

lemma reads_readStaticRefs [read_intros]:
  "w \<in> {4, 8} \<Longrightarrow> reads (readStaticRefs w refs) (\<lambda>_. True)"
  unfolding readStaticRefs_def by (intro read_intros reads_readStaticRefsLoop)

lemma reads_readInstanceFieldTypesLoop:
  "w \<in> {4, 8} \<Longrightarrow> reads (readInstanceFieldTypesLoop w n types) (\<lambda>_. True)"
  by (induction n arbitrary: types) (auto intro!: read_intros)

lemma reads_readInstanceFieldTypes [read_intros]:
  "w \<in> {4, 8} \<Longrightarrow> reads (readInstanceFieldTypes w) (\<lambda>_. True)"
  unfolding readInstanceFieldTypes_def by (intro read_intros reads_readInstanceFieldTypesLoop)

text \<open>Registering a class and adding an object of it, as the three dump records do.\<close>

lemma wf_state_add:
  assumes "wf_state L st" and "classFor k nm (bld st) = (c, b)" and "cl = c \<or> cl = classClass st"
  shows "returns (addObject L oid cl sh refs b)
    (\<lambda>(p, b'). wf_state L (st \<lparr> bld := b' \<rparr>) \<and> p < int (length (b_ids b')) \<and>
               (b_err b' = None \<longrightarrow> 0 \<le> p))"
proof -
  have b: "wf_builder L b \<and> 0 \<le> c \<and> nat c < length (classKeys b) \<and> b_ids b = b_ids (bld st) \<and>
      b_err b = b_err (bld st)"
    using wf_classFor [OF _ assms(2), of L] assms(1) by (simp add: wf_state_def)
  have "length (classKeys (bld st)) \<le> length (classKeys b)"
    using assms(2) by (auto simp: classFor_def Let_def split: option.splits)
  then have keys: "nat (classClass st) < length (classKeys b)" "0 \<le> classClass st"
    using assms(1) by (auto simp: wf_state_def)
  then have "0 \<le> cl" "nat cl < length (classKeys b)" using b assms(3) by auto
  from addObject_spec [OF conjunct1 [OF b] this, of oid sh refs] show ?thesis
    using assms(1) b keys by (elim returns_mono) (auto simp: wf_state_def)
qed

lemma reads_add:
  assumes "wf_state L st"
    and "\<And>p b'. wf_state L (st \<lparr> bld := b' \<rparr>) \<Longrightarrow> p < int (length (b_ids b')) \<Longrightarrow>
           (b_err b' = None \<longrightarrow> 0 \<le> p) \<Longrightarrow> reads (f p b') R"
    and "classFor k nm (bld st) = (c, b)" and "cl = c \<or> cl = classClass st"
  shows "reads (rbind (rlift (addObject L oid cl sh refs b)) (\<lambda>(p, b'). f p b')) R"
  by (rule reads_rbind [OF reads_rlift [OF returns_yields [OF wf_state_add [OF assms(1,3,4)]]]])
    (auto intro: assms(2))

lemma wf_state_layouts [simp]: "wf_state L (st \<lparr> layouts := m \<rparr>) = wf_state L st"
  by (simp add: wf_state_def)

lemma wf_state_layouts_bld [simp]:
  "wf_state L (st \<lparr> layouts := m, bld := b \<rparr>) = wf_state L (st \<lparr> bld := b \<rparr>)"
  by (simp add: wf_state_def)

lemma reads_readString: "wf_state L st \<Longrightarrow> reads (readString len st) (wf_state L)"
  unfolding readString_def Let_def by (intro read_intros) (auto simp: wf_state_def)

lemma reads_readLoadClass: "wf_state L st \<Longrightarrow> reads (readLoadClass st) (wf_state L)"
  unfolding readLoadClass_def by (intro read_intros) (auto simp: wf_state_def)

lemma reads_readClassDump:
  assumes "wf_state L st"
  shows "reads (readClassDump L st) (wf_state L)"
proof -
  have w: "gs_idSize st \<in> {4, 8}" using assms by (simp add: wf_state_def)
  show ?thesis
    unfolding readClassDump_def Let_def
    by (intro reads_add [OF assms] read_intros w reads_readIDs) (auto simp: assms)
qed

lemma reads_readObjectArray:
  assumes "wf_state L st"
  shows "reads (readObjectArray L st) (wf_state L)"
proof -
  have w: "gs_idSize st \<in> {4, 8}" using assms by (simp add: wf_state_def)
  show ?thesis
    unfolding readObjectArray_def Let_def
    by (intro reads_add [OF assms] read_intros w reads_readIDs) (auto simp: assms)
qed

lemma reads_readPrimArray:
  assumes "wf_state L st"
  shows "reads (readPrimArray L st) (wf_state L)"
proof -
  have w: "gs_idSize st \<in> {4, 8}" using assms by (simp add: wf_state_def)
  show ?thesis
    unfolding readPrimArray_def Let_def
    by (intro reads_add [OF assms] read_intros w) (auto simp: assms)
qed

lemma reads_readInstanceDump:
  assumes "wf_state L st"
  shows "reads (readInstanceDump L missing st) (wf_state L)"
proof -
  have w: "gs_idSize st \<in> {4, 8}" using assms by (simp add: wf_state_def)
  have refs: "yields (instanceRefs st classID fdata []) (\<lambda>_. True)" for classID fdata
    by (rule returns_yields [OF instanceRefs_returns [OF w]])
  show ?thesis
    unfolding readInstanceDump_def Let_def
    by (intro reads_add [OF assms] read_intros w refs) (auto simp: assms wf_state_def)
qed

lemma wf_builder_threads [simp]: "wf_builder L (b \<lparr> threadBySerial := m \<rparr>) = wf_builder L b"
  by (simp add: wf_builder_def wf_runs_def wf_classes_def)

lemma wf_builder_roots [simp]: "wf_builder L (b \<lparr> b_roots := rs \<rparr>) = wf_builder L b"
  by (simp add: wf_builder_def wf_runs_def wf_classes_def)

lemma reads_readRoot:
  assumes "wf_state L st"
  shows "reads (readRoot kind n st) (wf_state L)"
proof -
  have w: "gs_idSize st \<in> {4, 8}" using assms by (simp add: wf_state_def)
  show ?thesis
    unfolding readRoot_def Let_def
    by (intro read_intros w TrueI) (use assms in \<open>auto simp: wf_state_def\<close>)
qed

lemma reads_readHeapSub:
  "wf_state L st \<Longrightarrow> reads (readHeapSub L missing tag st) (wf_state L)"
  unfolding readHeapSub_def
  by (intro read_intros reads_readRoot reads_readClassDump reads_readInstanceDump
      reads_readObjectArray reads_readPrimArray) auto

lemma yields_checkErr: "wf_state L st \<Longrightarrow> yields (checkErr st) (\<lambda>st'. wf_state L st' \<and> b_err (bld st') = None)"
  by (simp add: checkErr_def split: option.split)

lemma checkErr_Inr: "checkErr st = Inr st' \<longleftrightarrow> st' = st \<and> b_err (bld st) = None"
  by (auto simp: checkErr_def split: option.splits)

lemma readHeapSubs_yields:
  "wf_state L st \<Longrightarrow> b_err (bld st) = None \<Longrightarrow>
   yields (readHeapSubs L missing st bs) (\<lambda>(st', _). wf_state L st' \<and> b_err (bld st') = None)"
proof (induction L missing st bs rule: readHeapSubs.induct)
  case (1 L missing st)
  then show ?case by simp
next
  case (2 L missing st tag bs)
  from readsD [OF reads_readHeapSub [OF 2(2)]]
  show ?case
  proof (cases rule: yieldsE [of "readHeapSub L missing tag st bs"])
    case (error e)
    then show ?thesis by simp
  next
    case (val x)
    obtain st' bs' where x: "x = (st', bs')" by (cases x)
    show ?thesis
    proof (cases "b_err (bld st')")
      case None
      then have c: "checkErr st' = Inr st'" by (simp add: checkErr_def)
      show ?thesis
        using 2(1) [OF val(1) x [symmetric] c] val x None c by simp
    next
      case (Some e)
      then show ?thesis using val x by (simp add: checkErr_def)
    qed
  qed
qed

lemma reads_readHeapDump:
  assumes "wf_state L st" and "b_err (bld st) = None"
  shows "reads (readHeapDump L len st) (wf_state L)"
  unfolding reads_def readHeapDump_def Let_def
proof
  fix bs
  show "yields (gbind (readHeapSubs L (len - int (length (take (nat len) bs))) st (take (nat len) bs))
      (\<lambda>(st', _). Inr (st', drop (nat len) bs))) (\<lambda>(x, _). wf_state L x)"
    by (rule yields_gbind [OF readHeapSubs_yields [OF assms]]) auto
qed

lemma reads_parseRecord:
  assumes "wf_state L st" and "b_err (bld st) = None"
  shows "reads (parseRecord L tag st) (\<lambda>st'. wf_state L st' \<and> b_err (bld st') = None)"
proof -
  have "reads (readRecord L tag len st) (wf_state L)" for len
    unfolding readRecord_def
    by (intro read_intros reads_readString reads_readLoadClass reads_readHeapDump) (auto simp: assms)
  then have body: "reads (rbind (readRecord L tag len st) (\<lambda>st'. rlift (checkErr st')))
      (\<lambda>st'. wf_state L st' \<and> b_err (bld st') = None)" for len
    by (rule reads_rbind) (intro read_intros yields_checkErr)
  show ?thesis unfolding parseRecord_def by (intro body read_intros)
qed

lemma parseRecords_yields:
  "wf_state L st \<Longrightarrow> b_err (bld st) = None \<Longrightarrow>
   yields (parseRecords L st bs) (\<lambda>st'. wf_state L st' \<and> b_err (bld st') = None)"
proof (induction L st bs rule: parseRecords.induct)
  case (1 L st)
  then show ?case by simp
next
  case (2 L st tag bs)
  from readsD [OF reads_parseRecord [OF 2(2,3)]]
  show ?case
  proof (cases rule: yieldsE [of "parseRecord L tag st bs"])
    case (error e)
    then show ?thesis by simp
  next
    case (val x)
    obtain st' bs' where x: "x = (st', bs')" by (cases x)
    show ?thesis using 2(1) [OF val(1) x [symmetric]] val x by simp
  qed
qed

lemma wf_newGraphState:
  assumes "idSize \<in> {4, 8}"
  shows "wf_state L (newGraphState idSize)" and "b_err (bld (newGraphState idSize)) = None"
proof -
  obtain cc b where cb: "classFor \<lparr> key_classID = 0, key_primType = 0 \<rparr> javaLangClass
      (newGraphBuilder idSize) = (cc, b)" by (metis surj_pair)
  moreover have "b_err (newGraphBuilder idSize) = None" by (simp add: newGraphBuilder_def)
  ultimately show "wf_state L (newGraphState idSize)" and "b_err (bld (newGraphState idSize)) = None"
    using wf_classFor [OF wf_newGraphBuilder cb, of L] assms
    by (auto simp: newGraphState_def wf_state_def)
qed

lemma resolvePending_returns:
  assumes "wf_state L st" and "b_err (bld st) = None" and "inst \<in> set (pending st)"
    and "wf_builder L b" and "length (b_ids b) = length (b_ids (bld st))"
  shows "returns (resolvePending L st inst b)
    (\<lambda>b'. wf_builder L b' \<and> length (b_ids b') = length (b_ids (bld st)))"
proof (cases "map_of (layouts st) (pend_classID inst)")
  case None
  then show ?thesis using assms by (simp add: resolvePending_def)
next
  case (Some layout)
  have p: "0 \<le> parseIdx inst" "parseIdx inst < int (length (b_ids b))"
    using assms by (auto simp: wf_state_def)
  have "length (b_shallow b) = length (b_ids b)" using assms(4) by (simp add: wf_builder_def)
  moreover obtain refs complete where
    "instanceRefs st (pend_classID inst) (pend_fields inst) [] = Inr (refs, complete)"
    using instanceRefs_returns [of st "pend_classID inst" "pend_fields inst" "[]"] assms(1)
    by (auto simp: wf_state_def elim!: returnsE)
  moreover have "wf_builder L (b \<lparr> b_shallow := (b_shallow b)[nat (parseIdx inst) := v] \<rparr>)" for v
    using assms(4) by (simp add: wf_builder_def wf_runs_def wf_classes_def)
  ultimately show ?thesis
    using appendRefs_spec [of L "b \<lparr> b_shallow :=
        (b_shallow b)[nat (parseIdx inst) := ucast (instSize layout)] \<rparr>" "parseIdx inst" refs]
      p Some assms(5)
    by (auto simp: resolvePending_def elim!: returns_mono)
qed

lemma finalize_returns:
  assumes "wf_state L st" and "b_err (bld st) = None"
  shows "returns (finalize L st) wf_graph"
proof -
  have "returns (gfold (resolvePending L st) (pending st) (bld st))
      (\<lambda>b. wf_builder L b \<and> length (b_ids b) = length (b_ids (bld st)))"
    by (rule returns_gfold [where I = "\<lambda>_ b. wf_builder L b \<and> length (b_ids b) = length (b_ids (bld st))"])
      (use assms resolvePending_returns [OF assms] in \<open>auto simp: wf_state_def\<close>)
  then obtain b where b: "gfold (resolvePending L st) (pending st) (bld st) = Inr b" "wf_builder L b"
    by (auto elim!: returnsE)
  moreover obtain g where "build (className st) b = Inr g" "wf_graph g"
    using build_spec [OF b(2)] by (auto elim!: returnsE)
  moreover have "wf_graph (g \<lparr> Unresolved := n \<rparr>) = wf_graph g" for n
    by (simp add: wf_graph_def Len_def)
  ultimately show ?thesis by (simp add: finalize_def)
qed

lemma ParseObjectGraph_yields: "yields (ParseObjectGraph L input) wf_graph"
  unfolding ParseObjectGraph_def
proof (rule yields_gbind [OF readsD [OF reads_readHPROFHeader]])
  fix r :: "nat \<times> byte list"
  assume "case r of (idSize, _) \<Rightarrow> idSize \<in> {4, 8}"
  then obtain idSize bs where r: "r = (idSize, bs)" "idSize \<in> {4, 8}" by (cases r) auto
  show "yields (case r of (idSize, bs) \<Rightarrow>
      gbind (parseRecords L (newGraphState idSize) bs) (\<lambda>st. finalize L st)) wf_graph"
    unfolding r prod.case
    by (rule yields_gbind [OF parseRecords_yields [OF wf_newGraphState [OF r(2)]]])
      (rule returns_yields, rule finalize_returns, auto)
qed

end
