(* ===== verification/Hprof_Agreement.thy ===== *)
theory Hprof_Agreement
  imports Hprof_Histogram Heap_Parse
begin

text \<open>
  The two HPROF parsers against each other: every dump the object-graph parser accepts is accepted
  by the histogram parser. Record by record, the histogram readers succeed wherever the graph
  readers do and leave the same bytes.
\<close>

subsection \<open>The histogram accepts every dump the graph parser accepts\<close>

text \<open>\<open>q\<close> succeeds wherever \<open>p\<close> does and leaves the same bytes.\<close>

definition follows :: "'a rd \<Rightarrow> 'b rd \<Rightarrow> bool" where
  "follows p q \<longleftrightarrow> (\<forall>bs x r. p bs = Inr (x, r) \<longrightarrow> (\<exists>y. q bs = Inr (y, r)))"

named_theorems follow_intros

lemma follows_return [follow_intros]: "follows (rreturn x) (rreturn y)"
  by (simp add: follows_def rreturn_def)

lemma follows_fail [follow_intros]: "follows (rfail e) q"
  by (simp add: follows_def rfail_def)

lemma follows_bind [follow_intros]:
  "(\<And>x. follows (f x) (g x)) \<Longrightarrow> follows (rbind p f) (rbind p g)"
  unfolding follows_def by (fastforce simp: go_simps)

lemma follows_bind2:
  "follows p q \<Longrightarrow> (\<And>x y. follows (f x) (g y)) \<Longrightarrow> follows (rbind p f) (rbind q g)"
  unfolding follows_def by (fastforce simp: go_simps)

lemma follows_then_return: "follows p q \<Longrightarrow> follows (rbind p (\<lambda>x. rreturn (f x))) q"
  unfolding follows_def by (auto simp: go_simps rreturn_def)

lemma follows_lift [follow_intros]: "(\<And>x. follows (f x) q) \<Longrightarrow> follows (rbind (rlift m) f) q"
  unfolding follows_def by (auto simp: go_simps rlift_def)

lemma follows_left [follow_intros]: "(\<And>x. follows (f x) q) \<Longrightarrow> follows (rbind rleft f) q"
  unfolding follows_def by (auto simp: go_simps rleft_def)

lemma follows_if [follow_intros]:
  "(c \<Longrightarrow> follows p q) \<Longrightarrow> (\<not> c \<Longrightarrow> follows p' q) \<Longrightarrow> follows (if c then p else p') q"
  by simp

lemma follows_prod [follow_intros]: "(\<And>x y. follows (f x y) q) \<Longrightarrow> follows (case z of (x, y) \<Rightarrow> f x y) q"
  by (cases z) simp

lemma follows_option [follow_intros]:
  "follows p q \<Longrightarrow> (\<And>x. follows (f x) q) \<Longrightarrow> follows (case z of None \<Rightarrow> p | Some x \<Rightarrow> f x) q"
  by (cases z) simp_all

lemma follows_refl: "follows p p"
  by (simp add: follows_def)

lemma follows_readFull_skip: "follows (readFull n) (skip (int n))"
  by (auto simp: follows_def readFull_def skip_def)

lemma hid_rest: "hid w bs = Inr (x, r) \<Longrightarrow> w \<le> length bs \<and> r = drop w bs"
  by (auto simp: hid_def go_simps readFull_def rreturn_def split: if_splits)

lemma follows_hid_skip: "follows (hid w) (skip (int w))"
  unfolding follows_def by (auto dest!: hid_rest simp: skip_def)

lemma follows_readIDs: "follows (readIDs w n) (skipIDs w n)"
  by (induction n) (auto intro!: follow_intros follows_then_return)

lemma readIDs_rest: "readIDs w n bs = Inr (x, r) \<Longrightarrow> n * w \<le> length bs \<and> r = drop (n * w) bs"
proof (induction n arbitrary: bs x r)
  case 0
  then show ?case by (simp add: rreturn_def)
next
  case (Suc n)
  then obtain y b1 ys where "hid w bs = Inr (y, b1)" "readIDs w n b1 = Inr (ys, r)"
    by (auto simp: go_simps rreturn_def)
  then show ?case using Suc.IH [of b1 ys r] hid_rest [of w bs y b1] by (auto simp: add.commute)
qed

lemma follows_readIDs_skip: "follows (readIDs w n) (skip (int n * int w))"
  unfolding follows_def
proof (intro allI impI)
  fix bs x r assume "readIDs w n bs = Inr (x, r)"
  from readIDs_rest [OF this] show "\<exists>y. skip (int n * int w) bs = Inr (y, r)"
    by (auto simp: skip_def simp flip: of_nat_mult)
qed

lemma follows_static: "follows (readStaticRefsLoop w n refs) (skipStaticEntries w n)"
proof (induction n arbitrary: refs)
  case (Suc n)
  have "follows (rbind (hid w) (\<lambda>ref. readStaticRefsLoop w n (refs @ [ref])))
      (rbind (skip (hprofTypeSize hprofTypeObject w)) (\<lambda>_. skipStaticEntries w n))"
    by (rule follows_bind2) (simp_all add: hprofTypeSize_def follows_hid_skip Suc)
  moreover have "follows (rbind (skip (hprofTypeSize t w)) (\<lambda>_. readStaticRefsLoop w n refs))
      (rbind (skip (hprofTypeSize t w)) (\<lambda>_. skipStaticEntries w n))" for t
    by (intro follow_intros Suc)
  ultimately show ?case using Suc by (auto intro!: follow_intros)
qed (simp add: follows_return)

lemma follows_fields: "follows (readInstanceFieldTypesLoop w n ts) (skipInstanceEntries w n)"
  by (induction n arbitrary: ts) (auto intro!: follow_intros)

lemma follows_classDump: "follows (readClassDump L st) (hist_readClassDump (gs_idSize st) hs)"
  unfolding readClassDump_def hist_readClassDump_def Let_def
    readStaticRefs_def skipStaticFields_def readInstanceFieldTypes_def skipInstanceFields_def
  by (intro follow_intros follows_bind2 [OF follows_readIDs] follows_bind2 [OF follows_bind]
      follows_static follows_fields)

lemma follows_objectArray: "follows (readObjectArray L st) (hist_readObjectArrayDump (gs_idSize st) hs)"
proof -
  have sk: "follows (readIDs w (unat n)) (skip (uint n * int w))" for w and n :: u32
    using follows_readIDs_skip [of w "unat n"] by simp
  show ?thesis
    unfolding readObjectArray_def hist_readObjectArrayDump_def Let_def
    by (intro follows_bind2 [OF sk] follow_intros)
qed

lemma follows_primArray: "follows (readPrimArray L st) (hist_readPrimArrayDump (gs_idSize st) hs)"
  unfolding readPrimArray_def hist_readPrimArrayDump_def Let_def
  by (intro follow_intros)

lemma follows_instance: "follows (readInstanceDump L missing st) (hist_readInstanceDump (gs_idSize st) hs)"
proof -
  have sk: "follows (readFull (unat n)) (skip (uint n))" for n :: u32
    using follows_readFull_skip [of "unat n"] by simp
  show ?thesis
    unfolding readInstanceDump_def hist_readInstanceDump_def Let_def
    by (intro follows_bind2 [OF sk] follow_intros)
qed

lemma skip_rest: "skip k bs = Inr (x, r) \<Longrightarrow> 0 \<le> k \<Longrightarrow> k \<le> int (length bs) \<and> r = drop (nat k) bs"
  by (auto simp: skip_def split: if_splits)

lemma readRoot_rest:
  assumes "readRoot kind n st bs = Inr (x, r)"
    and "int (gs_idSize st) + (if hasThreadSerial kind then 4 else 0) \<le> n"
  shows "n \<le> int (length bs) \<and> r = drop (nat n) bs"
proof -
  let ?w = "gs_idSize st"
  obtain oi b1 serial b2 rest where b1: "hid ?w bs = Inr (oi, b1)"
    and b2: "(if hasThreadSerial kind then rbind u4 (\<lambda>serial. rreturn (serial, n - int ?w - 4))
              else rreturn (0, n - int ?w)) b1 = Inr ((serial, rest), b2)"
    and sk: "skip rest b2 = Inr ((), r)"
    using assms(1) by (auto simp: readRoot_def go_simps Let_def rreturn_def split: prod.splits)
  have w: "?w \<le> length bs" "b1 = drop ?w bs" using hid_rest [OF b1] by auto
  show ?thesis
  proof (cases "hasThreadSerial kind")
    case True
    then have u: "4 \<le> length b1" "b2 = drop 4 b1" "rest = n - int ?w - 4"
      using b2 by (auto simp: go_simps rreturn_def u4_def readFull_def split: if_splits)
    then have "rest \<le> int (length b2) \<and> r = drop (nat rest) b2"
      using skip_rest [OF sk] assms(2) True by simp
    moreover have "nat n = nat rest + 4 + ?w" using u(3) assms(2) True by simp
    ultimately show ?thesis using u w by (auto simp: add.assoc)
  next
    case False
    then have u: "b2 = b1" "rest = n - int ?w" using b2 by (auto simp: rreturn_def)
    then have "rest \<le> int (length b2) \<and> r = drop (nat rest) b2"
      using skip_rest [OF sk] assms(2) False by simp
    moreover have "nat n = nat rest + ?w" using u(2) assms(2) False by simp
    ultimately show ?thesis using u w by (auto simp: add.assoc)
  qed
qed

lemma rootRecordLayout_serial:
  "rootRecordLayout w tag = Some (kind, n) \<Longrightarrow> int w + (if hasThreadSerial kind then 4 else 0) \<le> n"
  by (auto simp: rootRecordLayout_def rootLayouts_def split: if_splits)

lemma follows_root:
  assumes "rootRecordLayout (gs_idSize st) tag = Some (kind, n)"
  shows "follows (readRoot kind n st) (rbind (skip n) (\<lambda>_. rreturn hs))"
  unfolding follows_def
proof (intro allI impI)
  fix bs x r assume "readRoot kind n st bs = Inr (x, r)"
  from readRoot_rest [OF this rootRecordLayout_serial [OF assms]]
  show "\<exists>y. rbind (skip n) (\<lambda>_. rreturn hs) bs = Inr (y, r)"
    by (auto simp: go_simps skip_def rreturn_def)
qed

lemma follows_heapSub: "follows (readHeapSub L missing tag st) (readHeapSubRecord (gs_idSize st) tag hs)"
proof (cases "rootRecordLayout (gs_idSize st) tag")
  case (Some kn)
  obtain kind n where kn: "kn = (kind, n)" by (cases kn)
  have "hprofRootSkipBytes (gs_idSize st) tag = Some n"
    using rootRecordLayout_skip [of "gs_idSize st" tag] Some kn by (simp split: if_splits)
  then show ?thesis
    using follows_root [of st tag kind n] Some kn by (simp add: readHeapSub_def readHeapSubRecord_def)
next
  case None
  show ?thesis
  proof (cases "tag = hprofHeapDumpInfo")
    case True
    then have "hprofRootSkipBytes (gs_idSize st) tag = Some (4 + int (gs_idSize st))"
      by (simp add: hprofRootSkipBytes_def Let_def hprof_sub_tags)
    moreover have "tag \<notin> {hprofClassDump, hprofInstanceDump, hprofObjectArrayDump, hprofPrimArrayDump}"
      using True by (simp add: hprof_sub_tags)
    ultimately show ?thesis
      using True None by (auto simp: readHeapSub_def readHeapSubRecord_def intro!: follow_intros)
  next
    case False
    then have "hprofRootSkipBytes (gs_idSize st) tag = None"
      using rootRecordLayout_skip [of "gs_idSize st" tag] None by simp
    then show ?thesis
      using None False follows_classDump follows_instance follows_objectArray follows_primArray
      by (simp add: readHeapSub_def readHeapSubRecord_def follows_fail)
  qed
qed

text \<open>The identifier size never changes.\<close>

definition keeps_idSize :: "graphState \<Rightarrow> graphState rd \<Rightarrow> bool" where
  "keeps_idSize st p \<longleftrightarrow> (\<forall>bs st' r. p bs = Inr (st', r) \<longrightarrow> gs_idSize st' = gs_idSize st)"

lemma keeps_return: "gs_idSize st' = gs_idSize st \<Longrightarrow> keeps_idSize st (rreturn st')"
  by (simp add: keeps_idSize_def rreturn_def)

lemma keeps_fail: "keeps_idSize st (rfail e)"
  by (simp add: keeps_idSize_def rfail_def)

lemma keeps_bind: "(\<And>x. keeps_idSize st (f x)) \<Longrightarrow> keeps_idSize st (rbind p f)"
  unfolding keeps_idSize_def by (auto simp: go_simps)

lemma keeps_if: "keeps_idSize st p \<Longrightarrow> keeps_idSize st q \<Longrightarrow> keeps_idSize st (if c then p else q)"
  by simp

lemma keeps_prod: "(\<And>x y. keeps_idSize st (f x y)) \<Longrightarrow> keeps_idSize st (case z of (x, y) \<Rightarrow> f x y)"
  by (cases z) simp

lemma keeps_option:
  "keeps_idSize st p \<Longrightarrow> (\<And>x. keeps_idSize st (f x)) \<Longrightarrow> keeps_idSize st (case z of None \<Rightarrow> p | Some x \<Rightarrow> f x)"
  by (cases z) simp_all

lemmas keep_intros = keeps_return keeps_fail keeps_bind keeps_if keeps_prod keeps_option

lemma keeps_heapSub: "keeps_idSize st (readHeapSub L missing tag st)"
  unfolding readHeapSub_def readRoot_def readClassDump_def readInstanceDump_def readObjectArray_def
    readPrimArray_def Let_def
  by (intro keep_intros) simp_all

lemma follows_heapSubs:
  "readHeapSubs L missing st bs = Inr (st', r) \<Longrightarrow>
   gs_idSize st' = gs_idSize st \<and> (\<exists>hs'. hist_readHeapSubs (gs_idSize st) missing hs bs = Inr (hs', r))"
proof (induction L missing st bs arbitrary: hs rule: readHeapSubs.induct)
  case (1 L missing st)
  then show ?case by (auto split: if_splits)
next
  case (2 L missing st tag bs)
  obtain st1 b1 where s1: "readHeapSub L missing tag st bs = Inr (st1, b1)" "checkErr st1 = Inr st1"
    "readHeapSubs L missing st1 b1 = Inr (st', r)"
    using 2(2) by (auto simp: go_simps checkErr_Inr)
  have w: "gs_idSize st1 = gs_idSize st" using keeps_heapSub s1(1) unfolding keeps_idSize_def by blast
  obtain hs1 where h1: "readHeapSubRecord (gs_idSize st) tag hs bs = Inr (hs1, b1)"
    using follows_heapSub s1(1) unfolding follows_def by blast
  show ?case using 2(1) [OF s1(1) refl s1(2) s1(3)] w h1 by simp
qed

lemma follows_record:
  assumes "readRecord L tag len st bs = Inr (st', r)"
  shows "gs_idSize st' = gs_idSize st \<and> (\<exists>hs'. readHPROFRecord (gs_idSize st) tag len hs bs = Inr (hs', r))"
proof -
  have dump: "gs_idSize st' = gs_idSize st \<and> (\<exists>hs'. hist_readHeapDump (gs_idSize st) len hs bs = Inr (hs', r))"
    if d: "readHeapDump L len st bs = Inr (st', r)"
  proof -
    obtain r1 where r1: "readHeapSubs L (len - int (length (take (nat len) bs))) st (take (nat len) bs) = Inr (st', r1)"
      "r = drop (nat len) bs" using d by (auto simp: readHeapDump_def Let_def go_simps)
    from follows_heapSubs [OF r1(1), of hs] show ?thesis using r1(2) by (auto simp: hist_readHeapDump_def Let_def)
  qed
  have str: "follows (readString len st) (readStringRecord (gs_idSize st) len hs)"
    unfolding readString_def readStringRecord_def Let_def
    by (rule follows_bind) (auto intro!: follow_intros)
  have load: "follows (readLoadClass st) (readLoadClassRecord (gs_idSize st) hs)"
    unfolding readLoadClass_def readLoadClassRecord_def by (intro follow_intros)
  have keep: "keeps_idSize st (readString len st)" "keeps_idSize st (readLoadClass st)"
    "keeps_idSize st (rbind (skip len) (\<lambda>_. rreturn st))"
    unfolding readString_def readLoadClass_def Let_def by (intro keep_intros; simp)+
  have sk: "follows (rbind (skip len) (\<lambda>_. rreturn st)) (rbind (skip len) (\<lambda>_. rreturn hs))"
    by (intro follow_intros)
  have *: "gs_idSize st' = gs_idSize st \<and> (\<exists>hs'. q bs = Inr (hs', r))"
    if "follows p q" "keeps_idSize st p" "p bs = Inr (st', r)" for p and q :: "hprofState rd"
    using that unfolding follows_def keeps_idSize_def by blast
  consider "tag = hprofTagString" | "tag \<noteq> hprofTagString" "tag = hprofTagLoadClass"
    | "tag \<notin> {hprofTagString, hprofTagLoadClass}" "tag = hprofTagHeapDump \<or> tag = hprofTagHeapDumpSegment"
    | "tag \<notin> {hprofTagString, hprofTagLoadClass, hprofTagHeapDump, hprofTagHeapDumpSegment}" by blast
  then show ?thesis
  proof cases
    case 1
    with assms * [OF str keep(1)] show ?thesis by (simp add: readRecord_def readHPROFRecord_def)
  next
    case 2
    with assms * [OF load keep(2)] show ?thesis by (simp add: readRecord_def readHPROFRecord_def)
  next
    case 3
    with assms dump show ?thesis by (auto simp: readRecord_def readHPROFRecord_def)
  next
    case 4
    with assms * [OF sk keep(3)] show ?thesis by (simp add: readRecord_def readHPROFRecord_def)
  qed
qed

lemma follows_records:
  "parseRecords L st bs = Inr st' \<Longrightarrow> \<exists>hs'. hist_records (gs_idSize st) hs bs = Inr hs'"
proof (induction L st bs arbitrary: hs rule: parseRecords.induct)
  case (2 L st tag bs)
  obtain st1 b1 where s1: "parseRecord L tag st bs = Inr (st1, b1)" "parseRecords L st1 b1 = Inr st'"
    using 2(2) by (auto simp: go_simps)
  then obtain t1 ba t2 bb where t: "rwrap ''hprof: read record time'' u4 bs = Inr (t1, ba)"
    "rwrap ''hprof: read record length'' u4 ba = Inr (t2, bb)" "readRecord L tag (uint t2) st bb = Inr (st1, b1)"
    by (auto simp: parseRecord_def go_simps rlift_def checkErr_Inr)
  obtain hs1 where w: "gs_idSize st1 = gs_idSize st"
    and h1: "readHPROFRecord (gs_idSize st) tag (uint t2) hs bb = Inr (hs1, b1)"
    using follows_record [OF t(3), of hs] by blast
  have "hist_record (gs_idSize st) tag hs bs = Inr (hs1, b1)"
    using t h1 by (simp add: hist_record_def go_simps)
  then show ?case using 2(1) [OF s1(1) refl s1(2), of hs1] w by simp
qed simp

theorem histogram_accepts:
  assumes "ParseObjectGraph L input = Inr g"
  shows "\<exists>h. ParseHPROF input = Inr h"
proof -
  obtain w bs st where "readHPROFHeader input = Inr (w, bs)" "parseRecords L (newGraphState w) bs = Inr st"
    using assms by (auto simp: ParseObjectGraph_def go_simps)
  moreover have "gs_idSize (newGraphState w) = w"
    by (simp add: newGraphState_def Let_def split: prod.splits)
  ultimately show ?thesis
    using follows_records [of L "newGraphState w" bs st newHPROFState] by (auto simp: ParseHPROF_def)
qed

end
