(* ===== verification/Go_Time.thy ===== *)
theory Go_Time
  imports Go_Float
begin

text \<open>
  Package \<open>time\<close> as the sources use it. A \<open>time.Time\<close> is the number of nanoseconds since the zero
  time, so \<open>0\<close> is the zero value; a difference saturates at the range of \<open>time.Duration\<close>, as
  \<open>Time.Sub\<close> does. Signed 64-bit arithmetic that may overflow is written with \<open>wrap64\<close>.
\<close>

type_synonym time = int
type_synonym duration = int

definition t_sub :: "time \<Rightarrow> time \<Rightarrow> duration" where
  "t_sub a b = max (- (2 ^ 63)) (min (2 ^ 63 - 1) (a - b))"

definition Second :: duration where "Second = 1000000000"
definition Minute :: duration where "Minute = 60 * Second"

text \<open>\<open>Duration.Seconds\<close> adds the whole seconds and the remainder over \<open>1e9\<close> in \<open>float64\<close>.\<close>

definition d_seconds :: "duration \<Rightarrow> f64" where
  "d_seconds d =
     f_add (f_of_int (sgn d * (\<bar>d\<bar> div Second))) (f_div (f_of_int (sgn d * (\<bar>d\<bar> mod Second))) (f_of_int Second))"

definition wrap64 :: "int \<Rightarrow> int" where
  "wrap64 x = sint (word_of_int x :: i64)"

lemma wrap64_id: "- (2 ^ 63) \<le> x \<Longrightarrow> x < 2 ^ 63 \<Longrightarrow> wrap64 x = x"
  by (simp add: wrap64_def signed_of_int signed_take_bit_int_eq_self)

end
