(* ===== verification/Hostwatch_Spawn.thy ===== *)
theory Hostwatch_Spawn
  imports Go_Fmt Go_Time
begin

text \<open>
  The process-spawn tracker (\<open>internal/hostwatch/spawn.go\<close>): the change between two process
  listings, its conditions, and the attribution to parents and commands. The lemmas show what
  \<open>Delta\<close> counts and that the critical severity implies the warning one.
\<close>

subsection \<open>Data\<close>

record Condition =
  c_Key :: string
  c_Severity :: string
  c_Title :: string
  c_Detail :: string

record SpawnProcess =
  sp_PID :: int
  sp_PPID :: int
  sp_UID :: int
  sp_Comm :: string

record SpawnParent =
  par_PID :: int
  par_Comm :: string
  ChildCount :: int
  par_Argv :: string

record SpawnCommand =
  cmd_Comm :: string
  cmd_Count :: int

record SpawnState =
  ss_At :: time
  ProcsTotal :: int
  ProcsUID :: int
  ss_UID :: int
  UIDLimit :: int
  TotalLimit :: int
  Delta :: int
  NewPerSec :: f64
  TopParents :: "SpawnParent list"
  TopCommands :: "SpawnCommand list"

text \<open>The set \<open>previous\<close> is a list without repetitions; \<open>None\<close> is the nil map before the first probe.\<close>

record spawnTracker =
  previous :: "int list option"
  st_at :: time
  warnStreak :: int
  probes :: "SpawnState list"

record SpawnThresholds =
  RateWarn :: f64
  RateCritical :: f64
  UIDWarnPct :: f64
  UIDCriticalPct :: f64
  TotalWarnPct :: f64
  TotalCriticalPct :: f64

subsection \<open>One probe\<close>

definition countProcess ::
  "spawnTracker \<Rightarrow> int \<Rightarrow> SpawnProcess \<Rightarrow> int list \<times> SpawnState \<Rightarrow> int list \<times> SpawnState" where
  "countProcess t uid p cs =
     (let (current, s) = cs in
      if sp_PID p \<le> 0 then cs
      else (List.insert (sp_PID p) current,
            s \<lparr> ProcsUID := ProcsUID s + (if sp_UID p = uid then 1 else 0),
                Delta := Delta s + (case previous t of
                   None \<Rightarrow> 0 | Some pre \<Rightarrow> if sp_PID p \<in> set pre then 0 else 1) \<rparr>))"

definition spawn_update ::
  "spawnTracker \<Rightarrow> time \<Rightarrow> SpawnProcess list \<Rightarrow> int \<Rightarrow> int \<Rightarrow> int \<Rightarrow> spawnTracker \<times> SpawnState" where
  "spawn_update t now processes uid uidLimit totalLimit =
     (let s0 = \<lparr> ss_At = now, ProcsTotal = 0, ProcsUID = 0, ss_UID = uid, UIDLimit = uidLimit,
                 TotalLimit = totalLimit, Delta = 0, NewPerSec = Fin 0, TopParents = [], TopCommands = [] \<rparr>;
          (current, s1) = fold (countProcess t uid) processes ([], s0);
          s2 = s1 \<lparr> ProcsTotal := int (length current) \<rparr>;
          s3 = (if previous t \<noteq> None \<and> now > st_at t
                then s2 \<lparr> NewPerSec := f_div (f_of_int (Delta s2)) (d_seconds (t_sub now (st_at t))) \<rparr> else s2);
          ps = probes t @ [s3];
          ps' = (if length ps > 120 then tl ps else ps)
      in (t \<lparr> previous := Some current, st_at := now, probes := ps' \<rparr>, s3))"

subsection \<open>Conditions\<close>

definition spawnPctSeverity :: "int \<Rightarrow> int \<Rightarrow> f64 \<Rightarrow> f64 \<Rightarrow> string" where
  "spawnPctSeverity cnt limit warn critical =
     (if limit \<le> 0 then ''''
      else let pct = f_div (f_mul (f_of_int 100) (f_of_int cnt)) (f_of_int limit)
           in if f_le critical pct then ''critical'' else if f_le warn pct then ''warn'' else '''')"

definition evaluateSpawn ::
  "SpawnThresholds \<Rightarrow> spawnTracker \<Rightarrow> SpawnState \<Rightarrow> spawnTracker \<times> Condition list" where
  "evaluateSpawn cfg t s =
     (let streak = (if f_le (RateWarn cfg) (NewPerSec s) then warnStreak t + 1 else 0);
          rate = (if f_le (RateCritical cfg) (NewPerSec s)
                  then [\<lparr> c_Key = ''spawn.rate'', c_Severity = ''critical'',
                          c_Title = ''Process spawn rate is critical'', c_Detail = '''' \<rparr>]
                  else if streak \<ge> 2
                  then [\<lparr> c_Key = ''spawn.rate'', c_Severity = ''warn'',
                          c_Title = ''Process spawn rate is high'', c_Detail = '''' \<rparr>]
                  else []);
          su = spawnPctSeverity (ProcsUID s) (UIDLimit s) (UIDWarnPct cfg) (UIDCriticalPct cfg);
          st = spawnPctSeverity (ProcsTotal s) (TotalLimit s) (TotalWarnPct cfg) (TotalCriticalPct cfg)
      in (t \<lparr> warnStreak := streak \<rparr>,
          rate @
          (if su \<noteq> '''' then [\<lparr> c_Key = ''procs.uid'', c_Severity = su,
             c_Title = ''User process limit is near exhaustion'', c_Detail = '''' \<rparr>] else []) @
          (if st \<noteq> '''' then [\<lparr> c_Key = ''procs.total'', c_Severity = st,
             c_Title = ''System process limit is near exhaustion'', c_Detail = '''' \<rparr>] else [])))"

subsection \<open>Attribution\<close>

definition parent_less :: "SpawnParent \<Rightarrow> SpawnParent \<Rightarrow> bool" where
  "parent_less a b \<longleftrightarrow> ChildCount a > ChildCount b \<or> ChildCount a = ChildCount b \<and> par_PID a < par_PID b"

definition command_less :: "SpawnCommand \<Rightarrow> SpawnCommand \<Rightarrow> bool" where
  "command_less a b \<longleftrightarrow> cmd_Count a > cmd_Count b \<or> cmd_Count a = cmd_Count b \<and> cmd_Comm a < cmd_Comm b"

definition inc_count :: "'k \<Rightarrow> ('k, int) gomap \<Rightarrow> ('k, int) gomap" where
  "inc_count k m = mput k (mgetd 0 m k + 1) m"

text \<open>A string is the list of its runes.\<close>

definition truncateRunes :: "string \<Rightarrow> int \<Rightarrow> string" where
  "truncateRunes value maxLen = (if int (length value) > maxLen then take (nat maxLen) value else value)"

text \<open>\<open>argv\<close> stands for the backend's \<open>Argv\<close>; \<open>None\<close> is its error.\<close>

definition attributeSpawn ::
  "SpawnState \<Rightarrow> SpawnProcess list \<Rightarrow> (int \<Rightarrow> string option) \<Rightarrow> bool \<Rightarrow> SpawnState" where
  "attributeSpawn s processes argv readArgv =
     (let comm = fold (\<lambda>p m. mput (sp_PID p) (sp_Comm p) m) processes [];
          mine = filter (\<lambda>p. sp_UID p = ss_UID s) processes;
          kids = fold (\<lambda>p m. inc_count (sp_PPID p) m) mine [];
          cmds = fold (\<lambda>p m. inc_count (sp_Comm p) m) mine [];
          parents = TopParents s @ map (\<lambda>(pid, n). \<lparr> par_PID = pid, par_Comm = mgetd '''' comm pid,
                        ChildCount = n, par_Argv = '''' \<rparr>) (filter (\<lambda>(pid, _). pid > 0) kids);
          parents = take 5 (sort_slice parent_less parents);
          parents = (if readArgv
                     then map (\<lambda>p. case argv (par_PID p) of Some a \<Rightarrow> p \<lparr> par_Argv := truncateRunes a 200 \<rparr> | None \<Rightarrow> p) parents
                     else parents);
          commands = TopCommands s @ map (\<lambda>(c, n). \<lparr> cmd_Comm = c, cmd_Count = n \<rparr>) cmds;
          commands = take 5 (sort_slice command_less commands)
      in s \<lparr> TopParents := parents, TopCommands := commands \<rparr>)"

subsection \<open>What one probe counts\<close>

lemma countProcess_fold:
  "fold (countProcess t uid) ps (cur, s) =
     (fold List.insert (map sp_PID (filter (\<lambda>p. sp_PID p > 0) ps)) cur,
      s \<lparr> ProcsUID := ProcsUID s + int (length (filter (\<lambda>p. sp_PID p > 0 \<and> sp_UID p = uid) ps)),
          Delta := Delta s + (case previous t of None \<Rightarrow> 0 | Some pre \<Rightarrow>
             int (length (filter (\<lambda>p. sp_PID p > 0 \<and> sp_PID p \<notin> set pre) ps))) \<rparr>)"
proof (induction ps arbitrary: cur s)
  case Nil
  then show ?case by (cases "previous t") auto
next
  case (Cons p ps)
  then show ?case by (cases "previous t") (auto simp: countProcess_def)
qed

lemma fold_insert_set: "set (fold List.insert xs ys) = set xs \<union> set ys"
  by (induction xs arbitrary: ys) auto

lemma fold_insert_distinct: "distinct ys \<Longrightarrow> distinct (fold List.insert xs ys)"
  by (induction xs arbitrary: ys) auto

text \<open>The running processes of a listing.\<close>

definition live_pids :: "SpawnProcess list \<Rightarrow> int set" where
  "live_pids ps = {sp_PID p | p. p \<in> set ps \<and> sp_PID p > 0}"

lemma spawn_update_previous:
  assumes "spawn_update t now ps uid ul tl' = (t', s)"
  obtains pre where "previous t' = Some pre" and "set pre = live_pids ps" and "distinct pre"
proof -
  let ?pre = "fold List.insert (map sp_PID (filter (\<lambda>p. sp_PID p > 0) ps)) []"
  have "previous t' = Some ?pre"
    using assms by (auto simp: spawn_update_def countProcess_fold Let_def split: prod.splits if_splits)
  moreover have "set ?pre = live_pids ps"
    by (auto simp: fold_insert_set live_pids_def)
  moreover have "distinct ?pre" by (rule fold_insert_distinct) simp
  ultimately show thesis using that by blast
qed

text \<open>
  The delta is the number of live entries that were not in the previous listing, the total the number
  of different process identifiers, and the history never exceeds 120 probes.
\<close>

lemma spawn_update_counts:
  assumes "spawn_update t now ps uid ul tl' = (t', s)"
  shows "ProcsTotal s = int (card (live_pids ps))"
    and "ProcsUID s = int (length (filter (\<lambda>p. sp_PID p > 0 \<and> sp_UID p = uid) ps))"
    and "Delta s = (case previous t of None \<Rightarrow> 0 | Some pre \<Rightarrow>
           int (length (filter (\<lambda>p. sp_PID p > 0 \<and> sp_PID p \<notin> set pre) ps)))"
proof -
  let ?pre = "fold List.insert (map sp_PID (filter (\<lambda>p. sp_PID p > 0) ps)) []"
  have "set ?pre = live_pids ps" by (auto simp: fold_insert_set live_pids_def)
  moreover have "distinct ?pre" by (rule fold_insert_distinct) simp
  ultimately have "length ?pre = card (live_pids ps)" using distinct_card by metis
  then show "ProcsTotal s = int (card (live_pids ps))"
    using assms by (auto simp: spawn_update_def countProcess_fold Let_def split: prod.splits if_splits)
  show "ProcsUID s = int (length (filter (\<lambda>p. sp_PID p > 0 \<and> sp_UID p = uid) ps))"
    "Delta s = (case previous t of None \<Rightarrow> 0 | Some pre \<Rightarrow>
           int (length (filter (\<lambda>p. sp_PID p > 0 \<and> sp_PID p \<notin> set pre) ps)))"
    using assms by (auto simp: spawn_update_def countProcess_fold Let_def split: prod.splits if_splits)
qed

lemma spawn_update_history:
  assumes "spawn_update t now ps uid ul tl' = (t', s)" and "length (probes t) \<le> 120"
  shows "length (probes t') \<le> 120" and "probes t' \<noteq> []" and "last (probes t') = s"
proof -
  have eq: "probes t' = (if length (probes t @ [s]) > 120 then tl (probes t @ [s]) else probes t @ [s])"
    using assms(1) unfolding spawn_update_def countProcess_fold Let_def by (auto simp del: length_append)
  show "length (probes t') \<le> 120" using assms(2) by (simp add: eq)
  show ne: "probes t' \<noteq> []" by (cases "probes t") (auto simp: eq)
  show "last (probes t') = s" using ne by (cases "probes t") (auto simp: eq)
qed

text \<open>Listing the same processes twice reports no new process.\<close>

theorem spawn_update_steady:
  assumes "spawn_update t now ps uid ul tl' = (t', s)" and "live_pids qs \<subseteq> live_pids ps"
    and "spawn_update t' now' qs uid' ul' tl'' = (t'', s'')"
  shows "Delta s'' = 0"
proof -
  obtain pre where pre: "previous t' = Some pre" "set pre = live_pids ps"
    by (rule spawn_update_previous [OF assms(1)])
  have "filter (\<lambda>p. sp_PID p > 0 \<and> sp_PID p \<notin> set pre) qs = []"
  proof (rule filter_False, rule ballI)
    fix p assume "p \<in> set qs"
    then have "sp_PID p > 0 \<Longrightarrow> sp_PID p \<in> live_pids qs" by (auto simp: live_pids_def)
    then show "\<not> (sp_PID p > 0 \<and> sp_PID p \<notin> set pre)" using assms(2) pre(2) by blast
  qed
  then show ?thesis using spawn_update_counts(3) [OF assms(3)] pre(1) by simp
qed

subsection \<open>Conditions\<close>

text \<open>
  A rate warning takes two consecutive probes at or above the warning rate: the streak after a run of
  probes counts the run of high rates that ends it.
\<close>

lemma evaluateSpawn_streak:
  assumes "evaluateSpawn cfg t s = (t', cs)"
  shows "warnStreak t' = (if f_le (RateWarn cfg) (NewPerSec s) then warnStreak t + 1 else 0)"
  using assms by (auto simp: evaluateSpawn_def Let_def)

lemma evaluateSpawn_keys:
  assumes "evaluateSpawn cfg t s = (t', cs)"
  shows "distinct (map c_Key cs) \<and> set (map c_Key cs) \<subseteq> {''spawn.rate'', ''procs.uid'', ''procs.total''}"
  using assms by (auto simp: evaluateSpawn_def Let_def split: if_splits)

lemma evaluateSpawn_rate:
  assumes "evaluateSpawn cfg t s = (t', cs)" and "c \<in> set cs" and "c_Key c = ''spawn.rate''"
  shows "c_Severity c = ''critical'' \<and> f_le (RateCritical cfg) (NewPerSec s) \<or>
    c_Severity c = ''warn'' \<and> warnStreak t' \<ge> 2"
  using assms by (auto simp: evaluateSpawn_def Let_def split: if_splits)

theorem spawn_warning_needs_streak:
  assumes "evaluateSpawn cfg t0 s0 = (t1, cs0)" and "evaluateSpawn cfg t1 s1 = (t2, cs1)"
    and "c \<in> set cs1" and "c_Key c = ''spawn.rate''"
  shows "c_Severity c = ''critical'' \<and> f_le (RateCritical cfg) (NewPerSec s1) \<or>
    c_Severity c = ''warn'' \<and> f_le (RateWarn cfg) (NewPerSec s1) \<and> f_le (RateWarn cfg) (NewPerSec s0)"
  using evaluateSpawn_rate [OF assms(2,3,4)] evaluateSpawn_streak [OF assms(2)] evaluateSpawn_streak [OF assms(1)]
  by (auto split: if_splits)

subsection \<open>Attribution\<close>

definition occurrences :: "('a \<Rightarrow> 'k) \<Rightarrow> 'a list \<Rightarrow> 'k \<Rightarrow> int" where
  "occurrences f xs k = int (length (filter (\<lambda>x. f x = k) xs))"

lemma inc_count_fold:
  "mgetd 0 (fold (\<lambda>p. inc_count (f p)) ps m) k = mgetd 0 m k + occurrences f ps k"
  by (induction ps arbitrary: m) (auto simp: inc_count_def mgetd_def occurrences_def)

lemma inc_count_dom: "dom (map_of (fold (\<lambda>p. inc_count (f p)) ps m)) = dom (map_of m) \<union> f ` set ps"
  by (induction ps arbitrary: m) (auto simp: inc_count_def)

lemma inc_count_mwf: "mwf m \<Longrightarrow> mwf (fold (\<lambda>p. inc_count (f p)) ps m)"
  by (induction ps arbitrary: m) (auto simp: inc_count_def)

lemma inc_count_entry:
  "(k, n) \<in> set (fold (\<lambda>p. inc_count (f p)) ps []) \<longleftrightarrow> k \<in> f ` set ps \<and> n = occurrences f ps k"
proof -
  let ?m = "fold (\<lambda>p. inc_count (f p)) ps []"
  have w: "distinct (map fst ?m)" using inc_count_mwf [of "[]" f ps] by (simp add: mwf_def mkeys_def)
  have g: "mgetd 0 ?m k = occurrences f ps k" using inc_count_fold [of f ps "[]" k] by (simp add: mgetd_def)
  have d: "k \<in> dom (map_of ?m) \<longleftrightarrow> k \<in> f ` set ps" using inc_count_dom [of f ps "[]"] by simp
  have "(k, n) \<in> set ?m \<longleftrightarrow> map_of ?m k = Some n" using w by simp
  then show ?thesis using g d by (auto simp: mgetd_def split: option.splits)
qed

interpretation by_parent: comparator parent_less
  by unfold_locales (auto simp: parent_less_def)

interpretation by_command: comparator command_less
  by unfold_locales (auto simp: command_less_def)

lemma sorted_take_drop:
  assumes "sorted_wrt R xs" and "x \<in> set (take n xs)" and "y \<in> set (drop n xs)"
  shows "R x y"
proof -
  have "sorted_wrt R (take n xs @ drop n xs)" using assms(1) by simp
  then show ?thesis using assms(2,3) unfolding sorted_wrt_append by blast
qed

text \<open>
  The parents the attribution lists: at most five, with their exact number of children, and a parent
  that is left out has no more children than any listed one.
\<close>

definition mine :: "SpawnState \<Rightarrow> SpawnProcess list \<Rightarrow> SpawnProcess list" where
  "mine s ps = filter (\<lambda>p. sp_UID p = ss_UID s) ps"

theorem attributeSpawn_parents:
  fixes s ps argv ra
  defines "tops \<equiv> TopParents (attributeSpawn s ps argv ra)"
  assumes e: "TopParents s = []"
  shows "length tops \<le> 5"
    and "p \<in> set tops \<Longrightarrow> par_PID p > 0 \<and> ChildCount p = occurrences sp_PPID (mine s ps) (par_PID p)"
    and "q > 0 \<Longrightarrow> q \<in> sp_PPID ` set (mine s ps) \<Longrightarrow> q \<notin> par_PID ` set tops \<Longrightarrow> p \<in> set tops \<Longrightarrow>
      occurrences sp_PPID (mine s ps) q \<le> ChildCount p"
proof -
  define entry where "entry = (\<lambda>(pid, n). \<lparr> par_PID = pid,
     par_Comm = mgetd '''' (fold (\<lambda>p m. mput (sp_PID p) (sp_Comm p) m) ps []) pid, ChildCount = n, par_Argv = '''' \<rparr>)"
  define all where "all = sort_slice parent_less
     (map entry (filter (\<lambda>(pid, _). pid > 0) (fold (\<lambda>p. inc_count (sp_PPID p)) (mine s ps) [])))"
  define fill where "fill = (\<lambda>p :: SpawnParent. if ra then case argv (par_PID p) of
      Some a \<Rightarrow> p \<lparr> par_Argv := truncateRunes a 200 \<rparr> | None \<Rightarrow> p else p)"
  have tops: "tops = map fill (take 5 all)"
    by (cases ra) (simp_all add: tops_def attributeSpawn_def e Let_def all_def entry_def fill_def mine_def)
  have fill [simp]: "par_PID (fill p) = par_PID p" "ChildCount (fill p) = ChildCount p" for p
    by (auto simp: fill_def split: option.splits)
  have all: "p \<in> set all \<longleftrightarrow> (\<exists>k n. k > 0 \<and> (k, n) \<in> set (fold (\<lambda>p. inc_count (sp_PPID p)) (mine s ps) []) \<and> p = entry (k, n))" for p
    by (auto simp: all_def)
  have mem: "par_PID p > 0 \<and> ChildCount p = occurrences sp_PPID (mine s ps) (par_PID p)" if "p \<in> set all" for p
    using that unfolding all inc_count_entry by (auto simp: entry_def)
  show "length tops \<le> 5" by (simp add: tops)
  show "par_PID p > 0 \<and> ChildCount p = occurrences sp_PPID (mine s ps) (par_PID p)" if pt: "p \<in> set tops"
  proof -
    obtain p' where p': "p' \<in> set (take 5 all)" "p = fill p'" using pt unfolding tops by auto
    then show ?thesis using mem [OF in_set_takeD [OF p'(1)]] by simp
  qed
  show "occurrences sp_PPID (mine s ps) q \<le> ChildCount p"
    if q: "q > 0" "q \<in> sp_PPID ` set (mine s ps)" "q \<notin> par_PID ` set tops" and p: "p \<in> set tops"
  proof -
    obtain p' where p': "p' \<in> set (take 5 all)" "p = fill p'" using p unfolding tops by auto
    let ?q = "entry (q, occurrences sp_PPID (mine s ps) q)"
    have "?q \<in> set all" unfolding all inc_count_entry using q by blast
    moreover have "?q \<notin> set (take 5 all)" using q(3) unfolding tops by (auto simp: entry_def image_iff)
    ultimately have "?q \<in> set (drop 5 all)" by (metis Un_iff append_take_drop_id set_append)
    then have "\<not> parent_less ?q p'"
      using sorted_take_drop [OF _ p'(1)] by_parent.sorted_sort_slice unfolding all_def by blast
    then show ?thesis by (auto simp: parent_less_def entry_def p'(2))
  qed
qed

end
