(* ===== verification/Hostwatch_Config.thy ===== *)
theory Hostwatch_Config
  imports Hostwatch_Spawn
begin

text \<open>
  The host-watch configuration (\<open>internal/hostwatch/config.go\<close>): the defaults and the validation that
  replaces every bad value by its default and collects the problems. The validation loops run over
  tables of pointers to fields; a pointer is a getter and a setter, and the locale \<open>field_table\<close> states
  what such a table must satisfy for the loop to repair each field on its own.
\<close>

subsection \<open>Data\<close>

record SustainedConfig =
  s_CPUPct :: f64
  Window :: duration
  MinFraction :: f64
  Allowlist :: "string list"
  s_Interval :: duration
  MaxGap :: duration

record JVMHistoryConfig =
  j_Enabled :: bool
  j_Interval :: duration
  j_Timeout :: duration

record Config =
  Load_WarnMultiple :: f64
  Load_CriticalMultiple :: f64
  Load_Sustain :: int
  Load_TrendMinutes :: int
  Load_TrendSlopeMultiple :: f64
  Memory_WarnSustain :: int
  Memory_SwapGrowthMB :: f64
  Limits_WarnPct :: f64
  Limits_CriticalPct :: f64
  Disk_WarnGB :: f64
  Disk_CriticalGB :: f64
  Thermal_Sustain :: int
  Kinds_CPUPct :: f64
  Kinds_CPUSustain :: int
  Kinds_CountSustain :: int
  Kinds_Gradle :: int
  Kinds_Simulator :: int
  Kinds_QEMU :: int
  Kinds_Agents :: int
  Spawn_Interval :: duration
  Spawn :: SpawnThresholds
  Sustained :: SustainedConfig
  JVMHistory :: JVMHistoryConfig

definition DefaultJVMHistoryConfig :: JVMHistoryConfig where
  "DefaultJVMHistoryConfig = \<lparr> j_Enabled = False, j_Interval = 5 * Minute, j_Timeout = 30 * Second \<rparr>"

definition DefaultSustainedConfig :: SustainedConfig where
  "DefaultSustainedConfig =
     \<lparr> s_CPUPct = Fin 50, Window = 15 * Minute, MinFraction = f64_of_rat (9 / 10),
       Allowlist = [], s_Interval = 0, MaxGap = 0 \<rparr>"

definition DefaultConfig :: Config where
  "DefaultConfig =
     \<lparr> Load_WarnMultiple = Fin (3 / 2), Load_CriticalMultiple = Fin 3, Load_Sustain = 2, Load_TrendMinutes = 5,
       Load_TrendSlopeMultiple = Fin (1 / 2), Memory_WarnSustain = 2, Memory_SwapGrowthMB = Fin 1024,
       Limits_WarnPct = Fin 70, Limits_CriticalPct = Fin 90, Disk_WarnGB = Fin 20, Disk_CriticalGB = Fin 5,
       Thermal_Sustain = 2, Kinds_CPUPct = Fin 600, Kinds_CPUSustain = 3, Kinds_CountSustain = 2,
       Kinds_Gradle = 3, Kinds_Simulator = 3, Kinds_QEMU = 2, Kinds_Agents = 8, Spawn_Interval = 5 * Second,
       Spawn = \<lparr> RateWarn = Fin 40, RateCritical = Fin 120, UIDWarnPct = Fin 40, UIDCriticalPct = Fin 70,
                 TotalWarnPct = Fin 50, TotalCriticalPct = Fin 80 \<rparr>,
       Sustained = DefaultSustainedConfig, JVMHistory = DefaultJVMHistoryConfig \<rparr>"

subsection \<open>Validation\<close>

definition minJVMHistoryInterval :: duration where "minJVMHistoryInterval = Minute"
definition maxJVMHistoryInterval :: duration where "maxJVMHistoryInterval = 60 * Minute"
definition minJVMHistoryTimeout :: duration where "minJVMHistoryTimeout = Second"

text \<open>A problem is named by the key its message starts with.\<close>

definition validateJVM :: "JVMHistoryConfig \<Rightarrow> JVMHistoryConfig \<times> string list" where
  "validateJVM j =
     (let d = DefaultJVMHistoryConfig;
          (j, p1) = (if j_Interval j < minJVMHistoryInterval \<or> j_Interval j > maxJVMHistoryInterval
                     then (j \<lparr> j_Interval := j_Interval d \<rparr>, [''jvm_history.interval'']) else (j, []));
          (j, p2) = (if j_Timeout j < minJVMHistoryTimeout \<or> j_Timeout j > j_Interval j
                     then (j \<lparr> j_Timeout := min (j_Timeout d) (j_Interval j) \<rparr>, [''jvm_history.timeout'']) else (j, []))
      in (j, p1 @ p2))"

definition validateSustained :: "SustainedConfig \<Rightarrow> SustainedConfig \<times> string list" where
  "validateSustained s =
     (let d = DefaultSustainedConfig;
          (s, p1) = (if \<not> f_lt (Fin 0) (s_CPUPct s) then (s \<lparr> s_CPUPct := s_CPUPct d \<rparr>, [''sustained.cpu_pct'']) else (s, []));
          (s, p2) = (if Window s < Minute then (s \<lparr> Window := Window d \<rparr>, [''sustained.window'']) else (s, []));
          (s, p3) = (if \<not> (f_lt (Fin (1 / 2)) (MinFraction s) \<and> f_le (MinFraction s) (Fin 1))
                     then (s \<lparr> MinFraction := MinFraction d \<rparr>, [''sustained.min_fraction'']) else (s, []))
      in (s, p1 @ p2 @ p3))"

type_synonym ('c, 'v) field = "string \<times> ('c \<Rightarrow> 'v) \<times> ('v \<Rightarrow> 'c \<Rightarrow> 'c)"

definition floatFields :: "(Config, f64) field list" where
  "floatFields =
     [(''load.warn_multiple'', Load_WarnMultiple, \<lambda>v. Load_WarnMultiple_update (\<lambda>_. v)),
      (''load.critical_multiple'', Load_CriticalMultiple, \<lambda>v. Load_CriticalMultiple_update (\<lambda>_. v)),
      (''load.trend_slope_multiple'', Load_TrendSlopeMultiple, \<lambda>v. Load_TrendSlopeMultiple_update (\<lambda>_. v)),
      (''memory.swap_growth_mb'', Memory_SwapGrowthMB, \<lambda>v. Memory_SwapGrowthMB_update (\<lambda>_. v)),
      (''limits.warn_pct'', Limits_WarnPct, \<lambda>v. Limits_WarnPct_update (\<lambda>_. v)),
      (''limits.critical_pct'', Limits_CriticalPct, \<lambda>v. Limits_CriticalPct_update (\<lambda>_. v)),
      (''disk.warn_gb'', Disk_WarnGB, \<lambda>v. Disk_WarnGB_update (\<lambda>_. v)),
      (''disk.critical_gb'', Disk_CriticalGB, \<lambda>v. Disk_CriticalGB_update (\<lambda>_. v)),
      (''kinds.cpu_pct'', Kinds_CPUPct, \<lambda>v. Kinds_CPUPct_update (\<lambda>_. v)),
      (''spawn.rate_warn'', \<lambda>c. RateWarn (Spawn c), \<lambda>v. Spawn_update (RateWarn_update (\<lambda>_. v))),
      (''spawn.rate_critical'', \<lambda>c. RateCritical (Spawn c), \<lambda>v. Spawn_update (RateCritical_update (\<lambda>_. v))),
      (''spawn.uid_warn_pct'', \<lambda>c. UIDWarnPct (Spawn c), \<lambda>v. Spawn_update (UIDWarnPct_update (\<lambda>_. v))),
      (''spawn.uid_critical_pct'', \<lambda>c. UIDCriticalPct (Spawn c), \<lambda>v. Spawn_update (UIDCriticalPct_update (\<lambda>_. v))),
      (''spawn.total_warn_pct'', \<lambda>c. TotalWarnPct (Spawn c), \<lambda>v. Spawn_update (TotalWarnPct_update (\<lambda>_. v))),
      (''spawn.total_critical_pct'', \<lambda>c. TotalCriticalPct (Spawn c), \<lambda>v. Spawn_update (TotalCriticalPct_update (\<lambda>_. v)))]"

definition intFields :: "(Config, int) field list" where
  "intFields =
     [(''load.sustain'', Load_Sustain, \<lambda>v. Load_Sustain_update (\<lambda>_. v)),
      (''load.trend_minutes'', Load_TrendMinutes, \<lambda>v. Load_TrendMinutes_update (\<lambda>_. v)),
      (''memory.warn_sustain'', Memory_WarnSustain, \<lambda>v. Memory_WarnSustain_update (\<lambda>_. v)),
      (''thermal.sustain'', Thermal_Sustain, \<lambda>v. Thermal_Sustain_update (\<lambda>_. v)),
      (''kinds.cpu_sustain'', Kinds_CPUSustain, \<lambda>v. Kinds_CPUSustain_update (\<lambda>_. v)),
      (''kinds.count_sustain'', Kinds_CountSustain, \<lambda>v. Kinds_CountSustain_update (\<lambda>_. v)),
      (''kinds.gradle'', Kinds_Gradle, \<lambda>v. Kinds_Gradle_update (\<lambda>_. v)),
      (''kinds.simulator'', Kinds_Simulator, \<lambda>v. Kinds_Simulator_update (\<lambda>_. v)),
      (''kinds.qemu'', Kinds_QEMU, \<lambda>v. Kinds_QEMU_update (\<lambda>_. v)),
      (''kinds.agents'', Kinds_Agents, \<lambda>v. Kinds_Agents_update (\<lambda>_. v))]"

definition fixField :: "('v \<Rightarrow> bool) \<Rightarrow> 'c \<Rightarrow> ('c, 'v) field \<Rightarrow> 'c \<times> string list \<Rightarrow> 'c \<times> string list" where
  "fixField good d f st =
     (let (name, get, put) = f; (c, ps) = st
      in if good (get c) then st else (put (get d) c, ps @ [name]))"

definition raiseCritical ::
  "string \<times> (SpawnThresholds \<Rightarrow> f64) \<times> (SpawnThresholds \<Rightarrow> f64) \<times> (f64 \<Rightarrow> SpawnThresholds \<Rightarrow> SpawnThresholds)
     \<Rightarrow> SpawnThresholds \<times> string list \<Rightarrow> SpawnThresholds \<times> string list" where
  "raiseCritical f st =
     (let (name, warn, critical, put) = f; (s, ps) = st
      in if f_lt (critical s) (warn s) then (put (warn s) s, ps @ [''spawn.'' @ name]) else st)"

definition spawnPairs ::
  "(string \<times> (SpawnThresholds \<Rightarrow> f64) \<times> (SpawnThresholds \<Rightarrow> f64) \<times> (f64 \<Rightarrow> SpawnThresholds \<Rightarrow> SpawnThresholds)) list" where
  "spawnPairs =
     [(''rate'', RateWarn, RateCritical, \<lambda>v. RateCritical_update (\<lambda>_. v)),
      (''uid_pct'', UIDWarnPct, UIDCriticalPct, \<lambda>v. UIDCriticalPct_update (\<lambda>_. v)),
      (''total_pct'', TotalWarnPct, TotalCriticalPct, \<lambda>v. TotalCriticalPct_update (\<lambda>_. v))]"

definition positive :: "f64 \<Rightarrow> bool" where "positive v \<longleftrightarrow> f_lt (Fin 0) v"

definition validateConfig :: "Config \<Rightarrow> Config \<times> string list" where
  "validateConfig c =
     (let d = DefaultConfig;
          (c, ps) = fold (fixField positive d) floatFields (c, []);
          (c, ps) = fold (fixField (\<lambda>v. v > 0) d) intFields (c, ps);
          (c, ps) = (if Spawn_Interval c < Second then (c \<lparr> Spawn_Interval := Spawn_Interval d \<rparr>, ps @ [''spawn.interval'']) else (c, ps));
          (s, p1) = validateSustained (Sustained c);
          (j, p2) = validateJVM (JVMHistory c);
          (sp, ps) = fold raiseCritical spawnPairs (Spawn c, ps @ p1 @ p2)
      in (c \<lparr> Sustained := s, JVMHistory := j, Spawn := sp \<rparr>, ps))"

definition sustainedWindowIntervals :: int where "sustainedWindowIntervals = 16"

text \<open>The product wraps in \<open>int64\<close>; the second component tells whether an error is returned.\<close>

definition ValidateWatchInterval :: "duration \<Rightarrow> Config \<Rightarrow> Config \<times> bool" where
  "ValidateWatchInterval interval c =
     (let minWindow = wrap64 (sustainedWindowIntervals * interval)
      in if Window (Sustained c) \<ge> minWindow then (c, False)
         else (c \<lparr> Sustained := Sustained c \<lparr> Window := minWindow \<rparr> \<rparr>, True))"

subsection \<open>Tables of fields\<close>

fun apart :: "('c, 'v) field \<Rightarrow> ('c, 'v) field \<Rightarrow> bool" where
  "apart (_, g, p) (_, g', p') \<longleftrightarrow> (\<forall>v c. g (p' v c) = g c) \<and> (\<forall>v c. g' (p v c) = g' c)"

locale field_table =
  fixes fs :: "('c, 'v) field list"
  assumes get_put: "(n, g, p) \<in> set fs \<Longrightarrow> g (p v c) = v"
    and apart: "sorted_wrt apart fs"
begin

lemma step_field: "fixField good d (n, g, p) (c, ps) = (if good (g c) then (c, ps) else (p (g d) c, ps @ [n]))"
  by (simp add: fixField_def)

text \<open>An observer no setter of the table disturbs sees the same value after the loop.\<close>

lemma fold_frame:
  assumes "\<And>n g p v c. (n, g, p) \<in> set gs \<Longrightarrow> h (p v c) = h c"
  shows "h (fst (fold (fixField good d) gs (c, ps))) = h c"
  using assms
proof (induction gs arbitrary: c ps)
  case (Cons f gs)
  obtain n g p where f: "f = (n, g, p)" by (cases f)
  have "h (fst (fixField good d f (c, ps))) = h c" using Cons.prems [of n g p] f by (simp add: step_field)
  moreover obtain c' ps' where r: "fixField good d f (c, ps) = (c', ps')" by fastforce
  moreover have "h (fst (fold (fixField good d) gs (c', ps'))) = h c'"
  proof (rule Cons.IH)
    show "h (p v c) = h c" if "(n, g, p) \<in> set gs" for n g p v c
      using Cons.prems [of n g p v c] that by simp
  qed
  ultimately show ?case by simp
qed simp

lemma fold_problems:
  "\<exists>more. snd (fold (fixField good d) gs (c, ps)) = ps @ more \<and>
     (more = [] \<longleftrightarrow> fold (fixField good d) gs (c, ps) = (c, ps) \<and> (\<forall>(n, g, p) \<in> set gs. good (g c)))"
proof (induction gs arbitrary: c ps)
  case (Cons f gs)
  obtain n g p where f: "f = (n, g, p)" by (cases f)
  show ?case
  proof (cases "good (g c)")
    case True
    then show ?thesis using Cons.IH [of c ps] f by (simp add: step_field)
  next
    case False
    obtain more where "snd (fold (fixField good d) gs (p (g d) c, ps @ [n])) = (ps @ [n]) @ more"
      using Cons.IH [of "p (g d) c" "ps @ [n]"] by blast
    then show ?thesis using False f by (intro exI [of _ "n # more"]) (simp add: step_field)
  qed
qed simp

text \<open>The loop keeps every good field and resets every bad one, each on its own.\<close>

lemma fold_field:
  assumes "(n, g, p) \<in> set fs"
  shows "g (fst (fold (fixField good d) fs (c, ps))) = (if good (g c) then g c else g d)"
proof -
  have "g (fst (fold (fixField good d) gs (c, ps))) = (if good (g c) then g c else g d)"
    if "(n, g, p) \<in> set gs" "sorted_wrt apart gs" "set gs \<subseteq> set fs" for gs
    using that
  proof (induction gs arbitrary: c ps)
    case (Cons f gs)
    obtain n' g' p' where f: "f = (n', g', p')" by (cases f)
    obtain c' ps' where r: "fixField good d f (c, ps) = (c', ps')" by fastforce
    show ?case
    proof (cases "(n, g, p) = f")
      case True
      have ap: "apart f x" if "x \<in> set gs" for x using Cons.prems(2) that by simp
      have "g (p'' v c'') = g c''" if "(n'', g'', p'') \<in> set gs" for n'' g'' p'' v c''
        using ap [OF that] True by auto
      then have "g (fst (fold (fixField good d) gs (c', ps'))) = g c'" by (rule fold_frame)
      moreover have "g c' = (if good (g c) then g c else g d)"
        using r True get_put [OF assms] by (auto simp: step_field split: if_splits)
      ultimately show ?thesis by (simp add: r)
    next
      case False
      then have mem: "(n, g, p) \<in> set gs" using Cons.prems(1) by auto
      then have "apart f (n, g, p)" using Cons.prems(2) by simp
      then have same: "g c' = g c" using r f by (auto simp: step_field split: if_splits)
      have "g (fst (fold (fixField good d) gs (c', ps'))) = (if good (g c') then g c' else g d)"
        using Cons.IH [OF mem] Cons.prems(2,3) by simp
      then show ?thesis using same r by simp
    qed
  qed simp
  from this [OF assms apart] show ?thesis by simp
qed

end

interpretation float_table: field_table floatFields
  by unfold_locales (auto simp: floatFields_def)

interpretation int_table: field_table intFields
  by unfold_locales (auto simp: intFields_def)

subsection \<open>What validation guarantees\<close>

definition sustained_ok :: "SustainedConfig \<Rightarrow> bool" where
  "sustained_ok s \<longleftrightarrow> f_lt (Fin 0) (s_CPUPct s) \<and> Window s \<ge> Minute \<and>
     f_lt (Fin (1 / 2)) (MinFraction s) \<and> f_le (MinFraction s) (Fin 1)"

definition jvm_ok :: "JVMHistoryConfig \<Rightarrow> bool" where
  "jvm_ok j \<longleftrightarrow> minJVMHistoryInterval \<le> j_Interval j \<and> j_Interval j \<le> maxJVMHistoryInterval \<and>
     minJVMHistoryTimeout \<le> j_Timeout j \<and> j_Timeout j \<le> j_Interval j"

definition spawn_ok :: "SpawnThresholds \<Rightarrow> bool" where
  "spawn_ok s \<longleftrightarrow> (\<forall>(n, warn, critical, put) \<in> set spawnPairs. \<not> f_lt (critical s) (warn s))"

definition config_ok :: "Config \<Rightarrow> bool" where
  "config_ok c \<longleftrightarrow> (\<forall>(n, g, p) \<in> set floatFields. positive (g c)) \<and> (\<forall>(n, g, p) \<in> set intFields. g c > 0) \<and>
     Spawn_Interval c \<ge> Second \<and> sustained_ok (Sustained c) \<and> jvm_ok (JVMHistory c) \<and> spawn_ok (Spawn c)"

lemma default_fraction: "f64_of_rat (9 / 10) = Fin (8106479329266893 / 9007199254740992)"
  by (simp add: float_eval)

lemma validateSustained_ok: "sustained_ok (fst (validateSustained s))"
  by (simp add: validateSustained_def sustained_ok_def Let_def DefaultSustainedConfig_def default_fraction
      f_le_def Minute_def Second_def)

lemma validateSustained_id: "snd (validateSustained s) = [] \<longleftrightarrow> sustained_ok s"
  and validateSustained_same: "sustained_ok s \<Longrightarrow> validateSustained s = (s, [])"
  by (auto simp: validateSustained_def sustained_ok_def Let_def)

lemmas jvm_defs = validateJVM_def jvm_ok_def DefaultJVMHistoryConfig_def minJVMHistoryInterval_def
  maxJVMHistoryInterval_def minJVMHistoryTimeout_def Minute_def Second_def

lemma validateJVM_ok: "jvm_ok (fst (validateJVM j))"
  by (simp add: jvm_defs Let_def)

lemma validateJVM_id: "snd (validateJVM j) = [] \<longleftrightarrow> jvm_ok j"
  and validateJVM_same: "jvm_ok j \<Longrightarrow> validateJVM j = (j, [])"
  by (auto simp: jvm_defs Let_def)

lemma raise_apply:
  "raiseCritical (n, w, c, p) (s, ps) = (if f_lt (c s) (w s) then (p (w s) s, ps @ [''spawn.'' @ n]) else (s, ps))"
  by (simp add: raiseCritical_def)

lemma f_lt_irrefl [simp]: "\<not> f_lt x x"
  by (cases x) auto

lemma raise_ok: "spawn_ok (fst (fold raiseCritical spawnPairs (s, ps)))"
  by (simp add: spawn_ok_def spawnPairs_def raise_apply)

lemma raise_positive:
  assumes "positive (RateWarn s)" "positive (UIDWarnPct s)" "positive (TotalWarnPct s)"
    and "positive (RateCritical s)" "positive (UIDCriticalPct s)" "positive (TotalCriticalPct s)"
    and "fst (fold raiseCritical spawnPairs (s, ps)) = s'"
  shows "positive (RateWarn s') \<and> positive (UIDWarnPct s') \<and> positive (TotalWarnPct s') \<and>
    positive (RateCritical s') \<and> positive (UIDCriticalPct s') \<and> positive (TotalCriticalPct s')"
  unfolding assms(7) [symmetric] using assms(1-6) by (simp add: spawnPairs_def raise_apply)

lemma raise_id: "snd (fold raiseCritical spawnPairs (s, ps)) = [] \<longleftrightarrow> ps = [] \<and> spawn_ok s"
  and raise_same: "spawn_ok s \<Longrightarrow> fold raiseCritical spawnPairs (s, ps) = (s, ps)"
  by (simp_all add: spawn_ok_def spawnPairs_def raise_apply)

lemma default_floats: "(n, g, p) \<in> set floatFields \<Longrightarrow> positive (g DefaultConfig)"
  by (auto simp: floatFields_def DefaultConfig_def positive_def)

lemma default_ints: "(n, g, p) \<in> set intFields \<Longrightarrow> g DefaultConfig > 0"
  by (auto simp: intFields_def DefaultConfig_def)

text \<open>A setter of an integer field disturbs no floating-point field.\<close>

lemma int_setters:
  assumes "(n, g, p) \<in> set intFields"
  shows "(n', g', p') \<in> set floatFields \<Longrightarrow> g' (p v c) = g' c"
    and "Spawn (p v c) = Spawn c" and "Sustained (p v c) = Sustained c"
    and "JVMHistory (p v c) = JVMHistory c" and "Spawn_Interval (p v c) = Spawn_Interval c"
  using assms by (auto simp: intFields_def floatFields_def)

lemma float_setters:
  assumes "(n, g, p) \<in> set floatFields"
  shows "(n', g', p') \<in> set intFields \<Longrightarrow> g' (p v c) = g' c"
    and "Sustained (p v c) = Sustained c" and "JVMHistory (p v c) = JVMHistory c"
    and "Spawn_Interval (p v c) = Spawn_Interval c"
  using assms by (auto simp: intFields_def floatFields_def)

text \<open>The fields a table-free update leaves alone.\<close>

lemma rest_int: "(n, g, p) \<in> set intFields \<Longrightarrow> g (c \<lparr> Sustained := s, JVMHistory := j, Spawn := sp \<rparr>) = g c"
  and rest_int': "(n, g, p) \<in> set intFields \<Longrightarrow> g (c \<lparr> Spawn_Interval := i \<rparr>) = g c"
  and rest_float: "(n, g', p') \<in> set floatFields \<Longrightarrow> g' (c \<lparr> Spawn_Interval := i \<rparr>) = g' c"
  by (auto simp: intFields_def floatFields_def)

lemma floats_split:
  "(\<forall>(n, g, p) \<in> set floatFields. positive (g c)) \<longleftrightarrow>
     positive (Load_WarnMultiple c) \<and> positive (Load_CriticalMultiple c) \<and> positive (Load_TrendSlopeMultiple c) \<and>
     positive (Memory_SwapGrowthMB c) \<and> positive (Limits_WarnPct c) \<and> positive (Limits_CriticalPct c) \<and>
     positive (Disk_WarnGB c) \<and> positive (Disk_CriticalGB c) \<and> positive (Kinds_CPUPct c) \<and>
     positive (RateWarn (Spawn c)) \<and> positive (RateCritical (Spawn c)) \<and> positive (UIDWarnPct (Spawn c)) \<and>
     positive (UIDCriticalPct (Spawn c)) \<and> positive (TotalWarnPct (Spawn c)) \<and> positive (TotalCriticalPct (Spawn c))"
  by (simp add: floatFields_def)

definition stage1 :: "Config \<Rightarrow> Config \<times> string list" where
  "stage1 c = fold (fixField (\<lambda>v. v > 0) DefaultConfig) intFields (fold (fixField positive DefaultConfig) floatFields (c, []))"

definition stage2 :: "Config \<Rightarrow> Config \<times> string list" where
  "stage2 c = (let (c, ps) = stage1 c
     in if Spawn_Interval c < Second then (c \<lparr> Spawn_Interval := Spawn_Interval DefaultConfig \<rparr>, ps @ [''spawn.interval'']) else (c, ps))"

lemma validateConfig_stages:
  "validateConfig c =
     (let (c, ps) = stage2 c; (s, p1) = validateSustained (Sustained c); (j, p2) = validateJVM (JVMHistory c);
          (sp, ps) = fold raiseCritical spawnPairs (Spawn c, ps @ p1 @ p2)
      in (c \<lparr> Sustained := s, JVMHistory := j, Spawn := sp \<rparr>, ps))"
  by (simp add: validateConfig_def stage1_def stage2_def Let_def split: prod.splits)

lemma stage1_fields:
  "(n, g, p) \<in> set floatFields \<Longrightarrow> positive (g (fst (stage1 c)))"
  "(n, g', p') \<in> set intFields \<Longrightarrow> g' (fst (stage1 c)) > 0"
proof -
  obtain c1 ps1 where r: "fold (fixField positive DefaultConfig) floatFields (c, []) = (c1, ps1)" by fastforce
  assume f: "(n, g, p) \<in> set floatFields"
  have "g c1 = (if positive (g c) then g c else g DefaultConfig)"
    using float_table.fold_field [OF f, of positive DefaultConfig c "[]"] r by simp
  then have "positive (g c1)" using default_floats [OF f] by simp
  moreover have "g (fst (fold (fixField (\<lambda>v. v > 0) DefaultConfig) intFields (c1, ps1))) = g c1"
    by (rule int_table.fold_frame) (rule int_setters(1) [OF _ f])
  ultimately show "positive (g (fst (stage1 c)))" by (simp add: stage1_def r)
next
  obtain c1 ps1 where r: "fold (fixField positive DefaultConfig) floatFields (c, []) = (c1, ps1)" by fastforce
  assume f: "(n, g', p') \<in> set intFields"
  show "g' (fst (stage1 c)) > 0"
    using int_table.fold_field [OF f, of "\<lambda>v. v > 0" DefaultConfig c1 ps1] default_ints [OF f]
    by (simp add: stage1_def r)
qed

lemma stage2_fields:
  "(n, g, p) \<in> set floatFields \<Longrightarrow> positive (g (fst (stage2 c)))"
  "(n, g', p') \<in> set intFields \<Longrightarrow> g' (fst (stage2 c)) > 0"
  "Spawn_Interval (fst (stage2 c)) \<ge> Second"
proof -
  show "positive (g (fst (stage2 c)))" if "(n, g, p) \<in> set floatFields"
    using stage1_fields(1) [OF that, of c] rest_float [OF that] by (auto simp: stage2_def split: prod.splits)
  show "g' (fst (stage2 c)) > 0" if "(n, g', p') \<in> set intFields"
    using stage1_fields(2) [OF that, of c] rest_int' [OF that] by (auto simp: stage2_def split: prod.splits)
  show "Spawn_Interval (fst (stage2 c)) \<ge> Second"
    by (auto simp: stage2_def DefaultConfig_def Second_def split: prod.splits)
qed

theorem validateConfig_ok: "config_ok (fst (validateConfig c))"
proof -
  obtain c2 ps2 where s2: "stage2 c = (c2, ps2)" by fastforce
  obtain s p1 where s: "validateSustained (Sustained c2) = (s, p1)" by fastforce
  obtain j p2 where j: "validateJVM (JVMHistory c2) = (j, p2)" by fastforce
  obtain sp ps where sp: "fold raiseCritical spawnPairs (Spawn c2, ps2 @ p1 @ p2) = (sp, ps)" by fastforce
  have v: "fst (validateConfig c) = c2 \<lparr> Sustained := s, JVMHistory := j, Spawn := sp \<rparr>"
    by (simp add: validateConfig_stages s2 s j sp)
  have "\<forall>(n, g, p) \<in> set floatFields. positive (g c2)" using stage2_fields(1) [of _ _ _ c] s2 by auto
  then have "\<forall>(n, g, p) \<in> set floatFields. positive (g (fst (validateConfig c)))"
    using raise_positive [of "Spawn c2" "ps2 @ p1 @ p2" sp] sp unfolding v floats_split by simp
  moreover have "\<forall>(n, g, p) \<in> set intFields. g (fst (validateConfig c)) > 0"
    using stage2_fields(2) [of _ _ _ c] s2 rest_int unfolding v by fastforce
  moreover have "Spawn_Interval (fst (validateConfig c)) \<ge> Second" using stage2_fields(3) [of c] s2 unfolding v by simp
  moreover have "sustained_ok s" "jvm_ok j" "spawn_ok sp"
    using validateSustained_ok [of "Sustained c2"] s validateJVM_ok [of "JVMHistory c2"] j raise_ok [of "Spawn c2" "ps2 @ p1 @ p2"] sp by simp_all
  ultimately show ?thesis unfolding config_ok_def v by simp
qed

lemma fold_fixField_id: "\<forall>(n, g, p) \<in> set fs. good (g c) \<Longrightarrow> fold (fixField good d) fs (c, ps) = (c, ps)"
  by (induction fs) (auto simp: fixField_def)

text \<open>A configuration is left alone and reported as sound exactly when it satisfies the contract.\<close>

theorem validateConfig_accepts:
  shows "snd (validateConfig c) = [] \<longleftrightarrow> config_ok c" and "config_ok c \<Longrightarrow> validateConfig c = (c, [])"
proof -
  show same: "validateConfig c = (c, [])" if ok: "config_ok c"
  proof -
    have f: "\<forall>(n, g, p) \<in> set floatFields. positive (g c)" and i: "\<forall>(n, g, p) \<in> set intFields. (\<lambda>v. v > 0) (g c)"
      using ok by (simp_all add: config_ok_def)
    have "stage1 c = (c, [])" unfolding stage1_def fold_fixField_id [OF f] by (rule fold_fixField_id [OF i])
    then have "stage2 c = (c, [])" using ok by (simp add: stage2_def config_ok_def)
    then show ?thesis
      using ok by (simp add: validateConfig_stages config_ok_def validateSustained_same validateJVM_same raise_same)
  qed
  show "snd (validateConfig c) = [] \<longleftrightarrow> config_ok c"
  proof
    assume none: "snd (validateConfig c) = []"
    obtain c2 ps2 where s2: "stage2 c = (c2, ps2)" by fastforce
    obtain s p1 where s: "validateSustained (Sustained c2) = (s, p1)" by fastforce
    obtain j p2 where j: "validateJVM (JVMHistory c2) = (j, p2)" by fastforce
    obtain sp ps where sp: "fold raiseCritical spawnPairs (Spawn c2, ps2 @ p1 @ p2) = (sp, ps)" by fastforce
    have "ps = []" using none by (simp add: validateConfig_stages s2 s j sp)
    then have e: "ps2 = []" "p1 = []" "p2 = []" "spawn_ok (Spawn c2)"
      using raise_id [of "Spawn c2" "ps2 @ p1 @ p2"] sp by simp_all
    obtain c1 ps1 where s1: "stage1 c = (c1, ps1)" by fastforce
    have 2: "c2 = c1" "ps1 = []" "Spawn_Interval c1 \<ge> Second" using s2 s1 e(1) by (auto simp: stage2_def split: if_splits)
    obtain c0 ps0 where s0: "fold (fixField positive DefaultConfig) floatFields (c, []) = (c0, ps0)" by fastforce
    have "snd (fold (fixField (\<lambda>v. v > 0) DefaultConfig) intFields (c0, ps0)) = []" using s1 2(2) s0 by (simp add: stage1_def)
    then have 1: "ps0 = []" "c1 = c0" "\<forall>(n, g, p) \<in> set intFields. g c0 > 0"
      using int_table.fold_problems [of "\<lambda>v. v > 0" DefaultConfig intFields c0 ps0] s1 s0 by (auto simp: stage1_def)
    have 0: "c0 = c" "\<forall>(n, g, p) \<in> set floatFields. positive (g c)"
      using float_table.fold_problems [of positive DefaultConfig floatFields c "[]"] s0 1(1) by auto
    show "config_ok c"
      using 0 1 2 e s j validateSustained_id [of "Sustained c2"] validateJVM_id [of "JVMHistory c2"] by (simp add: config_ok_def)
  qed (use same in simp)
qed

text \<open>The widened window always holds sixteen base intervals, as long as the product fits \<open>int64\<close>.\<close>

theorem ValidateWatchInterval_window:
  assumes "0 \<le> interval" and "16 * interval < 2 ^ 63"
  shows "Window (Sustained (fst (ValidateWatchInterval interval c))) \<ge> 16 * interval"
    and "snd (ValidateWatchInterval interval c) \<longleftrightarrow> Window (Sustained c) < 16 * interval"
proof -
  have "wrap64 (16 * interval) = 16 * interval"
    using assms by (intro wrap64_id) simp_all
  then show "Window (Sustained (fst (ValidateWatchInterval interval c))) \<ge> 16 * interval"
    "snd (ValidateWatchInterval interval c) \<longleftrightarrow> Window (Sustained c) < 16 * interval"
    by (auto simp: ValidateWatchInterval_def sustainedWindowIntervals_def Let_def)
qed

end
