(* ===== verification/Go_Strings.thy ===== *)
theory Go_Strings
  imports Go_Fmt "HOL-Library.Sublist"
begin

text \<open>
  The functions of packages \<open>strings\<close>, \<open>strconv\<close> and \<open>path\<close> the sources call, on byte strings. White space
  is that of Unicode in its UTF-8 encoding. Case conversion changes the ASCII letters and the four other
  characters that Unicode maps to an ASCII letter; it leaves the remaining letters alone, whose images
  are never ASCII, so that comparing with an ASCII string has the result the source has.
\<close>

subsection \<open>Package strings\<close>

definition lower_char :: "char \<Rightarrow> char" where
  "lower_char c = (let n = (of_char c :: nat) in if 65 \<le> n \<and> n \<le> 90 then char_of (n + 32) else c)"

definition upper_char :: "char \<Rightarrow> char" where
  "upper_char c = (let n = (of_char c :: nat) in if 97 \<le> n \<and> n \<le> 122 then char_of (n - 32) else c)"

text \<open>U+212A, the Kelvin sign, and U+0130, the dotted capital I, have ASCII letters as lower case.\<close>

fun to_lower :: "string \<Rightarrow> string" where
  "to_lower [] = []"
| "to_lower (c # s) =
     (if prefix [CHR 0xE2, CHR 0x84, CHR 0xAA] (c # s) then CHR ''k'' # to_lower (drop 2 s)
      else if prefix [CHR 0xC4, CHR 0xB0] (c # s) then CHR ''i'' # to_lower (drop 1 s)
      else lower_char c # to_lower s)"

text \<open>U+017F, the long s, and U+0131, the dotless i, have ASCII letters as upper case.\<close>

fun to_upper :: "string \<Rightarrow> string" where
  "to_upper [] = []"
| "to_upper (c # s) =
     (if prefix [CHR 0xC5, CHR 0xBF] (c # s) then CHR ''S'' # to_upper (drop 1 s)
      else if prefix [CHR 0xC4, CHR 0xB1] (c # s) then CHR ''I'' # to_upper (drop 1 s)
      else upper_char c # to_upper s)"

definition has_suffix :: "string \<Rightarrow> string \<Rightarrow> bool" where
  "has_suffix suf s = suffix suf s"

definition trim_prefix :: "string \<Rightarrow> string \<Rightarrow> string" where
  "trim_prefix p s = (if prefix p s then drop (length p) s else s)"

definition trim_suffix :: "string \<Rightarrow> string \<Rightarrow> string" where
  "trim_suffix suf s = (if suffix suf s then take (length s - length suf) s else s)"

fun contains :: "string \<Rightarrow> string \<Rightarrow> bool" where
  "contains sub [] = (sub = [])"
| "contains sub (c # s) = (prefix sub (c # s) \<or> contains sub s)"

text \<open>
  The encodings of the white space characters. No byte after the first of an encoding can start a
  character, so looking for an encoding at a byte position is decoding the character there.
\<close>

definition white :: "string list" where
  "white =
     [[CHR 0x09], [CHR 0x0A], [CHR 0x0B], [CHR 0x0C], [CHR 0x0D], [CHR 0x20],
      [CHR 0xC2, CHR 0x85], [CHR 0xC2, CHR 0xA0], [CHR 0xE1, CHR 0x9A, CHR 0x80],
      [CHR 0xE2, CHR 0x80, CHR 0x80], [CHR 0xE2, CHR 0x80, CHR 0x81], [CHR 0xE2, CHR 0x80, CHR 0x82],
      [CHR 0xE2, CHR 0x80, CHR 0x83], [CHR 0xE2, CHR 0x80, CHR 0x84], [CHR 0xE2, CHR 0x80, CHR 0x85],
      [CHR 0xE2, CHR 0x80, CHR 0x86], [CHR 0xE2, CHR 0x80, CHR 0x87], [CHR 0xE2, CHR 0x80, CHR 0x88],
      [CHR 0xE2, CHR 0x80, CHR 0x89], [CHR 0xE2, CHR 0x80, CHR 0x8A], [CHR 0xE2, CHR 0x80, CHR 0xA8],
      [CHR 0xE2, CHR 0x80, CHR 0xA9], [CHR 0xE2, CHR 0x80, CHR 0xAF], [CHR 0xE2, CHR 0x81, CHR 0x9F],
      [CHR 0xE3, CHR 0x80, CHR 0x80]]"

text \<open>The length of the white space character at the start and at the end of a string, or 0.\<close>

definition space_at :: "string \<Rightarrow> nat" where
  "space_at s = (case find (\<lambda>w. prefix w s) white of None \<Rightarrow> 0 | Some w \<Rightarrow> length w)"

definition space_end :: "string \<Rightarrow> nat" where
  "space_end s = (case find (\<lambda>w. suffix w s) white of None \<Rightarrow> 0 | Some w \<Rightarrow> length w)"

lemma white_nonempty: "w \<in> set white \<Longrightarrow> w \<noteq> []"
  by (auto simp: white_def)

lemma space_at_Some:
  assumes "space_at s \<noteq> 0"
  obtains w where "w \<in> set white" and "prefix w s" and "space_at s = length w"
  using assms by (auto simp: space_at_def find_Some_iff in_set_conv_nth split: option.splits)

lemma space_end_Some:
  assumes "space_end s \<noteq> 0"
  obtains w where "w \<in> set white" and "suffix w s" and "space_end s = length w"
  using assms by (auto simp: space_end_def find_Some_iff in_set_conv_nth split: option.splits)

lemma space_at_le: "space_at s \<le> length s"
  by (cases "space_at s = 0") (simp, metis prefix_length_le space_at_Some)

lemma space_end_le: "space_end s \<le> length s"
  by (cases "space_end s = 0") (simp, metis suffix_length_le space_end_Some)

function trim_left :: "string \<Rightarrow> string" where
  "trim_left s = (if space_at s = 0 then s else trim_left (drop (space_at s) s))"
  by pat_completeness auto
termination
proof (relation "measure length")
  show "(drop (space_at s) s, s) \<in> measure length" if "space_at s \<noteq> 0" for s
    using that space_at_le [of s] by simp
qed simp

function trim_right :: "string \<Rightarrow> string" where
  "trim_right s = (if space_end s = 0 then s else trim_right (take (length s - space_end s) s))"
  by pat_completeness auto
termination
proof (relation "measure length")
  show "(take (length s - space_end s) s, s) \<in> measure length" if "space_end s \<noteq> 0" for s
    using that space_end_le [of s] by simp
qed simp

declare trim_left.simps [simp del] trim_right.simps [simp del]

definition trim_space :: "string \<Rightarrow> string" where
  "trim_space s = trim_right (trim_left s)"

text \<open>\<open>strings.Fields\<close>: the maximal runs without white space.\<close>

fun span_word :: "string \<Rightarrow> string \<times> string" where
  "span_word [] = ([], [])"
| "span_word (c # s) = (if space_at (c # s) \<noteq> 0 then ([], c # s) else case span_word s of (w, r) \<Rightarrow> (c # w, r))"

lemma span_word_append: "span_word s = (w, r) \<Longrightarrow> s = w @ r"
  by (induction s arbitrary: w) (auto split: if_splits prod.splits)

lemma trim_left_fixed: "space_at (trim_left s) = 0"
  by (induction s rule: trim_left.induct) (subst trim_left.simps, simp)

lemma trim_left_length: "length (trim_left s) \<le> length s"
proof (induction s rule: trim_left.induct)
  case (1 s)
  then show ?case using space_at_le [of s] by (subst trim_left.simps) auto
qed

function fields :: "string \<Rightarrow> string list" where
  "fields s =
     (let t = trim_left s
      in if t = [] then [] else case span_word t of (w, r) \<Rightarrow> w # fields r)"
  by pat_completeness auto
termination
proof (relation "measure length")
  fix s t w r
  assume t: "t = trim_left s" "t \<noteq> []" "(w, r) = span_word t"
  have "space_at t = 0" using trim_left_fixed [of s] t(1) by simp
  then obtain c u where u: "t = c # u" "space_at (c # u) = 0" using t(2) by (cases t) auto
  then have "w \<noteq> []" using t(3) by (auto split: prod.splits)
  moreover have "t = w @ r" using t(3) span_word_append by metis
  ultimately have "length r < length t" by (cases w) auto
  then show "(r, s) \<in> measure length" using t(1) trim_left_length [of s] by simp
qed simp

declare fields.simps [simp del]

text \<open>\<open>strings.Split\<close> on a one-character separator.\<close>

fun split_on :: "char \<Rightarrow> string \<Rightarrow> string list" where
  "split_on sep [] = [[]]"
| "split_on sep (c # s) =
     (if c = sep then [] # split_on sep s
      else case split_on sep s of [] \<Rightarrow> [[c]] | w # ws \<Rightarrow> (c # w) # ws)"

text \<open>\<open>strings.LastIndex\<close> of a one-character string; \<open>-1\<close> when it does not occur.\<close>

fun last_index :: "char \<Rightarrow> string \<Rightarrow> int" where
  "last_index x [] = -1"
| "last_index x (c # s) =
     (let i = last_index x s in if 0 \<le> i then i + 1 else if c = x then 0 else -1)"

subsection \<open>Package strconv\<close>

definition is_digit :: "char \<Rightarrow> bool" where
  "is_digit c = (let n = (of_char c :: nat) in 48 \<le> n \<and> n \<le> 57)"

definition digit_val :: "char \<Rightarrow> nat" where
  "digit_val c = of_char c - 48"

definition nat_of_digits :: "string \<Rightarrow> nat" where
  "nat_of_digits s = fold (\<lambda>c n. 10 * n + digit_val c) s 0"

text \<open>\<open>strconv.ParseInt(s, 10, 64)\<close>; \<open>None\<close> is a syntax or range error.\<close>

definition parse_int64 :: "string \<Rightarrow> int option" where
  "parse_int64 s =
     (let (neg, ds) = (case s of
              c # r \<Rightarrow> if c = CHR ''-'' then (True, r) else if c = CHR ''+'' then (False, r) else (False, s)
            | [] \<Rightarrow> (False, s))
      in if ds = [] \<or> \<not> list_all is_digit ds then None
         else let v = int (nat_of_digits ds); w = (if neg then - v else v)
              in if - (2 ^ 63) \<le> w \<and> w < 2 ^ 63 then Some w else None)"

subsection \<open>Package path\<close>

definition slash :: char where "slash = CHR ''/''"

definition path_base :: "string \<Rightarrow> string" where
  "path_base s =
     (if s = [] then ''.''
      else let t = rev (dropWhile (\<lambda>c. c = slash) (rev s));
               b = rev (takeWhile (\<lambda>c. c \<noteq> slash) (rev t))
           in if b = [] then ''/'' else b)"

text \<open>
  \<open>path.Match\<close>: \<open>*\<close> matches any run of non-slash characters, \<open>?\<close> one of them, brackets a class with
  ranges, and a backslash escapes. A malformed pattern never matches.
\<close>

fun get_esc :: "string \<Rightarrow> (char \<times> string) option" where
  "get_esc [] = None"
| "get_esc (c # p) =
     (if c = CHR ''-'' \<or> c = CHR '']'' then None
      else if c = CHR 0x5C then (case p of d # q \<Rightarrow> if q = [] then None else Some (d, q) | [] \<Rightarrow> None)
      else if p = [] then None else Some (c, p))"

lemma get_esc_length: "get_esc p = Some (c, q) \<Longrightarrow> length q < length p"
  by (cases p) (auto split: if_splits list.splits)

text \<open>The ranges of a class up to its closing bracket: whether \<open>c\<close> is in one, and the rest.\<close>

function match_ranges :: "char \<Rightarrow> bool \<Rightarrow> bool \<Rightarrow> string \<Rightarrow> (bool \<times> string) option" where
  "match_ranges c some hit p =
     (if some \<and> p \<noteq> [] \<and> hd p = CHR '']'' then Some (hit, tl p)
      else case get_esc p of
             None \<Rightarrow> None
           | Some (lo, q) \<Rightarrow>
               (if hd q = CHR ''-'' then
                  (case get_esc (tl q) of
                     None \<Rightarrow> None
                   | Some (hi, r) \<Rightarrow> match_ranges c True (hit \<or> lo \<le> c \<and> c \<le> hi) r)
                else match_ranges c True (hit \<or> lo = c) q))"
  by pat_completeness auto
termination
  by (relation "measure (\<lambda>(c, some, hit, p). length p)")
    (auto dest!: get_esc_length)

declare match_ranges.simps [simp del]

lemma match_ranges_length: "match_ranges c some hit p = Some (b, q) \<Longrightarrow> length q < length p"
proof (induction c some hit p rule: match_ranges.induct)
  case (1 c some hit p)
  have len: "length (tl r) \<le> length r" for r :: string by simp
  show ?case
    using "1.prems" "1.IH"
    by (subst (asm) match_ranges.simps)
      (auto split: if_splits option.splits dest!: get_esc_length; use len in fastforce)
qed

function path_match :: "string \<Rightarrow> string \<Rightarrow> bool" where
  "path_match [] s = (s = [])"
| "path_match (x # p) s =
     (if x = CHR ''*'' then
        path_match p s \<or> (case s of c # t \<Rightarrow> c \<noteq> slash \<and> path_match (x # p) t | [] \<Rightarrow> False)
      else case s of
             [] \<Rightarrow> False
           | c # t \<Rightarrow>
               if x = CHR ''?'' then c \<noteq> slash \<and> path_match p t
               else if x = CHR ''['' then
                 (let neg = (p \<noteq> [] \<and> hd p = CHR ''^'')
                  in case match_ranges c False False (if neg then tl p else p) of
                       None \<Rightarrow> False
                     | Some (hit, q) \<Rightarrow> hit \<noteq> neg \<and> path_match q t)
               else if x = CHR 0x5C then (case p of d # q \<Rightarrow> d = c \<and> path_match q t | [] \<Rightarrow> False)
               else x = c \<and> path_match p t)"
  by pat_completeness auto
termination
  by (relation "measure (\<lambda>(p, s). length p + length s)")
    (auto dest!: match_ranges_length split: if_splits)

declare path_match.simps(2) [simp del]

end
