(* ===== verification/Sustained_Tracker.thy ===== *)
theory Sustained_Tracker
  imports Hostwatch_Config Go_Strings
begin

text \<open>
  The detector of sustained per-process CPU load (\<open>internal/hostwatch/sustained.go\<close>): a state machine
  that keeps a window of samples per process. The theorems show that a new finding rests on a full
  window of samples without a suspend gap, that a reused process identifier and a gap discard the
  history, and that one low sample never clears a finding.

  The products \<open>4 * Interval\<close> and \<open>8 * Interval\<close> are mathematical: they leave \<open>int64\<close> only for watch
  intervals above thirty years.
\<close>

subsection \<open>Data\<close>

definition startTolerance :: duration where "startTolerance = 3 * Second"
definition sustainedMinGap :: duration where "sustainedMinGap = 5 * Minute"
definition sustainedMinClearPoints :: int where "sustainedMinClearPoints = 4"
definition sustainedClearFraction :: f64 where "sustainedClearFraction = Fin (1 / 2)"

record ProcObs =
  po_PID :: int
  po_PPID :: int
  po_Name :: string
  po_CPUPct :: f64
  po_Started :: time
  po_Skip :: bool

record SustainedFinding =
  sf_PID :: int
  sf_Name :: string
  sf_Started :: time
  Since :: time
  Duration :: duration
  AvgCPU :: f64
  Fraction :: f64

record cpuPoint =
  cp_at :: time
  above :: bool
  cpu :: f64

record sustainedEntry =
  en_name :: string
  en_started :: time
  points :: "cpuPoint list"
  since :: time
  lastGood :: time
  adopt :: bool

record SustainedTracker =
  cfg :: SustainedConfig
  entries :: "(int, sustainedEntry) gomap"
  last_at :: time

definition NewSustainedTracker :: "SustainedConfig \<Rightarrow> SustainedTracker" where
  "NewSustainedTracker c = \<lparr> cfg = c, entries = [], last_at = 0 \<rparr>"

subsection \<open>Helpers\<close>

definition Allowed :: "SustainedConfig \<Rightarrow> string \<Rightarrow> bool" where
  "Allowed c name =
     (let base = to_lower (path_base name) in list_ex (\<lambda>pattern. path_match (to_lower pattern) base) (Allowlist c))"

text \<open>\<open>-d\<close> wraps: the negation of the least duration is itself.\<close>

definition sameStart :: "time \<Rightarrow> time \<Rightarrow> bool" where
  "sameStart a b = (let d = t_sub a b; d = (if d < 0 then wrap64 (- d) else d) in d \<le> startTolerance)"

definition maxGap :: "SustainedConfig \<Rightarrow> duration" where
  "maxGap c = (if MaxGap c > sustainedMinGap then MaxGap c else sustainedMinGap)"

definition capacity :: "SustainedConfig \<Rightarrow> int" where
  "capacity c = (if s_Interval c \<le> 0 then 0 else Window c div (4 * s_Interval c))"

definition minClearPoints :: "SustainedConfig \<Rightarrow> int" where
  "minClearPoints c =
     (let n = sustainedMinClearPoints; k = capacity c; n = (if k > 0 \<and> k < n then k else n)
      in if n < 2 then 2 else n)"

definition minAbovePoints :: "SustainedConfig \<Rightarrow> int" where
  "minAbovePoints c = (let k = capacity c div 2 in if k > 3 then k else 3)"

fun trimPoints :: "cpuPoint list \<Rightarrow> time \<Rightarrow> cpuPoint list" where
  "trimPoints (p # q # r) cutoff = (if cp_at q < cutoff then trimPoints (q # r) cutoff else p # q # r)"
| "trimPoints ps cutoff = ps"

definition inWindow :: "cpuPoint list \<Rightarrow> time \<Rightarrow> cpuPoint list" where
  "inWindow ps cutoff = (if ps \<noteq> [] \<and> cp_at (hd ps) < cutoff then tl ps else ps)"

definition staleHistory :: "SustainedConfig \<Rightarrow> sustainedEntry \<Rightarrow> time \<Rightarrow> bool" where
  "staleHistory c e now =
     (if s_Interval c \<le> 0 \<or> points e = [] then False
      else t_sub now (cp_at (last (points e))) > 8 * s_Interval c)"

definition summarize :: "cpuPoint list \<Rightarrow> f64 \<times> f64" where
  "summarize ps =
     (let (n, s) = fold (\<lambda>p (n, s). (if above p then n + 1 else n, f_add s (cpu p))) ps (0 :: int, Fin 0);
          k = f_of_int (int (length ps))
      in (f_div (f_of_int n) k, f_div s k))"

definition countAbove :: "cpuPoint list \<Rightarrow> int" where
  "countAbove ps = fold (\<lambda>p n. if above p then n + 1 else n) ps 0"

definition lastBelow :: "cpuPoint list \<Rightarrow> nat \<Rightarrow> bool" where
  "lastBelow ps n = (if length ps < n then False else list_all (\<lambda>p. \<not> above p) (drop (length ps - n) ps))"

definition anyAbove :: "cpuPoint list \<Rightarrow> bool" where
  "anyAbove ps = list_ex above ps"

subsection \<open>One observation\<close>

definition dropIfReused :: "ProcObs \<Rightarrow> SustainedTracker \<Rightarrow> SustainedTracker" where
  "dropIfReused p t =
     (case map_of (entries t) (po_PID p) of
        None \<Rightarrow> t
      | Some e \<Rightarrow>
          if adopt e \<and> path_base (po_Name p) = path_base (en_name e) \<and> (en_started e = 0 \<or> sameStart (en_started e) (po_Started p))
          then t \<lparr> entries := mput (po_PID p) (e \<lparr> en_started := po_Started p, adopt := False \<rparr>) (entries t) \<rparr>
          else if adopt e \<or> \<not> sameStart (en_started e) (po_Started p)
          then t \<lparr> entries := mdel (po_PID p) (entries t) \<rparr>
          else t)"

definition Seed :: "time \<Rightarrow> int \<Rightarrow> string \<Rightarrow> time \<Rightarrow> time \<Rightarrow> SustainedTracker \<Rightarrow> SustainedTracker" where
  "Seed now pid name snc started t =
     t \<lparr> entries := mput pid \<lparr> en_name = name, en_started = started, points = [], since = snc, lastGood = now, adopt = True \<rparr> (entries t) \<rparr>"

definition resetAfterGap :: "SustainedTracker \<Rightarrow> SustainedTracker" where
  "resetAfterGap t =
     t \<lparr> entries := map (\<lambda>(pid, e). (pid, e \<lparr> points := [] \<rparr>)) (filter (\<lambda>(pid, e). since e \<noteq> 0) (entries t)) \<rparr>"

definition record_obs :: "time \<Rightarrow> ProcObs \<Rightarrow> SustainedTracker \<Rightarrow> SustainedTracker" where
  "record_obs now p t =
     (let c = cfg t; ab = f_le (s_CPUPct c) (po_CPUPct p);
          eo = (case map_of (entries t) (po_PID p) of
                  Some e \<Rightarrow> Some e
                | None \<Rightarrow> if \<not> ab then None
                          else Some \<lparr> en_name = po_Name p, en_started = po_Started p, points = [], since = 0, lastGood = 0, adopt = False \<rparr>)
      in case eo of
           None \<Rightarrow> t
         | Some e \<Rightarrow>
             (let old = (if staleHistory c e now then [] else points e);
                  cutoff = now - Window c;
                  pts = trimPoints (old @ [\<lparr> cp_at = now, above = ab, cpu = po_CPUPct p \<rparr>]) cutoff;
                  e' = e \<lparr> points := pts, lastGood := now \<rparr>;
                  win = inWindow pts cutoff;
                  carried = (since e \<noteq> 0 \<and> int (length win) < minClearPoints c)
              in if \<not> anyAbove win \<and> \<not> carried then t \<lparr> entries := mdel (po_PID p) (entries t) \<rparr>
                 else t \<lparr> entries := mput (po_PID p) e' (entries t) \<rparr>))"

text \<open>What \<open>evaluate\<close> does to one entry: the entry that stays, and its finding.\<close>

definition evalEntry :: "SustainedConfig \<Rightarrow> time \<Rightarrow> int \<Rightarrow> sustainedEntry \<Rightarrow> sustainedEntry option \<times> SustainedFinding option" where
  "evalEntry c now pid e =
     (if t_sub now (lastGood e) \<ge> Window c then (None, None)
      else let cutoff = now - Window c; pts = trimPoints (points e) cutoff; e = e \<lparr> points := pts \<rparr>; win = inWindow pts cutoff
           in if win = [] then (Some e, None)
              else let (frac, avg) = summarize win;
                       covered = (t_sub now (cp_at (hd pts)) \<ge> Window c);
                       snc = (if since e = 0 \<and> covered \<and> f_le (MinFraction c) frac \<and> countAbove win \<ge> minAbovePoints c
                              then cp_at (hd win)
                              else if since e \<noteq> 0 \<and> f_lt frac sustainedClearFraction \<and> int (length win) \<ge> minClearPoints c \<and> lastBelow win 2
                              then 0 else since e);
                       e = e \<lparr> since := snc \<rparr>
                   in (Some e, if snc = 0 then None
                               else Some \<lparr> sf_PID = pid, sf_Name = en_name e, sf_Started = en_started e, Since = snc,
                                           Duration = t_sub now snc, AvgCPU = avg, Fraction = frac \<rparr>))"

definition pid_less :: "SustainedFinding \<Rightarrow> SustainedFinding \<Rightarrow> bool" where
  "pid_less a b \<longleftrightarrow> sf_PID a < sf_PID b"

definition tracker_evaluate :: "time \<Rightarrow> SustainedTracker \<Rightarrow> SustainedTracker \<times> SustainedFinding list" where
  "tracker_evaluate now t =
     (t \<lparr> entries := List.map_filter (\<lambda>(pid, e). map_option (Pair pid) (fst (evalEntry (cfg t) now pid e))) (entries t) \<rparr>,
      sort_slice pid_less (List.map_filter (\<lambda>(pid, e). snd (evalEntry (cfg t) now pid e)) (entries t)))"

definition observeProc :: "time \<Rightarrow> ProcObs \<Rightarrow> SustainedTracker \<times> int list \<Rightarrow> SustainedTracker \<times> int list" where
  "observeProc now p st =
     (let (t, seen) = st in
      if po_PID p \<le> 0 \<or> Allowed (cfg t) (po_Name p) then st
      else let t1 = dropIfReused p t
           in (if po_Skip p then t1 else record_obs now p t1, List.insert (po_PID p) seen))"

definition gapped :: "SustainedTracker \<Rightarrow> time \<Rightarrow> bool" where
  "gapped t now \<longleftrightarrow> last_at t \<noteq> 0 \<and> (t_sub now (last_at t) > maxGap (cfg t) \<or> now < last_at t)"

definition Observe :: "time \<Rightarrow> ProcObs list \<Rightarrow> SustainedTracker \<Rightarrow> SustainedTracker \<times> SustainedFinding list" where
  "Observe now procs t =
     (let t = (if gapped t now then resetAfterGap t else t);
          t = t \<lparr> last_at := now \<rparr>;
          (t, seen) = fold (observeProc now) procs (t, []);
          t = t \<lparr> entries := filter (\<lambda>(pid, e). pid \<in> set seen) (entries t) \<rparr>
      in tracker_evaluate now t)"

subsection \<open>The owner chain\<close>

record ChainLink =
  cl_PID :: int
  cl_Name :: string

fun chainLoop :: "(int, ProcObs) gomap \<Rightarrow> nat \<Rightarrow> int \<Rightarrow> int list \<Rightarrow> ChainLink list \<Rightarrow> ChainLink list" where
  "chainLoop table 0 cur seen rv = rv"
| "chainLoop table (Suc n) cur seen rv =
     (if cur \<in> set seen then rv
      else case map_of table cur of
             None \<Rightarrow> rv
           | Some p \<Rightarrow>
               (let rv' = rv @ [\<lparr> cl_PID = po_PID p, cl_Name = path_base (po_Name p) \<rparr>]
                in if po_PPID p \<le> 0 then rv' else chainLoop table n (po_PPID p) (cur # seen) rv'))"

text \<open>The loop runs while at most \<open>maxDepth\<close> links are collected: at most \<open>maxDepth + 1\<close> rounds.\<close>

definition ParentChain :: "(int, ProcObs) gomap \<Rightarrow> int \<Rightarrow> int \<Rightarrow> ChainLink list" where
  "ParentChain table pid maxDepth = rev (chainLoop table (nat (maxDepth + 1)) pid [] [])"

definition formatChain :: "ChainLink list \<Rightarrow> string" where
  "formatChain chain = join '' > '' (map (\<lambda>l. cl_Name l @ ''('' @ dec (cl_PID l) @ '')'') chain)"

definition unifiedLogHint :: string where
  "unifiedLogHint = ''sustained load usually means a client is polling or streaming the unified log (`log stream`, `log show`, OSLogStore); look for those clients''"

definition offenderHints :: "(string, string) gomap" where
  "offenderHints =
     [(''diagnosticd'', unifiedLogHint), (''oslogservice'', unifiedLogHint),
      (''mds_stores'', ''Spotlight is re-indexing or a client keeps triggering indexing; check `mdutil -s /` and recently changed large directories'')]"

definition OffenderHint :: "string \<Rightarrow> string" where
  "OffenderHint name = mgetd '''' offenderHints (to_lower (path_base name))"

definition SuggestNextCommand :: "string \<Rightarrow> int \<Rightarrow> string" where
  "SuggestNextCommand goos pid =
     (if goos = ''darwin'' then ''sample '' @ dec pid @ '' 10'' else ''top -H -p '' @ dec pid)"

subsection \<open>One process at a time\<close>

definition drop_entry :: "ProcObs \<Rightarrow> sustainedEntry \<Rightarrow> sustainedEntry option" where
  "drop_entry p e =
     (if adopt e \<and> path_base (po_Name p) = path_base (en_name e) \<and> (en_started e = 0 \<or> sameStart (en_started e) (po_Started p))
      then Some (e \<lparr> en_started := po_Started p, adopt := False \<rparr>)
      else if adopt e \<or> \<not> sameStart (en_started e) (po_Started p) then None else Some e)"

definition add_point :: "SustainedConfig \<Rightarrow> time \<Rightarrow> ProcObs \<Rightarrow> sustainedEntry \<Rightarrow> cpuPoint list" where
  "add_point c now p e =
     trimPoints ((if staleHistory c e now then [] else points e) @
       [\<lparr> cp_at = now, above = f_le (s_CPUPct c) (po_CPUPct p), cpu = po_CPUPct p \<rparr>]) (now - Window c)"

definition record_entry :: "SustainedConfig \<Rightarrow> time \<Rightarrow> ProcObs \<Rightarrow> sustainedEntry option \<Rightarrow> sustainedEntry option" where
  "record_entry c now p eo =
     (case (case eo of Some e \<Rightarrow> Some e
            | None \<Rightarrow> if \<not> f_le (s_CPUPct c) (po_CPUPct p) then None
                      else Some \<lparr> en_name = po_Name p, en_started = po_Started p, points = [], since = 0, lastGood = 0, adopt = False \<rparr>) of
        None \<Rightarrow> None
      | Some e \<Rightarrow>
          (let win = inWindow (add_point c now p e) (now - Window c)
           in if \<not> anyAbove win \<and> \<not> (since e \<noteq> 0 \<and> int (length win) < minClearPoints c) then None
              else Some (e \<lparr> points := add_point c now p e, lastGood := now \<rparr>)))"

definition proc_entry :: "SustainedConfig \<Rightarrow> time \<Rightarrow> ProcObs \<Rightarrow> sustainedEntry option \<Rightarrow> sustainedEntry option" where
  "proc_entry c now p eo =
     (let eo = Option.bind eo (drop_entry p) in if po_Skip p then eo else record_entry c now p eo)"

definition watched :: "SustainedConfig \<Rightarrow> ProcObs \<Rightarrow> bool" where
  "watched c p \<longleftrightarrow> po_PID p > 0 \<and> \<not> Allowed c (po_Name p)"

lemma drop_map_of:
  "map_of (entries (dropIfReused p t)) = (map_of (entries t))(po_PID p := Option.bind (map_of (entries t) (po_PID p)) (drop_entry p))"
  by (cases "map_of (entries t) (po_PID p)") (auto simp: dropIfReused_def drop_entry_def fun_eq_iff)

lemma record_map_of:
  "map_of (entries (record_obs now p t)) =
     (map_of (entries t))(po_PID p := record_entry (cfg t) now p (map_of (entries t) (po_PID p)))"
  by (cases "map_of (entries t) (po_PID p)")
    (auto simp: record_obs_def record_entry_def add_point_def Let_def fun_eq_iff)

lemma drop_cfg [simp]: "cfg (dropIfReused p t) = cfg t" "last_at (dropIfReused p t) = last_at t"
  by (auto simp: dropIfReused_def split: option.splits)

lemma record_cfg [simp]: "cfg (record_obs now p t) = cfg t" "last_at (record_obs now p t) = last_at t"
  by (auto simp: record_obs_def Let_def split: option.splits)

lemma drop_mwf: "mwf (entries t) \<Longrightarrow> mwf (entries (dropIfReused p t))"
  by (auto simp: dropIfReused_def split: option.splits)

lemma record_mwf: "mwf (entries t) \<Longrightarrow> mwf (entries (record_obs now p t))"
  by (auto simp: record_obs_def Let_def split: option.splits)

lemma observeProc_skip: "\<not> watched (cfg t) p \<Longrightarrow> observeProc now p (t, seen) = (t, seen)"
  by (auto simp: observeProc_def watched_def)

lemma observeProc_watched:
  assumes "watched (cfg t) p" and "observeProc now p (t, seen) = (t', seen')"
  shows "cfg t' = cfg t" and "last_at t' = last_at t" and "mwf (entries t) \<Longrightarrow> mwf (entries t')"
    and "set seen' = insert (po_PID p) (set seen)"
    and "map_of (entries t') = (map_of (entries t))(po_PID p := proc_entry (cfg t) now p (map_of (entries t) (po_PID p)))"
  using assms
  by (auto simp: observeProc_def watched_def Let_def drop_map_of record_map_of proc_entry_def drop_mwf record_mwf fun_eq_iff
      split: if_splits)

lemma observe_fold:
  assumes "fold (observeProc now) ps (t, seen) = (t', seen')" and "distinct (map po_PID ps)" and "mwf (entries t)"
  shows "cfg t' = cfg t \<and> last_at t' = last_at t \<and> mwf (entries t') \<and>
    set seen' = set seen \<union> po_PID ` {p \<in> set ps. watched (cfg t) p} \<and>
    map_of (entries t') pid = (case find (\<lambda>p. po_PID p = pid \<and> watched (cfg t) p) ps of
       None \<Rightarrow> map_of (entries t) pid | Some p \<Rightarrow> proc_entry (cfg t) now p (map_of (entries t) pid))"
  using assms
proof (induction ps arbitrary: t seen)
  case Nil
  then show ?case by simp
next
  case (Cons p ps)
  show ?case
  proof (cases "watched (cfg t) p")
    case False
    have "fold (observeProc now) ps (t, seen) = (t', seen')" using Cons.prems(1) observeProc_skip [OF False] by simp
    from Cons.IH [OF this] Cons.prems(2,3) False show ?thesis by auto
  next
    case True
    obtain t1 seen1 where r: "observeProc now p (t, seen) = (t1, seen1)" by fastforce
    note w = observeProc_watched [OF True r]
    have "fold (observeProc now) ps (t1, seen1) = (t', seen')" using Cons.prems(1) r by simp
    note IH = Cons.IH [OF this]
    have d: "distinct (map po_PID ps)" "po_PID p \<notin> po_PID ` set ps" using Cons.prems(2) by auto
    note IH = IH [OF d(1) w(3) [OF Cons.prems(3)], unfolded w(1,2,4)]
    show ?thesis
    proof (cases "po_PID p = pid")
      case eq: True
      have "find (\<lambda>q. po_PID q = pid \<and> watched (cfg t) q) ps = None" using d(2) eq by (auto simp: find_None_iff image_iff)
      then show ?thesis using IH True eq fun_cong [OF w(5), of pid] by auto
    next
      case False
      then have same: "map_of (entries t1) pid = map_of (entries t) pid" by (simp add: w(5))
      show ?thesis using IH [unfolded same] True False by auto
    qed
  qed
qed

lemma map_of_map_filter:
  assumes "distinct (map fst xs)"
  shows "map_of (List.map_filter (\<lambda>(k, v). map_option (Pair k) (f k v)) xs) k = Option.bind (map_of xs k) (f k)"
  using assms
proof (induction xs)
  case (Cons x xs)
  obtain k' v where x: "x = (k', v)" by fastforce
  have "map_of xs k' = None" using Cons.prems x by (simp add: map_of_eq_None_iff)
  then show ?case using Cons x by (cases "f k' v") (auto simp: List.map_filter_simps)
qed (simp add: List.map_filter_simps)

lemma map_filter_keys:
  "set (map fst (List.map_filter (\<lambda>(k, v). map_option (Pair k) (f k v)) xs)) \<subseteq> fst ` set xs"
  by (force simp: List.map_filter_def)

lemma map_filter_distinct:
  "distinct (map fst xs) \<Longrightarrow> distinct (map fst (List.map_filter (\<lambda>(k, v). map_option (Pair k) (f k v)) xs))"
proof (induction xs)
  case (Cons x xs)
  obtain k v where x: "x = (k, v)" by fastforce
  then show ?case using Cons map_filter_keys [of f xs] by (cases "f k v") (auto simp: List.map_filter_simps)
qed (simp add: List.map_filter_simps)

lemma map_of_filter_key: "map_of (filter (\<lambda>(k, v). P k) xs) k = (if P k then map_of xs k else None)"
  by (induction xs) auto

text \<open>The state before the final evaluation, per process identifier.\<close>

definition before_eval :: "SustainedTracker \<Rightarrow> time \<Rightarrow> ProcObs list \<Rightarrow> int \<Rightarrow> sustainedEntry option" where
  "before_eval t now ps pid =
     (case find (\<lambda>p. po_PID p = pid \<and> watched (cfg t) p) ps of
        None \<Rightarrow> None
      | Some p \<Rightarrow> proc_entry (cfg t) now p (map_of (entries (if gapped t now then resetAfterGap t else t)) pid))"

lemma reset_cfg [simp]: "cfg (resetAfterGap t) = cfg t"
  by (simp add: resetAfterGap_def)

lemma reset_mwf: "mwf (entries t) \<Longrightarrow> mwf (entries (resetAfterGap t))"
  by (auto simp: resetAfterGap_def mwf_def mkeys_def comp_def case_prod_beta distinct_map inj_on_def)

theorem Observe_entries:
  assumes "Observe now ps t = (t', fs)" and "distinct (map po_PID ps)" and "mwf (entries t)"
  shows "mwf (entries t')" and "cfg t' = cfg t" and "last_at t' = now"
    and "map_of (entries t') pid = Option.bind (before_eval t now ps pid) (\<lambda>e. fst (evalEntry (cfg t) now pid e))"
    and "f \<in> set fs \<longleftrightarrow> (\<exists>pid e. before_eval t now ps pid = Some e \<and> snd (evalEntry (cfg t) now pid e) = Some f)"
proof -
  let ?t0 = "(if gapped t now then resetAfterGap t else t) \<lparr> last_at := now \<rparr>"
  obtain t1 seen where f: "fold (observeProc now) ps (?t0, []) = (t1, seen)" by fastforce
  have w0: "mwf (entries ?t0)" using assms(3) reset_mwf by simp
  note F = observe_fold [OF f assms(2) w0]
  have c0: "cfg ?t0 = cfg t" by simp
  define t2 where "t2 = t1 \<lparr> entries := filter (\<lambda>(pid, e). pid \<in> set seen) (entries t1) \<rparr>"
  have r: "tracker_evaluate now t2 = (t', fs)" using assms(1) f unfolding Observe_def Let_def t2_def by simp
  have c2: "cfg t2 = cfg t" "last_at t2 = now" using F c0 by (auto simp: t2_def)
  have seen: "set seen = po_PID ` {p \<in> set ps. watched (cfg t) p}" using F c0 by simp
  have d1: "distinct (map fst (entries t1))" using F by (simp add: mwf_def mkeys_def)
  then have d2: "distinct (map fst (entries t2))" by (simp add: t2_def distinct_map_filter)
  have e2: "map_of (entries t2) pid = before_eval t now ps pid" for pid
  proof -
    have m: "map_of (entries t2) pid = (if pid \<in> set seen then map_of (entries t1) pid else None)"
      by (simp add: t2_def map_of_filter_key)
    show ?thesis
    proof (cases "find (\<lambda>p. po_PID p = pid \<and> watched (cfg t) p) ps")
      case None
      then have "pid \<notin> set seen" unfolding seen by (auto simp: find_None_iff)
      then show ?thesis using m None by (simp add: before_eval_def)
    next
      case (Some p)
      then have "p \<in> set ps \<and> po_PID p = pid \<and> watched (cfg t) p" by (auto simp: find_Some_iff)
      then have "pid \<in> set seen" unfolding seen by auto
      then show ?thesis using m Some F [of pid] c0 by (simp add: before_eval_def)
    qed
  qed
  have t': "entries t' = List.map_filter (\<lambda>(pid, e). map_option (Pair pid) (fst (evalEntry (cfg t) now pid e))) (entries t2)"
    and fs: "fs = sort_slice pid_less (List.map_filter (\<lambda>(pid, e). snd (evalEntry (cfg t) now pid e)) (entries t2))"
    and "cfg t' = cfg t" "last_at t' = now"
    using r c2 by (auto simp: tracker_evaluate_def)
  then show "cfg t' = cfg t" "last_at t' = now" by simp_all
  show "mwf (entries t')" using map_filter_distinct [OF d2] by (simp add: t' mwf_def mkeys_def)
  show "map_of (entries t') pid = Option.bind (before_eval t now ps pid) (\<lambda>e. fst (evalEntry (cfg t) now pid e))"
    unfolding t' map_of_map_filter [OF d2] e2 ..
  have "f \<in> set fs \<longleftrightarrow> (\<exists>pid e. (pid, e) \<in> set (entries t2) \<and> snd (evalEntry (cfg t) now pid e) = Some f)"
    by (force simp: fs List.map_filter_def)
  also have "\<dots> \<longleftrightarrow> (\<exists>pid e. before_eval t now ps pid = Some e \<and> snd (evalEntry (cfg t) now pid e) = Some f)"
    using d2 by (simp flip: e2)
  finally show "f \<in> set fs \<longleftrightarrow> (\<exists>pid e. before_eval t now ps pid = Some e \<and> snd (evalEntry (cfg t) now pid e) = Some f)" .
qed

subsection \<open>Sample windows\<close>

abbreviation in_order :: "cpuPoint list \<Rightarrow> bool" where
  "in_order \<equiv> sorted_wrt (\<lambda>p q. cp_at p \<le> cp_at q)"

lemma trim_is_suffix: "suffix (trimPoints ps cutoff) ps"
  by (induction ps cutoff rule: trimPoints.induct) (auto intro: suffix_ConsI)

lemma trim_nonempty [simp]: "trimPoints ps cutoff = [] \<longleftrightarrow> ps = []"
  by (induction ps cutoff rule: trimPoints.induct) auto

lemma suffix_sorted: "suffix qs ps \<Longrightarrow> sorted_wrt R ps \<Longrightarrow> sorted_wrt R qs"
  by (auto simp: suffix_def sorted_wrt_append)

lemma suffix_successively: "suffix qs ps \<Longrightarrow> successively R ps \<Longrightarrow> successively R qs"
  by (auto simp: suffix_def successively_append_iff)

text \<open>After trimming, the window is exactly the samples that are not older than the cutoff.\<close>

lemma inWindow_trim:
  assumes "in_order ps"
  shows "inWindow (trimPoints ps cutoff) cutoff = filter (\<lambda>p. \<not> cp_at p < cutoff) ps"
  using assms
proof (induction ps cutoff rule: trimPoints.induct)
  case (1 p q r cutoff)
  show ?case
  proof (cases "cp_at q < cutoff")
    case True
    then have "cp_at p < cutoff" using 1(2) by auto
    then show ?thesis using 1 True by simp
  next
    case False
    then have "\<forall>x\<in>set (q # r). \<not> cp_at x < cutoff" using 1(2) by auto
    then have "filter (\<lambda>p. \<not> cp_at p < cutoff) (q # r) = q # r" by (meson filter_True)
    then show ?thesis using False by (simp add: inWindow_def)
  qed
qed (auto simp: inWindow_def)

lemma trim_trim: "in_order ps \<Longrightarrow> trimPoints (trimPoints ps c) c = trimPoints ps c"
  by (induction ps c rule: trimPoints.induct) auto

lemma countAbove_eq: "countAbove ps = int (length (filter above ps))"
proof -
  have "fold (\<lambda>p n. if above p then n + 1 else n) ps k = k + int (length (filter above ps))" for k :: int
    by (induction ps arbitrary: k) auto
  then show ?thesis by (simp add: countAbove_def)
qed

subsection \<open>Invariant\<close>

definition entry_ok :: "SustainedConfig \<Rightarrow> time \<Rightarrow> sustainedEntry \<Rightarrow> bool" where
  "entry_ok c lmt e \<longleftrightarrow> in_order (points e) \<and> (\<forall>p\<in>set (points e). 0 < cp_at p \<and> cp_at p \<le> lmt) \<and>
     (0 < s_Interval c \<longrightarrow> successively (\<lambda>p q. t_sub (cp_at q) (cp_at p) \<le> 8 * s_Interval c) (points e))"

definition tracker_ok :: "SustainedTracker \<Rightarrow> bool" where
  "tracker_ok t \<longleftrightarrow> mwf (entries t) \<and> (\<forall>pid e. map_of (entries t) pid = Some e \<longrightarrow> entry_ok (cfg t) (last_at t) e)"

lemma entry_ok_suffix: "entry_ok c lmt e \<Longrightarrow> suffix qs (points e) \<Longrightarrow> entry_ok c lmt (e \<lparr> points := qs \<rparr>)"
  unfolding entry_ok_def by (auto intro: suffix_sorted suffix_successively dest: set_mono_suffix)

lemma entry_ok_mono: "entry_ok c lmt e \<Longrightarrow> lmt \<le> lmt' \<Longrightarrow> entry_ok c lmt' e"
  unfolding entry_ok_def by fastforce

lemma entry_ok_cong: "points e = points e' \<Longrightarrow> entry_ok c lmt e = entry_ok c lmt e'"
  by (simp add: entry_ok_def)

lemma drop_entry_points: "drop_entry p e = Some e' \<Longrightarrow> points e' = points e \<and> since e' = since e \<and> lastGood e' = lastGood e"
  by (auto simp: drop_entry_def split: if_splits)

lemma add_point_ok:
  assumes "entry_ok c now e" and "0 < now"
  shows "entry_ok c now (e \<lparr> points := add_point c now p e, lastGood := g \<rparr>)"
proof -
  let ?x = "\<lparr> cp_at = now, above = f_le (s_CPUPct c) (po_CPUPct p), cpu = po_CPUPct p \<rparr>"
  let ?old = "if staleHistory c e now then [] else points e"
  have "entry_ok c now (e \<lparr> points := ?old @ [?x] \<rparr>)"
  proof (cases "staleHistory c e now \<or> points e = []")
    case True
    then show ?thesis using assms(2) by (auto simp: entry_ok_def)
  next
    case False
    then have "0 < s_Interval c \<Longrightarrow> t_sub now (cp_at (last (points e))) \<le> 8 * s_Interval c"
      by (auto simp: staleHistory_def split: if_splits)
    then show ?thesis using assms False by (auto simp: entry_ok_def sorted_wrt_append successively_append_iff)
  qed
  then have ok: "entry_ok c now (e \<lparr> points := ?old @ [?x] \<rparr>)" .
  have pts: "points (e \<lparr> points := ?old @ [?x] \<rparr>) = ?old @ [?x]" by (rule sustainedEntry.cases [of e]) simp
  have "suffix (add_point c now p e) (points (e \<lparr> points := ?old @ [?x] \<rparr>))"
    unfolding add_point_def pts by (rule trim_is_suffix)
  from entry_ok_suffix [OF ok this] have "entry_ok c now (e \<lparr> points := add_point c now p e \<rparr>)"
    by (simp add: entry_ok_def)
  then show ?thesis by (simp add: entry_ok_def)
qed

lemma record_entry_ok:
  assumes "record_entry c now p eo = Some e'" and "\<forall>e. eo = Some e \<longrightarrow> entry_ok c now e" and "0 < now"
  shows "entry_ok c now e' \<and> lastGood e' = now \<and>
    (\<exists>e. e' = e \<lparr> points := add_point c now p e, lastGood := now \<rparr> \<and> (eo = Some e \<or> eo = None \<and> since e = 0 \<and> points e = []))"
proof -
  let ?new = "\<lparr> en_name = po_Name p, en_started = po_Started p, points = [], since = 0, lastGood = 0, adopt = False \<rparr>"
  obtain e where e: "eo = Some e \<or> eo = None \<and> e = ?new" and e': "e' = e \<lparr> points := add_point c now p e, lastGood := now \<rparr>"
    using assms(1) by (auto simp: record_entry_def Let_def split: option.splits if_splits)
  have "entry_ok c now e" using e assms(2) by (auto simp: entry_ok_def)
  from add_point_ok [OF this assms(3)] e' e show ?thesis by auto
qed

lemma proc_entry_ok:
  assumes "proc_entry c now p eo = Some e'" and "\<forall>e. eo = Some e \<longrightarrow> entry_ok c now e" and "0 < now"
  shows "entry_ok c now e'" and "since e' \<noteq> 0 \<Longrightarrow> \<exists>e. eo = Some e \<and> since e' = since e"
proof -
  have d: "\<forall>e. Option.bind eo (drop_entry p) = Some e \<longrightarrow> entry_ok c now e"
    using assms(2) drop_entry_points entry_ok_cong by (metis bind_eq_Some_conv)
  have s: "\<exists>e0. eo = Some e0 \<and> since e = since e0" if "Option.bind eo (drop_entry p) = Some e" for e
    using that drop_entry_points by (metis bind_eq_Some_conv)
  show "entry_ok c now e'"
    using assms(1) d record_entry_ok [OF _ d assms(3)] by (auto simp: proc_entry_def Let_def split: if_splits)
  show "\<exists>e. eo = Some e \<and> since e' = since e" if nz: "since e' \<noteq> 0"
  proof (cases "po_Skip p")
    case True
    then show ?thesis using assms(1) s by (simp add: proc_entry_def Let_def)
  next
    case False
    then have r: "record_entry c now p (Option.bind eo (drop_entry p)) = Some e'" using assms(1) by (simp add: proc_entry_def Let_def)
    obtain e where "e' = e \<lparr> points := add_point c now p e, lastGood := now \<rparr>"
      "Option.bind eo (drop_entry p) = Some e \<or> Option.bind eo (drop_entry p) = None \<and> since e = 0"
      using record_entry_ok [OF r d assms(3)] by blast
    then show ?thesis using nz s by auto
  qed
qed

lemma map_of_reset:
  assumes "mwf (entries t)"
  shows "map_of (entries (resetAfterGap t)) pid =
    (case map_of (entries t) pid of None \<Rightarrow> None | Some e \<Rightarrow> if since e = 0 then None else Some (e \<lparr> points := [] \<rparr>))"
proof -
  have "distinct (map fst xs) \<Longrightarrow> map_of (map (\<lambda>(pid, e). (pid, e \<lparr> points := [] \<rparr>)) (filter (\<lambda>(pid, e). since e \<noteq> 0) xs)) pid =
    (case map_of xs pid of None \<Rightarrow> None | Some e \<Rightarrow> if since e = 0 then None else Some (e \<lparr> points := [] \<rparr>))"
    for xs :: "(int, sustainedEntry) gomap"
  proof (induction xs)
    case (Cons x xs)
    obtain k e where x: "x = (k, e)" by fastforce
    then have "map_of xs k = None" using Cons.prems by (simp add: map_of_eq_None_iff)
    then show ?case using Cons x by auto
  qed simp
  then show ?thesis using assms by (simp add: resetAfterGap_def mwf_def mkeys_def)
qed

lemma start_entry_ok:
  assumes "tracker_ok t" and "0 < now" and "map_of (entries (if gapped t now then resetAfterGap t else t)) pid = Some e"
  shows "entry_ok (cfg t) now e" and "\<exists>e0. map_of (entries t) pid = Some e0 \<and> since e = since e0"
proof -
  have w: "mwf (entries t)" using assms(1) by (simp add: tracker_ok_def)
  show "entry_ok (cfg t) now e"
  proof (cases "gapped t now")
    case True
    then have "points e = []" using assms(3) map_of_reset [OF w, of pid] by (auto split: option.splits if_splits)
    then show ?thesis by (simp add: entry_ok_def)
  next
    case False
    then have e: "entry_ok (cfg t) (last_at t) e" using assms(1,3) by (simp add: tracker_ok_def)
    show ?thesis
    proof (cases "last_at t = 0")
      case True
      then have "points e = []" using e unfolding entry_ok_def by (cases "points e") fastforce+
      then show ?thesis by (simp add: entry_ok_def)
    next
      case False
      then show ?thesis using \<open>\<not> gapped t now\<close> entry_ok_mono [OF e] by (simp add: gapped_def)
    qed
  qed
  show "\<exists>e0. map_of (entries t) pid = Some e0 \<and> since e = since e0"
    using assms(3) map_of_reset [OF w, of pid] by (auto split: option.splits if_splits)
qed

lemma before_eval_ok:
  assumes "tracker_ok t" and "0 < now" and "before_eval t now ps pid = Some e"
  shows "entry_ok (cfg t) now e" and "since e \<noteq> 0 \<Longrightarrow> \<exists>e0. map_of (entries t) pid = Some e0 \<and> since e = since e0"
proof -
  obtain p where p: "proc_entry (cfg t) now p (map_of (entries (if gapped t now then resetAfterGap t else t)) pid) = Some e"
    using assms(3) by (auto simp: before_eval_def split: option.splits)
  have st: "\<forall>e. map_of (entries (if gapped t now then resetAfterGap t else t)) pid = Some e \<longrightarrow> entry_ok (cfg t) now e"
    using start_entry_ok(1) [OF assms(1,2)] by blast
  note ok = proc_entry_ok [OF p st assms(2)]
  show "entry_ok (cfg t) now e" by (rule ok(1))
  show "\<exists>e0. map_of (entries t) pid = Some e0 \<and> since e = since e0" if "since e \<noteq> 0"
    using ok(2) [OF that] start_entry_ok(2) [OF assms(1,2)] by metis
qed

lemma evalEntry_points:
  assumes "fst (evalEntry c now pid e) = Some e'"
  shows "points e' = trimPoints (points e) (now - Window c)"
  using assms by (auto simp: evalEntry_def Let_def split: if_splits prod.splits)

theorem tracker_ok_Observe:
  assumes "tracker_ok t" and "0 < now" and "distinct (map po_PID ps)" and "Observe now ps t = (t', fs)"
  shows "tracker_ok t'"
proof -
  have w: "mwf (entries t)" using assms(1) by (simp add: tracker_ok_def)
  note O = Observe_entries [OF assms(4,3) w]
  have "entry_ok (cfg t) now e'" if m: "map_of (entries t') pid = Some e'" for pid e'
  proof -
    obtain e where e: "before_eval t now ps pid = Some e" "fst (evalEntry (cfg t) now pid e) = Some e'"
      using m O(4) [of pid] by (auto simp: bind_eq_Some_conv)
    have "entry_ok (cfg t) now (e \<lparr> points := trimPoints (points e) (now - Window (cfg t)) \<rparr>)"
      by (rule entry_ok_suffix [OF before_eval_ok(1) [OF assms(1,2) e(1)] trim_is_suffix])
    then show ?thesis using evalEntry_points [OF e(2)] by (simp add: entry_ok_def)
  qed
  then show ?thesis using O(1-3) by (simp add: tracker_ok_def)
qed

subsection \<open>What a finding means\<close>

lemma evalEntry_finding:
  assumes "snd (evalEntry c now pid e) = Some f" and "in_order (points e)"
  shows "\<exists>e' win. fst (evalEntry c now pid e) = Some e' \<and> points e' = trimPoints (points e) (now - Window c) \<and>
    win = filter (\<lambda>p. \<not> cp_at p < now - Window c) (points e) \<and> win \<noteq> [] \<and> since e' = Since f \<and> Since f \<noteq> 0 \<and>
    sf_PID f = pid \<and> sf_Started f = en_started e' \<and> Fraction f = fst (summarize win) \<and>
    (since e = 0 \<longrightarrow> t_sub now (cp_at (hd (points e'))) \<ge> Window c \<and> f_le (MinFraction c) (Fraction f) \<and>
       countAbove win \<ge> minAbovePoints c \<and> Since f = cp_at (hd win)) \<and>
    (since e \<noteq> 0 \<longrightarrow> Since f = since e)"
  using assms(1) inWindow_trim [OF assms(2), of "now - Window c"]
  by (auto simp: evalEntry_def Let_def split: if_splits prod.splits)

lemma minAbovePoints_ge: "minAbovePoints c \<ge> 3"
  by (simp add: minAbovePoints_def Let_def)

lemma minClearPoints_ge: "minClearPoints c \<ge> 2"
  by (simp add: minClearPoints_def Let_def)

text \<open>
  A process that was not firing is reported only on the evidence of its entry; \<open>tracker_run\<close> below
  ties the entry to the readings that were observed.
\<close>

theorem Observe_new_finding:
  assumes "tracker_ok t" and "0 < now" and "distinct (map po_PID ps)" and "Observe now ps t = (t', fs)"
    and "f \<in> set fs" and "\<forall>e. map_of (entries t) (sf_PID f) = Some e \<longrightarrow> since e = 0"
  obtains e win where "map_of (entries t') (sf_PID f) = Some e" and "entry_ok (cfg t) now e" and "points e \<noteq> []"
    and "t_sub now (cp_at (hd (points e))) \<ge> Window (cfg t)"
    and "win = filter (\<lambda>p. \<not> cp_at p < now - Window (cfg t)) (points e)"
    and "f_le (MinFraction (cfg t)) (fst (summarize win))" and "countAbove win \<ge> minAbovePoints (cfg t)"
    and "win \<noteq> []" and "Since f = cp_at (hd win)" and "sf_Started f = en_started e"
proof -
  have w: "mwf (entries t)" using assms(1) by (simp add: tracker_ok_def)
  note O = Observe_entries [OF assms(4,3) w]
  obtain pid e0 where e0: "before_eval t now ps pid = Some e0" "snd (evalEntry (cfg t) now pid e0) = Some f"
    using O(5) assms(5) by blast
  note ok0 = before_eval_ok [OF assms(1,2) e0(1)]
  have ord: "in_order (points e0)" using ok0(1) by (simp add: entry_ok_def)
  let ?c = "now - Window (cfg t)"
  obtain e win where e: "fst (evalEntry (cfg t) now pid e0) = Some e" "points e = trimPoints (points e0) ?c"
    "win = filter (\<lambda>p. \<not> cp_at p < ?c) (points e0)" "win \<noteq> []" "sf_PID f = pid" "Fraction f = fst (summarize win)" "sf_Started f = en_started e"
    "since e0 = 0 \<longrightarrow> t_sub now (cp_at (hd (points e))) \<ge> Window (cfg t) \<and> f_le (MinFraction (cfg t)) (Fraction f) \<and>
       countAbove win \<ge> minAbovePoints (cfg t) \<and> Since f = cp_at (hd win)"
    using evalEntry_finding [OF e0(2) ord] by blast
  have z: "since e0 = 0" using ok0(2) assms(6) e(5) by metis
  have m: "map_of (entries t') (sf_PID f) = Some e" using O(4) [of pid] e0(1) e(1,5) by simp
  have ok: "entry_ok (cfg t) now e"
    using tracker_ok_Observe [OF assms(1-4)] m O(2,3) by (metis tracker_ok_def)
  have "in_order (points e)" using ok by (simp add: entry_ok_def)
  then have win: "win = filter (\<lambda>p. \<not> cp_at p < ?c) (points e)"
    using inWindow_trim [of "points e" ?c] inWindow_trim [OF ord, of ?c] trim_trim [OF ord, of ?c] e(2,3) by simp
  show thesis
  proof (rule that [OF m ok _ _ win])
    show "points e \<noteq> []" using e(4) unfolding win by auto
    show "t_sub now (cp_at (hd (points e))) \<ge> Window (cfg t)" "f_le (MinFraction (cfg t)) (fst (summarize win))"
      "countAbove win \<ge> minAbovePoints (cfg t)" "win \<noteq> []" "Since f = cp_at (hd win)" "sf_Started f = en_started e"
      using e(4,6-8) z by auto
  qed
qed

text \<open>A gap between observations is never load: right after it, only processes already firing are reported.\<close>

lemma t_sub_self [simp]: "t_sub x x = 0"
  by (simp add: t_sub_def)

text \<open>Samples of the current instant alone never make a finding.\<close>

lemma evalEntry_fresh:
  assumes "in_order (points e)" and "since e = 0" and "\<forall>x\<in>set (points e). cp_at x = now" and "0 < Window c"
  shows "snd (evalEntry c now pid e) = None"
proof (rule ccontr)
  assume "snd (evalEntry c now pid e) \<noteq> None"
  then obtain f where f: "snd (evalEntry c now pid e) = Some f" by blast
  obtain e' :: sustainedEntry and win where e: "points e' = trimPoints (points e) (now - Window c)"
    "since e = 0 \<longrightarrow> t_sub now (cp_at (hd (points e'))) \<ge> Window c"
    and win: "win = filter (\<lambda>p. \<not> cp_at p < now - Window c) (points e)" "win \<noteq> []"
    using evalEntry_finding [OF f assms(1)] by blast
  have "points e' \<noteq> []" using e(1) win by auto
  then have "hd (points e') \<in> set (points e)"
    using e(1) set_mono_suffix [OF trim_is_suffix] hd_in_set by (metis subsetD)
  then have "t_sub now (cp_at (hd (points e'))) = 0" using assms(3) by simp
  then show False using e(2) assms(2,4) by simp
qed

theorem Observe_after_gap:
  assumes "tracker_ok t" and "0 < now" and "distinct (map po_PID ps)" and "Observe now ps t = (t', fs)"
    and "f \<in> set fs" and "gapped t now" and "0 < Window (cfg t)"
  shows "\<exists>e. map_of (entries t) (sf_PID f) = Some e \<and> since e = Since f \<and> Since f \<noteq> 0"
proof -
  have w: "mwf (entries t)" using assms(1) by (simp add: tracker_ok_def)
  note O = Observe_entries [OF assms(4,3) w]
  obtain pid e0 where e0: "before_eval t now ps pid = Some e0" "snd (evalEntry (cfg t) now pid e0) = Some f"
    using O(5) assms(5) by blast
  note ok0 = before_eval_ok [OF assms(1,2) e0(1)]
  have ord: "in_order (points e0)" using ok0(1) by (simp add: entry_ok_def)
  obtain p where p: "proc_entry (cfg t) now p (map_of (entries (resetAfterGap t)) pid) = Some e0"
    using e0(1) assms(6) by (auto simp: before_eval_def split: option.splits)
  have nopts: "\<forall>e. map_of (entries (resetAfterGap t)) pid = Some e \<longrightarrow> points e = []"
    using map_of_reset [OF w, of pid] by (auto split: option.splits if_splits)
  have b: "\<forall>e. Option.bind (map_of (entries (resetAfterGap t)) pid) (drop_entry p) = Some e \<longrightarrow> points e = []"
    using nopts drop_entry_points by (metis bind_eq_Some_conv)
  have pts: "\<forall>x\<in>set (points e0). cp_at x = now"
  proof (cases "po_Skip p")
    case True
    then show ?thesis using p b by (simp add: proc_entry_def Let_def)
  next
    case False
    then have r: "record_entry (cfg t) now p (Option.bind (map_of (entries (resetAfterGap t)) pid) (drop_entry p)) = Some e0"
      using p by (simp add: proc_entry_def Let_def)
    have "\<forall>e. Option.bind (map_of (entries (resetAfterGap t)) pid) (drop_entry p) = Some e \<longrightarrow> entry_ok (cfg t) now e"
      using b by (simp add: entry_ok_def)
    then obtain e where "e0 = e \<lparr> points := add_point (cfg t) now p e, lastGood := now \<rparr>" "points e = []"
      using record_entry_ok [OF r _ assms(2)] b by blast
    then show ?thesis by (simp add: add_point_def)
  qed
  have fin: "sf_PID f = pid" "since e0 \<noteq> 0 \<longrightarrow> Since f = since e0" "Since f \<noteq> 0"
    using evalEntry_finding [OF e0(2) ord] by blast+
  have "since e0 \<noteq> 0" using evalEntry_fresh [OF ord _ pts assms(7), of pid] e0(2) by auto
  then show ?thesis using ok0(2) fin by metis
qed

interpretation by_pid: comparator pid_less
  by unfold_locales (auto simp: pid_less_def)

theorem Observe_sorted:
  assumes "distinct (map po_PID ps)" and "mwf (entries t)" and "Observe now ps t = (t', fs)"
  shows "sorted_wrt (\<lambda>f g. sf_PID f \<le> sf_PID g) fs"
proof -
  have "\<exists>xs. fs = sort_slice pid_less xs"
    using assms(3) by (auto simp: Observe_def tracker_evaluate_def Let_def split: prod.splits)
  then obtain xs where "fs = sort_slice pid_less xs" ..
  then have "sorted_wrt (\<lambda>x y. \<not> pid_less y x) fs" by (simp add: by_pid.sorted_sort_slice)
  then show ?thesis by (simp add: pid_less_def not_less)
qed

subsection \<open>Start times\<close>

text \<open>
  The comparison of start times saturates and then negates: an unknown (zero) recorded start matches
  every start more than \<open>2\<^sup>6\<^sup>3\<close> nanoseconds later, although the arguments swapped do not match.
\<close>

theorem sameStart_zero:
  assumes "2 ^ 63 \<le> x"
  shows "sameStart 0 x" and "\<not> sameStart x 0"
proof -
  have "t_sub 0 x = - (2 ^ 63)" "t_sub x 0 = 2 ^ 63 - 1" using assms by (auto simp: t_sub_def)
  moreover have "wrap64 (2 ^ 63) = - (2 ^ 63)" by (simp add: wrap64_def)
  ultimately show "sameStart 0 x" "\<not> sameStart x 0" by (simp_all add: sameStart_def startTolerance_def Second_def)
qed

text \<open>Within the range of a duration it is the symmetric tolerance the comment describes.\<close>

theorem sameStart_iff:
  assumes "\<bar>a - b\<bar> < 2 ^ 63"
  shows "sameStart a b \<longleftrightarrow> \<bar>a - b\<bar> \<le> startTolerance"
proof -
  have "t_sub a b = a - b" using assms by (simp add: t_sub_def)
  moreover have "wrap64 (- (a - b)) = - (a - b)" using assms by (intro wrap64_id) auto
  ultimately show ?thesis by (simp add: sameStart_def Let_def)
qed

text \<open>
  What the comparison accepts, written out: starts at most three seconds apart, and, since the least
  duration is its own negation, any start that lies \<open>2\<^sup>6\<^sup>3\<close> nanoseconds or more after the recorded one.
\<close>

definition same_process :: "time \<Rightarrow> time \<Rightarrow> bool" where
  "same_process recorded start \<longleftrightarrow> \<bar>start - recorded\<bar> \<le> 3 * 10 ^ 9 \<or> 2 ^ 63 \<le> start - recorded"

lemma sameStart_exact: "sameStart a b \<longleftrightarrow> same_process a b"
proof (cases "\<bar>a - b\<bar> < 2 ^ 63")
  case True
  then show ?thesis
    using sameStart_iff [OF True] by (auto simp: same_process_def startTolerance_def Second_def)
next
  case False
  then consider "2 ^ 63 \<le> b - a" | "2 ^ 63 \<le> a - b" by linarith
  then show ?thesis
  proof cases
    case 1
    then have "t_sub a b = - (2 ^ 63)" by (auto simp: t_sub_def)
    then show ?thesis using 1
      by (simp add: sameStart_def same_process_def startTolerance_def Second_def wrap64_def)
  next
    case 2
    then have "t_sub a b = 2 ^ 63 - 1" by (auto simp: t_sub_def)
    then show ?thesis using 2 by (auto simp: sameStart_def same_process_def startTolerance_def Second_def)
  qed
qed

subsection \<open>Reused identifiers\<close>

lemma find_proc:
  assumes "p \<in> set ps" and "watched (cfg t) p" and "distinct (map po_PID ps)"
  shows "find (\<lambda>q. po_PID q = po_PID p \<and> watched (cfg t) q) ps = Some p"
  using assms by (induction ps) (auto simp: image_iff)

lemma before_eval_proc:
  assumes "p \<in> set ps" and "watched (cfg t) p" and "distinct (map po_PID ps)" and "\<not> gapped t now"
  shows "before_eval t now ps (po_PID p) = proc_entry (cfg t) now p (map_of (entries t) (po_PID p))"
  using find_proc [OF assms(1-3)] assms(4) by (simp add: before_eval_def)

text \<open>
  The entry belongs to another process than the one observed: the start times do not match or, for an
  entry restored after a restart that has not been matched yet, the names do not. A restored entry
  without a recorded start is identified by its name alone.
\<close>

definition other_owner :: "sustainedEntry \<Rightarrow> ProcObs \<Rightarrow> bool" where
  "other_owner e p \<longleftrightarrow>
     (if adopt e
      then path_base (po_Name p) \<noteq> path_base (en_name e) \<or>
           en_started e \<noteq> 0 \<and> \<not> same_process (en_started e) (po_Started p)
      else \<not> same_process (en_started e) (po_Started p))"

lemma drop_entry_None: "drop_entry p e = None \<longleftrightarrow> other_owner e p"
  by (cases "adopt e") (auto simp: drop_entry_def other_owner_def sameStart_exact)

lemma before_eval_reused:
  assumes "mwf (entries t)" and "p \<in> set ps" and "watched (cfg t) p" and "distinct (map po_PID ps)"
    and "map_of (entries t) (po_PID p) = Some e" and "other_owner e p"
  shows "before_eval t now ps (po_PID p) = (if po_Skip p then None else record_entry (cfg t) now p None)"
proof -
  have "other_owner (e \<lparr> points := [] \<rparr>) p \<longleftrightarrow> other_owner e p" by (simp add: other_owner_def)
  then have "Option.bind (map_of (entries (if gapped t now then resetAfterGap t else t)) (po_PID p)) (drop_entry p) = None"
    using assms(5,6) map_of_reset [OF assms(1), of "po_PID p"] by (auto simp: drop_entry_None)
  then show ?thesis using find_proc [OF assms(2-4)] by (simp add: before_eval_def proc_entry_def)
qed

lemma before_eval_forget:
  assumes "mwf (entries t)" and "p \<in> set ps" and "watched (cfg t) p" and "distinct (map po_PID ps)"
    and "map_of (entries t) (po_PID p) = Some e" and "other_owner e p"
  shows "before_eval (t \<lparr> entries := mdel (po_PID p) (entries t) \<rparr>) now ps = before_eval t now ps"
proof
  let ?t = "t \<lparr> entries := mdel (po_PID p) (entries t) \<rparr>"
  have w: "mwf (entries ?t)" using assms(1) by simp
  have g: "gapped ?t now = gapped t now" by (simp add: gapped_def)
  fix pid
  show "before_eval ?t now ps pid = before_eval t now ps pid"
  proof (cases "pid = po_PID p")
    case True
    have "map_of (entries (if gapped ?t now then resetAfterGap ?t else ?t)) (po_PID p) = None"
      by (simp add: map_of_reset [OF w])
    then show ?thesis
      using before_eval_reused [OF assms] find_proc [OF assms(2-4)] True by (simp add: before_eval_def proc_entry_def)
  next
    case False
    then have "map_of (entries (if gapped ?t now then resetAfterGap ?t else ?t)) pid =
        map_of (entries (if gapped t now then resetAfterGap t else t)) pid"
      by (simp add: g map_of_reset [OF w] map_of_reset [OF assms(1)])
    moreover have "cfg ?t = cfg t" by simp
    ultimately show ?thesis unfolding before_eval_def by (simp only:)
  qed
qed

definition fresh_entry :: "SustainedConfig \<Rightarrow> time \<Rightarrow> ProcObs \<Rightarrow> sustainedEntry" where
  "fresh_entry c now p =
     \<lparr> en_name = po_Name p, en_started = po_Started p,
       points = [\<lparr> cp_at = now, above = f_le (s_CPUPct c) (po_CPUPct p), cpu = po_CPUPct p \<rparr>],
       since = 0, lastGood = now, adopt = False \<rparr>"

lemma record_entry_fresh: "record_entry c now p None = Some e \<Longrightarrow> e = fresh_entry c now p"
  by (auto simp: record_entry_def fresh_entry_def add_point_def staleHistory_def Let_def split: if_splits)

lemma evalEntry_fresh_entry:
  "snd (evalEntry c now pid (fresh_entry c now p)) = None"
  "fst (evalEntry c now pid (fresh_entry c now p)) = Some e \<Longrightarrow> e = fresh_entry c now p"
proof -
  let ?e = "fresh_entry c now p"
  show f: "snd (evalEntry c now pid ?e) = None"
  proof (cases "0 < Window c")
    case True
    then show ?thesis by (intro evalEntry_fresh) (simp_all add: fresh_entry_def)
  next
    case False
    then show ?thesis by (simp add: evalEntry_def fresh_entry_def)
  qed
  show "e = ?e" if "fst (evalEntry c now pid ?e) = Some e"
    using that f by (auto simp: evalEntry_def fresh_entry_def inWindow_def Let_def split: if_splits prod.splits)
qed

text \<open>
  A process identifier that now belongs to another process: the observation does exactly what it would
  do had the entry of the previous owner never existed, the identifier is not reported, and what is kept
  for it is at most the reading just taken.
\<close>

theorem Observe_reused_pid:
  assumes "tracker_ok t" and "distinct (map po_PID ps)" and "Observe now ps t = (t', fs)"
    and "p \<in> set ps" and "watched (cfg t) p" and "map_of (entries t) (po_PID p) = Some e" and "other_owner e p"
    and "Observe now ps (t \<lparr> entries := mdel (po_PID p) (entries t) \<rparr>) = (t'', fs'')"
  shows "map_of (entries t') = map_of (entries t'') \<and> set fs = set fs''"
    and "po_PID p \<notin> sf_PID ` set fs"
    and "map_of (entries t') (po_PID p) = Some e' \<Longrightarrow> e' = fresh_entry (cfg t) now p"
proof -
  have w: "mwf (entries t)" using assms(1) by (simp add: tracker_ok_def)
  then have w': "mwf (entries (t \<lparr> entries := mdel (po_PID p) (entries t) \<rparr>))" by simp
  note O = Observe_entries [OF assms(3,2) w] and O' = Observe_entries [OF assms(8,2) w']
  have b: "before_eval (t \<lparr> entries := mdel (po_PID p) (entries t) \<rparr>) now ps = before_eval t now ps"
    by (rule before_eval_forget [OF w assms(4,5,2,6,7)])
  have c: "cfg (t \<lparr> entries := mdel (po_PID p) (entries t) \<rparr>) = cfg t" by simp
  have "map_of (entries t') pid = map_of (entries t'') pid" for pid using O(4) [of pid] O'(4) [of pid] by (simp add: b c)
  moreover have "f \<in> set fs \<longleftrightarrow> f \<in> set fs''" for f using O(5) [of f] O'(5) [of f] by (simp add: b c)
  ultimately show "map_of (entries t') = map_of (entries t'') \<and> set fs = set fs''" by blast
  have fr: "e0 = fresh_entry (cfg t) now p" if "before_eval t now ps (po_PID p) = Some e0" for e0
    using that before_eval_reused [OF w assms(4,5,2,6,7)] by (auto intro: record_entry_fresh split: if_splits)
  have pid: "pid = sf_PID f" if "snd (evalEntry (cfg t) now pid e) = Some f" for pid e f
    using that by (auto simp: evalEntry_def Let_def split: if_splits prod.splits)
  show "po_PID p \<notin> sf_PID ` set fs"
    using O(5) pid fr evalEntry_fresh_entry(1) by (metis imageE option.distinct(1))
  show "e' = fresh_entry (cfg t) now p" if "map_of (entries t') (po_PID p) = Some e'"
    using that O(4) fr evalEntry_fresh_entry(2) by (auto simp: bind_eq_Some_conv)
qed

subsection \<open>The readings behind an entry\<close>

text \<open>
  The life of a tracker from its creation, with the observations it was given: restored findings are
  seeded at any time, and every observation lists each process once.
\<close>

type_synonym history = "(time \<times> ProcObs list) list"

inductive tracker_run :: "SustainedConfig \<Rightarrow> history \<Rightarrow> SustainedTracker \<Rightarrow> bool" for c where
  run_new: "tracker_run c [] (NewSustainedTracker c)"
| run_seed: "tracker_run c H t \<Longrightarrow> tracker_run c H (Seed now pid name snc started t)"
| run_observe: "tracker_run c H t \<Longrightarrow> 0 < now \<Longrightarrow> distinct (map po_PID ps) \<Longrightarrow> Observe now ps t = (t', fs) \<Longrightarrow>
    tracker_run c (H @ [(now, ps)]) t'"

text \<open>The CPU readings that were observed for a process identifier, with their times.\<close>

definition readings :: "int \<Rightarrow> history \<Rightarrow> (time \<times> ProcObs) list" where
  "readings pid H =
     concat (map (\<lambda>(now, ps). map (Pair now) (filter (\<lambda>p. po_PID p = pid \<and> \<not> po_Skip p) ps)) H)"

definition point_of :: "SustainedConfig \<Rightarrow> time \<times> ProcObs \<Rightarrow> cpuPoint" where
  "point_of c r = \<lparr> cp_at = fst r, above = f_le (s_CPUPct c) (po_CPUPct (snd r)), cpu = po_CPUPct (snd r) \<rparr>"

definition traced :: "SustainedConfig \<Rightarrow> (time \<times> ProcObs) list \<Rightarrow> sustainedEntry \<Rightarrow> bool" where
  "traced c R e \<longleftrightarrow> (adopt e \<longrightarrow> points e = []) \<and>
     (\<exists>rs. suffix rs R \<and> points e = map (point_of c) rs \<and>
        (\<forall>r\<in>set rs. same_process (en_started e) (po_Started (snd r))))"

lemma traced_empty: "points e = [] \<Longrightarrow> traced c R e"
  by (auto simp: traced_def)

lemma traced_suffix:
  assumes "traced c R e" and "suffix (points e') (points e)" and "en_started e' = en_started e" and "adopt e' = adopt e"
  shows "traced c R e'"
proof -
  obtain rs where rs: "suffix rs R" "points e = map (point_of c) rs"
    "\<forall>r\<in>set rs. same_process (en_started e) (po_Started (snd r))"
    using assms(1) by (auto simp: traced_def)
  obtain us vs where uv: "rs = us @ vs" "points e' = map (point_of c) vs"
    using assms(2) rs(2) by (auto simp: suffix_def map_eq_append_conv)
  have "suffix vs R" using rs(1) uv(1) by (metis suffix_def suffix_order.order_trans)
  moreover have "adopt e' \<longrightarrow> points e' = []" using assms(1,2,4) by (auto simp: traced_def)
  ultimately show ?thesis using rs(3) uv assms(3) by (auto simp: traced_def)
qed

lemma drop_traced:
  assumes "drop_entry p e = Some e'" and "traced c R e"
  shows "traced c R e' \<and> \<not> adopt e' \<and> same_process (en_started e') (po_Started p)"
proof (cases "adopt e")
  case True
  then have "e' = e \<lparr> en_started := po_Started p, adopt := False \<rparr>"
    using assms(1) by (auto simp: drop_entry_def split: if_splits)
  moreover have "points e = []" using True assms(2) by (simp add: traced_def)
  ultimately show ?thesis using traced_empty [of e'] by (simp add: same_process_def)
next
  case False
  then show ?thesis using assms by (auto simp: drop_entry_def sameStart_exact split: if_splits)
qed

lemma record_traced:
  assumes "record_entry c now p eo = Some e'"
    and "\<And>e. eo = Some e \<Longrightarrow> traced c R e \<and> \<not> adopt e \<and> same_process (en_started e) (po_Started p)"
  shows "traced c (R @ [(now, p)]) e'"
proof (cases eo)
  case None
  then have e': "e' = fresh_entry c now p" using assms(1) record_entry_fresh by blast
  have "suffix [(now, p)] (R @ [(now, p)])" by (simp add: suffix_def)
  then show ?thesis unfolding traced_def e'
    by (intro conjI exI [of _ "[(now, p)]"]) (simp_all add: fresh_entry_def point_of_def same_process_def)
next
  case (Some e)
  have e': "e' = e \<lparr> points := add_point c now p e, lastGood := now \<rparr>"
    using assms(1) Some by (auto simp: record_entry_def Let_def split: if_splits)
  obtain rs where rs: "suffix rs R" "points e = map (point_of c) rs"
    "\<forall>r\<in>set rs. same_process (en_started e) (po_Started (snd r))" "\<not> adopt e" "same_process (en_started e) (po_Started p)"
    using assms(2) [OF Some] by (auto simp: traced_def)
  let ?rs = "(if staleHistory c e now then [] else rs) @ [(now, p)]"
  let ?e = "e \<lparr> points := map (point_of c) ?rs \<rparr>"
  have "suffix ?rs (R @ [(now, p)])" using rs(1) by (auto simp: suffix_def)
  then have "traced c (R @ [(now, p)]) ?e"
    unfolding traced_def using rs(3-5) by (intro conjI exI [of _ ?rs]) auto
  moreover have "points e' = trimPoints (points ?e) (now - Window c)"
    unfolding e' add_point_def using rs(2) by (simp add: point_of_def)
  then have "suffix (points e') (points ?e)" by (simp only: trim_is_suffix)
  ultimately show ?thesis by (rule traced_suffix) (simp_all add: e')
qed

lemma readings_snoc:
  assumes "p \<in> set ps" and "distinct (map po_PID ps)"
  shows "readings (po_PID p) (H @ [(now, ps)]) = readings (po_PID p) H @ (if po_Skip p then [] else [(now, p)])"
proof -
  have "filter (\<lambda>q. po_PID q = po_PID p \<and> \<not> po_Skip q) ps = (if po_Skip p then [] else [p])"
    using assms
  proof (induction ps)
    case (Cons q ps)
    show ?case
    proof (cases "q = p")
      case True
      then have "filter (\<lambda>q. po_PID q = po_PID p \<and> \<not> po_Skip q) ps = []"
        using Cons.prems(2) by (auto simp: filter_empty_conv image_iff)
      then show ?thesis using True by simp
    next
      case False
      then have "po_PID q \<noteq> po_PID p" using Cons.prems by (auto simp: image_iff)
      then show ?thesis using Cons False by simp
    qed
  qed simp
  then show ?thesis by (simp add: readings_def)
qed

lemma before_eval_traced:
  assumes "before_eval t now ps pid = Some e" and "mwf (entries t)" and "distinct (map po_PID ps)"
    and "\<And>e. map_of (entries t) pid = Some e \<Longrightarrow> traced (cfg t) (readings pid H) e"
  shows "traced (cfg t) (readings pid (H @ [(now, ps)])) e"
proof -
  let ?eo = "map_of (entries (if gapped t now then resetAfterGap t else t)) pid"
  obtain p where f: "find (\<lambda>p. po_PID p = pid \<and> watched (cfg t) p) ps = Some p"
    and e: "proc_entry (cfg t) now p ?eo = Some e"
    using assms(1) by (auto simp: before_eval_def split: option.splits)
  then have p: "p \<in> set ps" "po_PID p = pid" by (auto simp: find_Some_iff)
  have "traced (cfg t) (readings pid H) x" if "?eo = Some x" for x
    using that assms(4) map_of_reset [OF assms(2), of pid] traced_empty by (auto split: if_splits option.splits)
  then have d: "traced (cfg t) (readings pid H) x \<and> \<not> adopt x \<and> same_process (en_started x) (po_Started p)"
    if "Option.bind ?eo (drop_entry p) = Some x" for x
    using that drop_traced by (auto simp: bind_eq_Some_conv)
  have r: "readings pid (H @ [(now, ps)]) = readings pid H @ (if po_Skip p then [] else [(now, p)])"
    using readings_snoc [OF p(1) assms(3)] p(2) by simp
  show ?thesis
  proof (cases "po_Skip p")
    case True
    then show ?thesis using e d unfolding r by (simp add: proc_entry_def)
  next
    case False
    then have "record_entry (cfg t) now p (Option.bind ?eo (drop_entry p)) = Some e" using e by (simp add: proc_entry_def)
    then have "traced (cfg t) (readings pid H @ [(now, p)]) e" using d by (rule record_traced)
    then show ?thesis unfolding r using False by simp
  qed
qed

lemma evalEntry_kept:
  assumes "fst (evalEntry c now pid e) = Some e'"
  shows "points e' = trimPoints (points e) (now - Window c) \<and> en_started e' = en_started e \<and> adopt e' = adopt e"
  using assms by (auto simp: evalEntry_def Let_def split: if_splits prod.splits)

theorem tracker_run_ok:
  assumes "tracker_run c H t"
  shows "cfg t = c" and "tracker_ok t"
    and "map_of (entries t) pid = Some e \<Longrightarrow> traced c (readings pid H) e"
proof -
  have "cfg t = c \<and> tracker_ok t \<and> (\<forall>pid e. map_of (entries t) pid = Some e \<longrightarrow> traced c (readings pid H) e)"
    using assms
  proof induction
    case run_new
    show ?case by (simp add: NewSustainedTracker_def tracker_ok_def)
  next
    case (run_seed H t now pid name snc started)
    then show ?case by (auto simp: Seed_def tracker_ok_def entry_ok_def traced_empty)
  next
    case (run_observe H t now ps t' fs)
    then have ok: "cfg t = c" "tracker_ok t" and w: "mwf (entries t)" by (auto simp: tracker_ok_def)
    note O = Observe_entries [OF run_observe(4,3) w]
    have "traced c (readings pid (H @ [(now, ps)])) e" if m: "map_of (entries t') pid = Some e" for pid e
    proof -
      obtain e0 where e0: "before_eval t now ps pid = Some e0" "fst (evalEntry (cfg t) now pid e0) = Some e"
        using m O(4) [of pid] by (auto simp: bind_eq_Some_conv)
      have "traced c (readings pid (H @ [(now, ps)])) e0"
        using before_eval_traced [OF e0(1) w run_observe(3)] run_observe.IH ok by blast
      then show ?thesis using evalEntry_kept [OF e0(2)] trim_is_suffix by (metis traced_suffix)
    qed
    then show ?case using ok O(2) tracker_ok_Observe [OF ok(2) run_observe(2,3,4)] by simp
  qed
  then show "cfg t = c" "tracker_ok t" "map_of (entries t) pid = Some e \<Longrightarrow> traced c (readings pid H) e" by auto
qed

lemma summarize_share:
  "fst (summarize ps) = f_div (f_of_int (int (length (filter above ps)))) (f_of_int (int (length ps)))"
proof -
  have "fst (fold (\<lambda>p (n, s). (if above p then n + 1 else n, f_add s (cpu p))) ps (n, s)) =
      n + int (length (filter above ps))" for n :: int and s
    by (induction ps arbitrary: n s) auto
  from this [of 0 "Fin 0"] show ?thesis by (auto simp: summarize_def Let_def split: prod.splits)
qed

text \<open>
  The evidence for a finding, in terms of what was observed: the latest readings \<open>rs\<close> of the process,
  in the order of time and all of the same process, begin a whole window ago or earlier; with a known
  sampling interval no two neighbours are more than twice the longest tick apart. Of those inside the
  window, enough are at or above the threshold, in number and in share, and the first of them is the
  reported start.
\<close>

definition evidence :: "SustainedConfig \<Rightarrow> time \<Rightarrow> SustainedFinding \<Rightarrow> (time \<times> ProcObs) list \<Rightarrow> bool" where
  "evidence c now f rs \<longleftrightarrow>
     rs \<noteq> [] \<and> sorted (map fst rs) \<and> fst (last rs) \<le> now \<and> fst (hd rs) \<le> now - Window c \<and>
     (\<forall>r\<in>set rs. same_process (sf_Started f) (po_Started (snd r))) \<and>
     (0 < s_Interval c \<longrightarrow> successively (\<lambda>r q. t_sub (fst q) (fst r) \<le> 8 * s_Interval c) rs) \<and>
     (let win = filter (\<lambda>r. now - Window c \<le> fst r) rs;
          hot = filter (\<lambda>r. f_le (s_CPUPct c) (po_CPUPct (snd r))) win
      in win \<noteq> [] \<and> Since f = fst (hd win) \<and> 3 \<le> length hot \<and>
         (0 < s_Interval c \<longrightarrow> Window c div (4 * s_Interval c) div 2 \<le> int (length hot)) \<and>
         f_le (MinFraction c) (f_div (f_of_int (int (length hot))) (f_of_int (int (length win)))))"

lemma points_evidence:
  assumes "entry_ok c now e" and "points e = map (point_of c) rs" and "rs \<noteq> []"
    and "\<forall>r\<in>set rs. same_process (en_started e) (po_Started (snd r))"
    and "Window c \<le> t_sub now (cp_at (hd (points e)))"
    and "win = filter (\<lambda>p. \<not> cp_at p < now - Window c) (points e)" and "win \<noteq> []"
    and "f_le (MinFraction c) (fst (summarize win))" and "minAbovePoints c \<le> countAbove win"
    and "Since f = cp_at (hd win)" and "sf_Started f = en_started e"
  shows "evidence c now f rs"
proof -
  let ?in = "filter (\<lambda>r. now - Window c \<le> fst r) rs"
  let ?hot = "filter (\<lambda>r. f_le (s_CPUPct c) (po_CPUPct (snd r))) ?in"
  have at: "cp_at (point_of c r) = fst r" and ab: "above (point_of c r) = f_le (s_CPUPct c) (po_CPUPct (snd r))" for r
    by (simp_all add: point_of_def)
  have win: "win = map (point_of c) ?in" by (simp add: assms(2,6) filter_map comp_def at not_less)
  have hot: "length (filter above win) = length ?hot" by (simp add: win filter_map comp_def ab)
  have le: "fst r \<le> now" if "r \<in> set rs" for r using assms(1,2) that by (auto simp: entry_ok_def at)
  have "fst (hd rs) \<le> now" "fst (last rs) \<le> now" using le assms(3) by auto
  moreover have "cp_at (hd (points e)) = fst (hd rs)" using assms(2,3) by (simp add: hd_map at)
  ultimately have "fst (hd rs) \<le> now - Window c" using assms(5) by (auto simp: t_sub_def split: if_splits)
  moreover have "sorted (map fst rs)" using assms(1,2) by (simp add: entry_ok_def sorted_wrt_map sorted_map at)
  moreover have "0 < s_Interval c \<longrightarrow> successively (\<lambda>r q. t_sub (fst q) (fst r) \<le> 8 * s_Interval c) rs"
    using assms(1,2) by (simp add: entry_ok_def successively_map at)
  moreover have "?in \<noteq> []" using assms(7) win by auto
  moreover have "Since f = fst (hd ?in)" using assms(10) win calculation by (simp add: hd_map at)
  moreover have "3 \<le> length ?hot" "0 < s_Interval c \<longrightarrow> Window c div (4 * s_Interval c) div 2 \<le> int (length ?hot)"
    using assms(9) unfolding countAbove_eq hot by (auto simp: minAbovePoints_def capacity_def Let_def split: if_splits)
  moreover have "f_le (MinFraction c) (f_div (f_of_int (int (length ?hot))) (f_of_int (int (length ?in))))"
    using assms(8) unfolding summarize_share hot by (simp add: win)
  ultimately show ?thesis
    using assms(3,4,11) \<open>fst (last rs) \<le> now\<close> unfolding evidence_def Let_def by simp
qed

theorem Observe_evidence:
  assumes "tracker_run c H t" and "0 < now" and "distinct (map po_PID ps)" and "Observe now ps t = (t', fs)"
    and "f \<in> set fs" and "\<forall>e. map_of (entries t) (sf_PID f) = Some e \<longrightarrow> since e = 0"
  shows "\<exists>rs. suffix rs (readings (sf_PID f) (H @ [(now, ps)])) \<and> evidence c now f rs"
proof -
  note ok = tracker_run_ok(1,2) [OF assms(1)]
  obtain e win where m: "map_of (entries t') (sf_PID f) = Some e" and e: "entry_ok c now e" "points e \<noteq> []"
    "Window c \<le> t_sub now (cp_at (hd (points e)))"
    "win = filter (\<lambda>p. \<not> cp_at p < now - Window c) (points e)" "f_le (MinFraction c) (fst (summarize win))"
    "minAbovePoints c \<le> countAbove win" "win \<noteq> []" "Since f = cp_at (hd win)" "sf_Started f = en_started e"
    using Observe_new_finding [OF ok(2) assms(2-6)] unfolding ok(1) by blast
  have "tracker_run c (H @ [(now, ps)]) t'" by (rule run_observe [OF assms(1-4)])
  from tracker_run_ok(3) [OF this m] obtain rs where rs: "suffix rs (readings (sf_PID f) (H @ [(now, ps)]))"
    "points e = map (point_of c) rs" "\<forall>r\<in>set rs. same_process (en_started e) (po_Started (snd r))"
    by (auto simp: traced_def)
  then have "rs \<noteq> []" using e(2) by auto
  from points_evidence [OF e(1) rs(2) this rs(3) e(3,4,7,5,6,8,9)] rs(1) show ?thesis by blast
qed

subsection \<open>Hysteresis\<close>

lemma lastBelow_2: "\<not> lastBelow (xs @ [p, q]) 2" if "above p"
  using that by (simp add: lastBelow_def)

lemma filter_snoc2:
  assumes "ps \<noteq> []" and "P (last ps)" and "P x"
  shows "\<exists>ys. filter P (ps @ [x]) = ys @ [last ps, x]"
proof -
  obtain qs q where "ps = qs @ [q]" using assms(1) by (cases ps rule: rev_cases) auto
  then show ?thesis using assms by simp
qed

text \<open>
  A finding whose latest sample was above the threshold survives the next sample, however low: it is
  reported again with the same start.
\<close>

theorem Observe_one_low_sample:
  assumes "tracker_ok t" and "0 < now" and "distinct (map po_PID ps)" and "Observe now ps t = (t', fs)"
    and "p \<in> set ps" and "watched (cfg t) p" and "\<not> gapped t now" and "0 < Window (cfg t)" and "\<not> po_Skip p"
    and "map_of (entries t) (po_PID p) = Some e" and "\<not> adopt e" and "sameStart (en_started e) (po_Started p)"
    and "since e \<noteq> 0" and "points e \<noteq> []" and "above (last (points e))"
    and "now - Window (cfg t) \<le> cp_at (last (points e))" and "\<not> staleHistory (cfg t) e now"
  shows "\<exists>f\<in>set fs. sf_PID f = po_PID p \<and> Since f = since e"
proof -
  let ?c = "cfg t" let ?cut = "now - Window (cfg t)"
  let ?x = "\<lparr> cp_at = now, above = f_le (s_CPUPct ?c) (po_CPUPct p), cpu = po_CPUPct p \<rparr>"
  have w: "mwf (entries t)" using assms(1) by (simp add: tracker_ok_def)
  have drp: "Option.bind (map_of (entries t) (po_PID p)) (drop_entry p) = Some e"
    using assms(10-12) by (simp add: drop_entry_def)
  have "map_of (entries (if gapped t now then resetAfterGap t else t)) (po_PID p) = Some e" using assms(7,10) by simp
  from start_entry_ok(1) [OF assms(1,2) this] have ok: "entry_ok ?c now e" .
  have ap: "add_point ?c now p e = trimPoints (points e @ [?x]) ?cut" using assms(17) by (simp add: add_point_def)
  have ord: "in_order (points e @ [?x])" using ok by (auto simp: entry_ok_def sorted_wrt_append)
  obtain ys where ys: "filter (\<lambda>p. \<not> cp_at p < ?cut) (points e @ [?x]) = ys @ [last (points e), ?x]"
    using filter_snoc2 [OF assms(14), of "\<lambda>p. \<not> cp_at p < ?cut" ?x] assms(8,16) by (auto simp: not_less)
  have win: "inWindow (add_point ?c now p e) ?cut = ys @ [last (points e), ?x]"
    unfolding ap inWindow_trim [OF ord] ys ..
  define e0 where "e0 = e \<lparr> points := add_point ?c now p e, lastGood := now \<rparr>"
  have "record_entry ?c now p (Some e) = Some e0"
    using assms(15) by (simp add: record_entry_def win anyAbove_def e0_def)
  then have b: "before_eval t now ps (po_PID p) = Some e0"
    using before_eval_proc [OF assms(5,6,3,7)] drp assms(9) by (simp add: proc_entry_def)
  have pts: "trimPoints (points e0) ?cut = add_point ?c now p e"
    unfolding e0_def ap using trim_trim [OF ord, of ?cut] by simp
  have e0: "since e0 = since e" "lastGood e0 = now" by (simp_all add: e0_def)
  have ev: "\<exists>f. snd (evalEntry ?c now (po_PID p) e0) = Some f \<and> sf_PID f = po_PID p \<and> Since f = since e"
    using assms(8,13) lastBelow_2 [OF assms(15), of ys ?x]
    by (auto simp: evalEntry_def Let_def pts win e0 split: prod.splits)
  then show ?thesis using Observe_entries(5) [OF assms(4,3) w] b by blast
qed

subsection \<open>The owner chain\<close>

lemma chainLoop_append: "\<exists>more. chainLoop table n cur seen rv = rv @ more \<and> length more \<le> n"
proof (induction table n cur seen rv rule: chainLoop.induct)
  case (2 table n cur seen rv)
  show ?case
  proof (cases "cur \<in> set seen \<or> map_of table cur = None")
    case True
    then show ?thesis by auto
  next
    case False
    then obtain p where p: "map_of table cur = Some p" by auto
    show ?thesis
    proof (cases "po_PPID p \<le> 0")
      case True
      then show ?thesis using False p by (simp add: Let_def)
    next
      case pos: False
      from "2.IH" False p pos obtain more where
        "chainLoop table n (po_PPID p) (cur # seen) (rv @ [\<lparr> cl_PID = po_PID p, cl_Name = path_base (po_Name p) \<rparr>]) =
           (rv @ [\<lparr> cl_PID = po_PID p, cl_Name = path_base (po_Name p) \<rparr>]) @ more" "length more \<le> n" by auto
      then show ?thesis using False p pos by (simp add: Let_def)
    qed
  qed
qed simp

text \<open>The chain is bounded, names no process twice, and ends with the process itself.\<close>

lemma chainLoop_distinct:
  assumes "\<forall>k p. map_of table k = Some p \<longrightarrow> po_PID p = k" and "distinct (map cl_PID rv)"
    and "set (map cl_PID rv) = set seen"
  shows "distinct (map cl_PID (chainLoop table n cur seen rv))"
  using assms
proof (induction table n cur seen rv rule: chainLoop.induct)
  case (2 table n cur seen rv)
  show ?case
  proof (cases "cur \<in> set seen \<or> map_of table cur = None")
    case True
    then show ?thesis using "2.prems"(2) by auto
  next
    case False
    then obtain p where p: "map_of table cur = Some p" by auto
    then have pid: "po_PID p = cur" using "2.prems"(1) by simp
    let ?rv = "rv @ [\<lparr> cl_PID = po_PID p, cl_Name = path_base (po_Name p) \<rparr>]"
    have d: "distinct (map cl_PID ?rv)" "set (map cl_PID ?rv) = set (cur # seen)"
      using "2.prems"(2,3) False pid by auto
    show ?thesis
    proof (cases "po_PPID p \<le> 0")
      case True
      then show ?thesis using False p d(1) by (simp add: Let_def)
    next
      case pos: False
      have "distinct (map cl_PID (chainLoop table n (po_PPID p) (cur # seen) ?rv))"
        using "2.IH" False p pos "2.prems"(1) d by blast
      then show ?thesis using False p pos by (simp add: Let_def)
    qed
  qed
qed simp

theorem ParentChain_bounded:
  assumes "\<forall>k p. map_of table k = Some p \<longrightarrow> po_PID p = k" and "0 \<le> maxDepth"
  shows "int (length (ParentChain table pid maxDepth)) \<le> maxDepth + 1"
    and "distinct (map cl_PID (ParentChain table pid maxDepth))"
proof -
  show "int (length (ParentChain table pid maxDepth)) \<le> maxDepth + 1"
    using chainLoop_append [of table "nat (maxDepth + 1)" pid "[]" "[]"] assms(2) by (auto simp: ParentChain_def)
  show "distinct (map cl_PID (ParentChain table pid maxDepth))"
    using chainLoop_distinct [OF assms(1), of "[]" "[]" "nat (maxDepth + 1)" pid] by (simp add: ParentChain_def flip: rev_map)
qed

end
