(* ===== verification/Alert_Engine.thy ===== *)
theory Alert_Engine
  imports Hostwatch_Spawn "HOL-Library.Sublist"
begin

text \<open>
  The alert engine (\<open>internal/hostwatch/engine.go\<close>): conditions in, alert life-cycle events out.
  The identifier generator is code of another package: it is the parameter \<open>gen\<close>, and the engine
  counts how many identifiers it has drawn. The engine works on three scopes of keys; every scope has
  its own number of misses after which a missing condition resolves its alert.

  \<open>key_step\<close> is the contract: what one evaluation does to one key. \<open>evaluate_refines\<close> shows that the
  loops over conditions and active alerts implement it for every key at once, and the hysteresis and
  life-cycle theorems follow from the contract.
\<close>

subsection \<open>Data\<close>

record Alert =
  al_ID :: string
  al_Key :: string
  al_Severity :: string
  al_Title :: string
  al_Detail :: string
  al_State :: string
  FiredAt :: time
  ResolvedAt :: "time option"
  AckedAt :: "time option"
  al_Spawn :: "SpawnState option"

record Event =
  ev_Type :: string
  ev_Alert :: Alert

record Engine =
  active :: "(string, Alert) gomap"
  clears :: "(string, int) gomap"
  parents :: "(string, int) gomap"
  drawn :: nat

definition NewEngine :: Engine where
  "NewEngine = \<lparr> active = [], clears = [], parents = [], drawn = 0 \<rparr>"

subsection \<open>Scopes\<close>

definition sustainedKeyPrefix :: string where
  "sustainedKeyPrefix = ''cpu.sustained:''"

definition spawnKey :: "string \<Rightarrow> bool" where
  "spawnKey key \<longleftrightarrow> key = ''spawn.rate'' \<or> key = ''procs.uid'' \<or> key = ''procs.total''"

definition withinScope :: "string \<Rightarrow> string \<Rightarrow> bool" where
  "withinScope scope key =
     (let sustained = prefix sustainedKeyPrefix key
      in if scope = ''spawn'' then spawnKey key
         else if scope = ''sustained'' then sustained
         else \<not> spawnKey key \<and> \<not> sustained)"

subsection \<open>Evaluation\<close>

definition applyCondition ::
  "(nat \<Rightarrow> string) \<Rightarrow> time \<Rightarrow> Condition \<Rightarrow> string \<Rightarrow> int \<Rightarrow> Engine \<Rightarrow> Engine \<times> Event option" where
  "applyCondition gen now c scope topPID e =
     (let k = c_Key c;
          e0 = e \<lparr> clears := mput k 0 (clears e) \<rparr>;
          track = scope = ''spawn'' \<and> topPID \<ge> 0;
          parents' = (if track then mput k topPID (parents e) else parents e)
      in case map_of (active e) k of
           None \<Rightarrow>
             (let a = \<lparr> al_ID = gen (drawn e), al_Key = k, al_Severity = c_Severity c, al_Title = c_Title c,
                        al_Detail = c_Detail c, al_State = ''firing'', FiredAt = now, ResolvedAt = None,
                        AckedAt = None, al_Spawn = None \<rparr>
              in (e0 \<lparr> active := mput k a (active e), parents := parents', drawn := Suc (drawn e) \<rparr>,
                  Some \<lparr> ev_Type = ''fired'', ev_Alert = a \<rparr>))
         | Some a \<Rightarrow>
             (let severityChanged = al_Severity a \<noteq> c_Severity c;
                  parentChanged = (track \<and> (case map_of (parents e) k of None \<Rightarrow> False | Some p \<Rightarrow> p \<noteq> topPID));
                  changed = (al_Title a \<noteq> c_Title c \<or> al_Detail a \<noteq> c_Detail c \<or> severityChanged);
                  a' = (if changed then a \<lparr> al_Severity := c_Severity c, al_Title := c_Title c, al_Detail := c_Detail c \<rparr> else a);
                  e1 = e0 \<lparr> active := (if changed then mput k a' (active e) else active e), parents := parents' \<rparr>
              in (e1, if severityChanged \<or> parentChanged then Some \<lparr> ev_Type = ''updated'', ev_Alert = a' \<rparr> else None)))"

definition evalCondition ::
  "(nat \<Rightarrow> string) \<Rightarrow> time \<Rightarrow> string \<Rightarrow> int \<Rightarrow> Condition \<Rightarrow>
     Engine \<times> string list \<times> Event list \<Rightarrow> Engine \<times> string list \<times> Event list" where
  "evalCondition gen now scope topPID c st =
     (let (e, seen, out) = st in
      if \<not> withinScope scope (c_Key c) then st
      else let (e', ev) = applyCondition gen now c scope topPID e
           in (e', List.insert (c_Key c) seen, out @ (case ev of None \<Rightarrow> [] | Some x \<Rightarrow> [x])))"

definition resolveOne ::
  "time \<Rightarrow> string list \<Rightarrow> string \<Rightarrow> int \<Rightarrow> string \<times> Alert \<Rightarrow> Engine \<times> Event list \<Rightarrow> Engine \<times> Event list" where
  "resolveOne now seen scope clearAfter ka eo =
     (let (k, a) = ka; (e, out) = eo in
      if \<not> withinScope scope k \<or> k \<in> set seen then eo
      else let n = mgetd 0 (clears e) k + 1; e1 = e \<lparr> clears := mput k n (clears e) \<rparr>
           in if n < clearAfter then (e1, out)
              else (e1 \<lparr> active := mdel k (active e1), clears := mdel k (clears e1), parents := mdel k (parents e1) \<rparr>,
                    out @ [\<lparr> ev_Type = ''resolved'', ev_Alert = a \<lparr> al_State := ''resolved'', ResolvedAt := Some now \<rparr> \<rparr>]))"

definition resolveMissing ::
  "time \<Rightarrow> string list \<Rightarrow> string \<Rightarrow> int \<Rightarrow> Engine \<Rightarrow> Engine \<times> Event list" where
  "resolveMissing now seen scope clearAfter e =
     fold (resolveOne now seen scope clearAfter) (active e) (e, [])"

definition event_less :: "Event \<Rightarrow> Event \<Rightarrow> bool" where
  "event_less x y \<longleftrightarrow> al_Key (ev_Alert x) < al_Key (ev_Alert y)"

definition evaluate ::
  "(nat \<Rightarrow> string) \<Rightarrow> time \<Rightarrow> Condition list \<Rightarrow> string \<Rightarrow> int \<Rightarrow> int \<Rightarrow> Engine \<Rightarrow> Engine \<times> Event list" where
  "evaluate gen now conditions scope clearAfter topPID e =
     (let (e1, seen, out) = fold (evalCondition gen now scope topPID) conditions (e, [], []);
          (e2, res) = resolveMissing now seen scope clearAfter e1
      in (e2, sort_slice event_less (out @ res)))"

definition EvaluateSlow :: "(nat \<Rightarrow> string) \<Rightarrow> time \<Rightarrow> Condition list \<Rightarrow> Engine \<Rightarrow> Engine \<times> Event list" where
  "EvaluateSlow gen now cs = evaluate gen now cs ''slow'' 2 0"

definition EvaluateSpawn ::
  "(nat \<Rightarrow> string) \<Rightarrow> time \<Rightarrow> Condition list \<Rightarrow> int list \<Rightarrow> Engine \<Rightarrow> Engine \<times> Event list" where
  "EvaluateSpawn gen now cs topPID =
     evaluate gen now cs ''spawn'' 3 (case topPID of [] \<Rightarrow> -1 | p # _ \<Rightarrow> p)"

definition EvaluateSustained :: "(nat \<Rightarrow> string) \<Rightarrow> time \<Rightarrow> Condition list \<Rightarrow> Engine \<Rightarrow> Engine \<times> Event list" where
  "EvaluateSustained gen now cs = evaluate gen now cs ''sustained'' 2 (-1)"

definition Evaluate :: "(nat \<Rightarrow> string) \<Rightarrow> time \<Rightarrow> Condition list \<Rightarrow> Engine \<Rightarrow> Engine \<times> Event list" where
  "Evaluate gen now cs e =
     (let (e1, o1) = EvaluateSlow gen now cs e;
          (e2, o2) = evaluate gen now cs ''spawn'' 3 (-1) e1;
          (e3, o3) = EvaluateSustained gen now cs e2
      in (e3, sort_slice event_less (o1 @ o2 @ o3)))"

subsection \<open>Other operations\<close>

definition SetDetail :: "string \<Rightarrow> string \<Rightarrow> Engine \<Rightarrow> Engine \<times> Alert option" where
  "SetDetail key detail e =
     (case map_of (active e) key of
        None \<Rightarrow> (e, None)
      | Some a \<Rightarrow> if al_Detail a = detail then (e, None)
                  else let a' = a \<lparr> al_Detail := detail \<rparr> in (e \<lparr> active := mput key a' (active e) \<rparr>, Some a'))"

definition alert_less :: "Alert \<Rightarrow> Alert \<Rightarrow> bool" where
  "alert_less a b \<longleftrightarrow> al_Key a < al_Key b"

definition Active :: "Engine \<Rightarrow> Alert list" where
  "Active e = sort_slice alert_less (map snd (active e))"

definition restoreOne :: "Alert \<Rightarrow> (string, Alert) gomap \<Rightarrow> (string, Alert) gomap" where
  "restoreOne a m = (if al_State a = ''firing'' then mput (al_Key a) a m else m)"

definition Restore :: "Alert list \<Rightarrow> Engine \<Rightarrow> Engine" where
  "Restore alerts e = e \<lparr> active := fold restoreOne alerts (active e) \<rparr>"

definition Ack :: "string \<Rightarrow> time \<Rightarrow> Engine \<Rightarrow> Engine \<times> Alert option" where
  "Ack id' now e =
     (case filter (\<lambda>(k, a). al_ID a = id') (active e) of
        [] \<Rightarrow> (e, None)
      | (k, a) # _ \<Rightarrow> let a' = a \<lparr> AckedAt := Some now \<rparr> in (e \<lparr> active := mput k a' (active e) \<rparr>, Some a'))"

subsection \<open>The contract for one key\<close>

text \<open>What the engine knows about a key: its alert, the consecutive misses, the last parent.\<close>

type_synonym view = "Alert option \<times> int \<times> int option"

definition view :: "Engine \<Rightarrow> string \<Rightarrow> view" where
  "view e k = (map_of (active e) k, mgetd 0 (clears e) k, map_of (parents e) k)"

definition new_alert :: "string \<Rightarrow> time \<Rightarrow> Condition \<Rightarrow> Alert" where
  "new_alert nid now c =
     \<lparr> al_ID = nid, al_Key = c_Key c, al_Severity = c_Severity c, al_Title = c_Title c, al_Detail = c_Detail c,
       al_State = ''firing'', FiredAt = now, ResolvedAt = None, AckedAt = None, al_Spawn = None \<rparr>"

fun seen_step :: "string \<Rightarrow> time \<Rightarrow> string \<Rightarrow> int \<Rightarrow> Condition \<Rightarrow> view \<Rightarrow> view \<times> Event list" where
  "seen_step nid now scope pid c (al, n, p) =
     (let track = scope = ''spawn'' \<and> pid \<ge> 0; p' = (if track then Some pid else p)
      in case al of
           None \<Rightarrow> ((Some (new_alert nid now c), 0, p'), [\<lparr> ev_Type = ''fired'', ev_Alert = new_alert nid now c \<rparr>])
         | Some a \<Rightarrow>
             (let a' = a \<lparr> al_Severity := c_Severity c, al_Title := c_Title c, al_Detail := c_Detail c \<rparr>
              in ((Some a', 0, p'),
                  if al_Severity a \<noteq> c_Severity c \<or> track \<and> p \<noteq> None \<and> p \<noteq> Some pid
                  then [\<lparr> ev_Type = ''updated'', ev_Alert = a' \<rparr>] else [])))"

fun missed_step :: "time \<Rightarrow> int \<Rightarrow> view \<Rightarrow> view \<times> Event list" where
  "missed_step now clearAfter (None, n, p) = ((None, n, p), [])"
| "missed_step now clearAfter (Some a, n, p) =
     (if n + 1 < clearAfter then ((Some a, n + 1, p), [])
      else ((None, 0, None),
            [\<lparr> ev_Type = ''resolved'', ev_Alert = a \<lparr> al_State := ''resolved'', ResolvedAt := Some now \<rparr> \<rparr>]))"

definition key_step ::
  "string \<Rightarrow> time \<Rightarrow> string \<Rightarrow> int \<Rightarrow> int \<Rightarrow> Condition option \<Rightarrow> view \<Rightarrow> view \<times> Event list" where
  "key_step nid now scope clearAfter pid co v =
     (case co of Some c \<Rightarrow> seen_step nid now scope pid c v | None \<Rightarrow> missed_step now clearAfter v)"

subsection \<open>Invariant\<close>

definition engine_ok :: "Engine \<Rightarrow> bool" where
  "engine_ok e \<longleftrightarrow> mwf (active e) \<and>
     (\<forall>k a. map_of (active e) k = Some a \<longrightarrow> al_Key a = k \<and> al_State a = ''firing'')"

abbreviation for_key :: "string \<Rightarrow> Event list \<Rightarrow> Event list" where
  "for_key k \<equiv> filter (\<lambda>ev. al_Key (ev_Alert ev) = k)"

lemma engine_ok_NewEngine [simp]: "engine_ok NewEngine"
  by (simp add: engine_ok_def NewEngine_def)

lemma engine_okD: "engine_ok e \<Longrightarrow> map_of (active e) k = Some a \<Longrightarrow> al_Key a = k \<and> al_State a = ''firing''"
  by (auto simp: engine_ok_def)

lemma alert_update_id:
  "al_Title a = t \<Longrightarrow> al_Detail a = d \<Longrightarrow> al_Severity a = s \<Longrightarrow>
     (a :: Alert) \<lparr> al_Severity := s, al_Title := t, al_Detail := d \<rparr> = a"
  by (cases a) auto

lemma apply_same:
  assumes "applyCondition gen now c scope pid e = (e', ev)"
  shows "(view e' (c_Key c), (case ev of None \<Rightarrow> [] | Some x \<Rightarrow> [x])) =
     seen_step (gen (drawn e)) now scope pid c (view e (c_Key c))"
proof (cases "map_of (active e) (c_Key c)")
  case None
  then show ?thesis using assms
    by (simp add: applyCondition_def view_def Let_def mgetd_def new_alert_def) (elim conjE, hypsubst, simp)
next
  case (Some a)
  let ?ch = "al_Title a \<noteq> c_Title c \<or> al_Detail a \<noteq> c_Detail c \<or> al_Severity a \<noteq> c_Severity c"
  let ?a = "a \<lparr> al_Severity := c_Severity c, al_Title := c_Title c, al_Detail := c_Detail c \<rparr>"
  have a: "(if ?ch then ?a else a) = ?a" using alert_update_id [of a] by simp
  have act: "map_of (if ?ch then mput (c_Key c) ?a (active e) else active e) (c_Key c) = Some ?a"
    using Some alert_update_id [of a] by simp
  show ?thesis
    using assms Some act
    unfolding applyCondition_def Let_def option.case a
    by (cases "map_of (parents e) (c_Key c)") (auto simp: view_def mgetd_def Let_def)
qed

lemma apply_other:
  assumes "applyCondition gen now c scope pid e = (e', ev)" and "k \<noteq> c_Key c"
  shows "view e' k = view e k"
proof -
  have e': "e' = fst (applyCondition gen now c scope pid e)" using assms(1) by simp
  show ?thesis
    using assms(2) unfolding e'
    by (cases "map_of (active e) (c_Key c)") (simp_all add: applyCondition_def Let_def view_def mgetd_def)
qed

lemma apply_ok:
  assumes "applyCondition gen now c scope pid e = (e', ev)" and "engine_ok e"
  shows "engine_ok e'"
proof -
  have e': "e' = fst (applyCondition gen now c scope pid e)" using assms(1) by simp
  show ?thesis
  proof (cases "map_of (active e) (c_Key c)")
    case None
    then show ?thesis using assms(2) unfolding e' by (simp add: applyCondition_def Let_def engine_ok_def)
  next
    case (Some a)
    then show ?thesis
      using assms(2) engine_okD [OF assms(2) Some] unfolding e'
      by (simp add: applyCondition_def Let_def engine_ok_def)
  qed
qed

lemma apply_drawn:
  assumes "applyCondition gen now c scope pid e = (e', ev)"
  shows "drawn e' = (if map_of (active e) (c_Key c) = None then Suc (drawn e) else drawn e)"
proof -
  have e': "e' = fst (applyCondition gen now c scope pid e)" using assms(1) by simp
  show ?thesis
    unfolding e' by (cases "map_of (active e) (c_Key c)") (simp_all add: applyCondition_def Let_def)
qed

lemma seen_step_events:
  assumes "\<And>a. fst v = Some a \<Longrightarrow> al_Key a = c_Key c" and "ev \<in> set (snd (seen_step nid now scope pid c v))"
  shows "al_Key (ev_Alert ev) = c_Key c"
  using assms by (cases v) (auto simp: Let_def new_alert_def split: option.splits if_splits)

subsection \<open>The loops implement the contract\<close>

definition scoped :: "string \<Rightarrow> Condition list \<Rightarrow> string \<Rightarrow> Condition option" where
  "scoped scope cs k = (if withinScope scope k then find (\<lambda>c. c_Key c = k) cs else None)"

lemma scoped_Cons:
  "scoped scope (c # cs) k = (if withinScope scope k \<and> c_Key c = k then Some c else scoped scope cs k)"
  by (simp add: scoped_def)

lemma scoped_absent: "k \<notin> c_Key ` set cs \<Longrightarrow> scoped scope cs k = None"
  by (auto simp: scoped_def find_None_iff)

definition with_out :: "Event list \<Rightarrow> view \<times> Event list \<Rightarrow> view \<times> Event list" where
  "with_out out r = (fst r, out @ snd r)"

lemma evalCondition_out:
  "\<not> withinScope scope (c_Key c) \<Longrightarrow> evalCondition gen now scope pid c st = st"
  by (simp add: evalCondition_def split: prod.splits)

lemma evalCondition_in:
  "withinScope scope (c_Key c) \<Longrightarrow> applyCondition gen now c scope pid e = (e1, ev) \<Longrightarrow>
     evalCondition gen now scope pid c (e, seen, out) =
       (e1, List.insert (c_Key c) seen, out @ (case ev of None \<Rightarrow> [] | Some x \<Rightarrow> [x]))"
  by (simp add: evalCondition_def)

lemma eval_fold:
  assumes "fold (evalCondition gen now scope pid) cs (e, seen, out) = (e', seen', out')"
    and "distinct (map c_Key cs)" and "engine_ok e"
  shows "engine_ok e' \<and> drawn e \<le> drawn e' \<and>
    set seen' = set seen \<union> {k. scoped scope cs k \<noteq> None} \<and>
    (\<exists>i\<ge>drawn e. (fst (view e k) = None \<and> scoped scope cs k \<noteq> None \<longrightarrow> i < drawn e') \<and>
      (view e' k, for_key k out') =
        (case scoped scope cs k of None \<Rightarrow> (view e k, for_key k out)
         | Some c \<Rightarrow> with_out (for_key k out) (seen_step (gen i) now scope pid c (view e k))))"
  using assms
proof (induction cs arbitrary: e seen out)
  case Nil
  then show ?case by (auto simp: scoped_def)
next
  case (Cons c cs)
  show ?case
  proof (cases "withinScope scope (c_Key c)")
    case False
    then have f: "fold (evalCondition gen now scope pid) cs (e, seen, out) = (e', seen', out')"
      using Cons.prems(1) by (simp add: evalCondition_out)
    have "scoped scope (c # cs) = scoped scope cs" using False by (auto simp: scoped_Cons)
    then show ?thesis using Cons.IH [OF f] Cons.prems(2,3) by simp
  next
    case True
    obtain e1 ev where ap: "applyCondition gen now c scope pid e = (e1, ev)" by fastforce
    let ?out = "out @ (case ev of None \<Rightarrow> [] | Some x \<Rightarrow> [x])"
    have f: "fold (evalCondition gen now scope pid) cs (e1, List.insert (c_Key c) seen, ?out) = (e', seen', out')"
      using Cons.prems(1) True by (simp add: evalCondition_in [OF _ ap])
    have ok1: "engine_ok e1" using apply_ok [OF ap Cons.prems(3)] .
    have d1: "drawn e \<le> drawn e1" using apply_drawn [OF ap] by simp
    have dist: "distinct (map c_Key cs)" and nin: "c_Key c \<notin> c_Key ` set cs" using Cons.prems(2) by auto
    note IH = Cons.IH [OF f dist ok1]
    note same = apply_same [OF ap]
    have evs: "(case ev of None \<Rightarrow> [] | Some x \<Rightarrow> [x]) = snd (seen_step (gen (drawn e)) now scope pid c (view e (c_Key c)))"
      using same [symmetric] by simp
    have key: "al_Key (ev_Alert x) = c_Key c" if x: "x \<in> set (case ev of None \<Rightarrow> [] | Some x \<Rightarrow> [x])" for x
    proof (rule seen_step_events)
      show "al_Key a = c_Key c" if "fst (view e (c_Key c)) = Some a" for a
        using engine_okD [OF Cons.prems(3)] that by (simp add: view_def)
      show "x \<in> set (snd (seen_step (gen (drawn e)) now scope pid c (view e (c_Key c))))" using x unfolding evs .
    qed
    have s: "set seen' = set seen \<union> {k. scoped scope (c # cs) k \<noteq> None}"
      using IH True by (auto simp: scoped_Cons)
    have "\<exists>i\<ge>drawn e. (fst (view e k) = None \<and> scoped scope (c # cs) k \<noteq> None \<longrightarrow> i < drawn e') \<and>
      (view e' k, for_key k out') =
        (case scoped scope (c # cs) k of None \<Rightarrow> (view e k, for_key k out)
         | Some c \<Rightarrow> with_out (for_key k out) (seen_step (gen i) now scope pid c (view e k)))"
    proof (cases "k = c_Key c")
      case k: True
      have sc: "scoped scope (c # cs) k = Some c" using k True by (simp add: scoped_Cons)
      have sn: "scoped scope cs k = None" using k nin by (simp add: scoped_absent)
      have fk: "for_key k (case ev of None \<Rightarrow> [] | Some x \<Rightarrow> [x]) = (case ev of None \<Rightarrow> [] | Some x \<Rightarrow> [x])"
        using key k by (simp add: filter_id_conv)
      have "(view e' k, for_key k out') = (view e1 k, for_key k ?out)" using IH sn by simp
      also have "\<dots> = with_out (for_key k out) (seen_step (gen (drawn e)) now scope pid c (view e k))"
        using same k fk unfolding with_out_def by (simp add: same [symmetric])
      finally have eq: "(view e' k, for_key k out') = with_out (for_key k out) (seen_step (gen (drawn e)) now scope pid c (view e k))" .
      have "fst (view e k) = None \<Longrightarrow> drawn e < drawn e'" using apply_drawn [OF ap] IH k by (simp add: view_def)
      then show ?thesis unfolding sc using eq by (intro exI [of _ "drawn e"]) simp
    next
      case k: False
      have sc: "scoped scope (c # cs) k = scoped scope cs k" using k by (simp add: scoped_Cons)
      have v: "view e1 k = view e k" using apply_other [OF ap k] .
      have fk: "for_key k ?out = for_key k out" using key k by (auto simp: filter_empty_conv)
      obtain i where i: "drawn e1 \<le> i" "fst (view e1 k) = None \<and> scoped scope cs k \<noteq> None \<longrightarrow> i < drawn e'"
        "(view e' k, for_key k out') = (case scoped scope cs k of None \<Rightarrow> (view e1 k, for_key k ?out)
         | Some c \<Rightarrow> with_out (for_key k ?out) (seen_step (gen i) now scope pid c (view e1 k)))"
        using IH by blast
      show ?thesis unfolding sc using i(1) d1 i(2,3) unfolding v fk by (intro exI [of _ i]) simp
    qed
    moreover have "drawn e \<le> drawn e'" using IH d1 by simp
    ultimately show ?thesis using IH s by blast
  qed
qed

lemma missed_step_None: "fst v = None \<Longrightarrow> missed_step now ca v = (v, [])"
  by (cases v) auto

lemma resolve_one:
  assumes "resolveOne now seen scope ca (k0, a) (e, out) = (e', out')"
    and "map_of (active e) k0 = Some a" and "engine_ok e"
  shows "engine_ok e' \<and> drawn e' = drawn e \<and> (view e' k, for_key k out') =
      (if k = k0 \<and> withinScope scope k \<and> k \<notin> set seen
       then with_out (for_key k out) (missed_step now ca (view e k)) else (view e k, for_key k out))"
proof -
  have ak: "al_Key a = k0" using engine_okD [OF assms(3,2)] by simp
  have e': "e' = fst (resolveOne now seen scope ca (k0, a) (e, out))"
    and o': "out' = snd (resolveOne now seen scope ca (k0, a) (e, out))" using assms(1) by simp_all
  have "engine_ok e'" using assms(3) unfolding e' by (simp add: resolveOne_def Let_def engine_ok_def)
  moreover have "drawn e' = drawn e" unfolding e' by (simp add: resolveOne_def Let_def)
  moreover have "(view e' k, for_key k out') =
      (if k = k0 \<and> withinScope scope k \<and> k \<notin> set seen
       then with_out (for_key k out) (missed_step now ca (view e k)) else (view e k, for_key k out))"
    using assms(2) ak unfolding e' o'
    by (simp add: resolveOne_def Let_def view_def mgetd_def with_out_def)
  ultimately show ?thesis by blast
qed

lemma resolve_fold:
  assumes "fold (resolveOne now seen scope ca) kvs (e, out) = (e', out')" and "distinct (map fst kvs)"
    and "\<forall>k a. (k, a) \<in> set kvs \<longrightarrow> map_of (active e) k = Some a" and "engine_ok e"
  shows "engine_ok e' \<and> drawn e' = drawn e \<and> (view e' k, for_key k out') =
      (if k \<in> fst ` set kvs \<and> withinScope scope k \<and> k \<notin> set seen
       then with_out (for_key k out) (missed_step now ca (view e k)) else (view e k, for_key k out))"
  using assms
proof (induction kvs arbitrary: e out)
  case Nil
  then show ?case by simp
next
  case (Cons kv kvs)
  obtain k0 a where kv: "kv = (k0, a)" by fastforce
  obtain e1 o1 where r: "resolveOne now seen scope ca (k0, a) (e, out) = (e1, o1)" by fastforce
  have a: "map_of (active e) k0 = Some a" using Cons.prems(3) kv by simp
  note one = resolve_one [OF r a Cons.prems(4)]
  have f: "fold (resolveOne now seen scope ca) kvs (e1, o1) = (e', out')" using Cons.prems(1) kv r by simp
  have keep: "\<forall>k' a'. (k', a') \<in> set kvs \<longrightarrow> map_of (active e1) k' = Some a'"
  proof (intro allI impI)
    fix k' a' assume kin: "(k', a') \<in> set kvs"
    have "k' \<noteq> k0" using Cons.prems(2) kin kv by (auto simp: rev_image_eqI)
    then have "view e1 k' = view e k'" using one [of k'] by simp
    then show "map_of (active e1) k' = Some a'" using Cons.prems(3) kin by (simp add: view_def)
  qed
  have d: "distinct (map fst kvs)" and n: "k0 \<notin> fst ` set kvs" using Cons.prems(2) kv by auto
  have ok1: "engine_ok e1" using one by blast
  note IH = Cons.IH [OF f d keep ok1]
  show ?case
  proof (cases "k = k0")
    case True
    then show ?thesis using IH one [of k] n kv by simp
  next
    case False
    then show ?thesis using IH one [of k] kv by auto
  qed
qed

lemma filter_insert_by:
  assumes "\<And>y. P x \<Longrightarrow> P y \<Longrightarrow> \<not> lt y x"
  shows "filter P (insert_by lt x ys) = (if P x then x # filter P ys else filter P ys)"
  using assms by (induction ys) auto

lemma filter_sort_slice:
  assumes "\<And>x y. P x \<Longrightarrow> P y \<Longrightarrow> \<not> lt y x"
  shows "filter P (sort_slice lt xs) = filter P xs"
  using assms by (induction xs) (simp_all add: filter_insert_by)

lemma for_key_sort [simp]: "for_key k (sort_slice event_less xs) = for_key k xs"
  by (rule filter_sort_slice) (simp add: event_less_def)

lemma view_absent: "k \<notin> fst ` set (active e) \<Longrightarrow> fst (view e k) = None"
  by (simp add: view_def map_of_eq_None_iff)

theorem evaluate_refines:
  assumes "evaluate gen now cs scope ca pid e = (e', out)"
    and "distinct (map c_Key cs)" and "engine_ok e"
  shows "engine_ok e' \<and> drawn e \<le> drawn e'"
    and "withinScope scope k \<Longrightarrow> \<exists>i\<ge>drawn e.
      (fst (view e k) = None \<and> find (\<lambda>c. c_Key c = k) cs \<noteq> None \<longrightarrow> i < drawn e') \<and>
      (view e' k, for_key k out) = key_step (gen i) now scope ca pid (find (\<lambda>c. c_Key c = k) cs) (view e k)"
    and "\<not> withinScope scope k \<Longrightarrow> view e' k = view e k \<and> for_key k out = []"
proof -
  obtain e1 seen o1 where f: "fold (evalCondition gen now scope pid) cs (e, [], []) = (e1, seen, o1)"
    by (metis prod_cases3)
  obtain res where r: "resolveMissing now seen scope ca e1 = (e', res)" and out: "out = sort_slice event_less (o1 @ res)"
    using assms(1) by (auto simp: evaluate_def f Let_def split: prod.splits)
  note F = eval_fold [OF f assms(2,3)]
  have ok1: "engine_ok e1" using F by blast
  then have d1: "distinct (map fst (active e1))" by (simp add: engine_ok_def mwf_def mkeys_def)
  have m1: "\<forall>k a. (k, a) \<in> set (active e1) \<longrightarrow> map_of (active e1) k = Some a" using d1 by simp
  note R = resolve_fold [OF r [unfolded resolveMissing_def] d1 m1 ok1]
  show "engine_ok e' \<and> drawn e \<le> drawn e'" using F R by auto
  have res: "(view e' k, for_key k out) =
      (if withinScope scope k \<and> k \<notin> set seen
       then with_out (for_key k o1) (missed_step now ca (view e1 k)) else (view e1 k, for_key k o1))"
  proof (cases "k \<in> fst ` set (active e1)")
    case True
    have "with_out [] x = x" for x by (simp add: with_out_def)
    then have "(view e' k, for_key k res) =
      (if withinScope scope k \<and> k \<notin> set seen then missed_step now ca (view e1 k) else (view e1 k, []))"
      using R [of k] True by simp
    then show ?thesis by (cases "missed_step now ca (view e1 k)") (auto simp: out with_out_def split: if_splits)
  next
    case False
    then have "missed_step now ca (view e1 k) = (view e1 k, [])" by (intro missed_step_None view_absent)
    then show ?thesis using False R [of k] by (simp add: out with_out_def)
  qed
  obtain i where i: "i \<ge> drawn e" "fst (view e k) = None \<and> scoped scope cs k \<noteq> None \<longrightarrow> i < drawn e1"
    "(view e1 k, for_key k o1) = (case scoped scope cs k of None \<Rightarrow> (view e k, [])
         | Some c \<Rightarrow> with_out [] (seen_step (gen i) now scope pid c (view e k)))"
    using F [of k, unfolded filter.simps(1)] by blast
  have seen: "k \<in> set seen \<longleftrightarrow> scoped scope cs k \<noteq> None" using F by auto
  have dr: "drawn e' = drawn e1" using R by blast
  show "\<exists>i\<ge>drawn e.
      (fst (view e k) = None \<and> find (\<lambda>c. c_Key c = k) cs \<noteq> None \<longrightarrow> i < drawn e') \<and>
      (view e' k, for_key k out) = key_step (gen i) now scope ca pid (find (\<lambda>c. c_Key c = k) cs) (view e k)"
    if w: "withinScope scope k"
  proof (intro exI [of _ i] conjI)
    have sc: "find (\<lambda>c. c_Key c = k) cs = scoped scope cs k" using w by (simp add: scoped_def)
    show "i \<ge> drawn e" by (fact i(1))
    show "fst (view e k) = None \<and> find (\<lambda>c. c_Key c = k) cs \<noteq> None \<longrightarrow> i < drawn e'" using i(2) sc dr by simp
    show "(view e' k, for_key k out) = key_step (gen i) now scope ca pid (find (\<lambda>c. c_Key c = k) cs) (view e k)"
    proof (cases "scoped scope cs k")
      case None
      then show ?thesis using res i(3) seen w unfolding sc by (simp add: key_step_def with_out_def)
    next
      case (Some c)
      then show ?thesis using res i(3) seen unfolding sc by (simp add: key_step_def with_out_def)
    qed
  qed
  show "view e' k = view e k \<and> for_key k out = []" if "\<not> withinScope scope k"
    using res i(3) that by (simp add: scoped_def)
qed

subsection \<open>All scopes\<close>

definition scopeOf :: "string \<Rightarrow> string" where
  "scopeOf k = (if spawnKey k then ''spawn'' else if prefix sustainedKeyPrefix k then ''sustained'' else ''slow'')"

definition clearAfterOf :: "string \<Rightarrow> int" where
  "clearAfterOf k = (if spawnKey k then 3 else 2)"

definition topPIDOf :: "string \<Rightarrow> int" where
  "topPIDOf k = (if scopeOf k = ''slow'' then 0 else -1)"

lemma spawnKey_not_sustained: "spawnKey k \<Longrightarrow> \<not> prefix sustainedKeyPrefix k"
  by (auto simp: spawnKey_def sustainedKeyPrefix_def)

text \<open>The three scopes partition the keys.\<close>

lemma withinScope_iff: "s \<in> {''slow'', ''spawn'', ''sustained''} \<Longrightarrow> withinScope s k \<longleftrightarrow> s = scopeOf k"
  using spawnKey_not_sustained [of k] by (auto simp: withinScope_def scopeOf_def Let_def)

lemma scopeOf_cases: "scopeOf k \<in> {''slow'', ''spawn'', ''sustained''}"
  by (simp add: scopeOf_def)

theorem Evaluate_refines:
  assumes "Evaluate gen now cs e = (e', out)" and "distinct (map c_Key cs)" and "engine_ok e"
  shows "engine_ok e' \<and> drawn e \<le> drawn e'"
    and "\<exists>i\<ge>drawn e. (view e' k, for_key k out) =
      key_step (gen i) now (scopeOf k) (clearAfterOf k) (topPIDOf k) (find (\<lambda>c. c_Key c = k) cs) (view e k)"
proof -
  obtain e1 o1 where 1: "evaluate gen now cs ''slow'' 2 0 e = (e1, o1)" by fastforce
  obtain e2 o2 where 2: "evaluate gen now cs ''spawn'' 3 (-1) e1 = (e2, o2)" by fastforce
  obtain o3 where 3: "evaluate gen now cs ''sustained'' 2 (-1) e2 = (e', o3)"
    and out: "out = sort_slice event_less (o1 @ o2 @ o3)"
    using assms(1) by (auto simp: Evaluate_def EvaluateSlow_def EvaluateSustained_def 1 2 Let_def split: prod.splits)
  note r1 = evaluate_refines [OF 1 assms(2,3)]
  then have ok1: "engine_ok e1" and d1: "drawn e \<le> drawn e1" by auto
  note r2 = evaluate_refines [OF 2 assms(2) ok1]
  then have ok2: "engine_ok e2" and d2: "drawn e1 \<le> drawn e2" by auto
  note r3 = evaluate_refines [OF 3 assms(2) ok2]
  show "engine_ok e' \<and> drawn e \<le> drawn e'" using r3(1) d1 d2 by simp
  note w = withinScope_iff [of "''slow''" k] withinScope_iff [of "''spawn''" k] withinScope_iff [of "''sustained''" k]
  consider (slow) "scopeOf k = ''slow''" | (spawn) "scopeOf k = ''spawn''" | (sust) "scopeOf k = ''sustained''"
    using scopeOf_cases [of k] by auto
  then show "\<exists>i\<ge>drawn e. (view e' k, for_key k out) =
      key_step (gen i) now (scopeOf k) (clearAfterOf k) (topPIDOf k) (find (\<lambda>c. c_Key c = k) cs) (view e k)"
  proof cases
    case slow
    have c: "clearAfterOf k = 2" "topPIDOf k = 0" using slow by (auto simp: scopeOf_def clearAfterOf_def topPIDOf_def split: if_splits)
    have "\<exists>i\<ge>drawn e. (view e1 k, for_key k o1) = key_step (gen i) now ''slow'' 2 0 (find (\<lambda>c. c_Key c = k) cs) (view e k)"
      using r1(2) [of k] w slow by auto
    moreover have "(view e' k, for_key k out) = (view e1 k, for_key k o1)"
      using r2(3) [of k] r3(3) [of k] w slow by (simp add: out)
    ultimately show ?thesis unfolding c slow by simp
  next
    case spawn
    have c: "clearAfterOf k = 3" "topPIDOf k = -1" using spawn by (auto simp: scopeOf_def clearAfterOf_def topPIDOf_def split: if_splits)
    have wk: "withinScope ''spawn'' k" using w(2) spawn by simp
    obtain i where i: "i \<ge> drawn e1" "(view e2 k, for_key k o2) = key_step (gen i) now ''spawn'' 3 (-1) (find (\<lambda>c. c_Key c = k) cs) (view e1 k)"
      by (rule exE [OF r2(2) [OF wk]]) (elim conjE, rule that)
    have "view e1 k = view e k" "(view e' k, for_key k out) = (view e2 k, for_key k o2)"
      using r1(3) [of k] r3(3) [of k] w spawn by (simp_all add: out)
    then show ?thesis unfolding c spawn using d1 i by (intro exI [of _ i]) simp
  next
    case sust
    have c: "clearAfterOf k = 2" "topPIDOf k = -1" using sust by (auto simp: scopeOf_def clearAfterOf_def topPIDOf_def split: if_splits)
    have wk: "withinScope ''sustained'' k" using w(3) sust by simp
    obtain i where i: "i \<ge> drawn e2" "(view e' k, for_key k o3) = key_step (gen i) now ''sustained'' 2 (-1) (find (\<lambda>c. c_Key c = k) cs) (view e2 k)"
      by (rule exE [OF r3(2) [OF wk]]) (elim conjE, rule that)
    have "view e2 k = view e k" "(view e' k, for_key k out) = (view e' k, for_key k o3)"
      using r1(3) [of k] r2(3) [of k] w sust by (simp_all add: out)
    then show ?thesis unfolding c sust using d1 d2 i by (intro exI [of _ i]) simp
  qed
qed

subsection \<open>Hysteresis\<close>

text \<open>A sequence of evaluations, one per sampling instant.\<close>

fun runs :: "(nat \<Rightarrow> string) \<Rightarrow> (time \<times> Condition list) list \<Rightarrow> Engine \<Rightarrow> Engine \<times> Event list" where
  "runs gen [] e = (e, [])"
| "runs gen ((now, cs) # bs) e =
     (let (e1, o1) = Evaluate gen now cs e; (e2, o2) = runs gen bs e1 in (e2, o1 @ o2))"

definition quiet :: "string \<Rightarrow> (time \<times> Condition list) list \<Rightarrow> bool" where
  "quiet k bs \<longleftrightarrow> (\<forall>(now, cs) \<in> set bs. distinct (map c_Key cs) \<and> k \<notin> set (map c_Key cs))"

definition resolvedAt :: "time \<Rightarrow> Alert \<Rightarrow> Event" where
  "resolvedAt t a = \<lparr> ev_Type = ''resolved'', ev_Alert = a \<lparr> al_State := ''resolved'', ResolvedAt := Some t \<rparr> \<rparr>"

lemma quiet_find: "k \<notin> set (map c_Key cs) \<Longrightarrow> find (\<lambda>c. c_Key c = k) cs = None"
  by (auto simp: find_None_iff)

lemma runs_quiet_none:
  assumes "runs gen bs e = (e', out)" and "quiet k bs" and "engine_ok e" and "fst (view e k) = None"
  shows "view e' k = view e k \<and> for_key k out = []"
  using assms
proof (induction bs arbitrary: e out)
  case (Cons b bs)
  obtain now cs where b: "b = (now, cs)" by fastforce
  obtain e1 o1 where 1: "Evaluate gen now cs e = (e1, o1)" by fastforce
  obtain o2 where 2: "runs gen bs e1 = (e', o2)" and out: "out = o1 @ o2"
    using Cons.prems(1) b 1 by (auto simp: Let_def split: prod.splits)
  have q: "distinct (map c_Key cs)" "k \<notin> set (map c_Key cs)" "quiet k bs" using Cons.prems(2) b by (auto simp: quiet_def)
  have "(view e1 k, for_key k o1) = (view e k, [])"
    using Evaluate_refines(2) [OF 1 q(1) Cons.prems(3), of k] quiet_find [OF q(2)] missed_step_None [OF Cons.prems(4)]
    by (auto simp: key_step_def)
  then show ?case
    using Cons.IH [OF 2 q(3)] Evaluate_refines(1) [OF 1 q(1) Cons.prems(3)] Cons.prems(4) out by simp
qed simp

text \<open>
  An alert whose condition disappears survives \<open>clearAfter - 1\<close> evaluations without an event and is
  resolved by the next one, exactly once and with that evaluation's time.
\<close>

theorem runs_hysteresis:
  assumes "runs gen bs e = (e', out)" and "quiet k bs" and "engine_ok e"
    and "view e k = (Some a, m, p)" and "m < clearAfterOf k"
  shows "(if m + int (length bs) < clearAfterOf k
          then view e' k = (Some a, m + int (length bs), p) \<and> for_key k out = []
          else view e' k = (None, 0, None) \<and> for_key k out = [resolvedAt (fst (bs ! nat (clearAfterOf k - m - 1))) a])"
  using assms
proof (induction bs arbitrary: e out m)
  case Nil
  then show ?case by simp
next
  case (Cons b bs)
  obtain now cs where b: "b = (now, cs)" by fastforce
  obtain e1 o1 where 1: "Evaluate gen now cs e = (e1, o1)" by fastforce
  obtain o2 where 2: "runs gen bs e1 = (e', o2)" and out: "out = o1 @ o2"
    using Cons.prems(1) b 1 by (auto simp: Let_def split: prod.splits)
  have q: "distinct (map c_Key cs)" "k \<notin> set (map c_Key cs)" "quiet k bs" using Cons.prems(2) b by (auto simp: quiet_def)
  have ok1: "engine_ok e1" using Evaluate_refines(1) [OF 1 q(1) Cons.prems(3)] by simp
  have s: "(view e1 k, for_key k o1) = missed_step now (clearAfterOf k) (Some a, m, p)"
    using Evaluate_refines(2) [OF 1 q(1) Cons.prems(3), of k] quiet_find [OF q(2)] Cons.prems(4) by (auto simp: key_step_def)
  show ?case
  proof (cases "m + 1 < clearAfterOf k")
    case True
    then have v: "view e1 k = (Some a, m + 1, p)" "for_key k o1 = []" using s by simp_all
    have "nat (clearAfterOf k - m - 1) = Suc (nat (clearAfterOf k - (m + 1) - 1))" using True by simp
    then show ?thesis using Cons.IH [OF 2 q(3) ok1 v(1) True] v(2) out b by (auto simp: algebra_simps)
  next
    case False
    then have v: "view e1 k = (None, 0, None)" "for_key k o1 = [resolvedAt now a]" using s by (simp_all add: resolvedAt_def)
    have n: "nat (clearAfterOf k - m - 1) = 0" using False by simp
    show ?thesis unfolding n using runs_quiet_none [OF 2 q(3) ok1] v out False b by simp
  qed
qed

subsection \<open>Life cycle\<close>

text \<open>
  One call of the engine, with what it does to the alerts: the events it emits and, for \<open>Restore\<close>, the
  firing alerts it loads. The conditions of one call have different keys.
\<close>

datatype label = Emitted Event | Loaded Alert

inductive engine_step :: "(nat \<Rightarrow> string) \<Rightarrow> Engine \<Rightarrow> label list \<Rightarrow> Engine \<Rightarrow> bool" for gen where
  all_step: "distinct (map c_Key cs) \<Longrightarrow> Evaluate gen now cs e = (e', out) \<Longrightarrow> engine_step gen e (map Emitted out) e'"
| slow_step: "distinct (map c_Key cs) \<Longrightarrow> EvaluateSlow gen now cs e = (e', out) \<Longrightarrow> engine_step gen e (map Emitted out) e'"
| spawn_step: "distinct (map c_Key cs) \<Longrightarrow> EvaluateSpawn gen now cs pids e = (e', out) \<Longrightarrow> engine_step gen e (map Emitted out) e'"
| sustained_step: "distinct (map c_Key cs) \<Longrightarrow> EvaluateSustained gen now cs e = (e', out) \<Longrightarrow> engine_step gen e (map Emitted out) e'"
| detail_step: "SetDetail k d e = (e', r) \<Longrightarrow> engine_step gen e [] e'"
| ack_step: "Ack i now e = (e', r) \<Longrightarrow> engine_step gen e [] e'"
| restore_step: "Restore alerts e = e' \<Longrightarrow>
    engine_step gen e (map Loaded (filter (\<lambda>a. al_State a = ''firing'') alerts)) e'"

inductive engine_trace :: "(nat \<Rightarrow> string) \<Rightarrow> Engine \<Rightarrow> label list \<Rightarrow> Engine \<Rightarrow> bool" for gen e0 where
  trace_start: "engine_trace gen e0 [] e0"
| trace_step: "engine_trace gen e0 ls e \<Longrightarrow> engine_step gen e out e' \<Longrightarrow> engine_trace gen e0 (ls @ out) e'"

text \<open>
  The life of one key: an alert fires, may be updated under its identifier, and is resolved under it; a
  loaded alert takes the place of the open one, if there is any. The state is the identifier of the open
  alert; \<open>None\<close> rejects the sequence.
\<close>

fun life :: "string option \<Rightarrow> (string \<times> string) list \<Rightarrow> string option option" where
  "life st [] = Some st"
| "life st ((ty, i) # r) =
     (if ty = ''loaded'' then life (Some i) r
      else case st of
        None \<Rightarrow> if ty = ''fired'' then life (Some i) r else None
      | Some j \<Rightarrow>
          if i = j \<and> ty = ''updated'' then life (Some j) r
          else if i = j \<and> ty = ''resolved'' then life None r else None)"

fun occurs :: "string \<Rightarrow> label \<Rightarrow> (string \<times> string) list" where
  "occurs k (Emitted ev) = (if al_Key (ev_Alert ev) = k then [(ev_Type ev, al_ID (ev_Alert ev))] else [])"
| "occurs k (Loaded a) = (if al_Key a = k then [(''loaded'', al_ID a)] else [])"

definition lifeline :: "string \<Rightarrow> label list \<Rightarrow> (string \<times> string) list" where
  "lifeline k ls = concat (map (occurs k) ls)"

lemma lifeline_append [simp]: "lifeline k [] = []" "lifeline k (xs @ ys) = lifeline k xs @ lifeline k ys"
  by (simp_all add: lifeline_def)

lemma lifeline_emitted:
  "lifeline k (map Emitted out) = map (\<lambda>ev. (ev_Type ev, al_ID (ev_Alert ev))) (for_key k out)"
  by (induction out) (auto simp: lifeline_def)

definition openID :: "Engine \<Rightarrow> string \<Rightarrow> string option" where
  "openID e k = map_option al_ID (map_of (active e) k)"

lemma life_append: "life st (xs @ ys) = (case life st xs of None \<Rightarrow> None | Some st' \<Rightarrow> life st' ys)"
  by (induction st xs rule: life.induct) (auto split: option.splits)

lemma openID_view: "openID e k = map_option al_ID (fst (view e k))"
  by (simp add: openID_def view_def)

lemma life_key_step:
  assumes "(v', evs) = key_step nid now scope ca pid co v"
  shows "life (map_option al_ID (fst v)) (map (\<lambda>ev. (ev_Type ev, al_ID (ev_Alert ev))) evs) =
    Some (map_option al_ID (fst v'))"
proof (cases co)
  case None
  obtain al n p where "v = (al, n, p)" by (cases v)
  then show ?thesis using None assms by (cases al) (auto simp: key_step_def split: if_splits)
next
  case (Some c)
  obtain al n p where "v = (al, n, p)" by (cases v)
  then show ?thesis using Some assms
    by (cases al) (auto simp: key_step_def Let_def new_alert_def split: if_splits)
qed

lemma evaluate_life:
  assumes "evaluate gen now cs scope ca pid e = (e', out)" and "distinct (map c_Key cs)" and "engine_ok e"
  shows "life (openID e k) (lifeline k (map Emitted out)) = Some (openID e' k)"
proof (cases "withinScope scope k")
  case True
  obtain i where "(view e' k, for_key k out) = key_step (gen i) now scope ca pid (find (\<lambda>c. c_Key c = k) cs) (view e k)"
    by (rule exE [OF evaluate_refines(2) [OF assms True]]) (elim conjE, rule that)
  then show ?thesis unfolding openID_view lifeline_emitted by (rule life_key_step)
next
  case False
  then show ?thesis using evaluate_refines(3) [OF assms False] by (simp add: openID_view lifeline_emitted)
qed

lemma Evaluate_life:
  assumes "Evaluate gen now cs e = (e', out)" and "distinct (map c_Key cs)" and "engine_ok e"
  shows "life (openID e k) (lifeline k (map Emitted out)) = Some (openID e' k)"
proof -
  obtain i where "(view e' k, for_key k out) =
      key_step (gen i) now (scopeOf k) (clearAfterOf k) (topPIDOf k) (find (\<lambda>c. c_Key c = k) cs) (view e k)"
    by (rule exE [OF Evaluate_refines(2) [OF assms]]) (elim conjE, rule that)
  then show ?thesis unfolding openID_view lifeline_emitted by (rule life_key_step)
qed

lemma SetDetail_ok:
  assumes "SetDetail key d e = (e', r)" and "engine_ok e"
  shows "engine_ok e'" and "openID e' k = openID e k"
proof -
  have e': "e' = fst (SetDetail key d e)" using assms(1) by simp
  show "engine_ok e'"
  proof (cases "map_of (active e) key")
    case (Some a)
    then show ?thesis using assms(2) engine_okD [OF assms(2) Some]
      unfolding e' by (simp add: SetDetail_def Let_def engine_ok_def)
  qed (use assms(2) in \<open>simp add: e' SetDetail_def\<close>)
  show "openID e' k = openID e k"
    unfolding e' by (cases "map_of (active e) key") (simp_all add: SetDetail_def Let_def openID_def)
qed

lemma Ack_cases:
  assumes "Ack i now e = (e', r)" and "engine_ok e"
  obtains (unknown) "e' = e" and "r = None" and "\<forall>k a. map_of (active e) k = Some a \<longrightarrow> al_ID a \<noteq> i"
  | (known) k a where "map_of (active e) k = Some a" and "al_ID a = i"
      and "e' = e \<lparr> active := mput k (a \<lparr> AckedAt := Some now \<rparr>) (active e) \<rparr>" and "r = Some (a \<lparr> AckedAt := Some now \<rparr>)"
proof (cases "filter (\<lambda>(k, a). al_ID a = i) (active e)")
  case Nil
  then have "\<forall>k a. map_of (active e) k = Some a \<longrightarrow> al_ID a \<noteq> i"
    by (auto simp: filter_empty_conv dest: map_of_SomeD)
  then show thesis using unknown assms(1) Nil by (simp add: Ack_def)
next
  case (Cons ka xs)
  obtain k a where ka: "ka = (k, a)" by fastforce
  have "(k, a) \<in> set (filter (\<lambda>(k, a). al_ID a = i) (active e))" unfolding Cons ka by simp
  then have "map_of (active e) k = Some a" "al_ID a = i"
    using assms(2) by (auto simp: engine_ok_def mwf_def mkeys_def)
  then show thesis using known assms(1) Cons ka by (simp add: Ack_def Let_def)
qed

lemma Ack_ok:
  assumes "Ack i now e = (e', r)" and "engine_ok e"
  shows "engine_ok e' \<and> openID e' k = openID e k"
  using assms
proof (cases rule: Ack_cases)
  case unknown
  then show ?thesis using assms(2) by simp
next
  case (known k a)
  then show ?thesis using assms(2) engine_okD [OF assms(2) known(1)] by (simp add: engine_ok_def openID_def)
qed

lemma Restore_ok:
  assumes "engine_ok e"
  shows "engine_ok (Restore alerts e)"
proof -
  have ok: "engine_ok (e \<lparr> active := restoreOne a (active e) \<rparr>)" if "engine_ok e" for e :: Engine and a
    using that by (simp add: engine_ok_def restoreOne_def)
  have "engine_ok (e \<lparr> active := fold restoreOne alerts (active e) \<rparr>)"
    using assms
  proof (induction alerts arbitrary: e)
    case (Cons a as)
    then show ?case using Cons.IH [OF ok [OF Cons.prems, of a]] by simp
  qed simp
  then show ?thesis by (simp add: Restore_def)
qed

lemma Restore_life:
  "life (openID e k) (lifeline k (map Loaded (filter (\<lambda>a. al_State a = ''firing'') alerts))) =
     Some (openID (Restore alerts e) k)"
proof -
  have "life (map_option al_ID (map_of m k)) (lifeline k (map Loaded (filter (\<lambda>a. al_State a = ''firing'') alerts))) =
      Some (map_option al_ID (map_of (fold restoreOne alerts m) k))" for m
  proof (induction alerts arbitrary: m)
    case (Cons a as)
    show ?case using Cons [of "restoreOne a m"] by (auto simp: lifeline_def restoreOne_def)
  qed simp
  then show ?thesis by (simp add: openID_def Restore_def)
qed

lemma engine_step_life:
  assumes "engine_step gen e out e'" and "engine_ok e"
  shows "engine_ok e' \<and> life (openID e k) (lifeline k out) = Some (openID e' k)"
  using assms
proof (cases rule: engine_step.cases)
  case (all_step cs now)
  then show ?thesis using Evaluate_life Evaluate_refines(1) assms(2) by metis
next
  case (slow_step cs now)
  note ev = slow_step(3) [unfolded EvaluateSlow_def]
  show ?thesis using evaluate_life [OF ev slow_step(2) assms(2)] evaluate_refines(1) [OF ev slow_step(2) assms(2)] slow_step(1) by simp
next
  case (spawn_step cs now pids)
  note ev = spawn_step(3) [unfolded EvaluateSpawn_def]
  show ?thesis using evaluate_life [OF ev spawn_step(2) assms(2)] evaluate_refines(1) [OF ev spawn_step(2) assms(2)] spawn_step(1) by simp
next
  case (sustained_step cs now)
  note ev = sustained_step(3) [unfolded EvaluateSustained_def]
  show ?thesis using evaluate_life [OF ev sustained_step(2) assms(2)] evaluate_refines(1) [OF ev sustained_step(2) assms(2)] sustained_step(1) by simp
next
  case (detail_step key d r)
  then show ?thesis using SetDetail_ok [OF detail_step(2) assms(2)] by simp
next
  case (ack_step i now r)
  then show ?thesis using Ack_ok [OF ack_step(2) assms(2)] by simp
next
  case (restore_step alerts)
  then show ?thesis using Restore_ok [OF assms(2)] Restore_life by blast
qed

theorem engine_lifecycle:
  assumes "engine_trace gen e0 ls e" and "engine_ok e0"
  shows "engine_ok e \<and> life (openID e0 k) (lifeline k ls) = Some (openID e k)"
  using assms(1)
proof induction
  case trace_start
  then show ?case using assms(2) by simp
next
  case (trace_step ls e out e')
  then show ?case using engine_step_life [of gen e out e' k] by (simp add: life_append)
qed

subsection \<open>Acknowledgement and listing\<close>

text \<open>Evaluating an active alert's condition keeps its identity, start time and acknowledgement.\<close>

theorem Evaluate_keeps_alert:
  assumes "Evaluate gen now cs e = (e', out)" and "distinct (map c_Key cs)" and "engine_ok e"
    and "map_of (active e) k = Some a" and "c \<in> set cs" and "c_Key c = k"
  obtains a' where "map_of (active e') k = Some a'" and "al_ID a' = al_ID a" and "FiredAt a' = FiredAt a"
    and "AckedAt a' = AckedAt a" and "al_Severity a' = c_Severity c"
proof -
  have f: "find (\<lambda>c. c_Key c = k) cs = Some c"
    using assms(2,5,6) by (induction cs) (auto simp: image_iff)
  obtain i where "(view e' k, for_key k out) =
      key_step (gen i) now (scopeOf k) (clearAfterOf k) (topPIDOf k) (Some c) (view e k)"
    by (rule exE [OF Evaluate_refines(2) [OF assms(1-3), of k, unfolded f]]) (elim conjE, rule that)
  then have "map_of (active e') k = Some (a \<lparr> al_Severity := c_Severity c, al_Title := c_Title c, al_Detail := c_Detail c \<rparr>)"
    using assms(4) by (simp add: key_step_def view_def Let_def)
  then show thesis by (rule that) simp_all
qed

interpretation by_alert_key: comparator alert_less
  by unfold_locales (auto simp: alert_less_def)

theorem Active_sorted:
  assumes "engine_ok e"
  shows "sorted_wrt (<) (map al_Key (Active e))" and "a \<in> set (Active e) \<longleftrightarrow> map_of (active e) (al_Key a) = Some a"
proof -
  have d: "distinct (map fst (active e))" using assms by (simp add: engine_ok_def mwf_def mkeys_def)
  have k: "al_Key a = k" if "(k, a) \<in> set (active e)" for k a
    using assms that d by (auto simp: engine_ok_def)
  have "map (\<lambda>x. al_Key (snd x)) (active e) = map fst (active e)" using k by (auto intro!: map_cong)
  then have "image_mset (\<lambda>x. al_Key (snd x)) (mset (active e)) = image_mset fst (mset (active e))"
    by (metis mset_map)
  then have "mset (map al_Key (Active e)) = mset (map fst (active e))"
    by (simp add: Active_def image_mset.compositionality comp_def)
  then have dk: "distinct (map al_Key (Active e))" using d mset_eq_imp_distinct_iff by blast
  have "sorted_wrt (\<lambda>x y. \<not> alert_less y x) (Active e)" unfolding Active_def by (rule by_alert_key.sorted_sort_slice)
  then have "sorted (map al_Key (Active e))" by (simp add: sorted_wrt_map alert_less_def not_less)
  then show "sorted_wrt (<) (map al_Key (Active e))" using dk by (simp add: strict_sorted_iff)
  show "a \<in> set (Active e) \<longleftrightarrow> map_of (active e) (al_Key a) = Some a"
    using k d by (force simp: Active_def)
qed

end
