(* ===== verification/Hostwatch_Evaluate.thy ===== *)
theory Hostwatch_Evaluate
  imports Sustained_Tracker Alert_Engine
begin

text \<open>
  Host conditions (\<open>internal/hostwatch/evaluate.go\<close>, \<open>classify.go\<close>): the rules that turn a window of
  samples into conditions, and the classification of processes. The theorems show that the conditions
  have distinct keys, all in the engine's slow scope, which is what the alert engine relies on; a
  condition that needs \<open>n\<close> samples is backed by the last \<open>n\<close> of them.
\<close>

subsection \<open>Classification\<close>

definition directKinds :: "(string, string) gomap" where
  "directKinds =
     [(''java'', ''java''), (''xcodebuild'', ''xcodebuild''), (''swift-frontend'', ''swift-frontend''),
      (''clang'', ''clang''), (''clang++'', ''clang''), (''go'', ''go''), (''compile'', ''go''), (''link'', ''go''),
      (''gopls'', ''go''), (''node'', ''node''), (''bun'', ''bun''), (''codex'', ''codex''), (''claude'', ''claude''),
      (''emulator'', ''qemu''), (''launchd_sim'', ''simulator''), (''bsdtar'', ''bsdtar''), (''git'', ''git''),
      (''mds_stores'', ''spotlight''), (''gradle'', ''gradle'')]"

definition Classify :: "string \<Rightarrow> string \<Rightarrow> string" where
  "Classify comm args =
     (if comm = [] then ''other''
      else let name = to_lower (path_base comm); s = to_lower args in
        if name = ''java'' \<and> (contains ''kotlin-daemon'' s \<or> contains ''kotlincompilerdaemon'' s \<or> contains ''kotlincompiledaemon'' s)
        then ''kotlin-daemon''
        else if name = ''java'' \<and> (contains ''gradledaemon'' s \<or> contains ''gradlewrappermain'' s \<or> contains ''gradle-launcher'' s)
        then ''gradle''
        else case map_of directKinds name of
               Some kind \<Rightarrow> kind
             | None \<Rightarrow> if prefix ''qemu-system'' name then ''qemu''
                       else if prefix ''mdworker'' name then ''spotlight'' else ''other'')"

subsection \<open>Samples\<close>

record LimitUsage =
  lu_Current :: int
  lu_Limit :: int
  lu_Pct :: f64

record KindStat =
  ks_Count :: int
  ks_CPUPct :: f64
  ks_RSSMB :: f64

record ProcStat =
  ps_PID :: int
  ps_Name :: string
  ps_CPUPct :: f64
  ps_RSSMB :: f64

record Sample =
  sm_At :: time
  NCPU :: int
  Load1 :: f64
  Load5 :: f64
  Load15 :: f64
  MemoryPressure :: string
  SwapUsedMB :: f64
  MemFreePct :: f64
  sm_Limits :: "(string, LimitUsage) gomap"
  DataFreeGB :: f64
  ThermalThrottled :: bool
  sm_Kinds :: "(string, KindStat) gomap"
  TopCPU :: "ProcStat list"
  SelfCPUPct :: f64
  sm_Spawn :: "SpawnState option"

definition noKind :: KindStat where
  "noKind = \<lparr> ks_Count = 0, ks_CPUPct = Fin 0, ks_RSSMB = Fin 0 \<rparr>"

abbreviation kindOf :: "Sample \<Rightarrow> string \<Rightarrow> KindStat" where
  "kindOf s k \<equiv> mgetd noKind (sm_Kinds s) k"

subsection \<open>Helpers\<close>

definition kindCount :: "Sample \<Rightarrow> string \<Rightarrow> int" where
  "kindCount s kind =
     (if kind = ''agents'' then ks_Count (kindOf s ''codex'') + ks_Count (kindOf s ''claude'') else ks_Count (kindOf s kind))"

definition sustained :: "Sample list \<Rightarrow> int \<Rightarrow> (Sample \<Rightarrow> bool) \<Rightarrow> bool" where
  "sustained w n ok =
     (let n = (if n < 1 then 1 else n)
      in if int (length w) < n then False else list_all ok (drop (length w - nat n) w))"

fun f_abs :: "f64 \<Rightarrow> f64" where
  "f_abs (Fin x) = Fin \<bar>x\<bar>"
| "f_abs NInf = PInf"
| "f_abs x = x"

text \<open>\<open>Duration.Minutes\<close>: whole minutes plus the remainder over \<open>60e9\<close>.\<close>

definition d_minutes :: "duration \<Rightarrow> f64" where
  "d_minutes d =
     f_add (f_of_int (sgn d * (\<bar>d\<bar> div Minute))) (f_div (f_of_int (sgn d * (\<bar>d\<bar> mod Minute))) (f_of_int Minute))"

text \<open>The least-squares slope; every operation rounds on its own (no fused multiply-add).\<close>

definition slopeStep ::
  "time \<Rightarrow> duration \<Rightarrow> Sample \<Rightarrow> f64 \<times> f64 \<times> f64 \<times> f64 \<times> f64 \<Rightarrow> f64 \<times> f64 \<times> f64 \<times> f64 \<times> f64" where
  "slopeStep fin d v acc =
     (if t_sub fin (sm_At v) > d then acc
      else let (n, sx, sy, sxx, sxy) = acc; x = d_minutes (t_sub (sm_At v) fin)
           in (f_add n (Fin 1), f_add sx x, f_add sy (Load1 v), f_add sxx (f_mul x x), f_add sxy (f_mul x (Load1 v))))"

definition slope :: "Sample list \<Rightarrow> duration \<Rightarrow> f64" where
  "slope w d =
     (if length w < 2 then Fin 0
      else let fin = sm_At (last w);
               (n, sx, sy, sxx, sxy) = fold (slopeStep fin d) w (Fin 0, Fin 0, Fin 0, Fin 0, Fin 0);
               den = f_sub (f_mul n sxx) (f_mul sx sx)
           in if f_lt n (Fin 2) \<or> f_lt (f_abs den) (f64_of_rat (1 / 10 ^ 9)) then Fin 0
              else f_div (f_sub (f_mul n sxy) (f_mul sx sy)) den)"

definition cond :: "string \<Rightarrow> string \<Rightarrow> string \<Rightarrow> string \<Rightarrow> Condition" where
  "cond k s t d = \<lparr> c_Key = k, c_Severity = s, c_Title = t, c_Detail = d \<rparr>"

subsection \<open>Rules\<close>

definition evalLoad :: "Config \<Rightarrow> Sample list \<Rightarrow> Sample \<Rightarrow> Condition list" where
  "evalLoad c w s =
     (if NCPU s \<le> 0 then []
      else let n = f_of_int (NCPU s);
               detail = ''1-minute load '' @ fixed1 (Load1 s) @ '' across '' @ dec (NCPU s) @ '' CPUs'';
               high = (if sustained w (Load_Sustain c) (\<lambda>x. f_lt (f_mul (Load_CriticalMultiple c) n) (Load1 x))
                       then [cond ''load.high'' ''critical'' ''Host load is critical'' detail]
                       else if sustained w (Load_Sustain c) (\<lambda>x. f_lt (f_mul (Load_WarnMultiple c) n) (Load1 x))
                       then [cond ''load.high'' ''warn'' ''Host load is high'' detail] else []);
               climb = (if f_lt n (Load1 s) \<and>
                           f_lt (f_mul (Load_TrendSlopeMultiple c) n) (slope w (wrap64 (Load_TrendMinutes c * Minute)))
                        then [cond ''load.climbing'' ''warn'' ''Load climbing'' (''1-minute load '' @ fixed1 (Load1 s) @ '' is rising'')]
                        else [])
           in high @ climb)"

text \<open>The backward scan for swap growth stops at the first sample older than five minutes.\<close>

fun swapGrowth :: "Config \<Rightarrow> Sample \<Rightarrow> Sample list \<Rightarrow> Condition list" where
  "swapGrowth c s [] = []"
| "swapGrowth c s (x # xs) =
     (if t_sub (sm_At s) (sm_At x) > 5 * Minute then []
      else if f_lt (Memory_SwapGrowthMB c) (f_sub (SwapUsedMB s) (SwapUsedMB x))
      then [cond ''memory.swap_growth'' ''warn'' ''Swap growing quickly''
              (''swap grew '' @ fixed0 (f_sub (SwapUsedMB s) (SwapUsedMB x)) @ '' MB'')]
      else swapGrowth c s xs)"

definition evalMemory :: "Config \<Rightarrow> Sample list \<Rightarrow> Sample \<Rightarrow> Condition list" where
  "evalMemory c w s =
     (let detail = ''swap '' @ fixed0 (SwapUsedMB s) @ '' MB''
      in (if MemoryPressure s = ''critical'' then [cond ''memory.pressure'' ''critical'' ''Memory pressure is critical'' detail]
          else if sustained w (Memory_WarnSustain c) (\<lambda>x. MemoryPressure x = ''warn'')
          then [cond ''memory.pressure'' ''warn'' ''Memory pressure is elevated'' detail] else []) @
         swapGrowth c s (tl (rev w)))"

definition limitCondition :: "Config \<Rightarrow> string \<times> LimitUsage \<Rightarrow> Condition list" where
  "limitCondition c kv =
     (let (key, v) = kv; detail = key @ '': '' @ fixed0 (lu_Pct v) @ ''%'' in
      if key = ''procs'' \<or> key = ''procs_per_uid'' then []
      else if lu_Limit v \<le> 0 then []
      else if f_lt (Limits_CriticalPct c) (lu_Pct v)
      then [cond (''limit:'' @ key) ''critical'' ''Resource limit near exhaustion'' detail]
      else if f_lt (Limits_WarnPct c) (lu_Pct v)
      then [cond (''limit:'' @ key) ''warn'' ''Resource limit elevated'' detail] else [])"

definition evalLimits :: "Config \<Rightarrow> Sample \<Rightarrow> Condition list" where
  "evalLimits c s = concat (map (limitCondition c) (sm_Limits s))"

definition evalDiskThermal :: "Config \<Rightarrow> Sample list \<Rightarrow> Sample \<Rightarrow> Condition list" where
  "evalDiskThermal c w s =
     (let detail = fixed1 (DataFreeGB s) @ '' GB free''
      in (if f_le (Fin 0) (DataFreeGB s) \<and> f_lt (DataFreeGB s) (Disk_CriticalGB c)
          then [cond ''disk.free'' ''critical'' ''Data disk nearly full'' detail]
          else if f_le (Fin 0) (DataFreeGB s) \<and> f_lt (DataFreeGB s) (Disk_WarnGB c)
          then [cond ''disk.free'' ''warn'' ''Data disk low'' detail] else []) @
         (if sustained w (Thermal_Sustain c) ThermalThrottled
          then [cond ''thermal.throttled'' ''warn'' ''CPU thermally throttled'' ''thermal speed limit active''] else []))"

definition kindCPU :: "Config \<Rightarrow> Sample list \<Rightarrow> string \<times> KindStat \<Rightarrow> Condition list" where
  "kindCPU c w ks =
     (let (kind, stat) = ks in
      if kind \<noteq> ''other'' \<and> f_le (Kinds_CPUPct c) (ks_CPUPct stat) \<and>
         sustained w (Kinds_CPUSustain c) (\<lambda>x. f_le (Kinds_CPUPct c) (ks_CPUPct (kindOf x kind)))
      then [cond (''kind.cpu:'' @ kind) ''warn'' (kind @ '' CPU high'') (fixed0 (ks_CPUPct stat) @ ''% CPU'')] else [])"

definition kindCountRule :: "Config \<Rightarrow> Sample list \<Rightarrow> string \<times> int \<times> int \<Rightarrow> Condition list" where
  "kindCountRule c w v =
     (let (key, cnt, threshold) = v in
      if cnt \<ge> threshold \<and> sustained w (Kinds_CountSustain c) (\<lambda>x. kindCount x key \<ge> threshold)
      then [cond (''kind.count:'' @ key) ''warn'' (key @ '' process count high'') (dec cnt @ '' processes'')] else [])"

definition evalKinds :: "Config \<Rightarrow> Sample list \<Rightarrow> Sample \<Rightarrow> Condition list" where
  "evalKinds c w s =
     concat (map (kindCPU c w) (sm_Kinds s)) @
     concat (map (kindCountRule c w)
       [(''gradle'', ks_Count (kindOf s ''gradle''), Kinds_Gradle c),
        (''simulator'', ks_Count (kindOf s ''simulator''), Kinds_Simulator c),
        (''qemu'', ks_Count (kindOf s ''qemu''), Kinds_QEMU c),
        (''agents'', ks_Count (kindOf s ''codex'') + ks_Count (kindOf s ''claude''), Kinds_Agents c)])"

definition condition_less :: "Condition \<Rightarrow> Condition \<Rightarrow> bool" where
  "condition_less a b \<longleftrightarrow> c_Key a < c_Key b"

definition evaluateSamples :: "Config \<Rightarrow> Sample list \<Rightarrow> Condition list" where
  "evaluateSamples c window =
     (if window = [] then []
      else let s = last window
           in sort_slice condition_less
                (evalLoad c window s @ evalMemory c window s @ evalLimits c s @ evalDiskThermal c window s @ evalKinds c window s))"

subsection \<open>Sustained rules\<close>

lemma sustained_iff:
  "sustained w n ok \<longleftrightarrow> max 1 n \<le> int (length w) \<and> (\<forall>s\<in>set (drop (length w - nat (max 1 n)) w). ok s)"
  by (auto simp: sustained_def Let_def list_all_iff max_def Suc_le_eq)

lemma sustained_last: "sustained w n ok \<Longrightarrow> w \<noteq> [] \<and> ok (last w)"
proof -
  assume s: "sustained w n ok"
  then have ne: "w \<noteq> []" and le: "max 1 n \<le> int (length w)" by (auto simp: sustained_iff)
  then have "length w - nat (max 1 n) < length w" by auto
  then have "last w \<in> set (drop (length w - nat (max 1 n)) w)"
    by (metis drop_eq_Nil last_drop last_in_set not_less)
  then show ?thesis using s ne by (auto simp: sustained_iff)
qed

subsection \<open>Keys\<close>

definition sample_ok :: "Sample \<Rightarrow> bool" where
  "sample_ok s \<longleftrightarrow> mwf (sm_Limits s) \<and> mwf (sm_Kinds s)"

abbreviation keys :: "Condition list \<Rightarrow> string list" where
  "keys \<equiv> map c_Key"

lemma c_Key_cond [simp]: "c_Key (cond k s t d) = k" "c_Severity (cond k s t d) = s"
  by (simp_all add: cond_def)

lemma keys_load: "distinct (keys (evalLoad c w s))" "set (keys (evalLoad c w s)) \<subseteq> {''load.high'', ''load.climbing''}"
  by (auto simp: evalLoad_def Let_def)

lemma keys_swap: "keys (swapGrowth c s xs) = [] \<or> keys (swapGrowth c s xs) = [''memory.swap_growth'']"
  by (induction xs) auto

lemma keys_memory:
  "distinct (keys (evalMemory c w s))" "set (keys (evalMemory c w s)) \<subseteq> {''memory.pressure'', ''memory.swap_growth''}"
  using keys_swap [of c s "tl (rev w)"] by (auto simp: evalMemory_def Let_def)

lemma keys_disk:
  "distinct (keys (evalDiskThermal c w s))" "set (keys (evalDiskThermal c w s)) \<subseteq> {''disk.free'', ''thermal.throttled''}"
  by (auto simp: evalDiskThermal_def Let_def)

text \<open>A loop over a map that emits at most one condition per key, named after the key.\<close>

lemma keys_concat:
  assumes "\<And>kv. keys (g kv) = [] \<or> keys (g kv) = [pre @ fst kv]"
  shows "set (keys (concat (map g m))) \<subseteq> (\<lambda>k. pre @ k) ` fst ` set m"
    and "distinct (map fst m) \<Longrightarrow> distinct (keys (concat (map g m)))"
proof -
  have sub: "set (keys (concat (map g m))) \<subseteq> (\<lambda>k. pre @ k) ` fst ` set m" for m
  proof (induction m)
    case (Cons kv m)
    have "set (keys (g kv)) \<subseteq> {pre @ fst kv}" using assms [of kv] by (elim disjE) simp_all
    then show ?case using Cons unfolding list.map concat.simps map_append set_append list.set image_insert by blast
  qed simp
  show "set (keys (concat (map g m))) \<subseteq> (\<lambda>k. pre @ k) ` fst ` set m" by (rule sub)
  show "distinct (keys (concat (map g m)))" if "distinct (map fst m)"
    using that
  proof (induction m)
    case (Cons kv m)
    have "pre @ fst kv \<notin> (\<lambda>k. pre @ k) ` fst ` set m" using Cons.prems by (simp add: image_iff)
    then have n: "pre @ fst kv \<notin> set (keys (concat (map g m)))" using sub [of m] by blast
    have "distinct (keys (concat (map g m)))" using Cons by simp
    with n show ?case using assms [of kv] unfolding list.map concat.simps map_append distinct_append
      by (elim disjE) simp_all
  qed simp
qed

lemma keys_limits:
  assumes "sample_ok s"
  shows "distinct (keys (evalLimits c s))" "set (keys (evalLimits c s)) \<subseteq> range (\<lambda>k. ''limit:'' @ k)"
proof -
  have g: "keys (limitCondition c kv) = [] \<or> keys (limitCondition c kv) = [''limit:'' @ fst kv]" for kv
    by (auto simp: limitCondition_def Let_def split: prod.splits)
  show "distinct (keys (evalLimits c s))"
    using keys_concat(2) [OF g] assms by (simp add: evalLimits_def sample_ok_def mwf_def mkeys_def)
  show "set (keys (evalLimits c s)) \<subseteq> range (\<lambda>k. ''limit:'' @ k)"
    using keys_concat(1) [OF g, of "sm_Limits s"] unfolding evalLimits_def by auto
qed

lemma keys_kinds:
  assumes "sample_ok s"
  shows "distinct (keys (evalKinds c w s))"
    "set (keys (evalKinds c w s)) \<subseteq> range (\<lambda>k. ''kind.cpu:'' @ k) \<union> range (\<lambda>k. ''kind.count:'' @ k)"
proof -
  let ?rules = "[(''gradle'', ks_Count (kindOf s ''gradle''), Kinds_Gradle c),
        (''simulator'', ks_Count (kindOf s ''simulator''), Kinds_Simulator c),
        (''qemu'', ks_Count (kindOf s ''qemu''), Kinds_QEMU c),
        (''agents'', ks_Count (kindOf s ''codex'') + ks_Count (kindOf s ''claude''), Kinds_Agents c)]"
  have g: "keys (kindCPU c w kv) = [] \<or> keys (kindCPU c w kv) = [''kind.cpu:'' @ fst kv]" for kv
    by (auto simp: kindCPU_def split: prod.splits)
  have h: "keys (kindCountRule c w kv) = [] \<or> keys (kindCountRule c w kv) = [''kind.count:'' @ fst kv]" for kv
    by (auto simp: kindCountRule_def split: prod.splits)
  have d: "distinct (map fst (sm_Kinds s))" using assms by (simp add: sample_ok_def mwf_def mkeys_def)
  have d': "distinct (map fst ?rules)" by simp
  note cpu = keys_concat [OF g, of "sm_Kinds s"] and cnt = keys_concat [OF h, of ?rules]
  have eq: "keys (evalKinds c w s) = keys (concat (map (kindCPU c w) (sm_Kinds s))) @ keys (concat (map (kindCountRule c w) ?rules))"
    unfolding evalKinds_def by (rule map_append)
  have s1: "set (keys (concat (map (kindCPU c w) (sm_Kinds s)))) \<subseteq> range (\<lambda>k. ''kind.cpu:'' @ k)"
    and s2: "set (keys (concat (map (kindCountRule c w) ?rules))) \<subseteq> range (\<lambda>k. ''kind.count:'' @ k)"
    using cpu(1) cnt(1) by blast+
  have "range (\<lambda>k. ''kind.cpu:'' @ k) \<inter> range (\<lambda>k. ''kind.count:'' @ k) = {}" by auto
  then show "distinct (keys (evalKinds c w s))"
    unfolding eq distinct_append using cpu(2) [OF d] cnt(2) [OF d'] s1 s2 by blast
  show "set (keys (evalKinds c w s)) \<subseteq> range (\<lambda>k. ''kind.cpu:'' @ k) \<union> range (\<lambda>k. ''kind.count:'' @ k)"
    unfolding eq set_append using s1 s2 by blast
qed

text \<open>The host conditions have distinct keys, and every key belongs to the engine's slow scope.\<close>

theorem evaluateSamples_keys:
  assumes "w \<noteq> [] \<Longrightarrow> sample_ok (last w)"
  shows "distinct (keys (evaluateSamples c w))" and "k \<in> set (keys (evaluateSamples c w)) \<Longrightarrow> scopeOf k = ''slow''"
proof -
  let ?all = "evalLoad c w (last w) @ evalMemory c w (last w) @ evalLimits c (last w) @ evalDiskThermal c w (last w) @ evalKinds c w (last w)"
  let ?names = "{''load.high'', ''load.climbing''} \<union> ({''memory.pressure'', ''memory.swap_growth''} \<union> (range (\<lambda>k. ''limit:'' @ k) \<union>
    ({''disk.free'', ''thermal.throttled''} \<union> (range (\<lambda>k. ''kind.cpu:'' @ k) \<union> range (\<lambda>k. ''kind.count:'' @ k)))))"
  have ms: "mset (keys (evaluateSamples c w)) = mset (keys ?all)" if "w \<noteq> []"
    using that by (simp add: evaluateSamples_def Let_def)
  have dist: "distinct (keys ?all)" if ne: "w \<noteq> []"
  proof -
    note k = keys_load [of c w "last w"] keys_memory [of c w "last w"] keys_limits [OF assms [OF ne], of c]
      keys_disk [of c w "last w"] keys_kinds [OF assms [OF ne], of c w]
    have app: "keys ?all = keys (evalLoad c w (last w)) @ keys (evalMemory c w (last w)) @ keys (evalLimits c (last w)) @
        keys (evalDiskThermal c w (last w)) @ keys (evalKinds c w (last w))" by simp
    have dj: "A \<inter> B = {}" if "A \<subseteq> A'" "B \<subseteq> B'" "A' \<inter> B' = {}" for A B A' B' :: "string set" using that by blast
    have "set (keys (evalLoad c w (last w))) \<inter> set (keys (evalMemory c w (last w))) = {}" by (rule dj [OF k(2) k(4)]) auto
    moreover have "set (keys (evalLoad c w (last w))) \<inter> set (keys (evalLimits c (last w))) = {}" by (rule dj [OF k(2) k(6)]) auto
    moreover have "set (keys (evalLoad c w (last w))) \<inter> set (keys (evalDiskThermal c w (last w))) = {}" by (rule dj [OF k(2) k(8)]) auto
    moreover have "set (keys (evalLoad c w (last w))) \<inter> set (keys (evalKinds c w (last w))) = {}" by (rule dj [OF k(2) k(10)]) auto
    moreover have "set (keys (evalMemory c w (last w))) \<inter> set (keys (evalLimits c (last w))) = {}" by (rule dj [OF k(4) k(6)]) auto
    moreover have "set (keys (evalMemory c w (last w))) \<inter> set (keys (evalDiskThermal c w (last w))) = {}" by (rule dj [OF k(4) k(8)]) auto
    moreover have "set (keys (evalMemory c w (last w))) \<inter> set (keys (evalKinds c w (last w))) = {}" by (rule dj [OF k(4) k(10)]) auto
    moreover have "set (keys (evalLimits c (last w))) \<inter> set (keys (evalDiskThermal c w (last w))) = {}" by (rule dj [OF k(6) k(8)]) auto
    moreover have "set (keys (evalLimits c (last w))) \<inter> set (keys (evalKinds c w (last w))) = {}" by (rule dj [OF k(6) k(10)]) auto
    moreover have "set (keys (evalDiskThermal c w (last w))) \<inter> set (keys (evalKinds c w (last w))) = {}" by (rule dj [OF k(8) k(10)]) auto
    ultimately show ?thesis
      unfolding app distinct_append set_append Int_Un_distrib using k(1,3,5,7,9) by (simp only: Un_empty simp_thms)
  qed
  show "distinct (keys (evaluateSamples c w))"
  proof (cases "w = []")
    case False
    show ?thesis unfolding mset_eq_imp_distinct_iff [OF ms [OF False]] by (rule dist [OF False])
  qed (simp add: evaluateSamples_def)
  show "scopeOf k = ''slow''" if k: "k \<in> set (keys (evaluateSamples c w))"
  proof -
    have ne: "w \<noteq> []" using k by (auto simp: evaluateSamples_def)
    have "set (keys ?all) \<subseteq> ?names"
      unfolding map_append set_append
      by (intro Un_mono keys_load(2) keys_memory(2) keys_limits(2) keys_disk(2) keys_kinds(2) assms ne)
    moreover have "k \<in> set (keys ?all)" using k unfolding mset_eq_setD [OF ms [OF ne]] .
    ultimately have "k \<in> ?names" by (rule subsetD)
    then show ?thesis
      unfolding scopeOf_def spawnKey_def sustainedKeyPrefix_def
      by (elim UnE insertE emptyE rangeE) simp_all
  qed
qed

subsection \<open>From samples to alerts\<close>

lemma key_step_fired:
  assumes "(v', evs) = key_step nid now scope ca pid co v" and "ev \<in> set evs" and "ev_Type ev = ''fired''"
  shows "\<exists>c. co = Some c \<and> ev_Alert ev = new_alert nid now c"
proof (cases co)
  case None
  obtain al n p where v: "v = (al, n, p)" by (cases v)
  then show ?thesis using None assms by (cases al) (auto simp: key_step_def split: if_splits)
next
  case (Some c)
  obtain al n p where v: "v = (al, n, p)" by (cases v)
  then show ?thesis using Some assms by (cases al) (auto simp: key_step_def Let_def split: if_splits)
qed

text \<open>The latest \<open>n\<close> samples, and at least one, all show a one-minute load above the limit.\<close>

definition load_exceeds :: "int \<Rightarrow> f64 \<Rightarrow> Sample list \<Rightarrow> bool" where
  "load_exceeds n limit w \<longleftrightarrow> w \<noteq> [] \<and> n \<le> int (length w) \<and>
     (\<forall>i<length w. int (length w) - max 1 n \<le> int i \<longrightarrow> f_lt limit (Load1 (w ! i)))"

lemma sustained_load_exceeds: "sustained w n (\<lambda>x. f_lt limit (Load1 x)) \<longleftrightarrow> load_exceeds n limit w"
proof -
  let ?k = "length w - nat (max 1 n)"
  have "drop ?k w ! j = w ! (?k + j)" for j by (rule nth_drop) simp
  then have "(\<forall>x\<in>set (drop ?k w). f_lt limit (Load1 x)) \<longleftrightarrow> (\<forall>j<length w - ?k. f_lt limit (Load1 (w ! (?k + j))))"
    by (simp add: all_set_conv_all_nth)
  also have "\<dots> \<longleftrightarrow> (\<forall>i<length w. ?k \<le> i \<longrightarrow> f_lt limit (Load1 (w ! i)))"
    using le_Suc_ex less_diff_conv by (metis add.commute le_add1)
  finally have "(\<forall>x\<in>set (drop ?k w). f_lt limit (Load1 x)) \<longleftrightarrow> (\<forall>i<length w. ?k \<le> i \<longrightarrow> f_lt limit (Load1 (w ! i)))" .
  moreover have "max 1 n \<le> int (length w) \<longleftrightarrow> w \<noteq> [] \<and> n \<le> int (length w)" by (auto simp: Suc_le_eq)
  moreover have "?k \<le> i \<longleftrightarrow> int (length w) - max 1 n \<le> int i" for i by linarith
  ultimately show ?thesis unfolding sustained_iff load_exceeds_def by simp
qed

lemma load_high_condition:
  assumes "cnd \<in> set (evaluateSamples c w)" and "c_Key cnd = ''load.high''" and "w \<noteq> [] \<Longrightarrow> sample_ok (last w)"
  shows "c_Severity cnd =
      (if load_exceeds (Load_Sustain c) (f_mul (Load_CriticalMultiple c) (f_of_int (NCPU (last w)))) w then ''critical'' else ''warn'') \<and>
    (load_exceeds (Load_Sustain c) (f_mul (Load_CriticalMultiple c) (f_of_int (NCPU (last w)))) w \<or>
     load_exceeds (Load_Sustain c) (f_mul (Load_WarnMultiple c) (f_of_int (NCPU (last w)))) w)"
proof -
  have ne: "w \<noteq> []" using assms(1) by (auto simp: evaluateSamples_def)
  note ok = assms(3) [OF ne]
  have notin: "cnd \<notin> set xs" if "set (keys xs) \<subseteq> N" "''load.high'' \<notin> N" for xs N
    using that assms(2) by (metis image_eqI image_set subsetD)
  have "cnd \<notin> set (evalMemory c w (last w))" by (rule notin [OF keys_memory(2)]) simp
  moreover have "cnd \<notin> set (evalLimits c (last w))" by (rule notin [OF keys_limits(2) [OF ok]]) auto
  moreover have "cnd \<notin> set (evalDiskThermal c w (last w))" by (rule notin [OF keys_disk(2)]) simp
  moreover have "cnd \<notin> set (evalKinds c w (last w))" by (rule notin [OF keys_kinds(2) [OF ok]]) auto
  ultimately have "cnd \<in> set (evalLoad c w (last w))"
    using assms(1) ne by (simp add: evaluateSamples_def Let_def)
  then show ?thesis using assms(2) by (auto simp: evalLoad_def sustained_load_exceeds Let_def cond_def split: if_splits)
qed

text \<open>
  An alert on high load fires only when the configured number of latest samples all exceed the
  multiple of the CPU count that belongs to the alert's severity.
\<close>

theorem load_alert_is_backed:
  assumes "EvaluateSlow gen now (evaluateSamples c w) e = (e', out)" and "engine_ok e"
    and "w \<noteq> [] \<Longrightarrow> sample_ok (last w)"
    and "ev \<in> set out" and "ev_Type ev = ''fired''" and "al_Key (ev_Alert ev) = ''load.high''"
  shows "al_Severity (ev_Alert ev) =
      (if load_exceeds (Load_Sustain c) (f_mul (Load_CriticalMultiple c) (f_of_int (NCPU (last w)))) w then ''critical'' else ''warn'') \<and>
    (load_exceeds (Load_Sustain c) (f_mul (Load_CriticalMultiple c) (f_of_int (NCPU (last w)))) w \<or>
     load_exceeds (Load_Sustain c) (f_mul (Load_WarnMultiple c) (f_of_int (NCPU (last w)))) w)"
proof -
  let ?cs = "evaluateSamples c w"
  have dist: "distinct (keys ?cs)" by (rule evaluateSamples_keys(1)) (rule assms(3))
  note eval = assms(1) [unfolded EvaluateSlow_def]
  have w: "withinScope ''slow'' ''load.high''"
    by (simp add: withinScope_def spawnKey_def sustainedKeyPrefix_def)
  obtain i where "(view e' ''load.high'', for_key ''load.high'' out) =
      key_step (gen i) now ''slow'' 2 0 (find (\<lambda>c. c_Key c = ''load.high'') ?cs) (view e ''load.high'')"
    by (rule exE [OF evaluate_refines(2) [OF eval dist assms(2) w]]) (elim conjE, rule that)
  moreover have "ev \<in> set (for_key ''load.high'' out)" using assms(4,6) by simp
  ultimately obtain cnd where f: "find (\<lambda>c. c_Key c = ''load.high'') ?cs = Some cnd"
    and a: "ev_Alert ev = new_alert (gen i) now cnd"
    using key_step_fired assms(5) by blast
  have "cnd \<in> set ?cs" "c_Key cnd = ''load.high''" using f by (auto simp: find_Some_iff)
  from load_high_condition [OF this assms(3)] show ?thesis by (simp add: a new_alert_def)
qed

end
