(* ===== verification/Sample_Inputs.thy ===== *)
theory Sample_Inputs
  imports Heap_Leaks Hprof_Agreement Hostwatch_Evaluate
begin

text \<open>
  Concrete inputs on which the hypotheses of the properties hold: a small object graph, the shortest
  heap dump, an engine with one alert, a tracker with one firing process. They are the instances of
  the witnesses in \<open>Spec2Isabelle\<close>.
\<close>

subsection \<open>Heap\<close>

text \<open>Object 0 is a root and references 1 and 2, object 1 references 2, object 3 is garbage.\<close>

definition demo_graph :: ObjectGraph where
  "demo_graph = \<lparr> IDSize = 8, Unresolved = 0, ids = [1, 2, 3, 4], cls = [0, 1, 1, 0], shallow = [16, 24, 24, 8],
     outStart = [0, 2, 3, 3, 3], outs = [1, 2, 2], roots = [0],
     gcRoots = [\<lparr> Object = 0, Kind = RootStickyClass, ThreadID = 0 \<rparr>], predCSR = None,
     classNames = [''A'', ''B''], classObjOf = [] \<rparr>"

lemma demo_graph_wf: "wf_graph demo_graph"
  by (simp add: wf_graph_def demo_graph_def csr_ok_def Len_def)

text \<open>A dump that consists of its header only.\<close>

definition demo_dump :: "byte list" where
  "demo_dump = map (\<lambda>c. of_nat (of_char c)) ''JAVA PROFILE 1.0.2'' @ [0, 0, 0, 0, 8, 0, 0, 0, 0, 0, 0, 0, 0]"

lemma demo_header: "readHPROFHeader demo_dump = Inr (8, [])"
  by (simp add: demo_dump_def readHPROFHeader_def rbind_def rwrap_def rreturn_def maxHPROFHeaderName_def
     u4_def u8_def readFull_def be32_def be64_def go_string_def char_of_def bit_0)

lemma demo_dump_parses: "\<exists>g. ParseObjectGraph default_limits demo_dump = Inr g"
proof -
  have "wf_state default_limits (newGraphState 8)" by (rule wf_newGraphState) simp
  then have wf: "wf_builder default_limits (bld (newGraphState 8))" by (simp add: wf_state_def)
  have p: "pending (newGraphState 8) = []" by (simp add: newGraphState_def Let_def split: prod.splits)
  show ?thesis
    using build_spec [OF wf, of "className (newGraphState 8)"]
    by (auto simp: ParseObjectGraph_def demo_header finalize_def p elim!: returnsE)
qed

subsection \<open>Host watch\<close>

definition demo_condition :: Condition where
  "demo_condition = \<lparr> c_Key = ''disk.free'', c_Severity = ''critical'', c_Title = ''Data disk nearly full'', c_Detail = ''1.0 GB free'' \<rparr>"

definition demo_alert :: Alert where
  "demo_alert = \<lparr> al_ID = ''a'', al_Key = ''disk.free'', al_Severity = ''warn'', al_Title = ''Data disk low'',
     al_Detail = ''9.0 GB free'', al_State = ''firing'', FiredAt = 1, ResolvedAt = None, AckedAt = Some 2, al_Spawn = None \<rparr>"

definition demo_engine :: Engine where
  "demo_engine = \<lparr> active = [(''disk.free'', demo_alert)], clears = [(''disk.free'', 0)], parents = [], drawn = 1 \<rparr>"

lemma demo_engine_ok: "engine_ok demo_engine"
  by (simp add: engine_ok_def demo_engine_def demo_alert_def mwf_def mkeys_def)

text \<open>
  The life of one key: a restored alert is updated when its condition returns with another severity,
  resolved by the second evaluation without it, and fired anew under the next identifier.
\<close>

definition demo_ids :: "nat \<Rightarrow> string" where "demo_ids i = replicate (Suc i) CHR ''x''"

definition demo_restored :: Engine where "demo_restored = Restore [demo_alert] NewEngine"

definition demo_updated :: Alert where
  "demo_updated = demo_alert \<lparr> al_Severity := ''critical'', al_Title := ''Data disk nearly full'', al_Detail := ''1.0 GB free'' \<rparr>"

definition demo_quiet :: Engine where
  "demo_quiet = \<lparr> active = [(''disk.free'', demo_updated)], clears = [(''disk.free'', 0)], parents = [], drawn = 0 \<rparr>"

definition demo_waiting :: Engine where
  "demo_waiting = demo_quiet \<lparr> clears := [(''disk.free'', 1)] \<rparr>"

definition demo_later :: Engine where
  "demo_later = \<lparr> active = [(''disk.free'', new_alert ''x'' 12 demo_condition)], clears = [(''disk.free'', 0)],
     parents = [], drawn = 1 \<rparr>"

definition demo_labels :: "label list" where
  "demo_labels =
     [Loaded demo_alert, Emitted \<lparr> ev_Type = ''updated'', ev_Alert = demo_updated \<rparr>,
      Emitted (resolvedAt 11 demo_updated), Emitted \<lparr> ev_Type = ''fired'', ev_Alert = new_alert ''x'' 12 demo_condition \<rparr>]"

lemmas engine_eval = EvaluateSlow_def evaluate_def evalCondition_def applyCondition_def resolveMissing_def
  resolveOne_def withinScope_def spawnKey_def sustainedKeyPrefix_def NewEngine_def mput_def mdel_def mgetd_def Let_def

lemma demo_updates:
  "EvaluateSlow demo_ids 9 [demo_condition] demo_restored =
     (demo_quiet, [\<lparr> ev_Type = ''updated'', ev_Alert = demo_updated \<rparr>])"
  by (simp add: engine_eval demo_restored_def Restore_def restoreOne_def demo_alert_def demo_condition_def demo_quiet_def
      demo_updated_def)

lemma demo_waits: "EvaluateSlow demo_ids 10 [] demo_quiet = (demo_waiting, [])"
  by (simp add: engine_eval demo_quiet_def demo_waiting_def)

lemma demo_resolves: "EvaluateSlow demo_ids 11 [] demo_waiting = (NewEngine, [resolvedAt 11 demo_updated])"
  by (simp add: engine_eval demo_quiet_def demo_waiting_def resolvedAt_def)

lemma demo_fires:
  "EvaluateSlow demo_ids 12 [demo_condition] NewEngine =
     (demo_later, [\<lparr> ev_Type = ''fired'', ev_Alert = new_alert ''x'' 12 demo_condition \<rparr>])"
  by (simp add: engine_eval demo_condition_def demo_later_def new_alert_def demo_ids_def)

lemma demo_trace: "engine_trace demo_ids NewEngine demo_labels demo_later"
proof -
  have d: "distinct (map c_Key [demo_condition])" "distinct (map c_Key [])" by simp_all
  note r = restore_step [OF demo_restored_def [symmetric], of demo_ids]
  note t = trace_step [OF trace_step [OF trace_step [OF trace_step [OF trace_step [OF trace_start
    r] slow_step [OF d(1) demo_updates]] slow_step [OF d(2) demo_waits]] slow_step [OF d(2) demo_resolves]]
    slow_step [OF d(1) demo_fires]]
  show ?thesis using t by (simp add: demo_labels_def demo_alert_def)
qed

lemma demo_lifeline:
  "lifeline ''disk.free'' demo_labels =
     [(''loaded'', ''a''), (''updated'', ''a''), (''resolved'', ''a''), (''fired'', ''x'')]"
  by (simp add: lifeline_def demo_labels_def demo_alert_def demo_updated_def resolvedAt_def new_alert_def demo_condition_def)

definition demo_entry :: sustainedEntry where
  "demo_entry = \<lparr> en_name = ''hog'', en_started = 5, points = [\<lparr> cp_at = 100, above = True, cpu = Fin 90 \<rparr>],
     since = 50, lastGood = 100, adopt = False \<rparr>"

definition demo_tracker :: SustainedTracker where
  "demo_tracker = \<lparr> cfg = DefaultSustainedConfig, entries = [(7, demo_entry)], last_at = 100 \<rparr>"

lemma demo_tracker_ok: "tracker_ok demo_tracker"
  by (simp add: tracker_ok_def demo_tracker_def demo_entry_def mwf_def mkeys_def entry_ok_def DefaultSustainedConfig_def)

definition demo_proc :: ProcObs where
  "demo_proc = \<lparr> po_PID = 7, po_PPID = 1, po_Name = ''/bin/hog'', po_CPUPct = Fin 3, po_Started = 5, po_Skip = False \<rparr>"

text \<open>Another process under the same identifier, started a hundred seconds later.\<close>

definition demo_successor :: ProcObs where
  "demo_successor = demo_proc \<lparr> po_Started := 10 ^ 11 \<rparr>"

text \<open>A process with three high samples over a window of ten nanoseconds, about to be reported.\<close>

definition demo_config :: SustainedConfig where
  "demo_config = \<lparr> s_CPUPct = Fin 50, Window = 10, MinFraction = Fin 1, Allowlist = [], s_Interval = 1, MaxGap = 0 \<rparr>"

definition demo_hot :: SustainedTracker where
  "demo_hot = \<lparr> cfg = demo_config, entries = [(7, \<lparr> en_name = ''/bin/hog'', en_started = 5,
     points = [\<lparr> cp_at = 85, above = True, cpu = Fin 90 \<rparr>, \<lparr> cp_at = 92, above = True, cpu = Fin 90 \<rparr>,
               \<lparr> cp_at = 96, above = True, cpu = Fin 90 \<rparr>],
     since = 0, lastGood = 96, adopt = False \<rparr>)], last_at = 96 \<rparr>"

definition demo_busy :: ProcObs where
  "demo_busy = \<lparr> po_PID = 7, po_PPID = 1, po_Name = ''/bin/hog'', po_CPUPct = Fin 90, po_Started = 5, po_Skip = False \<rparr>"

definition demo_finding :: SustainedFinding where
  "demo_finding = \<lparr> sf_PID = 7, sf_Name = ''/bin/hog'', sf_Started = 5, Since = 92, Duration = 8, AvgCPU = Fin 90, Fraction = Fin 1 \<rparr>"

lemmas observe_eval = Observe_def gapped_def t_sub_def maxGap_def sustainedMinGap_def
  Minute_def Second_def observeProc_def Allowed_def dropIfReused_def sameStart_def startTolerance_def record_obs_def mput_def
  staleHistory_def f_le_def inWindow_def anyAbove_def tracker_evaluate_def evalEntry_def summarize_def
  countAbove_def minAbovePoints_def capacity_def List.map_filter_simps f_of_int_def float_eval

lemma demo_hot_observe: "snd (Observe 100 [demo_busy] demo_hot) = [demo_finding]"
  by (simp add: observe_eval demo_hot_def demo_busy_def demo_config_def demo_finding_def)

text \<open>The tracker with these samples is the one that observed the process three times.\<close>

definition demo_history :: history where
  "demo_history = [(85, [demo_busy]), (92, [demo_busy]), (96, [demo_busy])]"

definition demo_warm :: "cpuPoint list \<Rightarrow> time \<Rightarrow> SustainedTracker" where
  "demo_warm ps now = \<lparr> cfg = demo_config, entries = [(7, \<lparr> en_name = ''/bin/hog'', en_started = 5, points = ps,
     since = 0, lastGood = now, adopt = False \<rparr>)], last_at = now \<rparr>"

lemma demo_observed:
  "Observe 85 [demo_busy] (NewSustainedTracker demo_config) =
     (demo_warm [\<lparr> cp_at = 85, above = True, cpu = Fin 90 \<rparr>] 85, [])"
  "Observe 92 [demo_busy] (demo_warm [\<lparr> cp_at = 85, above = True, cpu = Fin 90 \<rparr>] 85) =
     (demo_warm [\<lparr> cp_at = 85, above = True, cpu = Fin 90 \<rparr>, \<lparr> cp_at = 92, above = True, cpu = Fin 90 \<rparr>] 92, [])"
  "Observe 96 [demo_busy] (demo_warm [\<lparr> cp_at = 85, above = True, cpu = Fin 90 \<rparr>, \<lparr> cp_at = 92, above = True, cpu = Fin 90 \<rparr>] 92) =
     (demo_hot, [])"
  by (simp_all add: observe_eval NewSustainedTracker_def demo_warm_def demo_hot_def demo_busy_def demo_config_def)

lemma demo_run: "tracker_run demo_config demo_history demo_hot"
proof -
  have d: "distinct (map po_PID [demo_busy])" by simp
  note r1 = run_observe [OF run_new _ d demo_observed(1)]
  note r2 = run_observe [OF r1 _ d demo_observed(2)]
  note r3 = run_observe [OF r2 _ d demo_observed(3)]
  show ?thesis using r3 by (simp add: demo_history_def)
qed

definition demo_sample :: Sample where
  "demo_sample = \<lparr> sm_At = 100, NCPU = 4, Load1 = Fin 20, Load5 = Fin 20, Load15 = Fin 20, MemoryPressure = ''normal'',
     SwapUsedMB = Fin 0, MemFreePct = Fin 50, sm_Limits = [], DataFreeGB = Fin 100, ThermalThrottled = False,
     sm_Kinds = [], TopCPU = [], SelfCPUPct = Fin 0, sm_Spawn = None \<rparr>"

lemma demo_sample_ok: "sample_ok demo_sample"
  by (simp add: sample_ok_def demo_sample_def)

definition demo_load_event :: Event where
  "demo_load_event = \<lparr> ev_Type = ''fired'', ev_Alert =
     new_alert [] 100 (cond ''load.high'' ''critical'' ''Host load is critical'' ''1-minute load 20.0 across 4 CPUs'') \<rparr>"

lemma demo_load_conditions:
  "evaluateSamples DefaultConfig [demo_sample, demo_sample] =
     [cond ''load.high'' ''critical'' ''Host load is critical'' ''1-minute load 20.0 across 4 CPUs'']"
  by (simp add: evaluateSamples_def demo_sample_def DefaultConfig_def evalLoad_def evalMemory_def evalLimits_def evalDiskThermal_def
    evalKinds_def sustained_def slope_def slopeStep_def t_sub_def kindCountRule_def mgetd_def noKind_def f_le_def f_of_int_def
    f_sub_def d_minutes_def Minute_def Second_def wrap64_def float_eval sign_def dec_def dec_nat.simps char_of_def bit_0)

definition demo_spawn :: spawnTracker where
  "demo_spawn = \<lparr> previous = None, st_at = 0, warnStreak = 0, probes = [] \<rparr>"

definition demo_child :: SpawnProcess where
  "demo_child = \<lparr> sp_PID = 40, sp_PPID = 7, sp_UID = 501, sp_Comm = ''sh'' \<rparr>"

lemma demo_load_fires:
  "demo_load_event \<in> set (snd (EvaluateSlow (\<lambda>_. []) 100 (evaluateSamples DefaultConfig [demo_sample, demo_sample]) NewEngine))"
  unfolding demo_load_conditions
  by (simp add: EvaluateSlow_def evaluate_def evalCondition_def applyCondition_def resolveMissing_def resolveOne_def withinScope_def
    spawnKey_def sustainedKeyPrefix_def NewEngine_def mput_def demo_load_event_def new_alert_def cond_def Let_def)

end
