(* ===== verification/Ring_Buffer.thy ===== *)
theory Ring_Buffer
  imports Go_Time
begin

text \<open>
  The two in-memory histories of the daemon: the per-process sample rings with their one-minute
  aggregates (\<open>internal/metrics/ring.go\<close>) and the ring of live snapshots
  (\<open>internal/livehistory/history.go\<close>). The locale \<open>bounded_history\<close> is what both promise: adding keeps
  the newest elements up to the capacity, in order. Both rings are proved to implement it without an
  index out of range.
\<close>

subsection \<open>The contract\<close>

text \<open>The newest \<open>n\<close> elements, oldest first.\<close>

definition newest :: "nat \<Rightarrow> 'a list \<Rightarrow> 'a list" where
  "newest n xs = drop (length xs - n) xs"

lemma length_newest [simp]: "length (newest n xs) = min n (length xs)"
  by (simp add: newest_def)

lemma newest_newest: "newest n (newest n xs @ ys) = newest n (xs @ ys)"
proof (cases "length xs \<le> n")
  case False
  then have "xs = take (length xs - n) xs @ newest n xs" and "length (newest n xs) = n"
    by (simp_all add: newest_def)
  then show ?thesis
    using False by (simp add: newest_def drop_append add.commute)
qed (simp add: newest_def)

lemma newest_all: "length xs \<le> n \<Longrightarrow> newest n xs = xs"
  by (simp add: newest_def)

lemma newest_min: "newest m (newest n xs) = newest (min m n) xs"
  by (simp add: newest_def) (rule arg_cong [where f = "\<lambda>k. drop k xs"], simp)

locale bounded_history =
  fixes add :: "'a \<Rightarrow> 'r \<Rightarrow> ('e, 'r) go"
    and read :: "'r \<Rightarrow> ('e, 'a list) go"
    and view :: "'r \<Rightarrow> 'a list"
    and inv :: "nat \<Rightarrow> 'r \<Rightarrow> bool"
  assumes add_law: "inv n r \<Longrightarrow> returns (add x r) (\<lambda>r'. inv n r' \<and> view r' = newest n (view r @ [x]))"
    and read_law: "inv n r \<Longrightarrow> read r = Inr (view r)"
    and view_bound: "inv n r \<Longrightarrow> length (view r) \<le> n"
begin

lemma adds_law: "inv n r \<Longrightarrow> returns (gfold add xs r) (\<lambda>r'. inv n r' \<and> view r' = newest n (view r @ xs))"
proof (induction xs arbitrary: r)
  case Nil
  then show ?case by (simp add: newest_all view_bound)
next
  case (Cons x xs)
  obtain r1 where r1: "add x r = Inr r1" "inv n r1" "view r1 = newest n (view r @ [x])"
    using add_law [OF Cons.prems] by (auto elim!: returnsE)
  show ?case
    using Cons.IH [OF r1(2)] newest_newest [of n "view r @ [x]" xs] by (simp add: r1)
qed

text \<open>Reading after any number of additions gives the newest elements in the order they were added.\<close>

lemma read_after_adds:
  assumes "inv n r"
  shows "gbind (gfold add xs r) read = Inr (newest n (view r @ xs))"
  using adds_law [OF assms, of xs] by (auto elim!: returnsE simp: read_law)

end

subsection \<open>One circular array\<close>

text \<open>
  The storage both packages use: an array, the index of the next write, and the number of elements
  stored. Writes and slices are bounds-checked; the operations below return a fault on a panic.
\<close>

record 'a ring =
  slots :: "'a list"
  head :: int
  r_count :: int

definition ring_ok :: "nat \<Rightarrow> 'a ring \<Rightarrow> bool" where
  "ring_ok n r \<longleftrightarrow>
     0 < n \<and> length (slots r) = n \<and> 0 \<le> head r \<and> head r < int n \<and> 0 \<le> r_count r \<and> r_count r \<le> int n \<and>
     (r_count r < int n \<longrightarrow> head r = r_count r)"

definition ring_contents :: "'a ring \<Rightarrow> 'a list" where
  "ring_contents r =
     (if r_count r < int (length (slots r)) then take (nat (r_count r)) (slots r)
      else drop (nat (head r)) (slots r) @ take (nat (head r)) (slots r))"

definition ring_put :: "'a \<Rightarrow> 'a ring \<Rightarrow> 'a ring" where
  "ring_put x r =
     (let n = int (length (slots r))
      in r \<lparr> slots := (slots r)[nat (head r) := x], head := (head r + 1) mod n,
              r_count := (if r_count r < n then r_count r + 1 else r_count r) \<rparr>)"

lemma ring_ok_put: "ring_ok n r \<Longrightarrow> ring_ok n (ring_put x r)"
  by (auto simp: ring_ok_def ring_put_def Let_def)

lemma ring_contents_put:
  assumes "ring_ok n r"
  shows "ring_contents (ring_put x r) = newest n (ring_contents r @ [x])"
proof -
  define h where "h = nat (head r)"
  have r: "length (slots r) = n" "head r = int h" "h < n"
    using assms by (auto simp: ring_ok_def h_def)
  have tk: "take (Suc h) ((slots r)[h := x]) = take h (slots r) @ [x]"
    using r by (simp add: take_Suc_conv_app_nth)
  have dr: "drop (Suc h) ((slots r)[h := x]) = drop (Suc h) (slots r)"
    by simp
  have nm: "nat ((int h + 1) mod int n) = Suc h mod n"
    by (simp add: nat_mod_as_int add.commute)
  have c: "r_count r = int h \<or> r_count r = int n"
    using assms r(2) unfolding ring_ok_def by linarith
  consider (grow) "r_count r = int h" "Suc h < n" | (fill) "r_count r = int h" "Suc h = n"
    | (wrap) "r_count r = int n" "Suc h = n" | (full) "r_count r = int n" "Suc h < n"
    using c r(3) by linarith
  then show ?thesis
  proof cases
    case grow
    then show ?thesis using r tk by (simp add: ring_contents_def ring_put_def Let_def newest_def nat_add_distrib)
  next
    case fill
    then have "ring_contents (ring_put x r) = take (Suc h) ((slots r)[h := x])"
      using r nm by (simp add: ring_contents_def ring_put_def Let_def)
    then show ?thesis using fill r tk by (simp add: ring_contents_def newest_def)
  next
    case wrap
    then have "ring_contents (ring_put x r) = take (Suc h) ((slots r)[h := x])"
      using r nm by (simp add: ring_contents_def ring_put_def Let_def)
    moreover have "drop h (slots r) = [slots r ! h]"
      using r wrap by (simp flip: Cons_nth_drop_Suc)
    ultimately show ?thesis using wrap r tk by (simp add: ring_contents_def newest_def)
  next
    case full
    have "ring_contents (ring_put x r) = drop (Suc h) (slots r) @ take h (slots r) @ [x]"
      using full r nm tk dr by (simp add: ring_contents_def ring_put_def Let_def)
    moreover have "drop h (slots r) = slots r ! h # drop (Suc h) (slots r)"
      using r by (simp add: Cons_nth_drop_Suc)
    ultimately show ?thesis using full r by (simp add: ring_contents_def newest_def)
  qed
qed

lemma length_ring_contents: "ring_ok n r \<Longrightarrow> length (ring_contents r) = nat (r_count r)"
  by (auto simp: ring_ok_def ring_contents_def)

lemma view_ring_bound: "ring_ok n r \<Longrightarrow> length (ring_contents r) \<le> n"
  by (auto simp: ring_contents_def ring_ok_def)

text \<open>\<open>copy(dst, src)\<close> on a slice of its own: as many elements as fit.\<close>

definition go_copy :: "'a list \<Rightarrow> 'a list \<Rightarrow> 'a list" where
  "go_copy dst src = take (length dst) src @ drop (length src) dst"

lemma go_copy_full: "length src = length dst \<Longrightarrow> go_copy dst src = src"
  by (simp add: go_copy_def)

text \<open>\<open>n := copy(out, a); copy(out[n:], b)\<close> fills \<open>out\<close> with \<open>a\<close> and \<open>b\<close> when they fit exactly.\<close>

definition copy_two :: "'a list \<Rightarrow> 'a list \<Rightarrow> 'a list \<Rightarrow> 'a list" where
  "copy_two out a b =
     (let n = min (length out) (length a); out = go_copy out a in take n out @ go_copy (drop n out) b)"

lemma copy_two_exact: "length out = length a + length b \<Longrightarrow> copy_two out a b = a @ b"
  by (simp add: copy_two_def go_copy_def Let_def)

subsection \<open>Samples of one process\<close>

definition DefaultRetainWindow :: duration where "DefaultRetainWindow = 30 * Minute"
definition maxSamples :: nat where "maxSamples = nat (DefaultRetainWindow div Second)"

record ProcSample =
  TakenAt :: time
  ps_PID :: int
  RSSKiB :: int
  ps_CPUPct :: f64
  VSizeKiB :: int

record Aggregate =
  ag_PID :: int
  MinuteAt :: time
  AvgRSSKiB :: int
  MaxRSSKiB :: int
  AvgCPUPct :: f64
  MaxCPUPct :: f64
  SampleCount :: int

type_synonym RingBuffer = "ProcSample ring"

definition noSample :: ProcSample where
  "noSample = \<lparr> TakenAt = 0, ps_PID = 0, RSSKiB = 0, ps_CPUPct = Fin 0, VSizeKiB = 0 \<rparr>"

definition newRingBuffer :: RingBuffer where
  "newRingBuffer = \<lparr> slots = replicate maxSamples noSample, head = 0, r_count = 0 \<rparr>"

definition RingBuffer_Add :: "ProcSample \<Rightarrow> RingBuffer \<Rightarrow> (unit, RingBuffer) go" where
  "RingBuffer_Add s r =
     gbind (upd (slots r) (head r) s) (\<lambda>ss.
       Inr (r \<lparr> slots := ss, head := (head r + 1) mod int maxSamples,
                r_count := (if r_count r < int maxSamples then r_count r + 1 else r_count r) \<rparr>))"

definition RingBuffer_Samples :: "RingBuffer \<Rightarrow> (unit, ProcSample list) go" where
  "RingBuffer_Samples r =
     (if r_count r = 0 then Inr []
      else (let out = replicate (nat (r_count r)) noSample
            in if r_count r < int maxSamples
               then gbind (slice (slots r) 0 (r_count r)) (\<lambda>a. Inr (go_copy out a))
               else gbind (slice (slots r) (head r) (int (length (slots r)))) (\<lambda>a.
                    gbind (slice (slots r) 0 (head r)) (\<lambda>b. Inr (copy_two out a b)))))"

lemma maxSamples_1800: "maxSamples = 1800"
  by (simp add: maxSamples_def DefaultRetainWindow_def Minute_def Second_def)

lemma RingBuffer_Add_put: "ring_ok maxSamples r \<Longrightarrow> RingBuffer_Add s r = Inr (ring_put s r)"
  by (simp add: RingBuffer_Add_def ring_ok_def ring_put_def Let_def)

lemma RingBuffer_Samples_contents: "ring_ok maxSamples r \<Longrightarrow> RingBuffer_Samples r = Inr (ring_contents r)"
  by (auto simp: RingBuffer_Samples_def ring_ok_def ring_contents_def Let_def go_copy_full copy_two_exact)

lemma newRingBuffer_ok: "ring_ok maxSamples newRingBuffer"
  by (simp add: ring_ok_def newRingBuffer_def maxSamples_1800)

lemma newRingBuffer_empty [simp]: "ring_contents newRingBuffer = []"
  by (simp add: ring_contents_def newRingBuffer_def maxSamples_1800)

definition samples_ok :: "nat \<Rightarrow> RingBuffer \<Rightarrow> bool" where
  "samples_ok n r \<longleftrightarrow> n = maxSamples \<and> ring_ok n r"

interpretation sample_ring: bounded_history RingBuffer_Add RingBuffer_Samples ring_contents samples_ok
proof unfold_locales
  fix n r x
  assume ok: "samples_ok n r"
  then have n: "n = maxSamples" and ok': "ring_ok maxSamples r"
    by (auto simp: samples_ok_def)
  show "returns (RingBuffer_Add x r) (\<lambda>r'. samples_ok n r' \<and> ring_contents r' = newest n (ring_contents r @ [x]))"
    using ok' by (simp add: RingBuffer_Add_put samples_ok_def n ring_ok_put ring_contents_put)
  show "RingBuffer_Samples r = Inr (ring_contents r)"
    using ok' by (rule RingBuffer_Samples_contents)
  show "length (ring_contents r) \<le> n"
    using ok' unfolding n by (rule view_ring_bound)
qed

subsection \<open>Snapshots\<close>

text \<open>
  \<open>livehistory.Ring\<close> over an arbitrary snapshot type with zero value \<open>z\<close>. The receiver may be nil,
  which every method accepts.
\<close>

definition DefaultCapacity :: int where "DefaultCapacity = 30"

definition NewRing :: "'a \<Rightarrow> int \<Rightarrow> 'a ring option" where
  "NewRing z capacity =
     (let capacity = (if capacity \<le> 0 then DefaultCapacity else capacity)
      in Some \<lparr> slots = replicate (nat capacity) z, head = 0, r_count = 0 \<rparr>)"

definition Ring_Add :: "'a \<Rightarrow> 'a ring option \<Rightarrow> (unit, 'a ring option) go" where
  "Ring_Add s ro =
     (case ro of
        None \<Rightarrow> Inr None
      | Some r \<Rightarrow>
          if slots r = [] then Inr (Some r)
          else gbind (upd (slots r) (head r) s) (\<lambda>ss.
                 Inr (Some (r \<lparr> slots := ss, head := (head r + 1) mod int (length (slots r)),
                    r_count := (if r_count r < int (length (slots r)) then r_count r + 1 else r_count r) \<rparr>))))"

definition Ring_Recent :: "'a \<Rightarrow> int \<Rightarrow> 'a ring option \<Rightarrow> (unit, 'a list) go" where
  "Ring_Recent z limit ro =
     (case ro of
        None \<Rightarrow> Inr []
      | Some r \<Rightarrow>
          if r_count r = 0 then Inr []
          else (let all = replicate (nat (r_count r)) z
                in gbind (if r_count r < int (length (slots r))
                          then gbind (slice (slots r) 0 (r_count r)) (\<lambda>a. Inr (go_copy all a))
                          else gbind (slice (slots r) (head r) (int (length (slots r)))) (\<lambda>a.
                               gbind (slice (slots r) 0 (head r)) (\<lambda>b. Inr (copy_two all a b)))) (\<lambda>all.
                     if limit > 0 \<and> int (length all) > limit
                     then slice all (int (length all) - limit) (int (length all)) else Inr all)))"

definition Ring_Latest :: "'a \<Rightarrow> 'a ring option \<Rightarrow> (unit, 'a \<times> bool) go" where
  "Ring_Latest z ro =
     gbind (Ring_Recent z 1 ro) (\<lambda>recent.
       if recent = [] then Inr (z, False) else gbind (idx recent 0) (\<lambda>s. Inr (s, True)))"

definition live_ok :: "nat \<Rightarrow> 'a ring option \<Rightarrow> bool" where
  "live_ok n ro \<longleftrightarrow> (case ro of None \<Rightarrow> False | Some r \<Rightarrow> ring_ok n r)"

definition live_view :: "'a ring option \<Rightarrow> 'a list" where
  "live_view ro = (case ro of None \<Rightarrow> [] | Some r \<Rightarrow> ring_contents r)"

definition newest_limit :: "int \<Rightarrow> 'a list \<Rightarrow> 'a list" where
  "newest_limit limit xs = (if limit > 0 then newest (nat limit) xs else xs)"

lemma slice_tail:
  "(if limit > 0 \<and> int (length xs) > limit then slice xs (int (length xs) - limit) (int (length xs)) else Inr xs)
     = Inr (newest_limit limit xs)"
  by (auto simp: newest_limit_def newest_def nat_diff_distrib' slice_def)

lemma Ring_Recent_view:
  assumes "live_ok n ro"
  shows "Ring_Recent z limit ro = Inr (newest_limit limit (live_view ro))"
proof -
  obtain r where ro: "ro = Some r" "ring_ok n r"
    using assms by (auto simp: live_ok_def split: option.splits)
  have "(if r_count r < int (length (slots r))
         then gbind (slice (slots r) 0 (r_count r)) (\<lambda>a. Inr (go_copy (replicate (nat (r_count r)) z) a))
         else gbind (slice (slots r) (head r) (int (length (slots r)))) (\<lambda>a.
              gbind (slice (slots r) 0 (head r)) (\<lambda>b. Inr (copy_two (replicate (nat (r_count r)) z) a b))))
     = Inr (ring_contents r)" (is "?read = _")
    using ro(2) by (auto simp: ring_ok_def ring_contents_def go_copy_full copy_two_exact)
  moreover have "ring_contents r = []" if "r_count r = 0"
    using length_ring_contents [OF ro(2)] that by simp
  ultimately show ?thesis
    by (auto simp: Ring_Recent_def ro(1) Let_def live_view_def slice_tail newest_limit_def newest_def)
qed

lemma Ring_Add_put: "ring_ok n r \<Longrightarrow> Ring_Add s (Some r) = Inr (Some (ring_put s r))"
  by (auto simp: Ring_Add_def ring_ok_def ring_put_def Let_def)

interpretation snapshot_ring: bounded_history Ring_Add "Ring_Recent z 0" live_view live_ok for z
proof unfold_locales
  fix n x and ro :: "'a ring option"
  assume ok: "live_ok n ro"
  then obtain r where r: "ro = Some r" "ring_ok n r"
    by (auto simp: live_ok_def split: option.splits)
  show "returns (Ring_Add x ro) (\<lambda>r'. live_ok n r' \<and> live_view r' = newest n (live_view ro @ [x]))"
    using r by (simp add: Ring_Add_put live_ok_def live_view_def ring_ok_put ring_contents_put)
  show "Ring_Recent z 0 ro = Inr (live_view ro)"
    using Ring_Recent_view [OF ok] by (simp add: newest_limit_def)
  show "length (live_view ro) \<le> n"
    using view_ring_bound [OF r(2)] by (simp add: r(1) live_view_def)
qed

definition ring_capacity :: "int \<Rightarrow> nat" where
  "ring_capacity c = nat (if c \<le> 0 then DefaultCapacity else c)"

lemma NewRing_ok: "live_ok (ring_capacity c) (NewRing z c)"
  by (auto simp: live_ok_def NewRing_def ring_ok_def ring_capacity_def DefaultCapacity_def Let_def)

lemma NewRing_empty: "live_view (NewRing z c) = []"
  by (auto simp: live_view_def NewRing_def ring_contents_def Let_def DefaultCapacity_def)

text \<open>After any additions to a new ring the newest snapshots come back, and the latest is the last one.\<close>

theorem Ring_history:
  "gbind (gfold Ring_Add xs (NewRing z c)) (Ring_Recent z limit) = Inr (newest_limit limit (newest (ring_capacity c) xs))"
  using snapshot_ring.adds_law [OF NewRing_ok [of c z], of xs]
  by (auto elim!: returnsE simp: Ring_Recent_view NewRing_empty)

theorem Ring_Latest_last:
  "gbind (gfold Ring_Add xs (NewRing z c)) (Ring_Latest z) = Inr (if xs = [] then (z, False) else (last xs, True))"
proof -
  obtain r where r: "gfold Ring_Add xs (NewRing z c) = Inr r" "live_ok (ring_capacity c) r"
    and v: "live_view r = newest (ring_capacity c) xs"
    using snapshot_ring.adds_law [OF NewRing_ok [of c z], of xs] by (auto elim!: returnsE simp: NewRing_empty)
  have pos: "0 < ring_capacity c" by (simp add: ring_capacity_def DefaultCapacity_def)
  have "newest 1 (newest (ring_capacity c) xs) = (if xs = [] then [] else [last xs])"
    using pos by (cases xs rule: rev_cases) (auto simp: newest_min newest_def min_def)
  then show ?thesis
    using Ring_Recent_view [OF r(2), of z 1] by (auto simp: r(1) Ring_Latest_def v newest_limit_def)
qed

end
