(* ===== verification/Metrics_Collector.thy ===== *)
theory Metrics_Collector
  imports Ring_Buffer
begin

text \<open>
  One-minute aggregates and the per-process collector (\<open>internal/metrics/ring.go\<close>). The lemmas show
  that an aggregate summarises exactly the samples of its process and minute, that the aggregates of a
  ring count every sample once, and that the collector keeps one bounded history per process.
\<close>

subsection \<open>Operations\<close>

text \<open>\<open>Truncate(time.Minute)\<close> rounds down since the zero time; \<open>/=\<close> on \<open>int64\<close> truncates towards zero.\<close>

definition minuteOf :: "time \<Rightarrow> time" where
  "minuteOf t = t - t mod Minute"

definition quot :: "int \<Rightarrow> int \<Rightarrow> int" where
  "quot a b = sgn a * sgn b * (\<bar>a\<bar> div \<bar>b\<bar>)"

type_synonym aggKey = "int \<times> time"

definition sampleKey :: "ProcSample \<Rightarrow> aggKey" where
  "sampleKey s = (ps_PID s, minuteOf (TakenAt s))"

definition emptyAggregate :: "aggKey \<Rightarrow> Aggregate" where
  "emptyAggregate k = \<lparr> ag_PID = fst k, MinuteAt = snd k, AvgRSSKiB = 0, MaxRSSKiB = 0,
     AvgCPUPct = Fin 0, MaxCPUPct = Fin 0, SampleCount = 0 \<rparr>"

definition addToAggregate :: "ProcSample \<Rightarrow> Aggregate \<Rightarrow> Aggregate" where
  "addToAggregate s agg =
     (let agg = agg \<lparr> SampleCount := SampleCount agg + 1, AvgRSSKiB := wrap64 (AvgRSSKiB agg + RSSKiB s) \<rparr>;
          agg = (if RSSKiB s > MaxRSSKiB agg then agg \<lparr> MaxRSSKiB := RSSKiB s \<rparr> else agg);
          agg = agg \<lparr> AvgCPUPct := f_add (AvgCPUPct agg) (ps_CPUPct s) \<rparr>
      in if f_lt (MaxCPUPct agg) (ps_CPUPct s) then agg \<lparr> MaxCPUPct := ps_CPUPct s \<rparr> else agg)"

definition groupSample :: "ProcSample \<Rightarrow> (aggKey, Aggregate) gomap \<Rightarrow> (aggKey, Aggregate) gomap" where
  "groupSample s groups =
     mput (sampleKey s) (addToAggregate s (mgetd (emptyAggregate (sampleKey s)) groups (sampleKey s))) groups"

definition finishAggregate :: "Aggregate \<Rightarrow> Aggregate" where
  "finishAggregate agg =
     (if SampleCount agg > 0
      then agg \<lparr> AvgRSSKiB := quot (AvgRSSKiB agg) (SampleCount agg),
                 AvgCPUPct := f_div (AvgCPUPct agg) (f_of_int (SampleCount agg)) \<rparr>
      else agg)"

definition RingBuffer_Aggregate :: "RingBuffer \<Rightarrow> (unit, Aggregate list) go" where
  "RingBuffer_Aggregate r =
     gbind (RingBuffer_Samples r) (\<lambda>samples.
       if samples = [] then Inr []
       else Inr (map (\<lambda>(k, agg). finishAggregate agg) (fold groupSample samples [])))"

type_synonym Collector = "(int, RingBuffer) gomap"

definition NewCollector :: Collector where "NewCollector = []"

definition Collector_Add :: "ProcSample \<Rightarrow> Collector \<Rightarrow> (unit, Collector) go" where
  "Collector_Add s c =
     gbind (RingBuffer_Add s (mgetd newRingBuffer c (ps_PID s))) (\<lambda>rb. Inr (mput (ps_PID s) rb c))"

definition Collector_Recent :: "int \<Rightarrow> int \<Rightarrow> Collector \<Rightarrow> (unit, ProcSample list) go" where
  "Collector_Recent pid limit c =
     (case map_of c pid of
        None \<Rightarrow> Inr []
      | Some rb \<Rightarrow>
          gbind (RingBuffer_Samples rb) (\<lambda>all.
            if limit > 0 \<and> int (length all) > limit
            then slice all (int (length all) - limit) (int (length all)) else Inr all))"

definition PIDs :: "Collector \<Rightarrow> int list" where
  "PIDs c = mkeys c"

definition flushOne ::
    "time \<Rightarrow> int \<times> RingBuffer \<Rightarrow> Aggregate list \<times> Collector \<Rightarrow> (unit, Aggregate list \<times> Collector) go" where
  "flushOne cutoff e acc =
     (case (e, acc) of ((pid, rb), all, c) \<Rightarrow>
        gbind (RingBuffer_Aggregate rb) (\<lambda>aggs.
        gbind (RingBuffer_Samples rb) (\<lambda>samples.
          if samples = [] then Inr (all @ aggs, c)
          else gbind (idx samples (int (length samples) - 1)) (\<lambda>s.
                 Inr (all @ aggs, if TakenAt s < cutoff then mdel pid c else c)))))"

text \<open>\<open>now\<close> is what \<open>time.Now\<close> returns.\<close>

definition FlushAggregates :: "time \<Rightarrow> duration \<Rightarrow> Collector \<Rightarrow> (unit, Aggregate list \<times> Collector) go" where
  "FlushAggregates now retainWindow c = gfold (flushOne (now + wrap64 (- retainWindow))) c ([], c)"

subsection \<open>What an aggregate holds\<close>

definition in_group :: "aggKey \<Rightarrow> ProcSample list \<Rightarrow> ProcSample list" where
  "in_group k ss = filter (\<lambda>s. sampleKey s = k) ss"

definition summary_of :: "aggKey \<Rightarrow> ProcSample list \<Rightarrow> Aggregate" where
  "summary_of k ss = fold addToAggregate (in_group k ss) (emptyAggregate k)"

lemma map_of_groups:
  "map_of (fold groupSample ss m) k =
     (if in_group k ss = [] then map_of m k
      else Some (fold addToAggregate (in_group k ss) (mgetd (emptyAggregate k) m k)))"
  by (induction ss arbitrary: m) (auto simp: groupSample_def in_group_def mgetd_def)

lemma mwf_groups: "mwf m \<Longrightarrow> mwf (fold groupSample ss m)"
  by (induction ss arbitrary: m) (auto simp: groupSample_def)

lemma groups_entries:
  "(k, a) \<in> set (fold groupSample ss []) \<longleftrightarrow> in_group k ss \<noteq> [] \<and> a = summary_of k ss"
proof -
  have "(k, a) \<in> set (fold groupSample ss []) \<longleftrightarrow> map_of (fold groupSample ss []) k = Some a"
    using mwf_groups [of "[]" ss] by (auto simp: mwf_def mkeys_def)
  then show ?thesis by (auto simp: map_of_groups summary_of_def mgetd_def)
qed

lemma fold_add_fields:
  "SampleCount (fold addToAggregate ss a) = SampleCount a + int (length ss)"
  "ag_PID (fold addToAggregate ss a) = ag_PID a"
  "MinuteAt (fold addToAggregate ss a) = MinuteAt a"
  "MaxRSSKiB (fold addToAggregate ss a) = fold max (map RSSKiB ss) (MaxRSSKiB a)"
  by (induction ss arbitrary: a) (auto simp: addToAggregate_def Let_def max_def)

lemma MaxRSS_Max: "MaxRSSKiB (fold addToAggregate ss a) = Max (insert (MaxRSSKiB a) (RSSKiB ` set ss))"
  using Max.set_eq_fold [of "MaxRSSKiB a" "map RSSKiB ss"] by (simp add: fold_add_fields)

text \<open>The running sum is exact whenever it stays within \<open>int64\<close>.\<close>

lemma fold_add_sum:
  assumes "\<forall>s\<in>set ss. 0 \<le> RSSKiB s" and "0 \<le> AvgRSSKiB a" and "AvgRSSKiB a + sum_list (map RSSKiB ss) < 2 ^ 63"
  shows "AvgRSSKiB (fold addToAggregate ss a) = AvgRSSKiB a + sum_list (map RSSKiB ss)"
  using assms
proof (induction ss arbitrary: a)
  case (Cons s ss)
  have "0 \<le> sum_list (map RSSKiB ss)" using Cons.prems(1) by (intro sum_list_nonneg) auto
  then have "wrap64 (AvgRSSKiB a + RSSKiB s) = AvgRSSKiB a + RSSKiB s"
    using Cons.prems by (intro wrap64_id) auto
  then have "AvgRSSKiB (addToAggregate s a) = AvgRSSKiB a + RSSKiB s"
    by (simp add: addToAggregate_def Let_def)
  then show ?case using Cons.IH [of "addToAggregate s a"] Cons.prems by simp
qed simp

text \<open>An aggregate's average never exceeds its maximum, and both are what they are called.\<close>

lemma sum_le_length_max:
  "\<forall>x\<in>set xs. f x \<le> (m::int) \<Longrightarrow> sum_list (map f xs) \<le> int (length xs) * m"
  by (induction xs) (auto simp: algebra_simps)

lemma quot_div: "0 \<le> a \<Longrightarrow> 0 < b \<Longrightarrow> quot a b = a div b"
  by (cases "a = 0") (simp_all add: quot_def)

theorem summary_correct:
  assumes g: "g = in_group k ss" "g \<noteq> []" and nonneg: "\<forall>s\<in>set g. 0 \<le> RSSKiB s"
    and small: "sum_list (map RSSKiB g) < 2 ^ 63" and a: "a = finishAggregate (summary_of k ss)"
  shows "ag_PID a = fst k \<and> MinuteAt a = snd k \<and> SampleCount a = int (length g)
     \<and> MaxRSSKiB a = Max (RSSKiB ` set g)
     \<and> AvgRSSKiB a = sum_list (map RSSKiB g) div int (length g) \<and> AvgRSSKiB a \<le> MaxRSSKiB a"
proof -
  have len: "0 < int (length g)" using g(2) by simp
  have sum0: "0 \<le> sum_list (map RSSKiB g)" using nonneg by (intro sum_list_nonneg) auto
  have s: "AvgRSSKiB (summary_of k ss) = sum_list (map RSSKiB g)"
    using fold_add_sum [OF nonneg, of "emptyAggregate k"] small
    by (simp add: summary_of_def g(1) [symmetric] emptyAggregate_def)
  have c: "SampleCount (summary_of k ss) = int (length g)"
    by (simp add: summary_of_def g(1) fold_add_fields emptyAggregate_def)
  have m: "MaxRSSKiB (summary_of k ss) = Max (RSSKiB ` set g)"
  proof -
    have fin: "finite (RSSKiB ` set g)" "RSSKiB ` set g \<noteq> {}" using g(2) by auto
    obtain x where "x \<in> set g" using g(2) by (cases g) auto
    then have "0 \<le> RSSKiB x" "RSSKiB x \<le> Max (RSSKiB ` set g)" using nonneg fin by auto
    then show ?thesis
      by (simp add: summary_of_def g(1) [symmetric] MaxRSS_Max emptyAggregate_def Max_insert [OF fin])
  qed
  have "sum_list (map RSSKiB g) div int (length g) \<le> Max (RSSKiB ` set g)"
  proof -
    have "sum_list (map RSSKiB g) \<le> int (length g) * Max (RSSKiB ` set g)"
      by (rule sum_le_length_max) simp
    from zdiv_mono1 [OF this len] show ?thesis using g(2) by simp
  qed
  then show ?thesis
    using len by (simp add: a finishAggregate_def s c m quot_div [OF sum0 len])
      (simp add: summary_of_def fold_add_fields emptyAggregate_def)
qed

text \<open>The aggregates of a ring have distinct keys and count every stored sample exactly once.\<close>

lemma sum_mput:
  fixes f :: "'v \<Rightarrow> int"
  assumes "mwf m"
  shows "sum_list (map (\<lambda>e. f (snd e)) (mput k v m)) =
    sum_list (map (\<lambda>e. f (snd e)) m) + f v - (case map_of m k of None \<Rightarrow> 0 | Some u \<Rightarrow> f u)"
  using assms unfolding mput_def
  by (induction m) (auto simp: mwf_def mkeys_def split: option.splits)

lemma sum_groups:
  assumes "mwf m"
  shows "sum_list (map (\<lambda>e. SampleCount (snd e)) (fold groupSample ss m)) =
    sum_list (map (\<lambda>e. SampleCount (snd e)) m) + int (length ss)"
  using assms
proof (induction ss arbitrary: m)
  case (Cons s ss)
  have one: "SampleCount (addToAggregate s a) = SampleCount a + 1" for a
    by (simp add: addToAggregate_def Let_def)
  have "sum_list (map (\<lambda>e. SampleCount (snd e)) (groupSample s m)) = sum_list (map (\<lambda>e. SampleCount (snd e)) m) + 1"
    unfolding groupSample_def sum_mput [OF Cons.prems] one
    by (simp add: mgetd_def emptyAggregate_def split: option.splits)
  moreover have "mwf (groupSample s m)" using Cons.prems by (simp add: groupSample_def)
  from Cons.IH [OF this] have "sum_list (map (\<lambda>e. SampleCount (snd e)) (fold groupSample (s # ss) m)) =
    sum_list (map (\<lambda>e. SampleCount (snd e)) (groupSample s m)) + int (length ss)"
    by simp
  ultimately show ?case by simp
qed simp

lemma finish_fields:
  "SampleCount (finishAggregate a) = SampleCount a"
  "ag_PID (finishAggregate a) = ag_PID a" "MinuteAt (finishAggregate a) = MinuteAt a"
  by (simp_all add: finishAggregate_def)

lemma summary_key: "ag_PID (summary_of k ss) = fst k" "MinuteAt (summary_of k ss) = snd k"
  by (simp_all add: summary_of_def fold_add_fields emptyAggregate_def)

definition aggregatesOf :: "ProcSample list \<Rightarrow> Aggregate list" where
  "aggregatesOf ss = map (\<lambda>(k, agg). finishAggregate agg) (fold groupSample ss [])"

lemma RingBuffer_Aggregate_contents:
  "ring_ok maxSamples r \<Longrightarrow> RingBuffer_Aggregate r = Inr (aggregatesOf (ring_contents r))"
  by (simp add: RingBuffer_Aggregate_def RingBuffer_Samples_contents aggregatesOf_def)

theorem aggregatesOf_spec:
  shows "set (aggregatesOf ss) = (\<lambda>k. finishAggregate (summary_of k ss)) ` sampleKey ` set ss"
    and "distinct (map (\<lambda>a. (ag_PID a, MinuteAt a)) (aggregatesOf ss))"
    and "sum_list (map SampleCount (aggregatesOf ss)) = int (length ss)"
proof -
  have ne: "in_group k ss \<noteq> [] \<longleftrightarrow> k \<in> sampleKey ` set ss" for k
    by (auto simp: in_group_def filter_empty_conv)
  have g: "set (fold groupSample ss []) = (\<lambda>k. (k, summary_of k ss)) ` sampleKey ` set ss"
    by (intro set_eqI, case_tac x) (auto simp: groups_entries ne)
  show "set (aggregatesOf ss) = (\<lambda>k. finishAggregate (summary_of k ss)) ` sampleKey ` set ss"
    by (simp only: aggregatesOf_def set_map g image_image case_prod_conv)
  have keys: "map (\<lambda>a. (ag_PID a, MinuteAt a)) (aggregatesOf ss) = mkeys (fold groupSample ss [])"
    by (auto simp: aggregatesOf_def mkeys_def groups_entries finish_fields summary_key)
  show "distinct (map (\<lambda>a. (ag_PID a, MinuteAt a)) (aggregatesOf ss))"
    using mwf_groups [OF mwf_Nil, of ss] by (simp add: keys mwf_def)
  have "map SampleCount (aggregatesOf ss) = map (\<lambda>e. SampleCount (snd e)) (fold groupSample ss [])"
    by (auto simp: aggregatesOf_def finish_fields)
  then show "sum_list (map SampleCount (aggregatesOf ss)) = int (length ss)"
    by (simp add: sum_groups)
qed

subsection \<open>The collector\<close>

definition collector_ok :: "Collector \<Rightarrow> bool" where
  "collector_ok c \<longleftrightarrow> mwf c \<and> (\<forall>(pid, r) \<in> set c. ring_ok maxSamples r)"

definition history :: "Collector \<Rightarrow> int \<Rightarrow> ProcSample list" where
  "history c pid = (case map_of c pid of None \<Rightarrow> [] | Some r \<Rightarrow> ring_contents r)"

lemma collector_ring: "collector_ok c \<Longrightarrow> map_of c pid = Some r \<Longrightarrow> ring_ok maxSamples r"
  by (auto simp: collector_ok_def dest!: map_of_SomeD)

lemma collector_get: "collector_ok c \<Longrightarrow> ring_ok maxSamples (mgetd newRingBuffer c pid)"
  by (auto simp: mgetd_def newRingBuffer_ok dest: collector_ring split: option.splits)

lemma Collector_Add_ok:
  assumes "collector_ok c"
  shows "returns (Collector_Add s c) (\<lambda>c'. collector_ok c' \<and>
    history c' = (history c)(ps_PID s := newest maxSamples (history c (ps_PID s) @ [s])))"
proof -
  let ?r = "mgetd newRingBuffer c (ps_PID s)"
  have r: "ring_ok maxSamples ?r" by (rule collector_get [OF assms])
  have h: "ring_contents ?r = history c (ps_PID s)"
    by (simp add: history_def mgetd_def split: option.splits)
  have "collector_ok (mput (ps_PID s) (ring_put s ?r) c)"
    using assms set_mput [of "ps_PID s" "ring_put s ?r" c] ring_ok_put [OF r] by (auto simp: collector_ok_def)
  then show ?thesis
    by (simp add: Collector_Add_def RingBuffer_Add_put [OF r] fun_eq_iff)
       (simp add: history_def ring_contents_put [OF r] h [unfolded history_def])
qed

lemma Collector_Adds:
  "collector_ok c \<Longrightarrow> returns (gfold Collector_Add ss c) (\<lambda>c'. collector_ok c' \<and>
     (\<forall>pid. length (history c pid) \<le> maxSamples \<longrightarrow>
        history c' pid = newest maxSamples (history c pid @ filter (\<lambda>s. ps_PID s = pid) ss)))"
proof (induction ss arbitrary: c)
  case Nil
  then show ?case by (simp add: newest_all)
next
  case (Cons s ss)
  obtain c1 where c1: "Collector_Add s c = Inr c1" "collector_ok c1"
    "history c1 = (history c)(ps_PID s := newest maxSamples (history c (ps_PID s) @ [s]))"
    using Collector_Add_ok [OF Cons.prems] by (auto elim!: returnsE)
  show ?case
    using Cons.IH [OF c1(2)] newest_newest [of maxSamples "history c (ps_PID s) @ [s]"]
    by (auto elim!: returnsE simp: c1(1,3) fun_upd_def)
qed

lemma Collector_Recent_history:
  "collector_ok c \<Longrightarrow> Collector_Recent pid limit c = Inr (newest_limit limit (history c pid))"
proof (cases "map_of c pid")
  case None
  then show ?thesis by (simp add: Collector_Recent_def history_def newest_limit_def newest_def)
next
  case (Some r)
  assume "collector_ok c"
  from RingBuffer_Samples_contents [OF collector_ring [OF this Some]]
  show ?thesis by (simp add: Collector_Recent_def history_def Some slice_tail)
qed

theorem Collector_history:
  "gbind (gfold Collector_Add ss NewCollector) (Collector_Recent pid limit) =
     Inr (newest_limit limit (newest maxSamples (filter (\<lambda>s. ps_PID s = pid) ss)))"
proof -
  have "collector_ok NewCollector" "history NewCollector pid = []"
    by (simp_all add: collector_ok_def NewCollector_def history_def)
  then show ?thesis
    using Collector_Adds [of NewCollector ss]
    by (auto elim!: returnsE simp: Collector_Recent_history)
qed

text \<open>
  A flush reports every stored sample once and drops exactly the processes whose newest sample is
  older than the window.
\<close>

definition stale :: "time \<Rightarrow> ProcSample list \<Rightarrow> bool" where
  "stale cutoff ss \<longleftrightarrow> ss \<noteq> [] \<and> TakenAt (last ss) < cutoff"

lemma flushOne_contents:
  "ring_ok maxSamples rb \<Longrightarrow> flushOne cutoff (pid, rb) (aggs, c) =
     Inr (aggs @ aggregatesOf (ring_contents rb), if stale cutoff (ring_contents rb) then mdel pid c else c)"
  by (auto simp: flushOne_def RingBuffer_Aggregate_contents RingBuffer_Samples_contents stale_def
      last_conv_nth nat_diff_distrib' idx_def)

lemma set_mdel: "set (mdel k m) \<subseteq> set m"
  unfolding mdel_def by (induction m) auto

lemma collector_ok_mdel: "collector_ok c \<Longrightarrow> collector_ok (mdel pid c)"
  using set_mdel [of pid c] by (auto simp: collector_ok_def)

lemma flush_loop:
  assumes "collector_ok c" and "\<forall>(pid, r) \<in> set es. ring_ok maxSamples r"
  shows "returns (gfold (flushOne cutoff) es (aggs, c)) (\<lambda>(aggs', c').
    collector_ok c' \<and> aggs' = aggs @ concat (map (\<lambda>(pid, r). aggregatesOf (ring_contents r)) es) \<and>
    (\<forall>pid. map_of c' pid = (if \<exists>r. (pid, r) \<in> set es \<and> stale cutoff (ring_contents r) then None else map_of c pid)))"
  using assms
proof (induction es arbitrary: aggs c)
  case (Cons e es)
  obtain p r where e: "e = (p, r)" by (cases e)
  let ?c = "if stale cutoff (ring_contents r) then mdel p c else c"
  have ok: "collector_ok ?c" using Cons.prems(1) by (simp add: collector_ok_mdel)
  have es: "\<forall>(pid, r) \<in> set es. ring_ok maxSamples r" and r: "ring_ok maxSamples r"
    using Cons.prems(2) by (auto simp: e)
  from Cons.IH [OF ok es, of "aggs @ aggregatesOf (ring_contents r)"] show ?case
    by (auto elim!: returnsE simp: e flushOne_contents [OF r])
qed simp

theorem FlushAggregates_spec:
  assumes "collector_ok c"
  shows "returns (FlushAggregates now retainWindow c) (\<lambda>(aggs, c').
    collector_ok c' \<and>
    sum_list (map SampleCount aggs) = sum_list (map (\<lambda>(pid, r). int (length (ring_contents r))) c) \<and>
    (\<forall>pid. history c' pid = (if stale (now + wrap64 (- retainWindow)) (history c pid) then [] else history c pid)))"
proof -
  let ?cut = "now + wrap64 (- retainWindow)"
  have es: "\<forall>(pid, r) \<in> set c. ring_ok maxSamples r" using assms by (simp add: collector_ok_def)
  have mem: "(pid, r) \<in> set c \<longleftrightarrow> map_of c pid = Some r" for pid r
    using assms by (auto simp: collector_ok_def mwf_def mkeys_def)
  have sum: "sum_list (map SampleCount (concat (map (\<lambda>(pid, r). aggregatesOf (ring_contents r)) es))) =
    sum_list (map (\<lambda>(pid, r). int (length (ring_contents r))) es)" for es :: Collector
    by (induction es) (auto simp: aggregatesOf_spec(3))
  obtain aggs c' where run: "FlushAggregates now retainWindow c = Inr (aggs, c')" and ok: "collector_ok c'"
    and aggs: "aggs = concat (map (\<lambda>(pid, r). aggregatesOf (ring_contents r)) c)"
    and c': "\<And>pid. map_of c' pid =
      (if \<exists>r. (pid, r) \<in> set c \<and> stale ?cut (ring_contents r) then None else map_of c pid)"
    using flush_loop [OF assms es, of ?cut "[]"] by (auto simp: FlushAggregates_def elim!: returnsE)
  have "history c' pid = (if stale ?cut (history c pid) then [] else history c pid)" for pid
    by (cases "map_of c pid") (auto simp: history_def c' mem stale_def)
  then show ?thesis by (simp add: run ok aggs sum)
qed

end
