(* ===== verification/Net_Bytes.thy ===== *)
theory Net_Bytes
  imports Go_Prelude "HOL-Library.Sublist"
begin

text \<open>
  What the network parsers share: the rules that push a safety statement through a bounds-checked
  access, a branch and an error return, so that a parser's safety proof is its guards.
\<close>

abbreviation len :: "'a list \<Rightarrow> int" where "len xs \<equiv> int (length xs)"

lemma yields_slice:
  assumes "0 \<le> a" and "a \<le> b" and "b \<le> len xs" and "\<And>ys. sublist ys xs \<Longrightarrow> len ys = b - a \<Longrightarrow> yields (f ys) R"
  shows "yields (gbind (slice xs a b) f) R"
proof -
  let ?ys = "take (nat (b - a)) (drop (nat a) xs)"
  have "sublist ?ys xs" by (meson sublist_drop sublist_order.order.trans sublist_take)
  moreover have "len ?ys = b - a" using assms(1-3) by auto
  ultimately have "yields (f ?ys) R" by (rule assms(4))
  then show ?thesis using assms(1-3) by simp
qed

lemma yields_idx:
  assumes "0 \<le> i" and "i < len xs" and "\<And>b. yields (f b) R"
  shows "yields (gbind (idx xs i) f) R"
  using assms by simp

lemma yields_if: "(c \<Longrightarrow> yields a R) \<Longrightarrow> (\<not> c \<Longrightarrow> yields b R) \<Longrightarrow> yields (if c then a else b) R"
  by simp

lemma yields_err: "yields (Inl (Fault e)) R"
  by simp

lemmas yields_decode = yields_if yields_err yields_slice yields_idx

text \<open>\<open>binary.BigEndian.AppendUint16\<close>, for the encodings the round trips start from.\<close>

definition put16 :: "u16 \<Rightarrow> byte list" where
  "put16 w = be_put 2 (unat w)"

lemma length_put16 [simp]: "length (put16 w) = 2"
  by (simp add: put16_def)

lemma be16_put16 [simp]: "be16 (put16 w) = w"
proof -
  have "unat w < 256 ^ 2" using unsigned_less [of w] by simp
  then show ?thesis by (simp add: be16_def put16_def)
qed

lemma unat_of_nat_16: "n < 65536 \<Longrightarrow> unat (of_nat n :: u16) = n"
  by (simp add: unat_of_nat)

lemma unat_of_nat_8: "n < 256 \<Longrightarrow> unat (of_nat n :: byte) = n"
  by (simp add: unat_of_nat)

end
