(* ===== verification/Net_Packet.thy ===== *)
theory Net_Packet
  imports Net_Bytes
begin

text \<open>
  The capture reader (\<open>internal/netcap/pcap.go\<close>) and the packet decoder (\<open>internal/netcap/packet.go\<close>).
  Every index and slice is bounds-checked, so the theorems that no input makes them panic are about the
  code's own guards. The payload of a decoded packet is a contiguous part of the captured bytes.
\<close>

unbundle bit_operations_syntax

subsection \<open>Capture files\<close>

datatype perr =
    EOF
  | ShortHeader
  | BadMagic "byte list"
  | BadVersion u16 u16
  | ShortPacketHeader
  | OverSnapLen u32 u32
  | OverMaxLen u32
  | ShortPacketData bool
  | TooShort string
  | Unsupported string nat
  | Invalid string

datatype byteOrder = LittleEndian | BigEndian

fun order16 :: "byteOrder \<Rightarrow> byte list \<Rightarrow> u16" where
  "order16 LittleEndian bs = le16 bs"
| "order16 BigEndian bs = be16 bs"

fun order32 :: "byteOrder \<Rightarrow> byte list \<Rightarrow> u32" where
  "order32 LittleEndian bs = le32 bs"
| "order32 BigEndian bs = be32 bs"

definition pcapHeaderLen :: nat where "pcapHeaderLen = 24"
definition DefaultSnapLen :: nat where "DefaultSnapLen = 262144"

definition LinkTypeNull :: u32 where "LinkTypeNull = 0"
definition LinkTypeEthernet :: u32 where "LinkTypeEthernet = 1"
definition LinkTypeRaw :: u32 where "LinkTypeRaw = 101"
definition LinkTypeLoop :: u32 where "LinkTypeLoop = 108"
definition LinkTypeLinuxSLL :: u32 where "LinkTypeLinuxSLL = 113"

text \<open>The reader holds the bytes that are left of its source.\<close>

record PCAPReader =
  src :: "byte list"
  order :: byteOrder
  LinkType :: u32
  SnapLen :: u32
  Nanosecond :: bool

record PCAPPacket =
  TimestampSec :: u32
  TimestampFrac :: u32
  CapturedLen :: u32
  OriginalLen :: u32
  Data :: "byte list"

definition pcapByteOrder :: "byte list \<Rightarrow> (perr, byteOrder \<times> bool) go" where
  "pcapByteOrder magic =
     (if magic = [0xd4, 0xc3, 0xb2, 0xa1] then Inr (LittleEndian, False)
      else if magic = [0xa1, 0xb2, 0xc3, 0xd4] then Inr (BigEndian, False)
      else if magic = [0x4d, 0x3c, 0xb2, 0xa1] then Inr (LittleEndian, True)
      else if magic = [0xa1, 0xb2, 0x3c, 0x4d] then Inr (BigEndian, True)
      else Inl (Fault (BadMagic magic)))"

definition NewPCAPReader :: "byte list \<Rightarrow> (perr, PCAPReader) go" where
  "NewPCAPReader r =
     (if length r < pcapHeaderLen then Inl (Fault ShortHeader)
      else let hdr = take pcapHeaderLen r; r = drop pcapHeaderLen r in
        gbind (slice hdr 0 4) (\<lambda>magic.
        gbind (pcapByteOrder magic) (\<lambda>(order, nanos).
        gbind (slice hdr 4 6) (\<lambda>b.
        let major = order16 order b in
        if major \<noteq> 2 then gbind (slice hdr 6 8) (\<lambda>m. Inl (Fault (BadVersion major (order16 order m))))
        else gbind (slice hdr 16 20) (\<lambda>s.
             gbind (slice hdr 20 24) (\<lambda>l.
             Inr \<lparr> src = r, order = order, LinkType = order32 order l, SnapLen = order32 order s,
                   Nanosecond = nanos \<rparr>))))))"

text \<open>
  \<open>io.ReadFull\<close> returns \<open>io.EOF\<close> when nothing is left and \<open>io.ErrUnexpectedEOF\<close> on a partial read. The
  error for missing packet data wraps what \<open>io.ReadFull\<close> returned; its flag says whether that is \<open>io.EOF\<close>.
\<close>

definition Next :: "PCAPReader \<Rightarrow> (perr, PCAPPacket \<times> PCAPReader) go" where
  "Next p =
     (if src p = [] then Inl (Fault EOF)
      else if length (src p) < 16 then Inl (Fault ShortPacketHeader)
      else let hdr = take 16 (src p); r = drop 16 (src p) in
        gbind (slice hdr 8 12) (\<lambda>i.
        gbind (slice hdr 12 16) (\<lambda>q.
        let inclLen = order32 (order p) i; origLen = order32 (order p) q in
        if SnapLen p > 0 \<and> inclLen > SnapLen p then Inl (Fault (OverSnapLen inclLen (SnapLen p)))
        else if unat inclLen > DefaultSnapLen then Inl (Fault (OverMaxLen inclLen))
        else if length r < unat inclLen then Inl (Fault (ShortPacketData (r = [])))
        else gbind (slice hdr 0 4) (\<lambda>s.
             gbind (slice hdr 4 8) (\<lambda>f.
             Inr (\<lparr> TimestampSec = order32 (order p) s, TimestampFrac = order32 (order p) f,
                    CapturedLen = inclLen, OriginalLen = origLen, Data = take (unat inclLen) r \<rparr>,
                  p \<lparr> src := drop (unat inclLen) r \<rparr>))))))"

subsection \<open>Packets\<close>

datatype addr = V4 "byte list" | V6 "byte list"

record FlowPacket =
  NetworkProto :: string
  TransportProto :: string
  SrcAddr :: addr
  DstAddr :: addr
  SrcPort :: u16
  DstPort :: u16
  TCPSeq :: u32
  TCPAck :: u32
  TCPFlags :: u8
  Payload :: "byte list"

definition etherTypeIPv4 :: u16 where "etherTypeIPv4 = 0x0800"
definition etherTypeIPv6 :: u16 where "etherTypeIPv6 = 0x86dd"
definition loopFamilyIPv4 :: u32 where "loopFamilyIPv4 = 2"
definition loopFamiliesIPv6 :: "u32 list" where "loopFamiliesIPv6 = [30, 28, 10]"
definition ipProtoTCP :: byte where "ipProtoTCP = 6"
definition ipProtoUDP :: byte where "ipProtoUDP = 17"
definition ipv6HeaderLen :: int where "ipv6HeaderLen = 40"
definition ipProtoIPv6Frag :: byte where "ipProtoIPv6Frag = 44"
definition maxIPv6ExtHeaders :: nat where "maxIPv6ExtHeaders = 8"
definition ipv6ExtHopByHop :: byte where "ipv6ExtHopByHop = 0"
definition ipv6ExtRouting :: byte where "ipv6ExtRouting = 43"
definition ipv6ExtDestOpts :: byte where "ipv6ExtDestOpts = 60"

definition newFlow :: "string \<Rightarrow> addr \<Rightarrow> addr \<Rightarrow> FlowPacket" where
  "newFlow proto s d = \<lparr> NetworkProto = proto, TransportProto = [], SrcAddr = s, DstAddr = d, SrcPort = 0,
     DstPort = 0, TCPSeq = 0, TCPAck = 0, TCPFlags = 0, Payload = [] \<rparr>"

definition decodeTCPFlow :: "FlowPacket \<Rightarrow> byte list \<Rightarrow> (perr, FlowPacket) go" where
  "decodeTCPFlow f data =
     (if len data < 20 then Inl (Fault (TooShort ''tcp''))
      else gbind (idx data 12) (\<lambda>b.
        let headerLen = int (unat (drop_bit 4 b)) * 4 in
        if headerLen < 20 \<or> len data < headerLen then Inl (Fault (Invalid ''tcp header length''))
        else gbind (slice data 0 2) (\<lambda>sp.
             gbind (slice data 2 4) (\<lambda>dp.
             gbind (slice data 4 8) (\<lambda>sq.
             gbind (slice data 8 12) (\<lambda>ak.
             gbind (idx data 13) (\<lambda>fl.
             gbind (slice data headerLen (len data)) (\<lambda>body.
             Inr (f \<lparr> TransportProto := ''tcp'', SrcPort := be16 sp, DstPort := be16 dp, TCPSeq := be32 sq,
                      TCPAck := be32 ak, TCPFlags := fl, Payload := body \<rparr>)))))))))"

definition decodeUDPFlow :: "FlowPacket \<Rightarrow> byte list \<Rightarrow> (perr, FlowPacket) go" where
  "decodeUDPFlow f data =
     (if len data < 8 then Inl (Fault (TooShort ''udp''))
      else gbind (slice data 4 6) (\<lambda>l.
        let udpLen = int (unat (be16 l)) in
        if udpLen < 8 \<or> udpLen > len data then Inl (Fault (Invalid ''udp length''))
        else gbind (slice data 0 2) (\<lambda>sp.
             gbind (slice data 2 4) (\<lambda>dp.
             gbind (slice data 8 udpLen) (\<lambda>body.
             Inr (f \<lparr> TransportProto := ''udp'', SrcPort := be16 sp, DstPort := be16 dp, Payload := body \<rparr>))))))"

definition decodeIPv4Flow :: "byte list \<Rightarrow> (perr, FlowPacket) go" where
  "decodeIPv4Flow data =
     (if len data < 20 then Inl (Fault (TooShort ''ipv4''))
      else gbind (idx data 0) (\<lambda>b0.
        let version = drop_bit 4 b0; ihl = int (unat (b0 AND 0x0f)) * 4 in
        if version \<noteq> 4 then Inl (Fault (Unsupported ''ip version'' (unat version)))
        else if ihl < 20 \<or> len data < ihl then Inl (Fault (Invalid ''ipv4 header length''))
        else gbind (slice data 2 4) (\<lambda>tl.
          let totalLen = int (unat (be16 tl)) in
          if totalLen < ihl \<or> totalLen > len data then Inl (Fault (Invalid ''ipv4 total length''))
          else gbind (slice data 6 8) (\<lambda>fr.
            if be16 fr AND 0x3fff \<noteq> 0 then Inl (Fault (Unsupported ''fragmented ipv4'' 0))
            else gbind (slice data 12 16) (\<lambda>s.
                 gbind (slice data 16 20) (\<lambda>d.
                 gbind (slice data ihl totalLen) (\<lambda>body.
                 gbind (idx data 9) (\<lambda>proto.
                 let out = newFlow ''ipv4'' (V4 s) (V4 d) in
                 if proto = ipProtoTCP then decodeTCPFlow out body
                 else if proto = ipProtoUDP then decodeUDPFlow out body
                 else Inl (Fault (Unsupported ''ip protocol'' (unat proto)))))))))))"

text \<open>The extension-header loop, \<open>hops\<close> counting down from its bound.\<close>

fun ipv6Headers ::
    "byte list \<Rightarrow> int \<Rightarrow> FlowPacket \<Rightarrow> nat \<Rightarrow> byte \<Rightarrow> int \<Rightarrow> (perr, FlowPacket) go" where
  "ipv6Headers data ende out 0 nextHeader offset = Inl (Fault (Invalid ''too many ipv6 extension headers''))"
| "ipv6Headers data ende out (Suc hops) nextHeader offset =
     (if nextHeader = ipProtoTCP then gbind (slice data offset ende) (decodeTCPFlow out)
      else if nextHeader = ipProtoUDP then gbind (slice data offset ende) (decodeUDPFlow out)
      else if nextHeader \<in> {ipv6ExtHopByHop, ipv6ExtRouting, ipv6ExtDestOpts} then
        (if offset + 2 > ende then Inl (Fault (TooShort ''ipv6 extension header''))
         else gbind (idx data offset) (\<lambda>nxt.
              gbind (idx data (offset + 1)) (\<lambda>l.
              let offset = offset + (int (unat l) + 1) * 8 in
              if offset > ende then Inl (Fault (Invalid ''ipv6 extension header length''))
              else ipv6Headers data ende out hops nxt offset)))
      else if nextHeader = ipProtoIPv6Frag then Inl (Fault (Unsupported ''fragmented ipv6'' 0))
      else Inl (Fault (Unsupported ''ipv6 next header'' (unat nextHeader))))"

definition decodeIPv6Flow :: "byte list \<Rightarrow> (perr, FlowPacket) go" where
  "decodeIPv6Flow data =
     (if len data < ipv6HeaderLen then Inl (Fault (TooShort ''ipv6''))
      else gbind (idx data 0) (\<lambda>b0.
        let version = drop_bit 4 b0 in
        if version \<noteq> 6 then Inl (Fault (Unsupported ''ip version'' (unat version)))
        else gbind (slice data 4 6) (\<lambda>l.
          let ende = ipv6HeaderLen + int (unat (be16 l));
              ende = (if ende \<le> ipv6HeaderLen \<or> ende > len data then len data else ende)
          in gbind (slice data 8 24) (\<lambda>s.
             gbind (slice data 24 40) (\<lambda>d.
             gbind (idx data 6) (\<lambda>nextHeader.
             ipv6Headers data ende (newFlow ''ipv6'' (V6 s) (V6 d)) maxIPv6ExtHeaders nextHeader ipv6HeaderLen))))))"

definition decodeRawIPFlow :: "byte list \<Rightarrow> (perr, FlowPacket) go" where
  "decodeRawIPFlow data =
     (if len data < 1 then Inl (Fault (TooShort ''ip''))
      else gbind (idx data 0) (\<lambda>b0.
        if drop_bit 4 b0 = 4 then decodeIPv4Flow data
        else if drop_bit 4 b0 = 6 then decodeIPv6Flow data
        else Inl (Fault (Unsupported ''ip version'' (unat (drop_bit 4 b0))))))"

definition isIPv6LoopFamily :: "u32 \<Rightarrow> bool" where
  "isIPv6LoopFamily family = list_ex (\<lambda>f. family = f) loopFamiliesIPv6"

definition decodeLoopbackFlow :: "byte list \<Rightarrow> (perr, FlowPacket) go" where
  "decodeLoopbackFlow data =
     (if len data < 4 then Inl (Fault (TooShort ''loopback''))
      else gbind (slice data 0 4) (\<lambda>b.
        let familyBE = be32 b; familyLE = le32 b in
        if familyBE = loopFamilyIPv4 \<or> familyLE = loopFamilyIPv4
        then gbind (slice data 4 (len data)) decodeIPv4Flow
        else if isIPv6LoopFamily familyBE \<or> isIPv6LoopFamily familyLE
        then gbind (slice data 4 (len data)) decodeIPv6Flow
        else Inl (Fault (Unsupported ''loopback family'' 0))))"

definition decodeLinuxSLLFlow :: "byte list \<Rightarrow> (perr, FlowPacket) go" where
  "decodeLinuxSLLFlow data =
     (if len data < 16 then Inl (Fault (TooShort ''linux sll''))
      else gbind (slice data 14 16) (\<lambda>t.
        if be16 t = etherTypeIPv4 then gbind (slice data 16 (len data)) decodeIPv4Flow
        else if be16 t = etherTypeIPv6 then gbind (slice data 16 (len data)) decodeIPv6Flow
        else Inl (Fault (Unsupported ''linux sll protocol'' 0))))"

definition DecodeFlowPacket :: "u32 \<Rightarrow> byte list \<Rightarrow> (perr, FlowPacket) go" where
  "DecodeFlowPacket linkType data =
     (if linkType = LinkTypeEthernet then
        (if len data < 14 then Inl (Fault (TooShort ''ethernet''))
         else gbind (slice data 12 14) (\<lambda>t.
           if be16 t = etherTypeIPv4 then gbind (slice data 14 (len data)) decodeIPv4Flow
           else if be16 t = etherTypeIPv6 then gbind (slice data 14 (len data)) decodeIPv6Flow
           else Inl (Fault (Unsupported ''ethernet ethertype'' 0))))
      else if linkType = LinkTypeRaw then decodeRawIPFlow data
      else if linkType = LinkTypeNull \<or> linkType = LinkTypeLoop then decodeLoopbackFlow data
      else if linkType = LinkTypeLinuxSLL then decodeLinuxSLLFlow data
      else Inl (Fault (Unsupported ''link type'' (unat linkType))))"

subsection \<open>No input makes the decoder panic\<close>

definition flow_in :: "byte list \<Rightarrow> FlowPacket \<Rightarrow> bool" where
  "flow_in data f \<longleftrightarrow> sublist (Payload f) data \<and> TransportProto f \<in> {''tcp'', ''udp''}"

lemma flow_in_mono: "flow_in body f \<Longrightarrow> sublist body data \<Longrightarrow> flow_in data f"
  by (auto simp: flow_in_def intro: sublist_order.order.trans)

lemma decodeTCPFlow_safe:
  assumes "sublist body data"
  shows "yields (decodeTCPFlow f body) (flow_in data)"
  unfolding decodeTCPFlow_def Let_def
  by (intro yields_decode) (simp_all add: flow_in_def sublist_order.order.trans [OF _ assms])

lemma decodeUDPFlow_safe:
  assumes "sublist body data"
  shows "yields (decodeUDPFlow f body) (flow_in data)"
  unfolding decodeUDPFlow_def Let_def
  by (intro yields_decode) (simp_all add: flow_in_def sublist_order.order.trans [OF _ assms])

lemma decodeIPv4Flow_safe:
  assumes "sublist body data"
  shows "yields (decodeIPv4Flow body) (flow_in data)"
  unfolding decodeIPv4Flow_def Let_def
  by (intro yields_decode decodeTCPFlow_safe decodeUDPFlow_safe)
    (auto simp: sublist_order.order.trans [OF _ assms])

lemma ipv6Headers_safe:
  assumes "sublist body data" and "0 \<le> offset" and "offset \<le> ende" and "ende \<le> len body"
  shows "yields (ipv6Headers body ende f hops nxt offset) (flow_in data)"
  using assms(2-)
proof (induction hops arbitrary: nxt offset)
  case (Suc hops)
  then show ?case
    unfolding ipv6Headers.simps Let_def
    by (intro yields_decode decodeTCPFlow_safe decodeUDPFlow_safe Suc.IH)
      (simp_all add: sublist_order.order.trans [OF _ assms(1)])
qed simp

lemma decodeIPv6Flow_safe:
  assumes "sublist body data"
  shows "yields (decodeIPv6Flow body) (flow_in data)"
  unfolding decodeIPv6Flow_def Let_def ipv6HeaderLen_def
  by (intro yields_decode ipv6Headers_safe) (use assms in auto)

lemmas network_safe = decodeIPv4Flow_safe decodeIPv6Flow_safe

theorem DecodeFlowPacket_safe: "yields (DecodeFlowPacket linkType data) (flow_in data)"
  unfolding DecodeFlowPacket_def decodeRawIPFlow_def decodeLoopbackFlow_def decodeLinuxSLLFlow_def Let_def
  by (intro yields_decode network_safe) simp_all

subsection \<open>The capture reader\<close>

lemma NewPCAPReader_safe: "yields (NewPCAPReader r) (\<lambda>p. src p = drop 24 r)"
  unfolding NewPCAPReader_def Let_def pcapHeaderLen_def
  by (auto simp: pcapByteOrder_def split: if_splits)

theorem Next_safe:
  "yields (Next p) (\<lambda>(pkt, q).
     length (Data pkt) = unat (CapturedLen pkt) \<and> length (Data pkt) \<le> DefaultSnapLen \<and>
     (SnapLen p > 0 \<longrightarrow> CapturedLen pkt \<le> SnapLen p) \<and>
     (\<exists>hdr. length hdr = 16 \<and> src p = hdr @ Data pkt @ src q))"
proof (cases "length (src p) < 16")
  case True
  then show ?thesis by (simp add: Next_def)
next
  case False
  have split: "src p = take 16 (src p) @ take n (drop 16 (src p)) @ drop n (drop 16 (src p))" for n
    by (simp del: drop_drop)
  then show ?thesis
    using False unfolding Next_def Let_def
    by (auto simp del: drop_drop simp: word_le_nat_alt word_less_nat_alt intro!: exI [where x = "take 16 (src p)"])
qed

end
