(* ===== verification/Tcp_Streams.thy ===== *)
theory Tcp_Streams
  imports Net_Packet
begin

text \<open>
  The bounded reassembly of one direction of a TCP connection (\<open>internal/netcap/summary.go\<close>). Segments
  may arrive in any order, overlap and repeat; a stream grows at its front or at its back. Sequence numbers
  are 32-bit words and every addition wraps. The theorems show that a stream never exceeds its cap, that its
  bounds match its length, and that its bytes are always those the sender put at these sequence numbers.
\<close>

unbundle bit_operations_syntax

subsection \<open>Operations\<close>

definition maxTCPReassemblyBytes :: nat where "maxTCPReassemblyBytes = 256 * 1024"
definition tcpFlagSYN :: u8 where "tcpFlagSYN = 0x02"

record tcpFlowKey =
  srcAddr :: addr
  dstAddr :: addr
  srcPort :: u16
  dstPort :: u16

record tcpSummaryStream =
  st_data :: "byte list"
  startSeq :: u32
  nextSeq :: u32
  parsedTLS :: bool
  parsedHTTP :: bool

type_synonym tcpSummaryStreams = "(tcpFlowKey, tcpSummaryStream) gomap"

definition newTCPSummaryStreams :: tcpSummaryStreams where "newTCPSummaryStreams = []"

definition newStream :: "u32 \<Rightarrow> tcpSummaryStream" where
  "newStream dataSeq = \<lparr> st_data = [], startSeq = dataSeq, nextSeq = dataSeq, parsedTLS = False, parsedHTTP = False \<rparr>"

text \<open>The common ends of the two operations: store what fits under the cap, at the front or at the back.\<close>

definition storeFront :: "tcpSummaryStream \<Rightarrow> u32 \<Rightarrow> byte list \<Rightarrow> (perr, tcpSummaryStream \<times> bool) go" where
  "storeFront stream dataSeq payload =
     (if length (st_data stream) \<ge> maxTCPReassemblyBytes then Inr (stream, True)
      else
        (let remaining = int maxTCPReassemblyBytes - len (st_data stream) in
         gbind (if len payload > remaining
                then gmap (\<lambda>p. (p, startSeq stream - of_nat (length p)))
                       (slice payload (len payload - remaining) (len payload))
                else Inr (payload, dataSeq)) (\<lambda>(payload, dataSeq).
         Inr (stream \<lparr> st_data := payload @ st_data stream, startSeq := dataSeq \<rparr>, True))))"

definition storeBack :: "tcpSummaryStream \<Rightarrow> byte list \<Rightarrow> (perr, tcpSummaryStream \<times> bool) go" where
  "storeBack stream payload =
     (if length (st_data stream) \<ge> maxTCPReassemblyBytes then Inr (stream, True)
      else
        (let remaining = int maxTCPReassemblyBytes - len (st_data stream) in
         gbind (if len payload > remaining then slice payload 0 remaining else Inr payload) (\<lambda>payload.
         Inr (stream \<lparr> st_data := st_data stream @ payload,
                       nextSeq := nextSeq stream + of_nat (length payload) \<rparr>, True))))"

definition prependTCPPayload :: "tcpSummaryStream \<Rightarrow> u32 \<Rightarrow> byte list \<Rightarrow> (perr, tcpSummaryStream \<times> bool) go" where
  "prependTCPPayload stream dataSeq payload =
     (let endSeq = dataSeq + of_nat (length payload) in
      if endSeq < startSeq stream then Inr (stream, False)
      else if endSeq > startSeq stream then
        (let overlap = endSeq - startSeq stream in
         if overlap \<ge> of_nat (length payload) then Inr (stream, True)
         else gbind (slice payload 0 (len payload - int (unat overlap))) (storeFront stream dataSeq))
      else storeFront stream dataSeq payload)"

text \<open>The part of \<open>add\<close> that follows the lookup of the stream.\<close>

definition addPayload :: "tcpSummaryStream \<Rightarrow> u32 \<Rightarrow> byte list \<Rightarrow> (perr, tcpSummaryStream \<times> bool) go" where
  "addPayload stream dataSeq payload =
     (if dataSeq < startSeq stream then prependTCPPayload stream dataSeq payload
      else if dataSeq < nextSeq stream then
        (let overlap = nextSeq stream - dataSeq in
         if overlap \<ge> of_nat (length payload) then Inr (stream, True)
         else gbind (slice payload (int (unat overlap)) (len payload)) (storeBack stream))
      else if dataSeq > nextSeq stream then Inr (stream, False)
      else storeBack stream payload)"

definition flowKey :: "FlowPacket \<Rightarrow> tcpFlowKey" where
  "flowKey flow = \<lparr> srcAddr = SrcAddr flow, dstAddr = DstAddr flow, srcPort = SrcPort flow, dstPort = DstPort flow \<rparr>"

definition dataSeqOf :: "FlowPacket \<Rightarrow> u32" where
  "dataSeqOf flow = (if TCPFlags flow AND tcpFlagSYN \<noteq> 0 then TCPSeq flow + 1 else TCPSeq flow)"

text \<open>The stream is created even when the segment is then refused; the pointer is the map's own entry.\<close>

definition add_flow :: "FlowPacket \<Rightarrow> tcpSummaryStreams \<Rightarrow> (perr, tcpSummaryStreams \<times> tcpSummaryStream \<times> bool) go" where
  "add_flow flow streams =
     (let key = flowKey flow; dataSeq = dataSeqOf flow in
      gbind (addPayload (mgetd (newStream dataSeq) streams key) dataSeq (Payload flow)) (\<lambda>(stream, ok).
      Inr (mput key stream streams, stream, ok)))"

subsection \<open>What a stream holds\<close>

text \<open>\<open>sent\<close> gives the byte the sender put at each sequence number.\<close>

definition carries :: "(u32 \<Rightarrow> byte) \<Rightarrow> u32 \<Rightarrow> byte list \<Rightarrow> bool" where
  "carries sent seq bs \<longleftrightarrow> (\<forall>i<length bs. bs ! i = sent (seq + of_nat i))"

definition stream_ok :: "(u32 \<Rightarrow> byte) \<Rightarrow> tcpSummaryStream \<Rightarrow> bool" where
  "stream_ok sent st \<longleftrightarrow>
     length (st_data st) \<le> maxTCPReassemblyBytes \<and> nextSeq st = startSeq st + of_nat (length (st_data st)) \<and>
     carries sent (startSeq st) (st_data st)"

lemma carries_append:
  "carries sent seq (xs @ ys) \<longleftrightarrow> carries sent seq xs \<and> carries sent (seq + of_nat (length xs)) ys"
proof
  assume l: "carries sent seq (xs @ ys)"
  have "ys ! i = sent (seq + of_nat (length xs) + of_nat i)" if "i < length ys" for i
    using l [unfolded carries_def, rule_format, of "length xs + i"] that by (simp add: add.assoc)
  moreover have "xs ! i = sent (seq + of_nat i)" if "i < length xs" for i
    using l [unfolded carries_def, rule_format, of i] that by (simp add: nth_append)
  ultimately show "carries sent seq xs \<and> carries sent (seq + of_nat (length xs)) ys"
    by (simp add: carries_def)
next
  assume r: "carries sent seq xs \<and> carries sent (seq + of_nat (length xs)) ys"
  show "carries sent seq (xs @ ys)"
    unfolding carries_def
  proof (intro allI impI)
    fix i assume "i < length (xs @ ys)"
    then show "(xs @ ys) ! i = sent (seq + of_nat i)"
      using r by (cases "i < length xs") (auto simp: carries_def nth_append add.assoc simp flip: of_nat_add)
  qed
qed

lemma carries_drop: "carries sent seq bs \<Longrightarrow> n \<le> length bs \<Longrightarrow> carries sent (seq + of_nat n) (drop n bs)"
  using carries_append [of sent seq "take n bs" "drop n bs"] by simp

lemma carries_take: "carries sent seq bs \<Longrightarrow> carries sent seq (take n bs)"
  using carries_append [of sent seq "take n bs" "drop n bs"] by simp

lemma word_overlap: "\<not> (w :: u32) \<ge> of_nat n \<Longrightarrow> unat w \<le> n"
proof -
  assume "\<not> w \<ge> of_nat n"
  then have "unat w < unat (of_nat n :: u32)" by (simp add: word_le_nat_alt)
  also have "\<dots> \<le> n" by (simp add: unat_of_nat)
  finally show ?thesis by simp
qed

text \<open>Cutting the overlap from the end of an earlier segment leaves what lies before the stream.\<close>

lemma trimmed_end:
  assumes "unat overlap \<le> length p" and "overlap = dataSeq + of_nat (length p) - start"
  shows "dataSeq + of_nat (length p - unat overlap) = (start :: u32)"
proof -
  have "of_nat (length p - unat overlap) = of_nat (length p) - overlap"
    using assms(1) by (simp add: of_nat_diff)
  then show ?thesis by (simp add: assms(2))
qed

abbreviation keeps :: "(u32 \<Rightarrow> byte) \<Rightarrow> (perr, tcpSummaryStream \<times> bool) go \<Rightarrow> bool" where
  "keeps sent m \<equiv> returns m (\<lambda>(st', ok). stream_ok sent st')"

lemma storeFront_ok:
  assumes ok: "stream_ok sent st" and p: "carries sent seq p" and touch: "seq + of_nat (length p) = startSeq st"
  shows "keeps sent (storeFront st seq p)"
proof (cases "maxTCPReassemblyBytes \<le> length (st_data st)")
  case True
  then show ?thesis using ok by (simp add: storeFront_def)
next
  case False
  define r where "r = maxTCPReassemblyBytes - length (st_data st)"
  have r: "int maxTCPReassemblyBytes - len (st_data st) = int r" using False by (simp add: r_def of_nat_diff)
  have front: "stream_ok sent (st \<lparr> st_data := q @ st_data st, startSeq := s \<rparr>)"
    if "carries sent s q" "s + of_nat (length q) = startSeq st" "length q \<le> r" for q s
    using ok that False by (simp add: stream_ok_def carries_append r_def add.assoc [symmetric])
  show ?thesis
  proof (cases "length p \<le> r")
    case True
    then show ?thesis using front [OF p touch] False by (simp add: storeFront_def r)
  next
    case long: False
    define q where "q = drop (length p - r) p"
    have q: "length q = r" using long by (simp add: q_def)
    have cq: "carries sent (seq + of_nat (length p - r)) q" unfolding q_def by (rule carries_drop [OF p]) simp
    have s: "slice p (len p - int r) (len p) = Inr q"
      using long by (simp add: slice_def q_def nat_diff_distrib')
    have e: "startSeq st - of_nat (length q) = seq + of_nat (length p - r)"
      using touch long by (simp add: q of_nat_diff)
    have "stream_ok sent (st \<lparr> st_data := q @ st_data st, startSeq := startSeq st - of_nat (length q) \<rparr>)"
      unfolding e using cq q touch long by (intro front) (simp_all add: of_nat_diff)
    then show ?thesis using False long by (simp add: storeFront_def r s)
  qed
qed

lemma storeBack_ok:
  assumes ok: "stream_ok sent st" and p: "carries sent (nextSeq st) p"
  shows "keeps sent (storeBack st p)"
proof (cases "maxTCPReassemblyBytes \<le> length (st_data st)")
  case True
  then show ?thesis using ok by (simp add: storeBack_def)
next
  case False
  define r where "r = maxTCPReassemblyBytes - length (st_data st)"
  have r: "int maxTCPReassemblyBytes - len (st_data st) = int r" using False by (simp add: r_def of_nat_diff)
  have at_end: "stream_ok sent (st \<lparr> st_data := st_data st @ q, nextSeq := nextSeq st + of_nat (length q) \<rparr>)"
    if "carries sent (nextSeq st) q" "length q \<le> r" for q
    using ok that False by (simp add: stream_ok_def carries_append r_def add.assoc)
  have s: "slice p 0 (int r) = Inr (take r p)" if "r < length p" using that by (simp add: slice_def)
  show ?thesis
    using False at_end [OF p] at_end [OF carries_take [OF p], of r] by (auto simp: storeBack_def r s min_def)
qed

text \<open>Any segment that carries the sender's bytes keeps the stream exact, whatever it overlaps.\<close>

theorem addPayload_ok:
  assumes ok: "stream_ok sent st" and p: "carries sent seq p"
  shows "keeps sent (addPayload st seq p)"
proof -
  have front: "keeps sent (prependTCPPayload st seq p)"
  proof -
    let ?ov = "seq + of_nat (length p) - startSeq st"
    have cut: "keeps sent (gbind (slice p 0 (len p - int (unat ?ov))) (storeFront st seq))" if "\<not> ?ov \<ge> of_nat (length p)"
    proof -
      note u = word_overlap [OF that]
      then have "0 \<le> len p - int (unat ?ov)" "nat (len p - int (unat ?ov)) = length p - unat ?ov" by linarith+
      then have s: "slice p 0 (len p - int (unat ?ov)) = Inr (take (length p - unat ?ov) p)"
        by (simp add: slice_def del: of_nat_unat)
      show ?thesis
        unfolding s gbind.simps using trimmed_end [OF u refl]
        by (intro storeFront_ok [OF ok carries_take [OF p]]) simp
    qed
    show ?thesis
      using ok cut storeFront_ok [OF ok p] unfolding prependTCPPayload_def Let_def
      by (auto simp del: of_nat_unat)
  qed
  have at_end: "keeps sent (gbind (slice p (int (unat ov)) (len p)) (storeBack st))"
    if "\<not> ov \<ge> of_nat (length p)" "ov = nextSeq st - seq" for ov
  proof -
    have u: "unat ov \<le> length p" by (rule word_overlap [OF that(1)])
    have s: "slice p (int (unat ov)) (len p) = Inr (drop (unat ov) p)"
      using u by (simp add: slice_def del: of_nat_unat)
    have "carries sent (nextSeq st) (drop (unat ov) p)"
      using carries_drop [OF p u] by (simp add: that(2))
    then show ?thesis unfolding s gbind.simps by (rule storeBack_ok [OF ok])
  qed
  show ?thesis
    using ok p front at_end storeBack_ok [OF ok, of p] unfolding addPayload_def Let_def
    by (auto simp del: of_nat_unat)
qed

text \<open>The table of streams: every stream holds what its own sender put on the wire.\<close>

definition streams_ok :: "(tcpFlowKey \<Rightarrow> u32 \<Rightarrow> byte) \<Rightarrow> tcpSummaryStreams \<Rightarrow> bool" where
  "streams_ok sent streams \<longleftrightarrow> mwf streams \<and> (\<forall>k st. map_of streams k = Some st \<longrightarrow> stream_ok (sent k) st)"

lemma newStream_ok: "stream_ok sent (newStream seq)"
  by (simp add: stream_ok_def newStream_def carries_def)

theorem add_flow_ok:
  assumes ok: "streams_ok sent streams" and p: "carries (sent (flowKey f)) (dataSeqOf f) (Payload f)"
  shows "returns (add_flow f streams) (\<lambda>(streams', st, b). streams_ok sent streams' \<and> map_of streams' (flowKey f) = Some st)"
proof -
  let ?st = "mgetd (newStream (dataSeqOf f)) streams (flowKey f)"
  have "stream_ok (sent (flowKey f)) ?st"
    using ok by (auto simp: streams_ok_def mgetd_def newStream_ok split: option.splits)
  from addPayload_ok [OF this p] obtain st b
    where "addPayload ?st (dataSeqOf f) (Payload f) = Inr (st, b)" "stream_ok (sent (flowKey f)) st"
    by (auto elim!: returnsE)
  then show ?thesis using ok by (simp add: add_flow_def streams_ok_def)
qed

text \<open>Segments in order and below the cap are all kept, as long as the sequence numbers do not wrap.\<close>

fun in_order :: "u32 \<Rightarrow> byte list list \<Rightarrow> (u32 \<times> byte list) list" where
  "in_order seq [] = []"
| "in_order seq (p # ps) = (seq, p) # in_order (seq + of_nat (length p)) ps"

definition receive :: "u32 \<times> byte list \<Rightarrow> tcpSummaryStream \<Rightarrow> (perr, tcpSummaryStream) go" where
  "receive sp st = gmap fst (addPayload st (fst sp) (snd sp))"

lemma receive_next:
  assumes "startSeq st \<le> nextSeq st" and "length (st_data st) + length p \<le> maxTCPReassemblyBytes"
  shows "receive (nextSeq st, p) st = Inr (st \<lparr> st_data := st_data st @ p, nextSeq := nextSeq st + of_nat (length p) \<rparr>)"
proof (cases "length (st_data st) = maxTCPReassemblyBytes")
  case True
  then show ?thesis using assms leD [OF assms(1)] by (simp add: receive_def addPayload_def storeBack_def)
next
  case False
  have "\<not> maxTCPReassemblyBytes \<le> length (st_data st)" "\<not> len p > int maxTCPReassemblyBytes - len (st_data st)"
    using assms(2) False by linarith+
  then show ?thesis using leD [OF assms(1)] by (simp add: receive_def addPayload_def storeBack_def Let_def)
qed

lemma receive_in_order:
  assumes "length (st_data st) + length (concat ps) \<le> maxTCPReassemblyBytes" and "startSeq st \<le> nextSeq st"
    and "unat (nextSeq st) + length (concat ps) < 2 ^ 32"
  shows "gfold receive (in_order (nextSeq st) ps) st =
    Inr (st \<lparr> st_data := st_data st @ concat ps, nextSeq := nextSeq st + of_nat (length (concat ps)) \<rparr>)"
  using assms
proof (induction ps arbitrary: st)
  case (Cons p ps)
  let ?st = "st \<lparr> st_data := st_data st @ p, nextSeq := nextSeq st + of_nat (length p) \<rparr>"
  have "unat (nextSeq st) + unat (of_nat (length p) :: u32) < 2 ^ LENGTH(32)"
    using Cons.prems(3) by (simp add: unat_of_nat)
  then have u: "unat (nextSeq st + of_nat (length p)) = unat (nextSeq st) + length p"
    using Cons.prems(3) by (simp add: unat_plus_if' unat_of_nat)
  then have "startSeq ?st \<le> nextSeq ?st"
    using Cons.prems(2) by (simp add: word_le_nat_alt)
  moreover have "unat (nextSeq ?st) + length (concat ps) < 2 ^ 32"
    using Cons.prems(3) by (simp add: u)
  ultimately have "gfold receive (in_order (nextSeq ?st) ps) ?st =
    Inr (?st \<lparr> st_data := st_data ?st @ concat ps, nextSeq := nextSeq ?st + of_nat (length (concat ps)) \<rparr>)"
    using Cons.prems(1) by (intro Cons.IH) simp_all
  moreover have "receive (nextSeq st, p) st = Inr ?st"
    using Cons.prems by (intro receive_next) simp_all
  ultimately show ?case by (simp add: add.assoc)
qed simp

theorem in_order_reassembled:
  assumes "length (concat ps) \<le> maxTCPReassemblyBytes" and "unat seq + length (concat ps) < 2 ^ 32"
  shows "gfold receive (in_order seq ps) (newStream seq) =
    Inr ((newStream seq) \<lparr> st_data := concat ps, nextSeq := seq + of_nat (length (concat ps)) \<rparr>)"
  using receive_in_order [of "newStream seq" ps] assms by (simp add: newStream_def)

text \<open>
  The comparisons do not follow the sequence numbers around: once a stream ends exactly at the wrap, the
  segment that continues it is taken for an earlier one and refused.
\<close>

theorem wrapped_segment_refused:
  assumes "nextSeq st = 0" and "of_nat (length p) < startSeq st"
  shows "addPayload st (nextSeq st) p = Inr (st, False)"
proof -
  have "0 < startSeq st" using assms(2) by (rule le_less_trans [rotated]) simp
  then show ?thesis using assms by (simp add: addPayload_def prependTCPPayload_def)
qed

text \<open>Any sequence of packets, in any order, leaves every stream with the bytes its sender sent.\<close>

theorem streams_exact:
  assumes "\<forall>f\<in>set flows. carries (sent (flowKey f)) (dataSeqOf f) (Payload f)"
  shows "returns (gfold (\<lambda>f streams. gmap fst (add_flow f streams)) flows newTCPSummaryStreams) (streams_ok sent)"
proof -
  have "returns (gfold (\<lambda>f streams. gmap fst (add_flow f streams)) flows streams) (streams_ok sent)"
    if "streams_ok sent streams" for streams
    using that assms
  proof (induction flows arbitrary: streams)
    case (Cons f flows)
    obtain s' st b where "add_flow f streams = Inr (s', st, b)" "streams_ok sent s'"
      using add_flow_ok [OF Cons.prems(1), of f] Cons.prems(2) by (auto elim!: returnsE)
    then show ?case using Cons.IH [of s'] Cons.prems(2) by simp
  qed simp
  moreover have "streams_ok sent newTCPSummaryStreams" by (simp add: streams_ok_def newTCPSummaryStreams_def)
  ultimately show ?thesis by blast
qed

lemma carries_Nil: "carries sent seq []"
  by (simp add: carries_def)

lemma carries_Cons: "carries sent seq (b # bs) \<longleftrightarrow> b = sent seq \<and> carries sent (seq + 1) bs"
  using carries_append [of sent seq "[b]" bs] by (simp add: carries_def)

end
