(* ===== verification/Net_Dns.thy ===== *)
theory Net_Dns
  imports Go_Strings Net_Bytes
begin

text \<open>
  DNS message metadata (\<open>internal/netproto/dns.go\<close>). Names are read with compression pointers that may
  go anywhere, also forward or in circles; the depth limit is what makes the reader end. The theorems
  show that no message makes it panic, that it consumes a name and stays inside the buffer, and that an
  encoded question section is read back.
\<close>

unbundle bit_operations_syntax

subsection \<open>Operations\<close>

datatype dnserr =
    DnsTooShort
  | QuestionExceeds
  | CompressionLoop
  | NameExceeds
  | PointerExceeds
  | LabelType
  | LabelExceeds

record DNSQuestion =
  q_Name :: string
  q_Type :: string
  q_Class :: string

record DNSMessage =
  m_ID :: u16
  Response :: bool
  OpCode :: int
  RCode :: int
  Truncated :: bool
  Questions :: "DNSQuestion list"
  Answers :: int

definition dnsHeaderLen :: int where "dnsHeaderLen = 12"

definition dnsType :: "u16 \<Rightarrow> string" where
  "dnsType t =
     (if t = 1 then ''A'' else if t = 2 then ''NS'' else if t = 5 then ''CNAME'' else if t = 15 then ''MX''
      else if t = 16 then ''TXT'' else if t = 28 then ''AAAA'' else if t = 33 then ''SRV''
      else if t = 65 then ''HTTPS'' else ''TYPE'' @ dec (int (unat t)))"

definition dnsClass :: "u16 \<Rightarrow> string" where
  "dnsClass c = (if c = 1 then ''IN'' else ''CLASS'' @ dec (int (unat c)))"

lemma neg_less_uint: "- 1 < uint (w :: 'a::len word)"
  using uint_ge_0 [of w] by linarith

text \<open>
  The recursion has two reasons to end: the depth grows with every pointer, and within one depth every
  label moves \<open>next\<close> forward.
\<close>

function nameLoop :: "byte list \<Rightarrow> int \<Rightarrow> int \<Rightarrow> string list \<Rightarrow> (dnserr, string \<times> int) go" where
  "nameLoop packet depth nxt labels =
     (if nxt \<ge> int (length packet) then Inl (Fault NameExceeds)
      else gbind (idx packet nxt) (\<lambda>l.
        let nxt = nxt + 1 in
        if l = 0 then (if labels = [] then Inr (''.'', nxt) else Inr (join ''.'' labels, nxt))
        else if l AND 0xc0 = 0xc0 then
          (if nxt \<ge> int (length packet) then Inl (Fault PointerExceeds)
           else gbind (idx packet nxt) (\<lambda>b.
             let ptr = int (unat (l AND 0x3f)) * 256 + int (unat b) in
             if depth + 1 > 8 then Inl (Fault CompressionLoop)
             else gbind (nameLoop packet (depth + 1) ptr []) (\<lambda>(name, _).
                  Inr (join ''.'' (labels @ [name]), nxt + 1))))
        else if l AND 0xc0 \<noteq> 0 then Inl (Fault LabelType)
        else (let labelLen = int (unat l) in
              gbind (slice packet nxt (int (length packet))) (\<lambda>rest.
              if labelLen = 0 \<or> int (length rest) < labelLen then Inl (Fault LabelExceeds)
              else gbind (slice packet nxt (nxt + labelLen)) (\<lambda>s.
                   nameLoop packet depth (nxt + labelLen) (labels @ [go_string s]))))))"
  by pat_completeness auto
termination nameLoop
  using neg_less_uint
  by (relation "measures [\<lambda>(p, d, n, ls). nat (9 - d), \<lambda>(p, d, n, ls). nat (int (length p) - n)]")
    (auto simp: idx_eq_Inr slice_eq_Inr)

declare nameLoop.simps [simp del]

definition parseDNSName :: "byte list \<Rightarrow> int \<Rightarrow> int \<Rightarrow> (dnserr, string \<times> int) go" where
  "parseDNSName packet pos depth =
     (if depth > 8 then Inl (Fault CompressionLoop) else nameLoop packet depth pos [])"

fun questionLoop :: "byte list \<Rightarrow> nat \<Rightarrow> int \<Rightarrow> (dnserr, DNSQuestion list) go" where
  "questionLoop packet 0 pos = Inr []"
| "questionLoop packet (Suc n) pos =
     gbind (parseDNSName packet pos 0) (\<lambda>(name, nxt).
     gbind (slice packet nxt (int (length packet))) (\<lambda>rest.
     if int (length rest) < 4 then Inl (Fault QuestionExceeds)
     else gbind (slice packet nxt (nxt + 2)) (\<lambda>t.
          gbind (slice packet (nxt + 2) (nxt + 4)) (\<lambda>c.
          gmap ((#) \<lparr> q_Name = name, q_Type = dnsType (be16 t), q_Class = dnsClass (be16 c) \<rparr>)
            (questionLoop packet n (nxt + 4))))))"

definition ParseDNSMessage :: "byte list \<Rightarrow> (dnserr, DNSMessage) go" where
  "ParseDNSMessage packet =
     (if int (length packet) < dnsHeaderLen then Inl (Fault DnsTooShort)
      else gbind (slice packet 2 4) (\<lambda>fl.
           gbind (slice packet 4 6) (\<lambda>qd.
           gbind (slice packet 6 8) (\<lambda>an.
           gbind (slice packet 0 2) (\<lambda>i.
           let flags = be16 fl in
           gbind (questionLoop packet (unat (be16 qd)) dnsHeaderLen) (\<lambda>qs.
           Inr \<lparr> m_ID = be16 i, Response = (flags AND 0x8000 \<noteq> 0), OpCode = int (unat (drop_bit 11 flags AND 0x0f)),
                 RCode = int (unat (flags AND 0x0f)), Truncated = (flags AND 0x0200 \<noteq> 0),
                 Questions = qs, Answers = int (unat (be16 an)) \<rparr>))))))"

subsection \<open>No message makes the reader panic\<close>

definition inside :: "byte list \<Rightarrow> int \<Rightarrow> string \<times> int \<Rightarrow> bool" where
  "inside packet pos r \<longleftrightarrow> pos < snd r \<and> snd r \<le> len packet"

lemma nameLoop_safe: "0 \<le> nxt \<Longrightarrow> yields (nameLoop packet depth nxt labels) (inside packet nxt)"
proof (induction "nat (9 - depth)" arbitrary: depth nxt labels rule: less_induct)
  case outer: less
  show ?case
    using outer.prems
  proof (induction "nat (len packet - nxt)" arbitrary: nxt labels rule: less_induct)
    case inner: less
    have jump: "yields (gbind (nameLoop packet (depth + 1) ptr []) (\<lambda>(name, _). Inr (f name, nxt + 1 + 1)))
        (inside packet nxt)" if "\<not> depth + 1 > 8" "0 \<le> ptr" "\<not> nxt + 1 \<ge> len packet" for f ptr
    proof (rule yields_gbind)
      show "yields (nameLoop packet (depth + 1) ptr []) (inside packet ptr)"
        using that by (intro outer.hyps) auto
    qed (use that in \<open>auto simp: inside_def\<close>)
    have step: "yields (nameLoop packet depth (nxt + 1 + int (unat l)) ls) (inside packet nxt)"
      if "nxt + 1 + int (unat l) \<le> len packet" for l :: byte and ls
    proof (rule yields_mono)
      show "yields (nameLoop packet depth (nxt + 1 + int (unat l)) ls) (inside packet (nxt + 1 + int (unat l)))"
      proof (rule inner.hyps)
        have "0 < len packet - nxt" using that inner.prems by linarith
        then show "nat (len packet - (nxt + 1 + int (unat l))) < nat (len packet - nxt)"
          by (subst nat_mono_iff) linarith+
        show "0 \<le> nxt + 1 + int (unat l)" using inner.prems by linarith
      qed
    next
      fix r assume "inside packet (nxt + 1 + int (unat l)) r"
      then show "inside packet nxt r" unfolding inside_def by linarith
    qed
    show ?case
      using inner.prems
      by (subst nameLoop.simps, unfold Let_def, intro yields_decode jump)
        (auto simp: inside_def intro!: step [simplified])
  qed
qed

lemma parseDNSName_safe: "0 \<le> pos \<Longrightarrow> yields (parseDNSName packet pos depth) (inside packet pos)"
  by (simp add: parseDNSName_def nameLoop_safe)

text \<open>A question takes at least five bytes, so the answer's size is bounded by the message's.\<close>

lemma questionLoop_safe:
  "0 \<le> pos \<Longrightarrow> pos \<le> len packet \<Longrightarrow>
     yields (questionLoop packet n pos) (\<lambda>qs. length qs = n \<and> pos + 5 * int n \<le> len packet)"
proof (induction n arbitrary: pos)
  case (Suc n)
  show ?case
    unfolding questionLoop.simps
  proof (rule yields_gbind [OF parseDNSName_safe [OF Suc.prems(1)]], simp only: split_paired_all prod.case inside_def snd_conv,
      elim conjE)
    fix name nxt assume "pos < nxt" "nxt \<le> len packet"
    have tail: "yields (gmap f (questionLoop packet n (nxt + 4))) (\<lambda>qs. length qs = Suc n \<and> pos + 5 * int (Suc n) \<le> len packet)"
      if "\<And>xs. length (f xs) = Suc (length xs)" "nxt + 4 \<le> len packet" for f
    proof -
      have "yields (questionLoop packet n (nxt + 4)) (\<lambda>qs. length qs = n \<and> nxt + 4 + 5 * int n \<le> len packet)"
        using that(2) \<open>pos < nxt\<close> Suc.prems(1) by (intro Suc.IH) auto
      then show ?thesis using that(1) \<open>pos < nxt\<close> by (cases rule: yieldsE) auto
    qed
    show "yields (gbind (slice packet nxt (len packet)) (\<lambda>rest. if len rest < 4 then Inl (Fault QuestionExceeds)
           else gbind (slice packet nxt (nxt + 2)) (\<lambda>t. gbind (slice packet (nxt + 2) (nxt + 4)) (\<lambda>c.
             gmap ((#) \<lparr>q_Name = name, q_Type = dnsType (be16 t), q_Class = dnsClass (be16 c)\<rparr>)
               (questionLoop packet n (nxt + 4))))))
         (\<lambda>qs. length qs = Suc n \<and> pos + 5 * int (Suc n) \<le> len packet)"
      using \<open>pos < nxt\<close> \<open>nxt \<le> len packet\<close> Suc.prems by (intro yields_decode tail) auto
  qed
qed simp

theorem ParseDNSMessage_safe:
  "yields (ParseDNSMessage packet) (\<lambda>m. 12 + 5 * length (Questions m) \<le> length packet)"
proof (cases "len packet < 12")
  case True
  then show ?thesis by (simp add: ParseDNSMessage_def dnsHeaderLen_def)
next
  case False
  have q: "yields (questionLoop packet n 12) (\<lambda>qs. 12 + 5 * length qs \<le> length packet)" for n
    using False by (intro yields_mono [OF questionLoop_safe]) auto
  show ?thesis
    using False unfolding ParseDNSMessage_def dnsHeaderLen_def Let_def
    by (intro yields_decode yields_gbind [OF q]) auto
qed

subsection \<open>Encoded questions are read back\<close>

definition label_ok :: "byte list \<Rightarrow> bool" where
  "label_ok l \<longleftrightarrow> 0 < length l \<and> length l < 64"

fun enc_name :: "byte list list \<Rightarrow> byte list" where
  "enc_name [] = [0]"
| "enc_name (l # ls) = of_nat (length l) # l @ enc_name ls"

definition print_name :: "string list \<Rightarrow> string" where
  "print_name ls = (if ls = [] then ''.'' else join ''.'' ls)"

lemma short_label:
  assumes "n < 64"
  shows "(of_nat n :: byte) AND 0xc0 = 0" and "unat (of_nat n :: byte) = n"
proof -
  have "list_all (\<lambda>n. (of_nat n :: byte) AND 0xc0 = 0) [0..<64]" by code_simp
  then show "(of_nat n :: byte) AND 0xc0 = 0" using assms by (simp add: list_all_iff)
  show "unat (of_nat n :: byte) = n" using assms by (simp add: unat_of_nat)
qed

lemma nameLoop_encoded:
  assumes "\<forall>l\<in>set ls. label_ok l"
  shows "nameLoop (pre @ enc_name ls @ post) depth (len pre) acc =
    Inr (print_name (acc @ map go_string ls), len pre + len (enc_name ls))"
  using assms
proof (induction ls arbitrary: pre acc)
  case Nil
  show ?case by (subst nameLoop.simps) (simp add: print_name_def idx_def nth_append)
next
  case (Cons l ls)
  let ?p = "pre @ enc_name (l # ls) @ post"
  let ?b = "of_nat (length l) :: byte"
  have l: "0 < length l" "length l < 64" using Cons.prems by (simp_all add: label_ok_def)
  note b = short_label [OF l(2)]
  have b0: "?b \<noteq> 0" using b(2) l(1) by (metis less_numeral_extra(3) unat_0)
  have i: "idx ?p (len pre) = Inr ?b" by (simp add: idx_def nth_append)
  have ne: "l \<noteq> []" using l(1) by simp
  have "nameLoop ?p depth (len pre) acc =
    nameLoop ((pre @ ?b # l) @ enc_name ls @ post) depth (len (pre @ ?b # l)) (acc @ [go_string l])"
    by (subst nameLoop.simps) (simp add: i b b0 ne Let_def nat_add_distrib, simp add: add.assoc add.commute [of 1])
  also have "\<dots> = Inr (print_name ((acc @ [go_string l]) @ map go_string ls), len (pre @ ?b # l) + len (enc_name ls))"
    using Cons.IH [of "pre @ ?b # l"] Cons.prems by simp
  finally show ?case by simp
qed

lemma parseDNSName_encoded:
  "\<forall>l\<in>set ls. label_ok l \<Longrightarrow> parseDNSName (pre @ enc_name ls @ post) (len pre) 0 =
     Inr (print_name (map go_string ls), len pre + len (enc_name ls))"
  using nameLoop_encoded [of ls pre post 0 "[]"] by (simp add: parseDNSName_def)

record question =
  labels :: "byte list list"
  qtype :: u16
  qclass :: u16

definition enc_question :: "question \<Rightarrow> byte list" where
  "enc_question q = enc_name (labels q) @ put16 (qtype q) @ put16 (qclass q)"

definition read_question :: "question \<Rightarrow> DNSQuestion" where
  "read_question q = \<lparr> q_Name = print_name (map go_string (labels q)), q_Type = dnsType (qtype q), q_Class = dnsClass (qclass q) \<rparr>"

definition question_ok :: "question \<Rightarrow> bool" where
  "question_ok q \<longleftrightarrow> (\<forall>l\<in>set (labels q). label_ok l)"

lemma questionLoop_encoded:
  assumes "\<forall>q\<in>set qs. question_ok q"
  shows "questionLoop (pre @ concat (map enc_question qs) @ post) (length qs) (len pre) = Inr (map read_question qs)"
  using assms
proof (induction qs arbitrary: pre)
  case (Cons q qs)
  let ?n = "enc_name (labels q)" and ?t = "put16 (qtype q)" and ?c = "put16 (qclass q)"
  let ?rest = "concat (map enc_question qs) @ post"
  let ?p = "pre @ ?n @ ?t @ ?c @ ?rest"
  have p: "pre @ concat (map enc_question (q # qs)) @ post = ?p"
    by (simp add: enc_question_def)
  have name: "parseDNSName ?p (len pre) 0 = Inr (print_name (map go_string (labels q)), len pre + len ?n)"
    using Cons.prems by (intro parseDNSName_encoded) (simp add: question_ok_def)
  have s: "slice ?p (len pre + len ?n) (len ?p) = Inr (?t @ ?c @ ?rest)"
    "slice ?p (len pre + len ?n) (len pre + len ?n + 2) = Inr ?t"
    "slice ?p (len pre + len ?n + 2) (len pre + len ?n + 4) = Inr ?c"
    by (simp_all add: slice_def nat_add_distrib)
  have tail: "questionLoop ?p (length qs) (len pre + len ?n + 4) = Inr (map read_question qs)"
    using Cons.IH [of "pre @ ?n @ ?t @ ?c"] Cons.prems by (simp add: add.assoc)
  show ?case
    unfolding p length_Cons questionLoop.simps name gbind.simps prod.case s
    by (simp add: tail read_question_def)
qed simp

text \<open>Every well-formed query or response header with its questions is read back, whatever follows.\<close>

definition enc_message :: "u16 \<Rightarrow> u16 \<Rightarrow> question list \<Rightarrow> u16 \<Rightarrow> byte list \<Rightarrow> byte list" where
  "enc_message ident flags qs answers rest =
     put16 ident @ put16 flags @ put16 (of_nat (length qs)) @ put16 answers @ replicate 4 0
       @ concat (map enc_question qs) @ rest"

theorem dns_round_trip:
  assumes "\<forall>q\<in>set qs. question_ok q" and "length qs < 65536"
  shows "ParseDNSMessage (enc_message ident flags qs answers rest) =
    Inr \<lparr> m_ID = ident, Response = (flags AND 0x8000 \<noteq> 0), OpCode = int (unat (drop_bit 11 flags AND 0x0f)),
          RCode = int (unat (flags AND 0x0f)), Truncated = (flags AND 0x0200 \<noteq> 0),
          Questions = map read_question qs, Answers = int (unat answers) \<rparr>"
proof -
  let ?n = "put16 (of_nat (length qs))"
  let ?p = "enc_message ident flags qs answers rest"
  let ?h = "put16 ident @ put16 flags @ ?n @ put16 answers @ replicate 4 0"
  have s: "slice ?p 0 2 = Inr (put16 ident)" "slice ?p 2 4 = Inr (put16 flags)" "slice ?p 4 6 = Inr ?n"
    "slice ?p 6 8 = Inr (put16 answers)"
    by (simp_all add: slice_def enc_message_def)
  have u: "unat (of_nat (length qs) :: u16) = length qs"
    using assms(2) by (simp add: unat_of_nat)
  have q: "questionLoop ?p (length qs) 12 = Inr (map read_question qs)"
    using questionLoop_encoded [OF assms(1), of ?h rest] by (simp add: enc_message_def)
  have l: "\<not> len ?p < 12" by (simp add: enc_message_def)
  show ?thesis
    using l by (simp add: ParseDNSMessage_def dnsHeaderLen_def s q u Let_def)
qed

end
