(* ===== verification/Net_Tls.thy ===== *)
theory Net_Tls
  imports Go_Fmt Net_Bytes
begin

text \<open>
  TLS ClientHello metadata (\<open>internal/netproto/tls.go\<close>): the record and handshake headers, the
  variable-length vectors, and the extensions Spectra reads. The theorems show that no record makes the
  parser panic, that every string it reports is cut from the record, and that an encoded hello is read
  back extension by extension.
\<close>

subsection \<open>Operations\<close>

datatype tlserr =
    RecordTooShort
  | NotHandshake
  | RecordLength
  | NotClientHello
  | HelloLength
  | HelloTooShort
  | SessionExceeds
  | CiphersExceed
  | CompressionExceeds
  | ExtensionsExceed

record TLSClientHello =
  SNI :: string
  ALPN :: "string list"
  LegacyVersion :: string
  SupportedVersions :: "string list"
  ECHPresent :: bool

definition tlsRecordHandshake :: byte where "tlsRecordHandshake = 22"
definition tlsHandshakeClient :: byte where "tlsHandshakeClient = 1"
definition tlsExtServerName :: u16 where "tlsExtServerName = 0"
definition tlsExtALPN :: u16 where "tlsExtALPN = 16"
definition tlsExtSupportedVers :: u16 where "tlsExtSupportedVers = 43"
definition tlsExtEncryptedHello :: u16 where "tlsExtEncryptedHello = 0xfe0d"

text \<open>The \<open>%02x\<close> verb on a byte.\<close>

definition hex2 :: "byte \<Rightarrow> string" where
  "hex2 b = [hex_digit (unat b div 16), hex_digit (unat b mod 16)]"

definition tlsVersion :: "byte \<Rightarrow> byte \<Rightarrow> string" where
  "tlsVersion major minor =
     (if major = 3 \<and> minor = 0 then ''SSL 3.0''
      else if major = 3 \<and> minor \<ge> 1 \<and> minor \<le> 4 then ''TLS 1.'' @ dec (int (unat (minor - 1)))
      else ''0x'' @ hex2 major @ hex2 minor)"

definition readUint8 :: "byte list \<Rightarrow> int \<Rightarrow> ('e, byte \<times> bool \<times> int) go" where
  "readUint8 data pos =
     (if pos \<ge> len data then Inr (0, False, pos)
      else gbind (idx data pos) (\<lambda>v. Inr (v, True, pos + 1)))"

definition readUint16 :: "byte list \<Rightarrow> int \<Rightarrow> ('e, u16 \<times> bool \<times> int) go" where
  "readUint16 data pos =
     gbind (slice data pos (len data)) (\<lambda>rest.
       if len rest < 2 then Inr (0, False, pos)
       else gbind (slice data pos (pos + 2)) (\<lambda>b. Inr (be16 b, True, pos + 2)))"

definition skip_n :: "byte list \<Rightarrow> int \<Rightarrow> int \<Rightarrow> ('e, bool \<times> int) go" where
  "skip_n data pos n =
     (if n < 0 then Inr (False, pos)
      else gbind (slice data pos (len data)) (\<lambda>rest. if len rest < n then Inr (False, pos) else Inr (True, pos + n)))"

function serverNameLoop :: "byte list \<Rightarrow> int \<Rightarrow> int \<Rightarrow> ('e, string) go" where
  "serverNameLoop data listLen pos =
     (if pos + 3 \<le> 2 + listLen then
        gbind (idx data pos) (\<lambda>nameType.
        gbind (slice data (pos + 1) (pos + 3)) (\<lambda>b.
        let nameLen = int (unat (be16 b)); pos = pos + 3 in
        gbind (slice data pos (len data)) (\<lambda>rest.
        if len rest < nameLen then Inr []
        else if nameType = 0 then gbind (slice data pos (pos + nameLen)) (\<lambda>s. Inr (go_string s))
        else serverNameLoop data listLen (pos + nameLen))))
      else Inr [])"
  by pat_completeness auto
termination serverNameLoop
proof (relation "measure (\<lambda>(d, l, p). nat (2 + l - p))", goal_cases)
  case (2 data listLen pos a b n p)
  have "pos < p + n" unfolding 2(4,5) by linarith
  then show ?case using 2(1) by simp
qed simp

declare serverNameLoop.simps [simp del]

definition parseServerName :: "byte list \<Rightarrow> ('e, string) go" where
  "parseServerName data =
     (if len data < 2 then Inr []
      else gbind (slice data 0 2) (\<lambda>b.
           let listLen = int (unat (be16 b)) in
           gbind (slice data 2 (len data)) (\<lambda>rest.
           if len rest < listLen then Inr [] else serverNameLoop data listLen 2)))"

function alpnLoop :: "byte list \<Rightarrow> int \<Rightarrow> int \<Rightarrow> string list \<Rightarrow> ('e, string list) go" where
  "alpnLoop data listLen pos protocols =
     (if pos < 2 + listLen then
        gbind (idx data pos) (\<lambda>b.
        let nameLen = int (unat b); pos = pos + 1 in
        gbind (slice data pos (len data)) (\<lambda>rest.
        if nameLen = 0 \<or> len rest < nameLen then Inr protocols
        else gbind (slice data pos (pos + nameLen)) (\<lambda>s.
             alpnLoop data listLen (pos + nameLen) (protocols @ [go_string s]))))
      else Inr protocols)"
  by pat_completeness auto
termination alpnLoop
proof (relation "measure (\<lambda>(d, l, p, q). nat (2 + l - p))", goal_cases)
  case (2 data listLen pos protocols b n p)
  have "pos < p + n" unfolding 2(3,4) by linarith
  then show ?case using 2(1) by simp
qed simp

declare alpnLoop.simps [simp del]

definition parseALPN :: "byte list \<Rightarrow> ('e, string list) go" where
  "parseALPN data =
     (if len data < 2 then Inr []
      else gbind (slice data 0 2) (\<lambda>b.
           let listLen = int (unat (be16 b)) in
           gbind (slice data 2 (len data)) (\<lambda>rest.
           if len rest < listLen then Inr [] else alpnLoop data listLen 2 [])))"

function versionLoop :: "byte list \<Rightarrow> int \<Rightarrow> int \<Rightarrow> string list \<Rightarrow> ('e, string list) go" where
  "versionLoop data listLen pos versions =
     (if pos < 1 + listLen then
        gbind (idx data pos) (\<lambda>major.
        gbind (idx data (pos + 1)) (\<lambda>minor.
        versionLoop data listLen (pos + 2) (versions @ [tlsVersion major minor])))
      else Inr versions)"
  by pat_completeness auto
termination versionLoop
  by (relation "measure (\<lambda>(d, l, p, q). nat (1 + l - p))") auto

declare versionLoop.simps [simp del]

definition parseSupportedVersions :: "byte list \<Rightarrow> ('e, string list) go" where
  "parseSupportedVersions data =
     (if len data < 1 then Inr []
      else gbind (idx data 0) (\<lambda>b.
           let listLen = int (unat b) in
           gbind (slice data 1 (len data)) (\<lambda>rest.
           if listLen mod 2 \<noteq> 0 \<or> len rest < listLen then Inr [] else versionLoop data listLen 1 [])))"

definition applyExtension :: "u16 \<Rightarrow> byte list \<Rightarrow> TLSClientHello \<Rightarrow> ('e, TLSClientHello) go" where
  "applyExtension extType data hello =
     (if extType = tlsExtServerName then
        gbind (parseServerName data) (\<lambda>sni. Inr (if sni \<noteq> [] then hello \<lparr> SNI := sni \<rparr> else hello))
      else if extType = tlsExtALPN then gbind (parseALPN data) (\<lambda>a. Inr (hello \<lparr> ALPN := a \<rparr>))
      else if extType = tlsExtSupportedVers then
        gbind (parseSupportedVersions data) (\<lambda>v. Inr (hello \<lparr> SupportedVersions := v \<rparr>))
      else if extType = tlsExtEncryptedHello then Inr (hello \<lparr> ECHPresent := True \<rparr>)
      else Inr hello)"

function extensionLoop :: "byte list \<Rightarrow> int \<Rightarrow> TLSClientHello \<Rightarrow> ('e, TLSClientHello) go" where
  "extensionLoop exts pos hello =
     (if pos + 4 \<le> len exts then
        gbind (slice exts pos (pos + 2)) (\<lambda>t.
        gbind (slice exts (pos + 2) (pos + 4)) (\<lambda>l.
        let extLen = int (unat (be16 l)); pos = pos + 4 in
        gbind (slice exts pos (len exts)) (\<lambda>rest.
        if len rest < extLen then Inr hello
        else gbind (slice exts pos (pos + extLen)) (\<lambda>data.
             gbind (applyExtension (be16 t) data hello) (extensionLoop exts (pos + extLen))))))
      else Inr hello)"
  by pat_completeness auto
termination extensionLoop
proof (relation "measure (\<lambda>(e, p, h). nat (len e - p))", goal_cases)
  case (2 exts pos hello a b n p)
  have "pos < p + n" unfolding 2(4,5) by linarith
  then show ?case using 2(1) by simp
qed simp

declare extensionLoop.simps [simp del]

definition parseTLSExtensions :: "byte list \<Rightarrow> TLSClientHello \<Rightarrow> ('e, TLSClientHello) go" where
  "parseTLSExtensions exts hello = extensionLoop exts 0 hello"

definition parseClientHello :: "byte list \<Rightarrow> (tlserr, TLSClientHello) go" where
  "parseClientHello hello =
     (if len hello < 34 then Inl (Fault HelloTooShort)
      else gbind (idx hello 0) (\<lambda>major.
           gbind (idx hello 1) (\<lambda>minor.
           let out = \<lparr> SNI = [], ALPN = [], LegacyVersion = tlsVersion major minor, SupportedVersions = [], ECHPresent = False \<rparr> in
           gbind (readUint8 hello 34) (\<lambda>(sessionLen, ok, pos).
           if \<not> ok then Inl (Fault SessionExceeds) else
           gbind (skip_n hello pos (int (unat sessionLen))) (\<lambda>(ok, pos).
           if \<not> ok then Inl (Fault SessionExceeds) else
           gbind (readUint16 hello pos) (\<lambda>(cipherLen, ok, pos).
           if \<not> ok \<or> cipherLen mod 2 \<noteq> 0 then Inl (Fault CiphersExceed) else
           gbind (skip_n hello pos (int (unat cipherLen))) (\<lambda>(ok, pos).
           if \<not> ok then Inl (Fault CiphersExceed) else
           gbind (readUint8 hello pos) (\<lambda>(compressionLen, ok, pos).
           if \<not> ok then Inl (Fault CompressionExceeds) else
           gbind (skip_n hello pos (int (unat compressionLen))) (\<lambda>(ok, pos).
           if \<not> ok then Inl (Fault CompressionExceeds) else
           if pos = len hello then Inr out else
           gbind (readUint16 hello pos) (\<lambda>(extensionsLen, ok, pos).
           if \<not> ok then Inl (Fault ExtensionsExceed) else
           gbind (slice hello pos (len hello)) (\<lambda>rest.
           if len rest < int (unat extensionsLen) then Inl (Fault ExtensionsExceed) else
           gbind (slice hello pos (pos + int (unat extensionsLen))) (\<lambda>exts.
           parseTLSExtensions exts out))))))))))))"

definition ParseTLSClientHello :: "byte list \<Rightarrow> (tlserr, TLSClientHello) go" where
  "ParseTLSClientHello record =
     (if len record < 5 then Inl (Fault RecordTooShort)
      else gbind (idx record 0) (\<lambda>t.
           if t \<noteq> tlsRecordHandshake then Inl (Fault NotHandshake) else
           gbind (slice record 3 5) (\<lambda>l.
           let recordLen = int (unat (be16 l)) in
           gbind (slice record 5 (len record)) (\<lambda>rest.
           if recordLen \<le> 0 \<or> len rest < recordLen then Inl (Fault RecordLength) else
           gbind (slice record 5 (5 + recordLen)) (\<lambda>body.
           if len body < 4 then Inl (Fault NotClientHello) else
           gbind (idx body 0) (\<lambda>h.
           if h \<noteq> tlsHandshakeClient then Inl (Fault NotClientHello) else
           gbind (idx body 1) (\<lambda>b1.
           gbind (idx body 2) (\<lambda>b2.
           gbind (idx body 3) (\<lambda>b3.
           let helloLen = int (unat b1) * 65536 + int (unat b2) * 256 + int (unat b3) in
           gbind (slice body 4 (len body)) (\<lambda>r.
           if helloLen \<le> 0 \<or> len r < helloLen then Inl (Fault HelloLength) else
           gbind (slice body 4 (4 + helloLen)) parseClientHello))))))))))"

subsection \<open>No record makes the parser panic\<close>

text \<open>A reported string is cut from the input.\<close>

definition cut_from :: "byte list \<Rightarrow> string \<Rightarrow> bool" where
  "cut_from data s \<longleftrightarrow> (\<exists>b. sublist b data \<and> s = go_string b)"

lemma cut_from_Nil: "cut_from data []"
  by (auto simp: cut_from_def go_string_def)

lemma cut_fromI: "sublist b data \<Longrightarrow> cut_from data (go_string b)"
  by (auto simp: cut_from_def)

lemma cut_from_mono: "cut_from body s \<Longrightarrow> sublist body data \<Longrightarrow> cut_from data s"
  by (auto simp: cut_from_def intro: sublist_order.order.trans)

lemma yields_val: "R x \<Longrightarrow> yields (Inr x) R"
  by simp

lemmas yields_tls = yields_decode yields_val cut_from_Nil cut_fromI

lemma serverNameLoop_safe:
  "0 \<le> pos \<Longrightarrow> 2 + listLen \<le> len data \<Longrightarrow> yields (serverNameLoop data listLen pos :: ('e, string) go) (cut_from data)"
proof (induction "nat (2 + listLen - pos)" arbitrary: pos rule: less_induct)
  case less
  have step: "yields (serverNameLoop data listLen (pos + 3 + int n) :: ('e, string) go) (cut_from data)" if "pos + 3 \<le> 2 + listLen" for n
    using that less.prems by (intro less.hyps) auto
  show ?case
    using less.prems by (subst serverNameLoop.simps, unfold Let_def, intro yields_tls step) auto
qed

lemma parseServerName_safe: "yields (parseServerName data) (cut_from data)"
  unfolding parseServerName_def Let_def by (intro yields_tls serverNameLoop_safe) auto

definition protocols_from :: "byte list \<Rightarrow> string list \<Rightarrow> bool" where
  "protocols_from data ps \<longleftrightarrow> (\<forall>p\<in>set ps. cut_from data p \<and> p \<noteq> [] \<and> length p < 256)"

lemma protocols_from_snoc:
  assumes "protocols_from data ps" and "sublist b data" and "len b = int (unat (w :: byte))" and "len b \<noteq> 0"
  shows "protocols_from data (ps @ [go_string b])"
proof -
  have "int (unat w) < 256" using unsigned_less [of w] by simp
  then show ?thesis
    using assms by (auto simp: protocols_from_def intro!: cut_fromI) (auto simp: go_string_def)
qed

lemma alpnLoop_safe:
  "0 \<le> pos \<Longrightarrow> 2 + listLen \<le> len data \<Longrightarrow> protocols_from data ps \<Longrightarrow>
     yields (alpnLoop data listLen pos ps :: ('e, string list) go) (protocols_from data)"
proof (induction "nat (2 + listLen - pos)" arbitrary: pos ps rule: less_induct)
  case less
  have step: "yields (alpnLoop data listLen (pos + 1 + int (unat w)) (ps @ [go_string b]) :: ('e, string list) go) (protocols_from data)"
    if "pos < 2 + listLen" "int (unat w) \<noteq> 0" "sublist b data"
      "len b = pos + 1 + int (unat w) - (pos + 1)" for b :: "byte list" and w :: byte
    using that less.prems by (intro less.hyps protocols_from_snoc [where w = w]) auto
  show ?case
    using less.prems by (subst alpnLoop.simps, unfold Let_def, intro yields_tls step) auto
qed

lemma parseALPN_safe: "yields (parseALPN data) (protocols_from data)"
  unfolding parseALPN_def Let_def by (intro yields_tls alpnLoop_safe) (auto simp: protocols_from_def)

lemma versionLoop_safe:
  "0 \<le> pos \<Longrightarrow> 1 + listLen \<le> len data \<Longrightarrow> (1 + listLen - pos) mod 2 = 0 \<Longrightarrow>
     yields (versionLoop data listLen pos vs :: ('e, string list) go) (\<lambda>_. True)"
proof (induction "nat (1 + listLen - pos)" arbitrary: pos vs rule: less_induct)
  case less
  have step: "yields (versionLoop data listLen (pos + 2) ws :: ('e, string list) go) (\<lambda>_. True)" if "pos < 1 + listLen" for ws
    using that less.prems by (intro less.hyps) (simp, simp, simp, presburger)
  have "pos + 1 < len data" if "pos < 1 + listLen" using that less.prems by presburger
  then show ?case
    using less.prems by (subst versionLoop.simps, intro yields_tls step) auto
qed

lemma parseSupportedVersions_safe: "yields (parseSupportedVersions data) (\<lambda>_. True)"
  unfolding parseSupportedVersions_def Let_def by (intro yields_tls versionLoop_safe) (auto simp: Suc_le_eq)

definition hello_from :: "byte list \<Rightarrow> TLSClientHello \<Rightarrow> bool" where
  "hello_from data h \<longleftrightarrow> cut_from data (SNI h) \<and> protocols_from data (ALPN h)"

lemma protocols_from_mono: "protocols_from body ps \<Longrightarrow> sublist body data \<Longrightarrow> protocols_from data ps"
  by (auto simp: protocols_from_def intro: cut_from_mono)

lemma applyExtension_safe:
  assumes "sublist data record" and "hello_from record h"
  shows "yields (applyExtension t data h) (hello_from record)"
  unfolding applyExtension_def
  using assms
  by (intro yields_if yields_gbind [OF parseServerName_safe] yields_gbind [OF parseALPN_safe]
      yields_gbind [OF parseSupportedVersions_safe])
    (auto simp: hello_from_def intro: cut_from_mono protocols_from_mono)

lemma extensionLoop_safe:
  "sublist exts record \<Longrightarrow> 0 \<le> pos \<Longrightarrow> hello_from record h \<Longrightarrow> yields (extensionLoop exts pos h :: ('e, TLSClientHello) go) (hello_from record)"
proof (induction "nat (len exts - pos)" arbitrary: pos h rule: less_induct)
  case less
  have step: "yields (gbind (applyExtension t data h) (extensionLoop exts (pos + 4 + int n)) :: ('e, TLSClientHello) go) (hello_from record)"
    if "pos + 4 \<le> len exts" "sublist data exts" for t data n
  proof (rule yields_gbind)
    show "yields (applyExtension t data h :: ('e, TLSClientHello) go) (hello_from record)"
      using that(2) less.prems by (intro applyExtension_safe) (auto intro: sublist_order.order.trans)
    show "yields (extensionLoop exts (pos + 4 + int n) x :: ('e, TLSClientHello) go) (hello_from record)" if "hello_from record x" for x
      using that \<open>pos + 4 \<le> len exts\<close> less.prems by (intro less.hyps) auto
  qed
  show ?case
    using less.prems by (subst extensionLoop.simps, unfold Let_def, intro yields_tls step) auto
qed

text \<open>The cursor operations stay inside the buffer, so no later slice expression can panic.\<close>

lemma readUint8_safe: "0 \<le> pos \<Longrightarrow> pos \<le> len data \<Longrightarrow>
    yields (readUint8 data pos) (\<lambda>(v, ok, p). pos \<le> p \<and> p \<le> len data)"
  by (auto simp: readUint8_def)

lemma readUint16_safe: "0 \<le> pos \<Longrightarrow> pos \<le> len data \<Longrightarrow>
    yields (readUint16 data pos) (\<lambda>(v, ok, p). pos \<le> p \<and> p \<le> len data)"
  unfolding readUint16_def by (intro yields_decode) auto

lemma skip_n_safe: "0 \<le> pos \<Longrightarrow> pos \<le> len data \<Longrightarrow>
    yields (skip_n data pos n) (\<lambda>(ok, p). pos \<le> p \<and> p \<le> len data)"
  unfolding skip_n_def by (intro yields_decode) auto

lemma yields_gbind3:
  "yields m (\<lambda>(v, ok, p). Q p) \<Longrightarrow> (\<And>v ok p. Q p \<Longrightarrow> yields (f v ok p) R) \<Longrightarrow> yields (gbind m (\<lambda>(v, ok, p). f v ok p)) R"
  by (erule yields_gbind) auto

lemma yields_gbind2:
  "yields m (\<lambda>(ok, p). Q p) \<Longrightarrow> (\<And>ok p. Q p \<Longrightarrow> yields (f ok p) R) \<Longrightarrow> yields (gbind m (\<lambda>(ok, p). f ok p)) R"
  by (erule yields_gbind) auto

lemmas cursor_safe = yields_gbind3 [OF readUint8_safe] yields_gbind3 [OF readUint16_safe] yields_gbind2 [OF skip_n_safe]

lemma parseClientHello_safe:
  assumes "sublist hello record"
  shows "yields (parseClientHello hello) (hello_from record)"
proof -
  have base: "hello_from record \<lparr> SNI = [], ALPN = [], LegacyVersion = v, SupportedVersions = [], ECHPresent = False \<rparr>" for v
    by (simp add: hello_from_def protocols_from_def cut_from_Nil)
  show ?thesis
    unfolding parseClientHello_def Let_def parseTLSExtensions_def
    by (intro yields_decode yields_val cursor_safe extensionLoop_safe base)
      (auto intro: sublist_order.order.trans [OF _ assms])
qed

theorem ParseTLSClientHello_safe: "yields (ParseTLSClientHello data) (hello_from data)"
  unfolding ParseTLSClientHello_def Let_def
  by (intro yields_decode parseClientHello_safe) (auto intro: sublist_order.order.trans)

subsection \<open>An encoded hello is read back\<close>

definition enc_extension :: "u16 \<times> byte list \<Rightarrow> byte list" where
  "enc_extension e = put16 (fst e) @ put16 (of_nat (length (snd e))) @ snd e"

lemma extensionLoop_encoded:
  assumes "\<forall>e\<in>set es. length (snd e) < 65536"
  shows "(extensionLoop (pre @ concat (map enc_extension es)) (len pre) h :: ('e, TLSClientHello) go) =
    gfold (\<lambda>(t, d). applyExtension t d) es h"
  using assms
proof (induction es arbitrary: pre h)
  case Nil
  show ?case by (subst extensionLoop.simps) simp
next
  case (Cons e es)
  obtain t d where e: "e = (t, d)" by (cases e)
  let ?l = "put16 (of_nat (length d))" and ?rest = "concat (map enc_extension es)"
  let ?p = "pre @ put16 t @ ?l @ d @ ?rest"
  have p: "pre @ concat (map enc_extension (e # es)) = ?p" by (simp add: e enc_extension_def)
  have u: "unat (of_nat (length d) :: u16) = length d" using Cons.prems by (intro unat_of_nat_16) (simp add: e)
  have s: "slice ?p (len pre) (len pre + 2) = Inr (put16 t)" "slice ?p (len pre + 2) (len pre + 4) = Inr ?l"
    "slice ?p (len pre + 4) (len ?p) = Inr (d @ ?rest)" "slice ?p (len pre + 4) (len pre + 4 + len d) = Inr d"
    by (simp_all add: slice_def nat_add_distrib)
  have tail: "(extensionLoop ?p (len pre + 4 + len d) h' :: ('e, TLSClientHello) go) = gfold (\<lambda>(t, d). applyExtension t d) es h'" for h'
    using Cons.IH [of "pre @ put16 t @ ?l @ d"] Cons.prems by (simp add: ac_simps)
  have "(extensionLoop ?p (len pre) h :: ('e, TLSClientHello) go) = gbind (applyExtension t d h) (extensionLoop ?p (len pre + 4 + len d))"
  proof -
    have "len pre + 4 \<le> len ?p" by simp
    then show ?thesis
      by (simp only: extensionLoop.simps [of ?p "len pre"] if_True s gbind.simps be16_put16 u Let_def) simp
  qed
  also have "\<dots> = gfold (\<lambda>(t, d). applyExtension t d) (e # es) h"
    by (simp add: e tail cong: gbind_cong)
  finally show ?case unfolding p .
qed

definition enc_server_name :: "byte list \<Rightarrow> byte list" where
  "enc_server_name name = put16 (of_nat (length name + 3)) @ 0 # put16 (of_nat (length name)) @ name"

lemma put16_two: "\<exists>a b. put16 w = [a, b]"
  by (simp add: put16_def numeral_2_eq_2)

lemma parseServerName_encoded:
  assumes "length name < 65533"
  shows "parseServerName (enc_server_name name) = Inr (go_string name)"
proof -
  define m n where "m = (of_nat (length name + 3) :: u16)" and "n = (of_nat (length name) :: u16)"
  have u: "int (unat n) = len name" "int (unat m) = len name + 3"
    using assms unat_of_nat_16 [of "length name"] unat_of_nat_16 [of "length name + 3"]
    by (simp_all add: m_def n_def)
  obtain m1 m2 n1 n2 where p: "put16 m = [m1, m2]" "put16 n = [n1, n2]"
    using put16_two by blast
  have b: "be16 [m1, m2] = m" "be16 [n1, n2] = n"
    unfolding p [symmetric] by (rule be16_put16)+
  let ?d = "m1 # m2 # 0 # n1 # n2 # name"
  have d: "enc_server_name name = ?d" unfolding enc_server_name_def m_def [symmetric] n_def [symmetric] p by simp
  have loop: "serverNameLoop ?d (len name + 3) 2 = Inr (go_string name)"
    by (subst serverNameLoop.simps) (simp add: b u [simplified] idx_def slice_def nat_add_distrib Let_def)
  show ?thesis
    unfolding parseServerName_def d
    using loop by (simp add: b u [simplified] slice_def Let_def)
qed

definition enc_client_hello ::
    "byte \<times> byte \<Rightarrow> byte list \<Rightarrow> byte list \<Rightarrow> byte list \<Rightarrow> byte list \<Rightarrow> (u16 \<times> byte list) list \<Rightarrow> byte list" where
  "enc_client_hello ver random sess ciphers cms es =
     fst ver # snd ver # random @ of_nat (length sess) # sess @ put16 (of_nat (length ciphers)) @ ciphers
       @ of_nat (length cms) # cms
       @ put16 (of_nat (length (concat (map enc_extension es)))) @ concat (map enc_extension es)"

definition enc_record :: "byte \<times> byte \<Rightarrow> byte list \<Rightarrow> byte list" where
  "enc_record ver hello =
     tlsRecordHandshake # fst ver # snd ver # put16 (of_nat (length hello + 4))
       @ tlsHandshakeClient # be_put 3 (length hello) @ hello"

lemma readUint8_at: "readUint8 (pre @ b # post) (len pre) = Inr (b, True, len pre + 1)"
  by (simp add: readUint8_def idx_def nth_append)

lemma readUint16_at: "readUint16 (pre @ put16 w @ post) (len pre) = Inr (w, True, len pre + 2)"
  by (simp add: readUint16_def slice_def nat_add_distrib)

lemma skip_n_at: "n = len body \<Longrightarrow> skip_n (pre @ body @ post) (len pre) n = Inr (True, len pre + len body)"
  by (simp add: skip_n_def slice_def)

lemma ParseTLSClientHello_record:
  assumes "0 < length hello" and "length hello + 4 < 65536"
  shows "ParseTLSClientHello (enc_record ver hello @ rest) = parseClientHello hello"
proof -
  define w where "w = (of_nat (length hello + 4) :: u16)"
  have u: "int (unat w) = len hello + 4"
    using assms(2) unat_of_nat_16 [of "length hello + 4"] by (simp add: w_def)
  obtain l1 l2 where l: "put16 w = [l1, l2]" using put16_two by blast
  have b: "be16 [l1, l2] = w" unfolding l [symmetric] by (rule be16_put16)
  have "length (be_put 3 (length hello)) = 3" by simp
  then obtain h1 h2 h3 where h: "be_put 3 (length hello) = [h1, h2, h3]"
    by (auto simp: length_Suc_conv numeral_3_eq_3)
  have "be_nat (be_put 3 (length hello)) = length hello"
    using assms(2) by (intro be_nat_be_put_id) simp
  then have hl: "unat h1 * 65536 + unat h2 * 256 + unat h3 = length hello" by (simp add: h)
  then have hl': "int (unat h1) * 65536 + int (unat h2) * 256 + int (unat h3) = len hello" by linarith
  have r: "enc_record ver hello @ rest = 22 # fst ver # snd ver # l1 # l2 # 1 # h1 # h2 # h3 # hello @ rest"
    unfolding enc_record_def w_def [symmetric] l h by (simp add: tlsRecordHandshake_def tlsHandshakeClient_def)
  show ?thesis
    using assms(1) unfolding ParseTLSClientHello_def r
    by (simp add: b u [simplified] hl' [simplified] idx_def slice_def Let_def nat_add_distrib
        tlsRecordHandshake_def tlsHandshakeClient_def drop_take)
qed

definition blank_hello :: "byte \<times> byte \<Rightarrow> TLSClientHello" where
  "blank_hello ver = \<lparr> SNI = [], ALPN = [], LegacyVersion = tlsVersion (fst ver) (snd ver), SupportedVersions = [],
     ECHPresent = False \<rparr>"

lemma even_u16: "n < 65536 \<Longrightarrow> even n \<Longrightarrow> (of_nat n :: u16) mod 2 = 0"
  by (simp add: word_arith_nat_mod unat_of_nat_16)

lemma extension_length: "e \<in> set es \<Longrightarrow> length (snd e) \<le> length (concat (map enc_extension es))"
  by (induction es) (auto simp: enc_extension_def)

lemma parseClientHello_encoded:
  assumes random: "length random = 32" and sess: "length sess < 256" and ciphers: "length ciphers < 65536" "even (length ciphers)"
    and cms: "length cms < 256" and small: "length (concat (map enc_extension es)) < 65536"
  shows "parseClientHello (enc_client_hello ver random sess ciphers cms es) =
    gfold (\<lambda>(t, d). applyExtension t d) es (blank_hello ver)"
proof -
  let ?x = "concat (map enc_extension es)"
  let ?h = "enc_client_hello ver random sess ciphers cms es"
  define s c m x where "s = (of_nat (length sess) :: byte)" and "c = (of_nat (length ciphers) :: u16)"
    and "m = (of_nat (length cms) :: byte)" and "x = (of_nat (length ?x) :: u16)"
  have u: "int (unat s) = len sess" "int (unat c) = len ciphers" "int (unat m) = len cms" "int (unat x) = len ?x"
    using unat_of_nat_8 [OF sess] unat_of_nat_16 [OF ciphers(1)] unat_of_nat_8 [OF cms] unat_of_nat_16 [OF small]
    by (simp_all add: s_def c_def m_def x_def)
  have c2: "c mod 2 = 0" unfolding c_def using ciphers by (rule even_u16)
  define p1 p2 p3 p4 p5 p6 p7 where "p1 = fst ver # snd ver # random" and "p2 = p1 @ [s]" and "p3 = p2 @ sess"
    and "p4 = p3 @ put16 c" and "p5 = p4 @ ciphers" and "p6 = p5 @ [m]" and "p7 = p6 @ cms"
  note ps = p1_def p2_def p3_def p4_def p5_def p6_def p7_def
  have h: "?h = p1 @ s # sess @ put16 c @ ciphers @ m # cms @ put16 x @ ?x"
    "?h = p2 @ sess @ put16 c @ ciphers @ m # cms @ put16 x @ ?x"
    "?h = p3 @ put16 c @ ciphers @ m # cms @ put16 x @ ?x"
    "?h = p4 @ ciphers @ m # cms @ put16 x @ ?x"
    "?h = p5 @ m # cms @ put16 x @ ?x" "?h = p6 @ cms @ put16 x @ ?x" "?h = p7 @ put16 x @ ?x" "?h = (p7 @ put16 x) @ ?x"
    by (simp_all add: enc_client_hello_def ps flip: s_def c_def m_def x_def)
  have l: "len p1 = 34" "len p1 + 1 = len p2" "len p2 + len sess = len p3" "len p3 + 2 = len p4"
    "len p4 + len ciphers = len p5" "len p5 + 1 = len p6" "len p6 + len cms = len p7"
    using random by (simp_all add: ps)
  note steps =
    readUint8_at [of p1 s "sess @ put16 c @ ciphers @ m # cms @ put16 x @ ?x", folded h(1), unfolded l(2-), unfolded l(1)]
      skip_n_at [OF refl, of p2 sess "put16 c @ ciphers @ m # cms @ put16 x @ ?x", folded h(2), unfolded l]
      readUint16_at [of p3 c "ciphers @ m # cms @ put16 x @ ?x", folded h(3), unfolded l]
      skip_n_at [OF refl, of p4 ciphers "m # cms @ put16 x @ ?x", folded h(4), unfolded l]
      readUint8_at [of p5 m "cms @ put16 x @ ?x", folded h(5), unfolded l]
      skip_n_at [OF refl, of p6 cms "put16 x @ ?x", folded h(6), unfolded l]
      readUint16_at [of p7 x ?x, folded h(7)]
  have sl: "slice ?h (len p7 + 2) (len ?h) = Inr ?x" "slice ?h (len p7 + 2) (len p7 + 2 + len ?x) = Inr ?x"
    unfolding h(8) by (simp_all add: slice_def nat_add_distrib)
  have i: "idx ?h 0 = Inr (fst ver)" "idx ?h 1 = Inr (snd ver)" "\<not> len ?h < 34" "len p7 \<noteq> len ?h"
    unfolding h(7) by (simp_all add: ps random idx_def)
  have "parseClientHello ?h = parseTLSExtensions ?x (blank_hello ver)"
    by (simp only: parseClientHello_def Let_def if_False if_True gbind.simps prod.case i steps u c2 sl simp_thms blank_hello_def less_irrefl)
  then show ?thesis
    using extensionLoop_encoded [of es "[]" "blank_hello ver"] small extension_length [of _ es]
    by (force simp: parseTLSExtensions_def)
qed

text \<open>
  Reading a record built from a version, a random, and any session identifier, cipher list, compression
  list and extensions is the same as applying the extensions in order.
\<close>

theorem client_hello_round_trip:
  assumes "length random = 32" "length sess < 256" "length ciphers < 65536" "even (length ciphers)" "length cms < 256"
    and "length (enc_client_hello ver random sess ciphers cms es) + 4 < 65536"
  shows "ParseTLSClientHello (enc_record rv (enc_client_hello ver random sess ciphers cms es) @ rest) =
    gfold (\<lambda>(t, d). applyExtension t d) es (blank_hello ver)"
proof -
  have "0 < length (enc_client_hello ver random sess ciphers cms es)"
    "length (concat (map enc_extension es)) < 65536"
    using assms(6) by (simp_all add: enc_client_hello_def)
  then show ?thesis
    using assms by (simp add: ParseTLSClientHello_record parseClientHello_encoded)
qed

corollary server_name_round_trip:
  assumes "length random = 32" "length sess < 256" "length ciphers < 65536" "even (length ciphers)" "length cms < 256"
    and "name \<noteq> []"
    and "length (enc_client_hello ver random sess ciphers cms [(tlsExtServerName, enc_server_name name)]) + 4 < 65536"
  shows "ParseTLSClientHello
      (enc_record rv (enc_client_hello ver random sess ciphers cms [(tlsExtServerName, enc_server_name name)]) @ rest) =
    Inr (blank_hello ver \<lparr> SNI := go_string name \<rparr>)"
proof -
  have "length name < 65533"
    using assms(7) by (simp add: enc_client_hello_def enc_extension_def enc_server_name_def)
  then have "applyExtension tlsExtServerName (enc_server_name name) h = Inr (h \<lparr> SNI := go_string name \<rparr>)" for h
    using assms(6) by (simp add: applyExtension_def parseServerName_encoded go_string_def)
  then show ?thesis using client_hello_round_trip [OF assms(1-5,7)] by simp
qed

end
