(* ===== verification/Go_Text.thy ===== *)
theory Go_Text
  imports Go_Strings Go_Fmt
begin

text \<open>
  What the text parsers share: splitting undoes joining, the words of a line survive a change of white
  space, and a decimal number is read back as it was printed.
\<close>

subsection \<open>Joining and splitting\<close>

lemma split_on_no_sep: "sep \<notin> set s \<Longrightarrow> split_on sep s = [s]"
  by (induction s) auto

lemma split_on_append:
  "sep \<notin> set s \<Longrightarrow> split_on sep (s @ sep # t) = s # split_on sep t"
  by (induction s) auto

lemma split_on_join:
  "ws \<noteq> [] \<Longrightarrow> \<forall>w\<in>set ws. sep \<notin> set w \<Longrightarrow> split_on sep (join [sep] ws) = ws"
  by (induction "[sep]" ws rule: join.induct) (auto simp: split_on_no_sep split_on_append)

subsection \<open>White space\<close>

text \<open>An encoding of a white space character has its length from its first byte; the others continue it.\<close>

definition continues :: "char \<Rightarrow> bool" where
  "continues c \<longleftrightarrow> 128 \<le> (of_char c :: nat) \<and> (of_char c :: nat) < 192"

lemma white_shape:
  assumes "w \<in> set white"
  shows "\<not> continues (hd w)" and "\<forall>c\<in>set (tl w). continues c"
    and "length w = (if (of_char (hd w) :: nat) < 128 then 1 else if (of_char (hd w) :: nat) = 194 then 2 else 3)"
  using assms by (auto simp: white_def continues_def)

lemma white_prefix_free:
  assumes "v \<in> set white" and "w \<in> set white" and "prefix v s" and "prefix w s"
  shows "v = w"
proof -
  have "hd u = hd s" if "u \<in> set white" "prefix u s" for u
    using that white_nonempty [OF that(1)] by (auto simp: prefix_def)
  then have "hd v = hd s" "hd w = hd s" using assms by blast+
  then have "length v = length w" using white_shape(3) assms(1,2) by metis
  then show ?thesis using assms(3,4) by (auto simp: prefix_def)
qed

lemma space_at_white: "w \<in> set white \<Longrightarrow> prefix w s \<Longrightarrow> space_at s = length w"
proof -
  assume w: "w \<in> set white" "prefix w s"
  have "find (\<lambda>w. prefix w s) white \<noteq> None" using w by (auto simp: find_None_iff)
  then obtain v where "find (\<lambda>w. prefix w s) white = Some v" by blast
  moreover have "v \<in> set white" using calculation by (auto simp: find_Some_iff)
  ultimately have "space_at s \<noteq> 0" using white_nonempty by (simp add: space_at_def)
  then obtain v where "v \<in> set white" "prefix v s" "space_at s = length v" by (rule space_at_Some)
  then show ?thesis using white_prefix_free w by metis
qed

lemma space_at_zero: "space_at s = 0 \<longleftrightarrow> (\<forall>w\<in>set white. \<not> prefix w s)"
  using space_at_white white_nonempty by (metis length_0_conv space_at_Some)

lemma space_end_zero: "space_end s = 0 \<longleftrightarrow> (\<forall>w\<in>set white. \<not> suffix w s)"
proof
  show "\<forall>w\<in>set white. \<not> suffix w s" if z: "space_end s = 0"
  proof (cases "find (\<lambda>w. suffix w s) white")
    case None
    then show ?thesis by (auto simp: find_None_iff)
  next
    case (Some v)
    then have "v \<in> set white" by (auto simp: find_Some_iff)
    then show ?thesis using Some z white_nonempty by (auto simp: space_end_def)
  qed
  show "space_end s = 0" if "\<forall>w\<in>set white. \<not> suffix w s"
    using that by (metis space_end_Some)
qed

lemma space_at_Nil [simp]: "space_at [] = 0"
  using white_nonempty by (auto simp: space_at_zero)

lemma space_at_blank [simp]: "space_at (CHR '' '' # s) = 1"
  using space_at_white [of "'' ''"] by (simp add: white_def)

text \<open>What follows white space, or nothing, cannot complete a character.\<close>

definition starts_blank :: "string \<Rightarrow> bool" where
  "starts_blank t \<longleftrightarrow> t = [] \<or> space_at t \<noteq> 0"

lemma starts_blank_hd: "starts_blank t \<Longrightarrow> t \<noteq> [] \<Longrightarrow> \<not> continues (hd t)"
proof -
  assume "starts_blank t" "t \<noteq> []"
  then have "space_at t \<noteq> 0" by (simp add: starts_blank_def)
  then obtain w where "w \<in> set white" "prefix w t" by (rule space_at_Some)
  then show ?thesis using white_shape(1) white_nonempty by (auto simp: prefix_def)
qed

lemma space_at_append_fresh:
  assumes "s \<noteq> []" and "t \<noteq> [] \<Longrightarrow> \<not> continues (hd t)"
  shows "space_at (s @ t) = space_at s"
proof (cases "space_at (s @ t) = 0")
  case True
  then have "space_at s = 0" by (simp add: space_at_zero) (meson prefix_prefix)
  with True show ?thesis by simp
next
  case False
  then obtain w where w: "w \<in> set white" "prefix w (s @ t)" "space_at (s @ t) = length w" by (rule space_at_Some)
  have "prefix w s"
  proof (rule ccontr)
    assume "\<not> prefix w s"
    with w(2) obtain u where u: "w = s @ u" "prefix u t" by (auto simp: prefix_append)
    with \<open>\<not> prefix w s\<close> have "u \<noteq> []" by auto
    then have "hd u \<in> set (tl w)" using u(1) assms(1) by (cases s) auto
    then have "continues (hd t)" using white_shape(2) [OF w(1)] u(2) \<open>u \<noteq> []\<close> by (auto simp: prefix_def)
    then show False using assms(2) u(2) \<open>u \<noteq> []\<close> by (auto simp: prefix_def)
  qed
  then show ?thesis using space_at_white w by simp
qed

lemma space_at_append: "s \<noteq> [] \<Longrightarrow> starts_blank t \<Longrightarrow> space_at (s @ t) = space_at s"
  by (rule space_at_append_fresh) (auto dest: starts_blank_hd)

definition blank :: "string \<Rightarrow> bool" where
  "blank s \<longleftrightarrow> trim_left s = []"

lemma blank_starts: "blank s \<Longrightarrow> starts_blank s"
  by (auto simp: blank_def starts_blank_def trim_left.simps [of s] split: if_splits)

lemma trim_left_idem [simp]: "trim_left (trim_left s) = trim_left s"
  using trim_left_fixed by (subst trim_left.simps) simp

lemma trim_left_append:
  assumes "starts_blank t"
  shows "trim_left (s @ t) = (if blank s then trim_left t else trim_left s @ t)"
proof (induction s rule: trim_left.induct)
  case (1 s)
  show ?case
  proof (cases "s = []")
    case True
    then show ?thesis by (simp add: blank_def trim_left.simps [of "[]"])
  next
    case ne: False
    note app = space_at_append [OF ne assms]
    show ?thesis
    proof (cases "space_at s = 0")
      case True
      then have "trim_left s = s" "trim_left (s @ t) = s @ t" by (simp_all add: trim_left.simps app)
      then show ?thesis using ne by (simp add: blank_def)
    next
      case False
      have "trim_left (s @ t) = trim_left (drop (space_at s) s @ t)"
        using False space_at_le [of s] by (subst trim_left.simps) (simp add: app)
      moreover have "trim_left s = trim_left (drop (space_at s) s)" using False by (subst trim_left.simps) simp
      ultimately show ?thesis using 1 [OF False] by (simp add: blank_def)
    qed
  qed
qed

lemma blank_append: "blank s \<Longrightarrow> blank t \<Longrightarrow> blank (s @ t)"
  using trim_left_append [OF blank_starts] by (simp add: blank_def)

lemma blank_white: "w \<in> set white \<Longrightarrow> blank w"
  using space_at_white [of w w] white_nonempty [of w]
  by (simp add: blank_def trim_left.simps [of w] trim_left.simps [of "[]"])

lemma trim_right_split: "\<exists>b. s = trim_right s @ b \<and> blank b"
proof (induction s rule: trim_right.induct)
  case (1 s)
  show ?case
  proof (cases "space_end s = 0")
    case True
    then show ?thesis by (simp add: trim_right.simps blank_def trim_left.simps [of "[]"])
  next
    case False
    then obtain w where w: "w \<in> set white" "suffix w s" "space_end s = length w" by (rule space_end_Some)
    let ?r = "take (length s - space_end s) s"
    have s: "s = ?r @ w" using w(2,3) by (auto simp: suffix_def)
    obtain b where b: "?r = trim_right ?r @ b" "blank b" using 1 [OF False] by blast
    have "trim_right s = trim_right ?r" using False by (subst trim_right.simps) simp
    then have "s = trim_right s @ (b @ w)" using s b(1) by (metis append.assoc)
    then show ?thesis using blank_append [OF b(2) blank_white [OF w(1)]] by blast
  qed
qed

lemma trim_right_id: "space_end s = 0 \<Longrightarrow> trim_right s = s"
  by (subst trim_right.simps) simp

lemma trim_left_id: "space_at s = 0 \<Longrightarrow> trim_left s = s"
  by (subst trim_left.simps) simp

lemma trim_space_id: "space_at s = 0 \<Longrightarrow> space_end s = 0 \<Longrightarrow> trim_space s = s"
  by (simp add: trim_space_def trim_left_id trim_right_id)

lemma trim_space_start: "space_at (trim_space s) = 0"
proof -
  have "prefix (trim_space s) (trim_left s)" unfolding trim_space_def using trim_right_split by (metis prefixI)
  then show ?thesis using trim_left_fixed [of s] prefix_order.trans by (auto simp: space_at_zero)
qed

lemma trim_space_blank: "blank s \<Longrightarrow> trim_space s = []"
proof -
  assume "blank s"
  then have "trim_space s = trim_right []" by (simp add: trim_space_def blank_def)
  then show ?thesis using white_nonempty by (simp add: trim_right_id space_end_zero)
qed

subsection \<open>Words\<close>

definition word :: "string \<Rightarrow> bool" where
  "word w \<longleftrightarrow> w \<noteq> [] \<and> (\<forall>v\<in>set white. \<not> sublist v w)"

lemma word_ends: "word w \<Longrightarrow> space_at w = 0" "word w \<Longrightarrow> space_end w = 0"
  by (auto simp: word_def space_at_zero space_end_zero)

lemma word_no_blank: "word w \<Longrightarrow> CHR '' '' \<notin> set w" "word w \<Longrightarrow> CHR 0x0A \<notin> set w"
proof -
  have "sublist [x] w" if "x \<in> set w" for x using that by (metis append_Cons append_Nil in_set_conv_decomp sublist_appendI)
  moreover have "'' '' \<in> set white" "[CHR 0x0A] \<in> set white" by (simp_all add: white_def)
  ultimately show "word w \<Longrightarrow> CHR '' '' \<notin> set w" "word w \<Longrightarrow> CHR 0x0A \<notin> set w" by (auto simp: word_def)
qed

lemma word_suffix: "word (u @ v) \<Longrightarrow> v \<noteq> [] \<Longrightarrow> word v"
  unfolding word_def by (meson sublist_append_leftI sublist_order.order.trans)

text \<open>A string of bytes that no white space character contains is a word.\<close>

definition plain :: "char \<Rightarrow> bool" where
  "plain c \<longleftrightarrow> (\<forall>w\<in>set white. c \<notin> set w)"

lemma plain_iff: "plain c \<longleftrightarrow> c \<notin> set (concat white)"
  by (auto simp: plain_def)

lemma word_plain: "s \<noteq> [] \<Longrightarrow> \<forall>c\<in>set s. plain c \<Longrightarrow> word s"
proof -
  assume s: "s \<noteq> []" "\<forall>c\<in>set s. plain c"
  have "\<not> sublist v s" if v: "v \<in> set white" for v
  proof
    assume "sublist v s"
    then have "hd v \<in> set s" using set_mono_sublist hd_in_set [OF white_nonempty [OF v]] by blast
    then show False using s(2) v hd_in_set [OF white_nonempty [OF v]] by (auto simp: plain_def)
  qed
  then show ?thesis using s(1) by (simp add: word_def)
qed

lemma space_end_plain: "plain c \<Longrightarrow> space_end (s @ [c]) = 0"
proof -
  assume c: "plain c"
  have "\<not> suffix w (s @ [c])" if w: "w \<in> set white" for w
  proof
    assume "suffix w (s @ [c])"
    then have "c \<in> set w" using white_nonempty [OF w] by (cases w rule: rev_cases) auto
    then show False using c w by (auto simp: plain_def)
  qed
  then show ?thesis by (simp add: space_end_zero)
qed

lemma trim_space_word: "word w \<Longrightarrow> trim_space w = w"
  by (simp add: trim_space_id word_ends)

lemma span_word_app: "starts_blank t \<Longrightarrow> span_word (s @ t) = (case span_word s of (w, r) \<Rightarrow> (w, r @ t))"
proof (induction s)
  case Nil
  then show ?case by (cases t) (auto simp: starts_blank_def)
next
  case (Cons c s)
  then show ?case using space_at_append [of "c # s" t] by (auto split: prod.splits)
qed

lemma span_word_word: "word w \<Longrightarrow> span_word w = (w, [])"
proof (induction w)
  case (Cons c w)
  then show ?case using word_ends(1) [OF Cons.prems] word_suffix [of "[c]" w] by (cases "w = []") auto
qed (simp add: word_def)

lemma fields_blank: "blank s \<Longrightarrow> fields s = []"
  by (subst fields.simps) (simp add: blank_def)

lemma fields_trim_left: "fields (trim_left s) = fields s"
  by (subst (1 2) fields.simps) simp

lemma fields_word:
  assumes "word w" and "starts_blank t"
  shows "fields (w @ t) = w # fields t"
proof -
  have ne: "w \<noteq> []" using assms(1) by (simp add: word_def)
  have "space_at (w @ t) = 0" using space_at_append [OF ne assms(2)] word_ends(1) [OF assms(1)] by simp
  then have "trim_left (w @ t) = w @ t" by (rule trim_left_id)
  then show ?thesis
    using ne by (subst fields.simps) (simp add: span_word_app [OF assms(2)] span_word_word [OF assms(1)])
qed

lemma fields_append_blank: "blank b \<Longrightarrow> fields (s @ b) = fields s"
proof (induction s rule: fields.induct)
  case (1 s)
  note st = blank_starts [OF 1(2)]
  show ?case
  proof (cases "blank s")
    case True
    then show ?thesis using blank_append [OF True 1(2)] by (simp add: fields_blank)
  next
    case False
    then have ne: "trim_left s \<noteq> []" by (simp add: blank_def)
    have t: "trim_left (s @ b) = trim_left s @ b" using trim_left_append [OF st] False by simp
    obtain w r where p: "span_word (trim_left s) = (w, r)" by fastforce
    have "fields (s @ b) = w # fields (r @ b)"
      using ne by (subst fields.simps) (simp add: t span_word_app [OF st] p)
    moreover have "fields s = w # fields r" using ne by (subst fields.simps) (simp add: p)
    ultimately show ?thesis using 1(1) [OF refl ne p [symmetric] 1(2)] by simp
  qed
qed

lemma fields_trim: "fields (trim_space s) = fields s"
proof -
  obtain b where "trim_left s = trim_space s @ b" "blank b"
    using trim_right_split unfolding trim_space_def by metis
  then show ?thesis using fields_append_blank fields_trim_left by metis
qed

lemma fields_first:
  assumes "fields s = w # ws"
  shows "w \<noteq> [] \<and> (\<exists>t. trim_space s = w @ t)"
proof -
  let ?t = "trim_space s"
  have f: "fields ?t = w # ws" using assms by (simp add: fields_trim)
  have l: "trim_left ?t = ?t" by (rule trim_left_id [OF trim_space_start])
  have ne: "?t \<noteq> []" using f by (metis blank_def fields_blank l list.distinct(1))
  obtain v r where p: "span_word ?t = (v, r)" by fastforce
  have "w = v" using f ne by (subst (asm) fields.simps) (simp add: l p)
  moreover have "?t = v @ r" using span_word_append [OF p] .
  moreover have "v \<noteq> []" using p ne trim_space_start [of s] by (cases ?t) (auto split: prod.splits)
  ultimately show ?thesis by blast
qed

lemma fields_join: "\<forall>w\<in>set ws. word w \<Longrightarrow> fields (join '' '' ws) = ws"
proof (induction "'' ''" ws rule: join.induct)
  case 1
  then show ?case by (simp add: fields_blank blank_def trim_left_id)
next
  case (2 x)
  then show ?case using fields_word [of x "[]"] by (simp add: starts_blank_def fields_blank blank_def trim_left_id)
next
  case (3 x y xs)
  have "trim_left (CHR '' '' # join '' '' (y # xs)) = trim_left (join '' '' (y # xs))"
    by (subst trim_left.simps) simp
  then have "fields (CHR '' '' # join '' '' (y # xs)) = fields (join '' '' (y # xs))"
    by (metis fields_trim_left)
  then show ?case using 3 fields_word [of x "CHR '' '' # join '' '' (y # xs)"] by (simp add: starts_blank_def)
qed

subsection \<open>Decimal numbers\<close>

lemma is_digit_char [simp]: "d < 10 \<Longrightarrow> is_digit (char_of (48 + d :: nat))"
  by (simp add: is_digit_def)

lemma digit_val_char [simp]: "d < 10 \<Longrightarrow> digit_val (char_of (48 + d :: nat)) = d"
  by (simp add: digit_val_def)

lemma nat_of_digits_snoc: "nat_of_digits (s @ [c]) = 10 * nat_of_digits s + digit_val c"
  by (simp add: nat_of_digits_def)

lemma dec_nat_digits: "dec_nat n \<noteq> [] \<and> list_all is_digit (dec_nat n) \<and> nat_of_digits (dec_nat n) = n"
proof (induction n rule: dec_nat.induct)
  case (1 n)
  show ?case
  proof (cases "n < 10")
    case True
    then show ?thesis by (subst (1 2 3) dec_nat.simps) (simp add: nat_of_digits_def)
  next
    case False
    with 1 show ?thesis by (subst (1 2 3) dec_nat.simps) (simp add: nat_of_digits_snoc)
  qed
qed

lemma digit_plain:
  assumes "is_digit c"
  shows "plain c" and "c \<noteq> CHR ''-''" and "c \<noteq> CHR ''+''" and "c \<noteq> CHR '':''"
  using assms by (auto simp: is_digit_def plain_iff white_def Let_def)

lemma digits_plain:
  assumes "list_all is_digit s"
  shows "\<forall>c\<in>set s. plain c" and "CHR ''-'' \<notin> set s" and "CHR ''+'' \<notin> set s" and "CHR '':'' \<notin> set s"
  using assms by (auto simp: list_all_iff dest: digit_plain)

lemma dec_plain: "dec i \<noteq> []" "\<forall>c\<in>set (dec i). plain c"
proof -
  have m: "plain (CHR ''-'')" by (simp add: plain_iff white_def)
  show "dec i \<noteq> []" "\<forall>c\<in>set (dec i). plain c"
    using dec_nat_digits digits_plain(1) m by (auto simp: dec_def)
qed

lemma word_dec: "word (dec i)"
  by (rule word_plain) (rule dec_plain)+

lemma parse_digits:
  assumes "ds \<noteq> []" and "list_all is_digit ds" and "nat_of_digits ds < 2 ^ 63"
  shows "parse_int64 ds = Some (int (nat_of_digits ds))"
proof -
  have b: "int (nat_of_digits ds) < 2 ^ 63" using assms(3) by simp
  obtain c r where ds: "ds = c # r" using assms(1) by (cases ds) auto
  have "c \<noteq> CHR ''-''" and "c \<noteq> CHR ''+''" using digits_plain(2,3) [OF assms(2)] by (auto simp: ds)
  then show ?thesis using assms(2) b by (auto simp: parse_int64_def ds)
qed

lemma parse_dec:
  assumes "- (2 ^ 63) \<le> i" and "i < 2 ^ 63"
  shows "parse_int64 (dec i) = Some i"
proof (cases "i < 0")
  case True
  let ?ds = "dec_nat (nat (- i))"
  have d: "?ds \<noteq> []" "list_all is_digit ?ds" "nat_of_digits ?ds = nat (- i)"
    using dec_nat_digits by blast+
  then show ?thesis using True assms by (simp add: parse_int64_def dec_def)
next
  case False
  let ?ds = "dec_nat (nat i)"
  have d: "?ds \<noteq> []" "list_all is_digit ?ds" "nat_of_digits ?ds = nat i"
    using dec_nat_digits by blast+
  have "nat i < 2 ^ 63" using assms False by (simp add: nat_less_iff)
  then show ?thesis using d False parse_digits [of ?ds] by (simp add: dec_def)
qed

end
