(* ===== verification/Net_Http.thy ===== *)
theory Net_Http
  imports Go_Text Net_Bytes
begin

text \<open>
  HTTP/1.x header metadata (\<open>internal/netproto/http.go\<close>). The header block is cut off at the first
  blank line, its lines are read with a \<open>bufio.Scanner\<close> of bounded buffer, and the values of sensitive
  headers are replaced. The theorems show that no payload makes the parser panic, that no sensitive value
  is reported, and that bytes after the blank line have no influence.
\<close>

subsection \<open>Library functions\<close>

text \<open>\<open>strings.Index\<close>, with \<open>None\<close> for \<open>-1\<close>.\<close>

fun str_index :: "string \<Rightarrow> string \<Rightarrow> nat option" where
  "str_index sub [] = (if sub = [] then Some 0 else None)"
| "str_index sub (c # s) = (if prefix sub (c # s) then Some 0 else map_option Suc (str_index sub s))"

text \<open>\<open>strings.SplitN\<close> on a one-character separator, and \<open>strings.Cut\<close>.\<close>

fun cut :: "char \<Rightarrow> string \<Rightarrow> string \<times> string \<times> bool" where
  "cut sep [] = ([], [], False)"
| "cut sep (c # s) = (if c = sep then ([], s, True) else case cut sep s of (a, b, ok) \<Rightarrow> (c # a, b, ok))"

fun splitN :: "char \<Rightarrow> nat \<Rightarrow> string \<Rightarrow> string list" where
  "splitN sep 0 s = []"
| "splitN sep (Suc 0) s = [s]"
| "splitN sep (Suc (Suc n)) s = (case cut sep s of (a, b, ok) \<Rightarrow> if ok then a # splitN sep (Suc n) b else [a])"

definition newline :: char where "newline = CHR 0x0A"
definition creturn :: char where "creturn = CHR 0x0D"

text \<open>
  One call of \<open>Scan\<close> with \<open>ScanLines\<close>: the next line without its terminator and the rest, the end of
  the input, or \<open>bufio.ErrTooLong\<close> when the buffer of \<open>limit\<close> bytes fills up before a newline is seen.
\<close>

datatype scan = Line string string | ScanEnd | ScanTooLong

definition dropCR :: "string \<Rightarrow> string" where
  "dropCR s = (if s \<noteq> [] \<and> last s = creturn then butlast s else s)"

definition scan_line :: "nat \<Rightarrow> string \<Rightarrow> scan" where
  "scan_line limit s =
     (let l = takeWhile (\<lambda>c. c \<noteq> newline) s in
      if s = [] then ScanEnd
      else if length l \<ge> limit then ScanTooLong
      else Line (dropCR l) (drop (Suc (length l)) s))"

lemma scan_line_shorter: "scan_line limit s = Line l r \<Longrightarrow> length r < length s"
  by (cases s) (auto simp: scan_line_def Let_def split: if_splits)

subsection \<open>Operations\<close>

datatype httperr = EmptyBlock | BadResponseLine | BadStatus | BadRequestLine | ScanFailed

record HTTPHeader =
  h_Name :: string
  h_Value :: string
  Redacted :: bool

record HTTPMessage =
  IsRequest :: bool
  Method :: string
  Target :: string
  StatusCode :: int
  Reason :: string
  Version :: string
  Headers :: "HTTPHeader list"
  WebSocket :: bool
  h_Truncated :: bool

definition redactedHeaderValue :: string where "redactedHeaderValue = ''[redacted]''"

definition sensitiveHTTPHeaders :: "string list" where
  "sensitiveHTTPHeaders = [''authorization'', ''cookie'', ''proxy-authorization'', ''set-cookie'', ''x-api-key'']"

definition maxHeaderLine :: nat where "maxHeaderLine = 256 * 1024"

definition emptyMessage :: HTTPMessage where
  "emptyMessage = \<lparr> IsRequest = False, Method = [], Target = [], StatusCode = 0, Reason = [], Version = [],
     Headers = [], WebSocket = False, h_Truncated = False \<rparr>"

definition splitHTTPHeaderBlock :: "string \<Rightarrow> ('e, string \<times> bool) go" where
  "splitHTTPHeaderBlock data =
     (case str_index [creturn, newline, creturn, newline] data of
        Some i \<Rightarrow> gbind (slice data 0 (int i + 2)) (\<lambda>b. Inr (b, False))
      | None \<Rightarrow>
          (case str_index [newline, newline] data of
             Some i \<Rightarrow> gbind (slice data 0 (int i + 1)) (\<lambda>b. Inr (b, False))
           | None \<Rightarrow> Inr (data, True)))"

definition parseHTTPStartLine :: "string \<Rightarrow> (httperr, HTTPMessage) go" where
  "parseHTTPStartLine line =
     (let parts = splitN (CHR '' '') 3 line in
      if prefix ''HTTP/'' line then
        (if len parts < 2 then Inl (Fault BadResponseLine)
         else gbind (idx parts 1) (\<lambda>p1.
              case parse_int64 p1 of
                None \<Rightarrow> Inl (Fault BadStatus)
              | Some code \<Rightarrow>
                  gbind (idx parts 0) (\<lambda>p0.
                  let msg = emptyMessage \<lparr> Version := p0, StatusCode := code \<rparr> in
                  if len parts = 3 then gbind (idx parts 2) (\<lambda>p2. Inr (msg \<lparr> Reason := p2 \<rparr>)) else Inr msg)))
      else if len parts \<noteq> 3 then Inl (Fault BadRequestLine)
      else gbind (idx parts 2) (\<lambda>p2.
           if \<not> prefix ''HTTP/'' p2 then Inl (Fault BadRequestLine)
           else gbind (idx parts 0) (\<lambda>p0.
                gbind (idx parts 1) (\<lambda>p1.
                Inr (emptyMessage \<lparr> IsRequest := True, Method := p0, Target := p1, Version := p2 \<rparr>)))))"

definition parseHTTPHeader :: "string \<Rightarrow> HTTPHeader \<times> bool" where
  "parseHTTPHeader line =
     (case cut (CHR '':'') line of (name, val, ok) \<Rightarrow>
        if \<not> ok then (\<lparr> h_Name = [], h_Value = [], Redacted = False \<rparr>, False)
        else let header = \<lparr> h_Name = trim_space name, h_Value = trim_space val, Redacted = False \<rparr>;
                 header = (if to_lower (h_Name header) \<in> set sensitiveHTTPHeaders
                           then header \<lparr> h_Value := redactedHeaderValue, Redacted := True \<rparr> else header)
             in (header, h_Name header \<noteq> []))"

definition upgradeStep :: "HTTPHeader \<Rightarrow> bool \<times> bool \<Rightarrow> bool \<times> bool" where
  "upgradeStep h acc =
     (let name = to_lower (h_Name h); val = to_lower (h_Value h); (conn, ws) = acc in
      if name = ''connection''
      then (conn \<or> list_ex (\<lambda>part. trim_space part = ''upgrade'') (split_on (CHR '','') val), ws)
      else if name = ''upgrade'' then (conn, trim_space val = ''websocket'')
      else (conn, ws))"

definition isWebSocketUpgrade :: "HTTPMessage \<Rightarrow> bool" where
  "isWebSocketUpgrade msg =
     (let (conn, ws) = fold upgradeStep (Headers msg) (False, False) in
      if IsRequest msg then conn \<and> ws else StatusCode msg = 101 \<and> conn \<and> ws)"

function headerLoop :: "string \<Rightarrow> HTTPMessage \<Rightarrow> (httperr, HTTPMessage) go" where
  "headerLoop s msg =
     (case scan_line maxHeaderLine s of
        ScanEnd \<Rightarrow> Inr msg
      | ScanTooLong \<Rightarrow> Inl (Fault ScanFailed)
      | Line line rest \<Rightarrow>
          if line = [] then Inr msg
          else (case parseHTTPHeader line of (header, ok) \<Rightarrow>
                  headerLoop rest (if ok then msg \<lparr> Headers := Headers msg @ [header] \<rparr> else msg)))"
  by pat_completeness auto
termination headerLoop
  by (relation "measure (\<lambda>(s, m). length s)") (auto dest: scan_line_shorter)

declare headerLoop.simps [simp del]

definition ParseHTTP1Headers :: "byte list \<Rightarrow> (httperr, HTTPMessage) go" where
  "ParseHTTP1Headers data =
     gbind (splitHTTPHeaderBlock (go_string data)) (\<lambda>(headerBlock, truncated).
       case scan_line maxHeaderLine headerBlock of
         Line line rest \<Rightarrow>
           gbind (parseHTTPStartLine line) (\<lambda>msg.
           gbind (headerLoop rest (msg \<lparr> h_Truncated := truncated \<rparr>)) (\<lambda>msg.
           Inr (msg \<lparr> WebSocket := isWebSocketUpgrade msg \<rparr>)))
       | _ \<Rightarrow> Inl (Fault EmptyBlock))"

subsection \<open>No payload makes the parser panic, and no secret is reported\<close>

lemma str_index_bound: "str_index sub s = Some i \<Longrightarrow> i + length sub \<le> length s"
  by (induction s arbitrary: i) (auto split: if_splits dest: prefix_length_le)

lemma splitHTTPHeaderBlock_safe: "yields (splitHTTPHeaderBlock s) (\<lambda>(b, trunc). prefix b s)"
  by (auto simp: splitHTTPHeaderBlock_def slice_def take_is_prefix split: option.splits dest!: str_index_bound)

lemma splitN_bound: "length (splitN sep n s) \<le> n"
  by (induction sep n s rule: splitN.induct) (auto split: prod.splits)

definition no_headers :: "HTTPMessage \<Rightarrow> bool" where
  "no_headers m \<longleftrightarrow> Headers m = []"

lemma parseHTTPStartLine_safe: "yields (parseHTTPStartLine line) no_headers"
  unfolding parseHTTPStartLine_def Let_def
  by (intro yields_decode) (auto simp: idx_def no_headers_def emptyMessage_def split: option.splits)

text \<open>
  The spellings of a lower-case ASCII character: itself, its capital, and the two characters outside
  ASCII whose lower case it is. A name is spelled as a literal when it is a sequence of such spellings.
\<close>

definition spellings :: "char \<Rightarrow> string list" where
  "spellings c =
     [c] # (if CHR ''a'' \<le> c \<and> c \<le> CHR ''z'' then [[char_of (of_char c - 32 :: nat)]] else []) @
     (if c = CHR ''k'' then [[CHR 0xE2, CHR 0x84, CHR 0xAA]] else []) @
     (if c = CHR ''i'' then [[CHR 0xC4, CHR 0xB0]] else [])"

fun spelled :: "string \<Rightarrow> string \<Rightarrow> bool" where
  "spelled s [] \<longleftrightarrow> s = []"
| "spelled s (c # t) \<longleftrightarrow> list_ex (\<lambda>u. prefix u s \<and> spelled (drop (length u) s) t) (spellings c)"

definition literal :: "char \<Rightarrow> bool" where
  "literal c \<longleftrightarrow> c < CHR 0x80 \<and> \<not> (CHR ''A'' \<le> c \<and> c \<le> CHR ''Z'')"

lemma lower_char_iff:
  assumes "literal d"
  shows "lower_char c = d \<longleftrightarrow> c = d \<or> CHR ''a'' \<le> d \<and> d \<le> CHR ''z'' \<and> c = char_of (of_char d - 32 :: nat)"
proof -
  have less: "x < y \<longleftrightarrow> (of_char x :: nat) < of_char y" "x \<le> y \<longleftrightarrow> (of_char x :: nat) \<le> of_char y" for x y :: char
    by (simp_all add: less_char_def less_eq_char_def)
  have eq: "x = char_of n \<longleftrightarrow> (of_char x :: nat) = n" "char_of n = x \<longleftrightarrow> (of_char x :: nat) = n" if "n < 256" for x :: char and n :: nat
    using that by (auto simp: of_char_of)
  have "(of_char d :: nat) < 256" "(of_char c :: nat) < 256" by simp_all
  with assms show ?thesis
    by (auto simp: lower_char_def literal_def less eq Let_def of_char_of)
qed

lemma spelled_to_lower: "list_all literal t \<Longrightarrow> to_lower s = t \<longleftrightarrow> spelled s t"
proof (induction s arbitrary: t rule: to_lower.induct)
  case 1
  then show ?case by (cases t) (auto simp: spellings_def list_ex_iff)
next
  case (2 c s)
  show ?case
  proof (cases t)
    case Nil
    then show ?thesis by simp
  next
    case (Cons d u)
    with 2(4) have d: "literal d" and u: "list_all literal u" by simp_all
    have nd: "d \<noteq> CHR 0xE2" "d \<noteq> CHR 0xC4" using d by (auto simp: literal_def)
    have cap: "char_of (of_char d - 32 :: nat) \<noteq> CHR 0xE2" "char_of (of_char d - 32 :: nat) \<noteq> CHR 0xC4"
      if z: "d \<le> CHR ''z''"
    proof -
      have le: "(of_char d :: nat) \<le> 122" using z by (simp add: less_eq_char_def)
      have "(of_char (char_of (of_char d - 32 :: nat) :: char) :: nat) = of_char d - 32"
        using le by (simp add: of_char_of)
      moreover have "(of_char (CHR 0xE2) :: nat) = 226" "(of_char (CHR 0xC4) :: nat) = 196" by simp_all
      ultimately show "char_of (of_char d - 32 :: nat) \<noteq> CHR 0xE2" "char_of (of_char d - 32 :: nat) \<noteq> CHR 0xC4"
        using le by fastforce+
    qed
    show ?thesis
    proof (cases "prefix [CHR 0xE2, CHR 0x84, CHR 0xAA] (c # s)")
      case True
      then show ?thesis using Cons 2(1) [OF True u] nd cap by (auto simp: spellings_def numeral_2_eq_2)
    next
      case k: False
      show ?thesis
      proof (cases "prefix [CHR 0xC4, CHR 0xB0] (c # s)")
        case True
        then show ?thesis using Cons 2(2) [OF k True u] k nd cap by (auto simp: spellings_def)
      next
        case False
        then show ?thesis
          using Cons 2(3) [OF k False u] k lower_char_iff [OF d, of c] by (auto simp: spellings_def)
      qed
    qed
  qed
qed

text \<open>
  The names whose values must not be shown and what is shown instead, written out independently of the
  table and the constant of the parser.
\<close>

definition secretName :: "string \<Rightarrow> bool" where
  "secretName name \<longleftrightarrow>
     spelled name ''authorization'' \<or> spelled name ''proxy-authorization'' \<or>
     spelled name ''cookie'' \<or> spelled name ''set-cookie'' \<or> spelled name ''x-api-key''"

definition safe_header :: "HTTPHeader \<Rightarrow> bool" where
  "safe_header h \<longleftrightarrow> h_Name h \<noteq> [] \<and>
     (if secretName (h_Name h) then h_Value h = ''[redacted]'' \<and> Redacted h else \<not> Redacted h)"

lemma sensitive_secret: "to_lower name \<in> set sensitiveHTTPHeaders \<longleftrightarrow> secretName name"
proof -
  have "to_lower name = t \<longleftrightarrow> spelled name t" if "t \<in> set sensitiveHTTPHeaders" for t
    using that by (intro spelled_to_lower) (auto simp: sensitiveHTTPHeaders_def literal_def)
  then show ?thesis by (auto simp: secretName_def sensitiveHTTPHeaders_def simp del: spelled.simps)
qed

lemma parseHTTPHeader_safe: "parseHTTPHeader line = (h, True) \<Longrightarrow> safe_header h"
  by (auto simp: parseHTTPHeader_def safe_header_def sensitive_secret redactedHeaderValue_def Let_def
      simp del: spelled.simps split: prod.splits if_splits)

lemma headerLoop_safe:
  "list_all safe_header (Headers msg) \<Longrightarrow> yields (headerLoop s msg) (\<lambda>m. list_all safe_header (Headers m))"
proof (induction "length s" arbitrary: s msg rule: less_induct)
  case less
  show ?case
  proof (cases "scan_line maxHeaderLine s")
    case (Line l rest)
    obtain h ok where p: "parseHTTPHeader l = (h, ok)" by fastforce
    let ?m = "if ok then msg \<lparr> Headers := Headers msg @ [h] \<rparr> else msg"
    have "list_all safe_header (Headers ?m)"
      using less.prems p parseHTTPHeader_safe [of l h] by auto
    then have "yields (headerLoop rest ?m) (\<lambda>m. list_all safe_header (Headers m))"
      using scan_line_shorter [OF Line] by (intro less.hyps)
    then show ?thesis using less.prems by (subst headerLoop.simps) (simp add: Line p)
  qed (use less.prems in \<open>simp_all add: headerLoop.simps [of s]\<close>)
qed

theorem ParseHTTP1Headers_safe: "yields (ParseHTTP1Headers data) (\<lambda>m. list_all safe_header (Headers m))"
proof -
  have rest: "yields (case scan_line maxHeaderLine b of
      Line line rest \<Rightarrow> gbind (parseHTTPStartLine line) (\<lambda>msg.
        gbind (headerLoop rest (msg \<lparr> h_Truncated := t \<rparr>)) (\<lambda>msg. Inr (msg \<lparr> WebSocket := isWebSocketUpgrade msg \<rparr>)))
    | _ \<Rightarrow> Inl (Fault EmptyBlock)) (\<lambda>m. list_all safe_header (Headers m))" for b t
  proof (cases "scan_line maxHeaderLine b")
    case (Line l r)
    have "yields (headerLoop r (msg \<lparr> h_Truncated := t \<rparr>)) (\<lambda>m. list_all safe_header (Headers m))" if "no_headers msg" for msg
      using that by (intro headerLoop_safe) (simp add: no_headers_def)
    then show ?thesis
      unfolding Line scan.case
      by (intro yields_gbind [OF parseHTTPStartLine_safe]) (rule yields_gbind, assumption, simp)
  qed simp_all
  show ?thesis
    unfolding ParseHTTP1Headers_def
    by (rule yields_gbind [OF splitHTTPHeaderBlock_safe]) (auto intro: rest)
qed

subsection \<open>The body has no influence\<close>

lemma str_index_append: "str_index sub s = Some i \<Longrightarrow> str_index sub (s @ t) = Some i"
proof (induction s arbitrary: i)
  case Nil
  then show ?case by (cases t) (auto split: if_splits)
next
  case (Cons c s)
  show ?case
  proof (cases "prefix sub (c # s)")
    case True
    then have "prefix sub ((c # s) @ t)" by (rule prefix_prefix)
    with True Cons.prems show ?thesis by simp
  next
    case False
    with Cons.prems obtain j where j: "str_index sub s = Some j" "i = Suc j" by auto
    have "length sub \<le> length (c # s)" using str_index_bound [OF j(1)] by simp
    then have "\<not> prefix sub ((c # s) @ t)"
      using False prefix_length_prefix [of sub "(c # s) @ t" "c # s"] by auto
    with Cons.IH [OF j(1)] j(2) show ?thesis by simp
  qed
qed

theorem body_ignored:
  assumes "str_index [creturn, newline, creturn, newline] (go_string block) = Some i"
  shows "ParseHTTP1Headers (block @ body) = ParseHTTP1Headers block"
proof -
  have a: "go_string (block @ body) = go_string block @ go_string body"
    by (simp add: go_string_def)
  have "i + 4 \<le> length (go_string block)"
    using str_index_bound [OF assms] by simp
  then have "(splitHTTPHeaderBlock (go_string (block @ body)) :: (httperr, string \<times> bool) go)
      = splitHTTPHeaderBlock (go_string block)"
    unfolding splitHTTPHeaderBlock_def a str_index_append [OF assms] assms by (simp add: slice_def)
  then show ?thesis by (simp add: ParseHTTP1Headers_def)
qed

end
