(* ===== verification/Pcap_Summary.thy ===== *)
theory Pcap_Summary
  imports Tcp_Streams Net_Dns Net_Tls Net_Http
begin

text \<open>
  The capture summary (\<open>internal/netcap/summary.go\<close>): it reads a capture packet by packet, decodes the
  flow, reassembles TCP payloads, and runs the DNS, TLS and HTTP parsers on them. The theorems compose
  those of the parts: the loop ends on every input, nothing panics, the number of events is bounded, the
  counters add up, and no sensitive header value reaches the summary.
\<close>

subsection \<open>Addresses\<close>

text \<open>\<open>netip.Addr.String\<close>: dotted decimal, or RFC 5952 with the first longest run of zero groups shortened.\<close>

definition v4_string :: "byte list \<Rightarrow> string" where
  "v4_string bs = join ''.'' (map (\<lambda>b. dec (int (unat b))) bs)"

fun groups :: "byte list \<Rightarrow> nat list" where
  "groups (a # b # bs) = (unat a * 256 + unat b) # groups bs"
| "groups bs = []"

fun zero_runs :: "nat \<Rightarrow> nat list \<Rightarrow> (nat \<times> nat) list" where
  "zero_runs i [] = []"
| "zero_runs i (g # gs) = (i, length (takeWhile (\<lambda>g. g = 0) (g # gs))) # zero_runs (Suc i) gs"

definition longest_run :: "nat list \<Rightarrow> nat \<times> nat" where
  "longest_run gs = fold (\<lambda>(i, n) (j, m). if 2 \<le> n \<and> m < n then (i, n) else (j, m)) (zero_runs 0 gs) (0, 0)"

definition v6_string :: "byte list \<Rightarrow> string" where
  "v6_string bs =
     (if take 12 bs = replicate 10 0 @ [0xff, 0xff] then ''::ffff:'' @ v4_string (drop 12 bs)
      else let gs = groups bs; (i, n) = longest_run gs in
           if n = 0 then join '':'' (map hex gs)
           else join '':'' (map hex (take i gs)) @ ''::'' @ join '':'' (map hex (drop (i + n) gs)))"

fun addr_string :: "addr \<Rightarrow> string" where
  "addr_string (V4 bs) = v4_string bs"
| "addr_string (V6 bs) = v6_string bs"

subsection \<open>Data\<close>

record FlowSummary =
  f_NetworkProto :: string
  f_TransportProto :: string
  f_SrcAddr :: string
  f_SrcPort :: u16
  f_DstAddr :: string
  f_DstPort :: u16

record DNSFlowSummary =
  dns_Flow :: FlowSummary
  dns_Message :: DNSMessage

record TLSFlowSummary =
  tls_Flow :: FlowSummary
  ClientHello :: TLSClientHello

record HTTPFlowSummary =
  http_Flow :: FlowSummary
  http_Message :: HTTPMessage

record PCAPSummary =
  s_LinkType :: u32
  Packets :: int
  DecodedFlows :: int
  DecodeErrors :: int
  DNS :: "DNSFlowSummary list"
  TLS :: "TLSFlowSummary list"
  HTTP :: "HTTPFlowSummary list"
  EventsDropped :: int

definition DefaultSummaryEventLimit :: int where "DefaultSummaryEventLimit = 100"

subsection \<open>Operations\<close>

definition newFlowSummary :: "FlowPacket \<Rightarrow> FlowSummary" where
  "newFlowSummary flow = \<lparr> f_NetworkProto = NetworkProto flow, f_TransportProto = TransportProto flow,
     f_SrcAddr = addr_string (SrcAddr flow), f_SrcPort = SrcPort flow,
     f_DstAddr = addr_string (DstAddr flow), f_DstPort = DstPort flow \<rparr>"

definition summaryHasRoom :: "PCAPSummary \<Rightarrow> int \<Rightarrow> bool" where
  "summaryHasRoom summary limit = (len (DNS summary) + len (TLS summary) + len (HTTP summary) < limit)"

definition appendDNSSummary :: "PCAPSummary \<Rightarrow> FlowPacket \<Rightarrow> DNSMessage \<Rightarrow> int \<Rightarrow> PCAPSummary" where
  "appendDNSSummary summary flow msg limit =
     (if \<not> summaryHasRoom summary limit then summary \<lparr> EventsDropped := EventsDropped summary + 1 \<rparr>
      else summary \<lparr> DNS := DNS summary @ [\<lparr> dns_Flow = newFlowSummary flow, dns_Message = msg \<rparr>] \<rparr>)"

definition appendTLSSummary :: "PCAPSummary \<Rightarrow> FlowPacket \<Rightarrow> TLSClientHello \<Rightarrow> int \<Rightarrow> PCAPSummary" where
  "appendTLSSummary summary flow hello limit =
     (if \<not> summaryHasRoom summary limit then summary \<lparr> EventsDropped := EventsDropped summary + 1 \<rparr>
      else summary \<lparr> TLS := TLS summary @ [\<lparr> tls_Flow = newFlowSummary flow, ClientHello = hello \<rparr>] \<rparr>)"

definition appendHTTPSummary :: "PCAPSummary \<Rightarrow> FlowPacket \<Rightarrow> HTTPMessage \<Rightarrow> int \<Rightarrow> PCAPSummary" where
  "appendHTTPSummary summary flow msg limit =
     (if \<not> summaryHasRoom summary limit then summary \<lparr> EventsDropped := EventsDropped summary + 1 \<rparr>
      else summary \<lparr> HTTP := HTTP summary @ [\<lparr> http_Flow = newFlowSummary flow, http_Message = msg \<rparr>] \<rparr>)"

definition isDNSFlow :: "FlowPacket \<Rightarrow> bool" where
  "isDNSFlow flow = (TransportProto flow = ''udp'' \<and> (SrcPort flow = 53 \<or> DstPort flow = 53))"

definition isTLSClientHelloPayload :: "byte list \<Rightarrow> (perr, bool) go" where
  "isTLSClientHelloPayload payload =
     (if len payload < 6 then Inr False
      else gbind (idx payload 0) (\<lambda>a. if a \<noteq> 22 then Inr False else gbind (idx payload 5) (\<lambda>b. Inr (b = 1))))"

definition httpMethods :: "string list" where
  "httpMethods = [''CONNECT'', ''DELETE'', ''GET'', ''HEAD'', ''OPTIONS'', ''PATCH'', ''POST'', ''PUT'', ''TRACE'']"

definition isHTTP1Payload :: "byte list \<Rightarrow> (perr, bool) go" where
  "isHTTP1Payload payload =
     (if prefix ''HTTP/'' (go_string payload) then Inr True
      else case str_index '' '' (go_string payload) of
             None \<Rightarrow> Inr False
           | Some methodEnd \<Rightarrow>
               if methodEnd = 0 then Inr False
               else gbind (slice payload 0 (int methodEnd)) (\<lambda>m.
                    Inr (to_upper (go_string m) \<in> set httpMethods)))"

definition hasHTTPHeaderTerminator :: "byte list \<Rightarrow> bool" where
  "hasHTTPHeaderTerminator payload =
     (contains [creturn, newline, creturn, newline] (go_string payload) \<or> contains [newline, newline] (go_string payload))"

text \<open>A parser call whose error is dropped; a panic is not.\<close>

fun attempt :: "('f, 'a) go \<Rightarrow> (perr, 'a option) go" where
  "attempt (Inr x) = Inr (Some x)"
| "attempt (Inl (Fault e)) = Inr None"
| "attempt (Inl Panic) = Inl Panic"

type_synonym summaryState = "PCAPSummary \<times> tcpSummaryStreams"

text \<open>The branches for one reassembled stream: a ClientHello, or an HTTP header block.\<close>

definition summarizeStream ::
    "FlowPacket \<Rightarrow> int \<Rightarrow> tcpSummaryStream \<Rightarrow> summaryState \<Rightarrow> (perr, summaryState) go" where
  "summarizeStream flow limit stream st =
     (case st of (summary, streams) \<Rightarrow>
        gbind (isTLSClientHelloPayload (st_data stream)) (\<lambda>hello.
        if \<not> parsedTLS stream \<and> hello then
          gbind (attempt (ParseTLSClientHello (st_data stream))) (\<lambda>r.
            case r of
              None \<Rightarrow> Inr (summary, streams)
            | Some h \<Rightarrow> Inr (appendTLSSummary summary flow h limit,
                            mput (flowKey flow) (stream \<lparr> parsedTLS := True \<rparr>) streams))
        else
          gbind (isHTTP1Payload (st_data stream)) (\<lambda>http.
          if \<not> parsedHTTP stream \<and> http \<and> hasHTTPHeaderTerminator (st_data stream) then
            gbind (attempt (ParseHTTP1Headers (st_data stream))) (\<lambda>r.
              case r of
                None \<Rightarrow> Inr (summary, streams)
              | Some m \<Rightarrow> Inr (appendHTTPSummary summary flow m limit,
                              mput (flowKey flow) (stream \<lparr> parsedHTTP := True \<rparr>) streams))
          else Inr (summary, streams))))"

definition summarizeFlow :: "FlowPacket \<Rightarrow> int \<Rightarrow> summaryState \<Rightarrow> (perr, summaryState) go" where
  "summarizeFlow flow limit st =
     (case st of (summary, streams) \<Rightarrow>
        if Payload flow = [] then Inr st
        else if isDNSFlow flow then
          gbind (attempt (ParseDNSMessage (Payload flow))) (\<lambda>r.
            case r of
              None \<Rightarrow> Inr st
            | Some msg \<Rightarrow> Inr (appendDNSSummary summary flow msg limit, streams))
        else if TransportProto flow \<noteq> ''tcp'' then Inr st
        else gbind (add_flow flow streams) (\<lambda>(streams, stream, ok).
               if \<not> ok then Inr (summary, streams)
               else summarizeStream flow limit stream (summary, streams)))"

text \<open>\<open>errors.Is(err, io.EOF)\<close> also holds for an error that wraps it.\<close>

definition is_EOF :: "perr \<Rightarrow> bool" where
  "is_EOF e \<longleftrightarrow> e = EOF \<or> e = ShortPacketData True"

lemma Next_shorter:
  assumes "Next p = Inr (pkt, q)"
  shows "length (src q) < length (src p)"
proof -
  obtain hdr where "length hdr = 16" "src p = hdr @ Data pkt @ src q"
    using Next_safe [of p] assms by (auto simp: yields_def)
  then show ?thesis by simp
qed

function summarizeLoop :: "int \<Rightarrow> PCAPReader \<Rightarrow> summaryState \<Rightarrow> (perr, PCAPSummary) go" where
  "summarizeLoop limit reader st =
     (case Next reader of
        Inl (Fault e) \<Rightarrow> if is_EOF e then Inr (fst st) else Inl (Fault e)
      | Inl Panic \<Rightarrow> Inl Panic
      | Inr (pkt, reader) \<Rightarrow>
          (case st of (summary, streams) \<Rightarrow>
             let summary = summary \<lparr> Packets := Packets summary + 1 \<rparr> in
             gbind (attempt (DecodeFlowPacket (LinkType reader) (Data pkt))) (\<lambda>r.
             case r of
               None \<Rightarrow> summarizeLoop limit reader (summary \<lparr> DecodeErrors := DecodeErrors summary + 1 \<rparr>, streams)
             | Some flow \<Rightarrow>
                 gbind (summarizeFlow flow limit (summary \<lparr> DecodedFlows := DecodedFlows summary + 1 \<rparr>, streams))
                   (summarizeLoop limit reader))))"
  by pat_completeness auto
termination summarizeLoop
  by (relation "measure (\<lambda>(l, r, st). length (src r))") (auto dest: Next_shorter)

declare summarizeLoop.simps [simp del]

definition SummarizePCAP :: "byte list \<Rightarrow> int \<Rightarrow> (perr, PCAPSummary) go" where
  "SummarizePCAP r eventLimit =
     gbind (NewPCAPReader r) (\<lambda>reader.
       summarizeLoop (if eventLimit \<le> 0 then DefaultSummaryEventLimit else eventLimit) reader
         (\<lparr> s_LinkType = LinkType reader, Packets = 0, DecodedFlows = 0, DecodeErrors = 0, DNS = [], TLS = [], HTTP = [],
            EventsDropped = 0 \<rparr>, newTCPSummaryStreams))"

subsection \<open>The parts never panic\<close>

definition stream_capped :: "tcpSummaryStream \<Rightarrow> bool" where
  "stream_capped st \<longleftrightarrow> length (st_data st) \<le> maxTCPReassemblyBytes"

definition streams_capped :: "tcpSummaryStreams \<Rightarrow> bool" where
  "streams_capped streams \<longleftrightarrow> (\<forall>k st. map_of streams k = Some st \<longrightarrow> stream_capped st)"

abbreviation capped :: "tcpSummaryStream \<times> bool \<Rightarrow> bool" where
  "capped r \<equiv> stream_capped (fst r)"

lemma storeFront_safe: "stream_capped st \<Longrightarrow> yields (storeFront st seq p) capped"
  by (auto simp: storeFront_def stream_capped_def Let_def slice_def)

lemma storeBack_safe: "stream_capped st \<Longrightarrow> yields (storeBack st p) capped"
  by (auto simp: storeBack_def stream_capped_def Let_def slice_def)

lemma addPayload_safe:
  assumes "stream_capped st"
  shows "yields (addPayload st seq p) capped"
proof -
  have ov: "int (unat w) \<le> len p" if "\<not> (w :: u32) \<ge> of_nat (length p)" for w
    using word_overlap [OF that] by linarith
  have front: "yields (prependTCPPayload st seq p) capped"
    unfolding prependTCPPayload_def Let_def
    by (intro yields_decode yields_val storeFront_safe assms)
      (use assms ov in \<open>simp_all del: of_nat_unat\<close>)
  show ?thesis
    unfolding addPayload_def Let_def
    by (intro yields_decode yields_val storeBack_safe front assms)
      (use assms ov in \<open>simp_all del: of_nat_unat\<close>)
qed

lemma streams_capped_mput: "streams_capped streams \<Longrightarrow> stream_capped st \<Longrightarrow> streams_capped (mput k st streams)"
  by (simp add: streams_capped_def)

lemma add_flow_safe:
  assumes "streams_capped streams"
  shows "yields (add_flow flow streams) (\<lambda>(streams', st, ok). streams_capped streams' \<and> stream_capped st)"
proof -
  have "stream_capped (mgetd (newStream seq) streams (flowKey flow))" for seq
    using assms by (auto simp: streams_capped_def mgetd_def newStream_def stream_capped_def split: option.splits)
  then show ?thesis
    unfolding add_flow_def Let_def using assms
    by (intro yields_gbind [OF addPayload_safe]) (auto simp: streams_capped_mput)
qed

lemma isTLSClientHelloPayload_safe: "yields (isTLSClientHelloPayload p) (\<lambda>_. True)"
  unfolding isTLSClientHelloPayload_def by (intro yields_decode yields_val) auto

lemma isHTTP1Payload_safe: "yields (isHTTP1Payload p) (\<lambda>_. True)"
  by (auto simp: isHTTP1Payload_def slice_def go_string_def split: option.splits dest!: str_index_bound)

lemma attempt_safe: "yields m P \<Longrightarrow> yields (attempt m) (\<lambda>r. case r of None \<Rightarrow> True | Some x \<Rightarrow> P x)"
  by (cases m rule: attempt.cases) auto

subsection \<open>The summary\<close>

definition events :: "PCAPSummary \<Rightarrow> int" where
  "events s = len (DNS s) + len (TLS s) + len (HTTP s)"

text \<open>
  The counters add up, the events are bounded, an event is dropped only when the summary is full, and no
  reported header carries a sensitive value.
\<close>

definition summary_ok :: "int \<Rightarrow> PCAPSummary \<Rightarrow> bool" where
  "summary_ok limit s \<longleftrightarrow>
     Packets s = DecodedFlows s + DecodeErrors s \<and> 0 \<le> DecodedFlows s \<and> 0 \<le> DecodeErrors s \<and>
     events s \<le> limit \<and> 0 \<le> EventsDropped s \<and> (0 < EventsDropped s \<longrightarrow> events s = limit) \<and>
     events s + EventsDropped s \<le> DecodedFlows s \<and>
     list_all (\<lambda>h. list_all safe_header (Headers (http_Message h))) (HTTP s)"

text \<open>The part of it that holds while one flow is processed, before its event is recorded.\<close>

definition flow_ok :: "int \<Rightarrow> PCAPSummary \<Rightarrow> PCAPSummary \<Rightarrow> bool" where
  "flow_ok limit s s' \<longleftrightarrow> summary_ok limit s' \<and> Packets s' = Packets s \<and> DecodedFlows s' = DecodedFlows s"

lemma append_ok:
  assumes "summary_ok limit s" and "events s + EventsDropped s < DecodedFlows s"
  shows "flow_ok limit s (appendDNSSummary s flow d limit)"
    and "flow_ok limit s (appendTLSSummary s flow h limit)"
    and "list_all safe_header (Headers m) \<Longrightarrow> flow_ok limit s (appendHTTPSummary s flow m limit)"
  using assms
  by (auto simp: flow_ok_def summary_ok_def appendDNSSummary_def appendTLSSummary_def appendHTTPSummary_def
      events_def summaryHasRoom_def)

definition state_ok :: "int \<Rightarrow> PCAPSummary \<Rightarrow> summaryState \<Rightarrow> bool" where
  "state_ok limit s r \<longleftrightarrow> flow_ok limit s (fst r) \<and> streams_capped (snd r)"

lemma summarizeStream_safe:
  assumes "summary_ok limit s" and "events s + EventsDropped s < DecodedFlows s"
    and "streams_capped streams" and "stream_capped stream"
  shows "yields (summarizeStream flow limit stream (s, streams)) (state_ok limit s)"
proof -
  have same: "state_ok limit s (s, streams)"
    using assms by (simp add: state_ok_def flow_ok_def)
  have tls: "yields (case r of None \<Rightarrow> Inr (s, streams)
      | Some h \<Rightarrow> Inr (appendTLSSummary s flow h limit, mput (flowKey flow) (stream \<lparr> parsedTLS := True \<rparr>) streams))
      (state_ok limit s)" for r
    using same append_ok(2) [OF assms(1,2)] assms(3,4)
    by (cases r) (auto simp: state_ok_def stream_capped_def intro!: streams_capped_mput)
  have http: "yields (case r of None \<Rightarrow> Inr (s, streams)
      | Some m \<Rightarrow> Inr (appendHTTPSummary s flow m limit, mput (flowKey flow) (stream \<lparr> parsedHTTP := True \<rparr>) streams))
      (state_ok limit s)" if "case r of None \<Rightarrow> True | Some m \<Rightarrow> list_all safe_header (Headers m)" for r
    using same append_ok(3) [OF assms(1,2)] assms(3,4) that
    by (cases r) (auto simp: state_ok_def stream_capped_def intro!: streams_capped_mput)
  show ?thesis
    unfolding summarizeStream_def prod.case
    by (intro yields_if yields_val same yields_gbind [OF isTLSClientHelloPayload_safe] yields_gbind [OF isHTTP1Payload_safe]
        yields_gbind [OF attempt_safe [OF ParseTLSClientHello_safe]] yields_gbind [OF attempt_safe [OF ParseHTTP1Headers_safe]]
        tls http)
qed

lemma summarizeFlow_safe:
  assumes "summary_ok limit s" and "events s + EventsDropped s < DecodedFlows s" and "streams_capped streams"
  shows "yields (summarizeFlow flow limit (s, streams)) (state_ok limit s)"
proof -
  have same: "state_ok limit s (s, st)" if "streams_capped st" for st
    using assms that by (simp add: state_ok_def flow_ok_def)
  have dns: "yields (case r of None \<Rightarrow> Inr (s, streams) | Some m \<Rightarrow> Inr (appendDNSSummary s flow m limit, streams))
      (state_ok limit s)" for r
    using same append_ok(1) [OF assms(1,2)] assms(3) by (cases r) (auto simp: state_ok_def)
  have tcp: "yields (case r of (st, stream, ok) \<Rightarrow>
      if \<not> ok then Inr (s, st) else summarizeStream flow limit stream (s, st)) (state_ok limit s)"
    if "case r of (st, stream, ok) \<Rightarrow> streams_capped st \<and> stream_capped stream" for r
    using same summarizeStream_safe [OF assms(1,2)] that by (cases r) auto
  show ?thesis
    unfolding summarizeFlow_def prod.case
    using assms(3)
    by (intro yields_if yields_val same yields_gbind [OF attempt_safe [OF ParseDNSMessage_safe]]
        yields_gbind [OF add_flow_safe] dns tcp)
qed

lemma summarizeLoop_safe:
  assumes "summary_ok limit s" and "streams_capped streams"
  shows "yields (summarizeLoop limit reader (s, streams)) (\<lambda>s'.
    summary_ok limit s' \<and> 16 * (Packets s' - Packets s) \<le> len (src reader))"
  using assms
proof (induction "length (src reader)" arbitrary: reader s streams rule: less_induct)
  case less
  from Next_safe [of reader] show ?case
  proof (cases rule: yieldsE)
    case (error e)
    then show ?thesis using less.prems by (subst summarizeLoop.simps) simp
  next
    case (val r)
    obtain pkt q where r: "r = (pkt, q)" by (cases r)
    obtain hdr where "length hdr = 16" "src reader = hdr @ Data pkt @ src q" using val(2) by (auto simp: r)
    then have shorter: "length (src q) + 16 \<le> length (src reader)" by simp
    have rest: "yields (summarizeLoop limit q (s', st)) (\<lambda>s''.
        summary_ok limit s'' \<and> 16 * (Packets s'' - Packets s) \<le> len (src reader))"
      if "summary_ok limit s'" "streams_capped st" "Packets s' = Packets s + 1" for s' st
      using shorter by (intro yields_mono [OF less.hyps [OF _ that(1,2)]]) (auto simp: that(3))
    let ?d = "s \<lparr> Packets := Packets s + 1, DecodedFlows := DecodedFlows s + 1 \<rparr>"
    let ?e = "s \<lparr> Packets := Packets s + 1, DecodeErrors := DecodeErrors s + 1 \<rparr>"
    have d: "summary_ok limit ?d" "events ?d + EventsDropped ?d < DecodedFlows ?d" and e: "summary_ok limit ?e"
      using less.prems(1) by (simp_all add: summary_ok_def events_def)
    have flow: "yields (gbind (summarizeFlow flow limit (?d, streams)) (summarizeLoop limit q)) (\<lambda>s''.
        summary_ok limit s'' \<and> 16 * (Packets s'' - Packets s) \<le> len (src reader))" for flow
    proof (rule yields_gbind [OF summarizeFlow_safe [OF d less.prems(2)]])
      fix x assume "state_ok limit ?d x"
      then show "yields (summarizeLoop limit q x) (\<lambda>s''. summary_ok limit s'' \<and> 16 * (Packets s'' - Packets s) \<le> len (src reader))"
        using rest [of "fst x" "snd x"] by (simp add: state_ok_def flow_ok_def)
    qed
    from attempt_safe [OF DecodeFlowPacket_safe [of "LinkType q" "Data pkt"]] show ?thesis
    proof (cases rule: yieldsE)
      case (error x)
      then show ?thesis by (cases "DecodeFlowPacket (LinkType q) (Data pkt)" rule: attempt.cases) auto
    next
      case dec: (val x)
      show ?thesis
        using rest [OF e less.prems(2)] flow
        by (subst summarizeLoop.simps) (cases x; simp add: val(1) r dec(1) Let_def)
    qed
  qed
qed

theorem SummarizePCAP_safe:
  "yields (SummarizePCAP r eventLimit) (\<lambda>s.
     summary_ok (if eventLimit \<le> 0 then 100 else eventLimit) s \<and> 24 + 16 * Packets s \<le> len r)"
proof (cases "length r < 24")
  case True
  then show ?thesis by (simp add: SummarizePCAP_def NewPCAPReader_def pcapHeaderLen_def)
next
  case False
  let ?s = "\<lambda>reader. \<lparr> s_LinkType = LinkType reader, Packets = 0, DecodedFlows = 0, DecodeErrors = 0, DNS = [], TLS = [],
    HTTP = [], EventsDropped = 0 \<rparr> :: PCAPSummary"
  let ?l = "if eventLimit \<le> 0 then DefaultSummaryEventLimit else eventLimit"
  have init: "summary_ok ?l (?s reader)" "streams_capped newTCPSummaryStreams" for reader
    by (simp_all add: summary_ok_def events_def DefaultSummaryEventLimit_def streams_capped_def newTCPSummaryStreams_def)
  show ?thesis
    unfolding SummarizePCAP_def
  proof (rule yields_gbind [OF NewPCAPReader_safe])
    fix reader :: PCAPReader assume "src reader = drop 24 r"
    then show "yields (summarizeLoop ?l reader (?s reader, newTCPSummaryStreams)) (\<lambda>s.
        summary_ok (if eventLimit \<le> 0 then 100 else eventLimit) s \<and> 24 + 16 * Packets s \<le> len r)"
      using False by (intro yields_mono [OF summarizeLoop_safe [OF init]]) (auto simp: DefaultSummaryEventLimit_def)
  qed
qed

text \<open>
  A capture that ends right after a packet header counts as complete: the error for the missing data wraps
  \<open>io.EOF\<close>, which the loop takes for the end of the file. With one byte of data left it is an error.
\<close>

theorem truncated_capture:
  assumes "length (src p) = 16 + k" and "n = order32 (order p) (take 4 (drop 8 (src p)))"
    and "k < unat n" and "SnapLen p = 0 \<or> n \<le> SnapLen p" and "unat n \<le> DefaultSnapLen"
  shows "summarizeLoop limit p (s, streams) = (if k = 0 then Inr s else Inl (Fault (ShortPacketData False)))"
proof -
  have "slice (take 16 (src p)) 8 12 = Inr (take 4 (drop 8 (src p)))"
    using assms(1) by (simp add: slice_def drop_take min_def)
  moreover have "drop 16 (src p) = [] \<longleftrightarrow> k = 0" using assms(1) by simp
  moreover have "src p \<noteq> []" using assms(1) by auto
  ultimately have "Next p = Inl (Fault (ShortPacketData (k = 0)))"
    using assms by (auto simp: Next_def slice_def Let_def not_less)
  then show ?thesis by (subst summarizeLoop.simps) (simp add: is_EOF_def)
qed

end
