(* ===== verification/Tcpdump_Args.thy ===== *)
theory Tcpdump_Args
  imports Go_Strings Go_Time Net_Packet
begin

text \<open>
  The argument vector of a capture (\<open>internal/netcap/tcpdump.go\<close>). The helper runs \<open>tcpdump\<close> as root with
  these arguments, so what matters is which strings a request can put there: the theorems give the exact
  shape of every accepted vector and the conditions under which a request is refused.
\<close>

subsection \<open>Operations\<close>

datatype capErr =
    NoInterface
  | BadInterface string
  | NoOutput
  | BadDuration
  | BadSnapLen
  | BadProto string
  | BadHost string
  | BadPort int

record Options =
  Interface :: string
  Output :: string
  Duration :: duration
  o_SnapLen :: int
  Host :: string
  Port :: int
  Proto :: string

definition DefaultDuration :: duration where "DefaultDuration = 30 * Second"
definition MaxDuration :: duration where "MaxDuration = Minute"

definition is_alnum :: "char \<Rightarrow> bool" where
  "is_alnum c = (let n = (of_char c :: nat) in 97 \<le> n \<and> n \<le> 122 \<or> 65 \<le> n \<and> n \<le> 90 \<or> 48 \<le> n \<and> n \<le> 57)"

definition validToken :: "string \<Rightarrow> bool" where
  "validToken s = list_all (\<lambda>c. is_alnum c \<or> c = CHR ''_'' \<or> c = CHR ''-'' \<or> c = CHR ''.'') s"

definition validHost :: "string \<Rightarrow> bool" where
  "validHost s = (list_all (\<lambda>c. is_alnum c \<or> c = CHR ''-'' \<or> c = CHR ''.'' \<or> c = CHR '':'') s \<and> s \<noteq> [])"

definition appendBPFAnd :: "string list \<Rightarrow> string list \<Rightarrow> string list" where
  "appendBPFAnd parts nxt = (if parts \<noteq> [] then parts @ [''and''] else parts) @ nxt"

definition bpfFilterArgs :: "Options \<Rightarrow> (capErr, string list) go" where
  "bpfFilterArgs opts =
     gbind (if Proto opts \<noteq> [] then
              (let proto = to_lower (Proto opts)
               in if proto = ''tcp'' \<or> proto = ''udp'' then Inr [proto] else Inl (Fault (BadProto (Proto opts))))
            else Inr []) (\<lambda>parts.
     gbind (if Host opts \<noteq> [] then
              (if \<not> validHost (Host opts) then Inl (Fault (BadHost (Host opts)))
               else Inr (appendBPFAnd parts [''host'', Host opts]))
            else Inr parts) (\<lambda>parts.
     if Port opts > 0 then
       (if Port opts > 65535 then Inl (Fault (BadPort (Port opts)))
        else Inr (appendBPFAnd parts [''port'', dec (Port opts)]))
     else Inr parts))"

definition BuildTCPDumpArgs :: "Options \<Rightarrow> (capErr, string list) go" where
  "BuildTCPDumpArgs opts =
     (if Interface opts = [] then Inl (Fault NoInterface)
      else if \<not> validToken (Interface opts) then Inl (Fault (BadInterface (Interface opts)))
      else if Output opts = [] then Inl (Fault NoOutput)
      else let duration = (if Duration opts = 0 then DefaultDuration else Duration opts) in
        if duration \<le> 0 \<or> duration > MaxDuration then Inl (Fault BadDuration)
        else let snapLen = (if o_SnapLen opts = 0 then int DefaultSnapLen else o_SnapLen opts) in
          if snapLen < 96 \<or> snapLen > int DefaultSnapLen then Inl (Fault BadSnapLen)
          else gbind (bpfFilterArgs opts) (\<lambda>bpf.
            let args = [''-i'', Interface opts, ''-n'', ''-s'', dec snapLen];
                args = (if Output opts = ''-'' then args @ [''-U''] else args);
                args = args @ [''-w'', Output opts]
            in Inr (if bpf \<noteq> [] then args @ bpf else args)))"

subsection \<open>The shape of an accepted vector\<close>

definition filter_of :: "Options \<Rightarrow> string list" where
  "filter_of opts =
     (let parts = (if Proto opts \<noteq> [] then [to_lower (Proto opts)] else []);
          parts = (if Host opts \<noteq> [] then appendBPFAnd parts [''host'', Host opts] else parts)
      in if Port opts > 0 then appendBPFAnd parts [''port'', dec (Port opts)] else parts)"

definition effective_snap :: "Options \<Rightarrow> int" where
  "effective_snap opts = (if o_SnapLen opts = 0 then 262144 else o_SnapLen opts)"

definition args_of :: "Options \<Rightarrow> string list" where
  "args_of opts = [''-i'', Interface opts, ''-n'', ''-s'', dec (effective_snap opts)]
     @ (if Output opts = ''-'' then [''-U''] else []) @ [''-w'', Output opts] @ filter_of opts"

definition options_ok :: "Options \<Rightarrow> bool" where
  "options_ok opts \<longleftrightarrow>
     Interface opts \<noteq> [] \<and> validToken (Interface opts) \<and> Output opts \<noteq> [] \<and>
     0 \<le> Duration opts \<and> Duration opts \<le> 60000000000 \<and>
     96 \<le> effective_snap opts \<and> effective_snap opts \<le> 262144 \<and>
     (Proto opts = [] \<or> to_lower (Proto opts) \<in> {''tcp'', ''udp''}) \<and>
     (Host opts = [] \<or> validHost (Host opts)) \<and> Port opts \<le> 65535"

lemma bpfFilterArgs_iff:
  "bpfFilterArgs opts = Inr bpf \<longleftrightarrow>
     (Proto opts = [] \<or> to_lower (Proto opts) \<in> {''tcp'', ''udp''}) \<and>
     (Host opts = [] \<or> validHost (Host opts)) \<and> Port opts \<le> 65535 \<and> bpf = filter_of opts"
  by (cases "Proto opts = []"; cases "Host opts = []")
    (auto simp: bpfFilterArgs_def filter_of_def Let_def)

theorem BuildTCPDumpArgs_iff:
  "BuildTCPDumpArgs opts = Inr args \<longleftrightarrow> options_ok opts \<and> args = args_of opts"
  unfolding BuildTCPDumpArgs_def Let_def options_ok_def args_of_def effective_snap_def DefaultSnapLen_def
    DefaultDuration_def MaxDuration_def Minute_def Second_def
  by (auto simp: gbind_eq_Inr bpfFilterArgs_iff)

end
