(* ===== verification/Source_Map.thy ===== *)
theory Source_Map
  imports Go_Strings Go_Time
begin

text \<open>
  Source Map v3 (\<open>internal/sourcemap/sourcemap.go\<close>): base64-VLQ mappings and the lookup of a generated
  position. The JSON decoder is a parameter. The theorems show that encoded numbers are read back, that a
  decoded map is sorted line by line, and that the lookup returns the last mapping at or before the column.
\<close>

subsection \<open>Data\<close>

datatype smerr = BadJSON | BadVersion int | FieldCount nat | BadDigit char | TruncatedVLQ

record Position =
  Source :: string
  p_Line :: int
  Column :: int
  p_Name :: string

record segment =
  genCol :: int
  sourceIdx :: int
  srcLine :: int
  srcCol :: int
  nameIdx :: int
  hasSource :: bool
  hasName :: bool

record SourceMap =
  sources :: "string list"
  sm_names :: "string list"
  root :: string
  sm_lines :: "segment list list"

record rawMap =
  raw_Version :: int
  raw_Sources :: "string list"
  raw_Names :: "string list"
  Mappings :: string
  SourceRoot :: string

record accum =
  a_sourceIdx :: int
  a_srcLine :: int
  a_srcCol :: int
  a_nameIdx :: int

definition base64Alphabet :: string where
  "base64Alphabet = ''ABCDEFGHIJKLMNOPQRSTUVWXYZabcdefghijklmnopqrstuvwxyz0123456789+/''"

subsection \<open>Decoding\<close>

text \<open>\<open>strings.IndexByte\<close>, with \<open>None\<close> for \<open>-1\<close>.\<close>

fun index_byte :: "string \<Rightarrow> char \<Rightarrow> nat option" where
  "index_byte [] c = None"
| "index_byte (x # xs) c = (if x = c then Some 0 else map_option Suc (index_byte xs c))"

text \<open>Shifts and sums are those of \<open>int64\<close>; \<open>value >> 1\<close> rounds down.\<close>

fun vlqLoop :: "string \<Rightarrow> int list \<Rightarrow> nat \<Rightarrow> int \<Rightarrow> (smerr, int list) go" where
  "vlqLoop [] out shift val = (if shift \<noteq> 0 then Inl (Fault TruncatedVLQ) else Inr out)"
| "vlqLoop (c # seg) out shift val =
     (case index_byte base64Alphabet c of
        None \<Rightarrow> Inl (Fault (BadDigit c))
      | Some d \<Rightarrow>
          (let val = wrap64 (val + wrap64 (int (d mod 32) * 2 ^ shift)) in
           if d div 32 mod 2 \<noteq> 0 then vlqLoop seg out (shift + 5) val
           else let v = val div 2 in vlqLoop seg (out @ [if val mod 2 \<noteq> 0 then - v else v]) 0 0))"

definition decodeVLQ :: "string \<Rightarrow> (smerr, int list) go" where
  "decodeVLQ seg = vlqLoop seg [] 0 0"

definition buildSegment :: "int list \<Rightarrow> int \<Rightarrow> accum \<Rightarrow> (smerr, segment \<times> int \<times> accum) go" where
  "buildSegment vals gen a =
     (if length vals \<noteq> 1 \<and> length vals \<noteq> 4 \<and> length vals \<noteq> 5 then Inl (Fault (FieldCount (length vals)))
      else gbind (idx vals 0) (\<lambda>v0.
        let gen = wrap64 (gen + v0);
            s = \<lparr> genCol = gen, sourceIdx = 0, srcLine = 0, srcCol = 0, nameIdx = -1, hasSource = False, hasName = False \<rparr>
        in gbind (if length vals \<ge> 4 then
                    gbind (idx vals 1) (\<lambda>v1.
                    gbind (idx vals 2) (\<lambda>v2.
                    gbind (idx vals 3) (\<lambda>v3.
                    let a = a \<lparr> a_sourceIdx := wrap64 (a_sourceIdx a + v1), a_srcLine := wrap64 (a_srcLine a + v2),
                               a_srcCol := wrap64 (a_srcCol a + v3) \<rparr>
                    in Inr (s \<lparr> sourceIdx := a_sourceIdx a, srcLine := a_srcLine a, srcCol := a_srcCol a, hasSource := True \<rparr>, a))))
                  else Inr (s, a)) (\<lambda>(s, a).
           if length vals = 5 then
             gbind (idx vals 4) (\<lambda>v4.
             let a = a \<lparr> a_nameIdx := wrap64 (a_nameIdx a + v4) \<rparr>
             in Inr (s \<lparr> nameIdx := a_nameIdx a, hasName := True \<rparr>, gen, a))
           else Inr (s, gen, a))))"

definition rawSegment ::
    "string \<Rightarrow> segment list \<times> int \<times> accum \<Rightarrow> (smerr, segment list \<times> int \<times> accum) go" where
  "rawSegment raw st =
     (case st of (segs, gen, a) \<Rightarrow>
        if raw = [] then Inr st
        else gbind (decodeVLQ raw) (\<lambda>vals.
             gbind (buildSegment vals gen a) (\<lambda>(s, gen, a).
             Inr (segs @ [s], gen, a))))"

definition seg_less :: "segment \<Rightarrow> segment \<Rightarrow> bool" where
  "seg_less x y = (genCol x < genCol y)"

definition mappingLine ::
    "string \<Rightarrow> segment list list \<times> accum \<Rightarrow> (smerr, segment list list \<times> accum) go" where
  "mappingLine line st =
     (case st of (ls, a) \<Rightarrow>
        if line = [] then Inr (ls @ [[]], a)
        else gbind (gfold rawSegment (split_on (CHR '','') line) ([], 0, a)) (\<lambda>(segs, gen, a).
             Inr (ls @ [sort_slice seg_less segs], a)))"

definition decodeMappings :: "string \<Rightarrow> (smerr, segment list list) go" where
  "decodeMappings mappings =
     gbind (gfold mappingLine (split_on (CHR '';'') mappings) ([], \<lparr> a_sourceIdx = 0, a_srcLine = 0, a_srcCol = 0, a_nameIdx = 0 \<rparr>))
       (\<lambda>(ls, a). Inr ls)"

definition Parse :: "(byte list \<Rightarrow> rawMap option) \<Rightarrow> byte list \<Rightarrow> (smerr, SourceMap) go" where
  "Parse unmarshal data =
     (case unmarshal data of
        None \<Rightarrow> Inl (Fault BadJSON)
      | Some r \<Rightarrow>
          if raw_Version r \<noteq> 0 \<and> raw_Version r \<noteq> 3 then Inl (Fault (BadVersion (raw_Version r)))
          else gbind (decodeMappings (Mappings r)) (\<lambda>ls.
               Inr \<lparr> sources = raw_Sources r, sm_names = raw_Names r, root = SourceRoot r, sm_lines = ls \<rparr>))"

subsection \<open>Lookup\<close>

definition noPosition :: Position where
  "noPosition = \<lparr> Source = [], p_Line = 0, Column = 0, p_Name = [] \<rparr>"

definition Lookup :: "int \<Rightarrow> int \<Rightarrow> SourceMap \<Rightarrow> (smerr, Position \<times> bool) go" where
  "Lookup genLine col sm =
     (let li = wrap64 (genLine - 1) in
      if li < 0 \<or> li \<ge> int (length (sm_lines sm)) then Inr (noPosition, False)
      else gbind (idx (sm_lines sm) li) (\<lambda>segs.
        if segs = [] then Inr (noPosition, False)
        else let i = int (sort_search (length segs) (\<lambda>i. genCol (segs ! i) > col)) - 1 in
          if i < 0 then Inr (noPosition, False)
          else gbind (idx segs i) (\<lambda>s.
            if \<not> hasSource s then Inr (noPosition, False)
            else let pos = noPosition \<lparr> p_Line := wrap64 (srcLine s + 1), Column := srcCol s \<rparr> in
              gbind (if sourceIdx s \<ge> 0 \<and> sourceIdx s < int (length (sources sm))
                     then gbind (idx (sources sm) (sourceIdx s)) (\<lambda>f. Inr (pos \<lparr> Source := root sm @ f \<rparr>))
                     else Inr pos) (\<lambda>pos.
              gbind (if hasName s \<and> nameIdx s \<ge> 0 \<and> nameIdx s < int (length (sm_names sm))
                     then gbind (idx (sm_names sm) (nameIdx s)) (\<lambda>n. Inr (pos \<lparr> p_Name := n \<rparr>))
                     else Inr pos) (\<lambda>pos.
              Inr (pos, True))))))"

subsection \<open>Encoded numbers are read back\<close>

function enc_digits :: "nat \<Rightarrow> string" where
  "enc_digits n =
     (if n < 32 then [base64Alphabet ! n] else base64Alphabet ! (n mod 32 + 32) # enc_digits (n div 32))"
  by pat_completeness auto
termination by (relation "measure id") auto

declare enc_digits.simps [simp del]

definition enc_vlq :: "int \<Rightarrow> string" where
  "enc_vlq v = enc_digits (nat (if v < 0 then - 2 * v + 1 else 2 * v))"

lemma index_byte_nth: "distinct xs \<Longrightarrow> n < length xs \<Longrightarrow> index_byte xs (xs ! n) = Some n"
  by (induction xs arbitrary: n) (auto simp: nth_Cons split: nat.splits)

lemma index_alphabet: "n < 64 \<Longrightarrow> index_byte base64Alphabet (base64Alphabet ! n) = Some n"
  by (rule index_byte_nth) (simp_all add: base64Alphabet_def)

lemma vlqLoop_digits:
  assumes "0 \<le> val" and "val + int n * 2 ^ shift < 2 ^ 63"
  shows "vlqLoop (enc_digits n @ seg) out shift val =
    vlqLoop seg (out @ [let t = val + int n * 2 ^ shift in if t mod 2 \<noteq> 0 then - (t div 2) else t div 2]) 0 0"
  using assms
proof (induction n arbitrary: val shift rule: enc_digits.induct)
  case (1 n)
  have nonneg: "0 \<le> int k * 2 ^ shift" for k :: nat by simp
  show ?case
  proof (cases "n < 32")
    case True
    have "int n * 2 ^ shift < 2 ^ 63" using "1.prems" by linarith
    then have "wrap64 (int n * 2 ^ shift) = int n * 2 ^ shift"
      using nonneg [of n] by (intro wrap64_id) linarith+
    moreover have "wrap64 (val + int n * 2 ^ shift) = val + int n * 2 ^ shift"
      using "1.prems" nonneg [of n] by (intro wrap64_id) linarith+
    ultimately show ?thesis
      using True by (simp add: enc_digits.simps [of n] index_alphabet Let_def)
  next
    case False
    let ?d = "int (n mod 32) * 2 ^ shift"
    have split: "int n * 2 ^ shift = ?d + int (n div 32) * 2 ^ (shift + 5)"
    proof -
      have "int n = int (n mod 32) + int (n div 32) * 32"
        by presburger
      then have "int n * 2 ^ shift = (int (n mod 32) + int (n div 32) * 32) * 2 ^ shift" by simp
      then show ?thesis by (simp add: algebra_simps power_add)
    qed
    have rest: "0 \<le> int (n div 32) * (2 ^ (shift + 5) :: int)" by simp
    have w: "wrap64 ?d = ?d" "wrap64 (val + ?d) = val + ?d"
      using "1.prems" nonneg [of "n mod 32"] rest unfolding split by (intro wrap64_id; linarith)+
    have "vlqLoop (enc_digits n @ seg) out shift val = vlqLoop (enc_digits (n div 32) @ seg) out (shift + 5) (val + ?d)"
      using False by (simp add: enc_digits.simps [of n] index_alphabet w Let_def)
    also have "\<dots> = vlqLoop seg (out @ [let t = val + ?d + int (n div 32) * 2 ^ (shift + 5) in
        if t mod 2 \<noteq> 0 then - (t div 2) else t div 2]) 0 0"
      using "1.prems" nonneg [of "n mod 32"] unfolding split by (intro "1.IH" [OF False]) linarith+
    also have "val + ?d + int (n div 32) * 2 ^ (shift + 5) = val + int n * 2 ^ shift"
      unfolding split by simp
    finally show ?thesis .
  qed
qed

lemma vlqLoop_number:
  assumes "\<bar>v\<bar> < 2 ^ 62"
  shows "vlqLoop (enc_vlq v @ seg) out 0 0 = vlqLoop seg (out @ [v]) 0 0"
proof -
  let ?n = "nat (if v < 0 then - 2 * v + 1 else 2 * v)"
  have "(let t = 0 + int ?n * 2 ^ 0 in if t mod 2 \<noteq> 0 then - (t div 2) else t div 2) = v"
    by (simp add: Let_def) presburger
  moreover have "0 + int ?n * 2 ^ 0 < 2 ^ 63" using assms by auto
  ultimately show ?thesis
    using vlqLoop_digits [of 0 ?n 0 seg out] unfolding enc_vlq_def by simp
qed

theorem vlq_round_trip:
  assumes "\<forall>v\<in>set vs. \<bar>v\<bar> < 2 ^ 62"
  shows "decodeVLQ (concat (map enc_vlq vs)) = Inr vs"
proof -
  have "vlqLoop (concat (map enc_vlq vs)) out 0 0 = Inr (out @ vs)" for out
    using assms by (induction vs arbitrary: out) (simp_all add: vlqLoop_number)
  from this [of "[]"] show ?thesis by (simp add: decodeVLQ_def)
qed

subsection \<open>The lookup is a linear search\<close>

interpretation by_gen_col: comparator seg_less
  by unfold_locales (auto simp: seg_less_def)

definition line_sorted :: "segment list \<Rightarrow> bool" where
  "line_sorted l \<longleftrightarrow> sorted_wrt (\<lambda>x y. genCol x \<le> genCol y) l"

definition lines_sorted :: "segment list list \<Rightarrow> bool" where
  "lines_sorted ls \<longleftrightarrow> list_all line_sorted ls"

lemma line_sorted_sort: "line_sorted (sort_slice seg_less segs)"
  using by_gen_col.sorted_sort_slice [of segs] by (simp add: line_sorted_def seg_less_def not_less)

lemma vlqLoop_safe: "yields (vlqLoop seg out shift val) (\<lambda>_. True)"
  by (induction seg out shift val rule: vlqLoop.induct) (simp_all add: Let_def split: option.splits)

lemma buildSegment_safe: "yields (buildSegment vals gen a) (\<lambda>_. True)"
  by (auto simp: buildSegment_def Let_def idx_def)

lemma rawSegment_safe: "yields (rawSegment raw st) (\<lambda>_. True)"
  unfolding rawSegment_def decodeVLQ_def
  by (auto intro!: yields_gbind [OF vlqLoop_safe] yields_gbind [OF buildSegment_safe] split: prod.splits)

lemma yields_gfold:
  assumes "P s" and "\<And>x s. P s \<Longrightarrow> yields (f x s) P"
  shows "yields (gfold f xs s) P"
  using assms(1) by (induction xs arbitrary: s) (auto intro: yields_gbind assms(2))

lemma mappingLine_safe: "lines_sorted (fst st) \<Longrightarrow> yields (mappingLine line st) (\<lambda>st'. lines_sorted (fst st'))"
  unfolding mappingLine_def
  by (auto simp: lines_sorted_def line_sorted_def [of "[]"] line_sorted_sort split: prod.splits
      intro!: yields_gbind [OF yields_gfold [where P = "\<lambda>_. True", OF _ rawSegment_safe]])

lemma decodeMappings_sorted: "yields (decodeMappings mappings) lines_sorted"
  unfolding decodeMappings_def
  by (rule yields_gbind [OF yields_gfold [where P = "\<lambda>st. lines_sorted (fst st)", OF _ mappingLine_safe]])
    (auto simp: lines_sorted_def)

theorem Parse_sorted: "yields (Parse unmarshal data) (\<lambda>sm. lines_sorted (sm_lines sm))"
  unfolding Parse_def
  by (cases "unmarshal data") (auto intro!: yields_gbind [OF decodeMappings_sorted])

text \<open>The reference: the last segment of the line that starts at or before the column.\<close>

definition position_of :: "SourceMap \<Rightarrow> segment \<Rightarrow> Position" where
  "position_of sm s =
     \<lparr> Source = (if 0 \<le> sourceIdx s \<and> sourceIdx s < int (length (sources sm)) then root sm @ sources sm ! nat (sourceIdx s) else []),
       p_Line = wrap64 (srcLine s + 1), Column = srcCol s,
       p_Name = (if hasName s \<and> 0 \<le> nameIdx s \<and> nameIdx s < int (length (sm_names sm)) then sm_names sm ! nat (nameIdx s) else []) \<rparr>"

definition line_of :: "SourceMap \<Rightarrow> int \<Rightarrow> segment list" where
  "line_of sm n = (if 1 \<le> n \<and> n \<le> int (length (sm_lines sm)) then sm_lines sm ! nat (n - 1) else [])"

definition linear_lookup :: "int \<Rightarrow> int \<Rightarrow> SourceMap \<Rightarrow> Position \<times> bool" where
  "linear_lookup genLine col sm =
     (let before = filter (\<lambda>s. genCol s \<le> col) (line_of sm genLine) in
      if before = [] \<or> \<not> hasSource (last before) then (noPosition, False) else (position_of sm (last before), True))"

lemma filter_before:
  fixes col :: int
  assumes "line_sorted segs"
  defines "n \<equiv> sort_search (length segs) (\<lambda>i. genCol (segs ! i) > col)"
  shows "filter (\<lambda>s. genCol s \<le> col) segs = take n segs" and "n \<le> length segs"
proof -
  have mono: "genCol (segs ! b) > col" if "a \<le> b" "b < length segs" "genCol (segs ! a) > col" for a b
  proof (cases "a = b")
    case False
    then have "genCol (segs ! a) \<le> genCol (segs ! b)"
      using that(1,2) assms(1) by (auto simp: line_sorted_def sorted_wrt_iff_nth_less)
    then show ?thesis using that(3) by linarith
  qed (use that in simp)
  note spec = sort_search_spec [of "length segs" "\<lambda>i. genCol (segs ! i) > col", OF mono, folded n_def]
  show n: "n \<le> length segs" by (rule spec(1))
  have t: "\<forall>s\<in>set (take n segs). genCol s \<le> col"
    using spec(2) n by (auto simp: in_set_conv_nth not_less)
  have d: "\<forall>s\<in>set (drop n segs). \<not> genCol s \<le> col"
    using spec(3) by (auto simp: in_set_conv_nth not_le)
  have "filter (\<lambda>s. genCol s \<le> col) segs = filter (\<lambda>s. genCol s \<le> col) (take n segs) @ filter (\<lambda>s. genCol s \<le> col) (drop n segs)"
    by (simp flip: filter_append)
  then show "filter (\<lambda>s. genCol s \<le> col) segs = take n segs"
    using t d by (simp add: filter_id_conv filter_empty_conv)
qed

lemma resolve_segment:
  "gbind (if sourceIdx s \<ge> 0 \<and> sourceIdx s < int (length (sources sm))
          then gbind (idx (sources sm) (sourceIdx s)) (\<lambda>f. Inr (pos \<lparr> Source := root sm @ f \<rparr>)) else Inr pos) (\<lambda>pos.
   gbind (if hasName s \<and> nameIdx s \<ge> 0 \<and> nameIdx s < int (length (sm_names sm))
          then gbind (idx (sm_names sm) (nameIdx s)) (\<lambda>n. Inr (pos \<lparr> p_Name := n \<rparr>)) else Inr pos) (\<lambda>pos. Inr (pos, True)))
     = Inr (position_of sm s, True)"
  if "pos = noPosition \<lparr> p_Line := wrap64 (srcLine s + 1), Column := srcCol s \<rparr>"
  unfolding that by (simp add: position_of_def noPosition_def)

theorem Lookup_linear:
  assumes "lines_sorted (sm_lines sm)" and "- (2 ^ 63) < genLine" "genLine < 2 ^ 63"
  shows "Lookup genLine col sm = Inr (linear_lookup genLine col sm)"
proof -
  have w: "wrap64 (genLine - 1) = genLine - 1" using assms(2,3) by (intro wrap64_id) auto
  show ?thesis
  proof (cases "1 \<le> genLine \<and> genLine \<le> int (length (sm_lines sm)) \<and> line_of sm genLine \<noteq> []")
    case False
    then show ?thesis
      by (auto simp: Lookup_def w Let_def linear_lookup_def line_of_def idx_def)
  next
    case True
    define segs where "segs = line_of sm genLine"
    define n where "n = sort_search (length segs) (\<lambda>i. genCol (segs ! i) > col)"
    have i: "idx (sm_lines sm) (genLine - 1) = Inr segs" "segs \<noteq> []"
      using True by (auto simp: segs_def line_of_def idx_def)
    have "segs \<in> set (sm_lines sm)" using True by (auto simp: segs_def line_of_def)
    then have "line_sorted segs" using assms(1) by (auto simp: lines_sorted_def list_all_iff)
    note f = filter_before [OF this, of col, folded n_def]
    have last: "last (take n segs) = segs ! (n - 1)" "take n segs \<noteq> []" if "0 < n"
      using that f(2) i(2) by (simp_all add: last_conv_nth min_def)
    have s: "idx segs (int n - 1) = Inr (segs ! (n - 1))" if "0 < n"
      using that f(2) by (simp add: idx_def nat_diff_distrib')
    show ?thesis
      using True last
      by (auto simp: Lookup_def w Let_def i s resolve_segment linear_lookup_def f(1) simp flip: segs_def n_def)
  qed
qed

theorem lookup_after_parse:
  assumes "Parse unmarshal data = Inr sm" and "- (2 ^ 63) < genLine" "genLine < 2 ^ 63"
  shows "Lookup genLine col sm = Inr (linear_lookup genLine col sm)"
  using Parse_sorted [of unmarshal data] assms by (intro Lookup_linear) (auto simp: yields_def)

end
