(* ===== verification/Process_Tree.thy ===== *)
theory Process_Tree
  imports Go_Prelude
begin

text \<open>
  Process trees (\<open>internal/process/tree.go\<close>, \<open>internal/process/process.go\<close>). The walk to the ancestors is
  a loop without a bound, modelled as a partial function whose value \<open>None\<close> is a loop that never ends. The
  theorems characterise the result whenever the parent chains end, show that they end when parents decrease
  some rank, and show that one process which is its own parent makes the scoping run forever.
\<close>

subsection \<open>Operations\<close>

text \<open>The fields of \<open>Info\<close> these operations read; the others are carried along unchanged.\<close>

record Info =
  i_PID :: int
  i_PPID :: int
  AppPath :: string
  i_RSSKiB :: i64

record TreeNode =
  t_Info :: Info
  Children :: "int list"

text \<open>\<open>byPID[p.PID] = p\<close> in the order of the listing.\<close>

definition byPID :: "Info list \<Rightarrow> (int, Info) gomap" where
  "byPID procs = fold (\<lambda>p. mput (i_PID p) p) procs []"

text \<open>
  The inner loop of the scoping: climb from \<open>pid\<close> until a process is missing from the listing or is the
  one the walk started at, keeping every process on the way.
\<close>

partial_function (option) climb :: "(int, Info) gomap \<Rightarrow> int \<Rightarrow> int \<Rightarrow> int list \<Rightarrow> int list option" where
  [code]: "climb m self pid keep =
     (case map_of m pid of
        None \<Rightarrow> Some keep
      | Some parent \<Rightarrow>
          if i_PID parent = self then Some keep
          else climb m self (i_PPID parent) (i_PID parent # keep))"

fun climbAll :: "(int, Info) gomap \<Rightarrow> Info list \<Rightarrow> int list \<Rightarrow> int list option" where
  "climbAll m [] keep = Some keep"
| "climbAll m (p # ps) keep =
     (if AppPath p = [] then climbAll m ps keep
      else case climb m (i_PID p) (i_PPID p) keep of None \<Rightarrow> None | Some keep \<Rightarrow> climbAll m ps keep)"

definition ScopeTreeProcesses :: "Info list \<Rightarrow> Info list option" where
  "ScopeTreeProcesses procs =
     (if procs = [] then Some []
      else let keep = map i_PID (filter (\<lambda>p. AppPath p \<noteq> []) procs) in
           case climbAll (byPID procs) procs keep of
             None \<Rightarrow> None
           | Some keep \<Rightarrow> Some (filter (\<lambda>p. i_PID p \<in> set keep) procs))"

definition TotalRSS :: "Info list \<Rightarrow> i64" where
  "TotalRSS procs = fold (\<lambda>p total. total + i_RSSKiB p) procs 0"

text \<open>A node's children are pointers to nodes, which are addressed by their process identifier.\<close>

definition linkNode ::
    "Info \<Rightarrow> (int, TreeNode) gomap \<times> int list \<Rightarrow> (int, TreeNode) gomap \<times> int list" where
  "linkNode p st =
     (case st of (nodes, roots) \<Rightarrow>
        (case map_of nodes (i_PPID p) of
           Some parent \<Rightarrow>
             if i_PPID p \<noteq> i_PID p then (mput (i_PPID p) (parent \<lparr> Children := Children parent @ [i_PID p] \<rparr>) nodes, roots)
             else (nodes, roots @ [i_PID p])
         | None \<Rightarrow> (nodes, roots @ [i_PID p])))"

definition BuildTree :: "Info list \<Rightarrow> (int, TreeNode) gomap \<times> int list" where
  "BuildTree procs =
     (let nodes = fold (\<lambda>p. mput (i_PID p) \<lparr> t_Info = p, Children = [] \<rparr>) procs []
      in fold linkNode procs (nodes, []))"

definition TreeService_Build :: "Info list \<Rightarrow> bool \<Rightarrow> ((int, TreeNode) gomap \<times> int list) option" where
  "TreeService_Build procs scoped =
     (if scoped then map_option BuildTree (ScopeTreeProcesses procs) else Some (BuildTree procs))"

subsection \<open>The ancestors of a process\<close>

lemma map_of_byPID_gen:
  "map_of (fold (\<lambda>p. mput (i_PID p) (f p)) procs m) pid =
     (case find (\<lambda>p. i_PID p = pid) (rev procs) of None \<Rightarrow> map_of m pid | Some p \<Rightarrow> Some (f p))"
  by (induction procs rule: rev_induct) (auto split: option.splits)

lemma map_of_byPID:
  assumes "distinct (map i_PID procs)"
  shows "map_of (byPID procs) pid = Some p \<longleftrightarrow> p \<in> set procs \<and> i_PID p = pid"
proof -
  have "find (\<lambda>p. i_PID p = pid) (rev procs) = Some p \<longleftrightarrow> p \<in> set procs \<and> i_PID p = pid"
    using assms
  proof (induction procs rule: rev_induct)
    case (snoc q procs)
    then show ?case by (auto simp: image_iff)
  qed simp
  then show ?thesis
    using map_of_byPID_gen [of "\<lambda>p. p" procs "[]" pid] by (auto simp: byPID_def split: option.splits)
qed

text \<open>\<open>q\<close> is met when climbing from \<open>pid\<close> before the walk comes back to \<open>self\<close>.\<close>

inductive meets :: "(int, Info) gomap \<Rightarrow> int \<Rightarrow> int \<Rightarrow> int \<Rightarrow> bool" for m self where
  here: "map_of m pid = Some p \<Longrightarrow> i_PID p \<noteq> self \<Longrightarrow> meets m self pid (i_PID p)"
| up: "map_of m pid = Some p \<Longrightarrow> i_PID p \<noteq> self \<Longrightarrow> meets m self (i_PPID p) q \<Longrightarrow> meets m self pid q"

inductive_simps meets_iff: "meets m self pid q"

lemma climb_keeps:
  assumes "climb m self pid keep = Some r"
  shows "set r = set keep \<union> {q. meets m self pid q}"
proof (rule climb.raw_induct [where P = "\<lambda>m self pid keep r. set r = set keep \<union> {q. meets m self pid q}", OF _ assms])
  fix cl m self pid keep r
  assume IH: "\<And>m self pid keep r. cl m self pid keep = Some r \<Longrightarrow> set r = set keep \<union> {q. meets m self pid q}"
    and body: "(case map_of m pid of None \<Rightarrow> Some keep
      | Some parent \<Rightarrow> if i_PID parent = self then Some keep else cl m self (i_PPID parent) (i_PID parent # keep)) = Some r"
  show "set r = set keep \<union> {q. meets m self pid q}"
  proof (cases "\<exists>p. map_of m pid = Some p \<and> i_PID p \<noteq> self")
    case False
    then have "r = keep" using body by (auto split: option.splits if_splits)
    then show ?thesis using False by (auto simp: meets_iff [of m self pid])
  next
    case True
    then obtain p where p: "map_of m pid = Some p" "i_PID p \<noteq> self" by blast
    then have "set r = set (i_PID p # keep) \<union> {q. meets m self (i_PPID p) q}"
      using body by (intro IH) simp
    then show ?thesis using p by (auto simp: meets_iff [of m self pid])
  qed
qed

text \<open>Where every parent in the listing has a smaller rank, the climb ends.\<close>

lemma climb_ends:
  assumes "\<And>pid p. map_of m pid = Some p \<Longrightarrow> i_PPID p \<in> dom (map_of m) \<Longrightarrow> rank (i_PPID p) < (rank pid :: nat)"
  shows "\<exists>r. climb m self pid keep = Some r"
proof (induction "rank pid" arbitrary: pid keep rule: less_induct)
  case less
  show ?case
  proof (cases "map_of m pid")
    case (Some p)
    show ?thesis
    proof (cases "i_PPID p \<in> dom (map_of m)")
      case True
      then show ?thesis using less [OF assms [OF Some True]] by (subst climb.simps) (simp add: Some)
    next
      case False
      then show ?thesis by (subst climb.simps) (simp add: Some climb.simps [of m self "i_PPID p"] domIff)
    qed
  qed (subst climb.simps, simp)
qed

lemma climb_never_ends:
  assumes "\<And>pid. pid \<in> C \<Longrightarrow> \<exists>p. map_of m pid = Some p \<and> i_PID p \<noteq> self \<and> i_PPID p \<in> C" and "pid \<in> C"
  shows "climb m self pid keep = None"
proof (rule ccontr)
  assume "climb m self pid keep \<noteq> None"
  then obtain r where r: "climb m self pid keep = Some r" by auto
  have "m = m \<longrightarrow> self = self \<longrightarrow> pid \<notin> C"
  proof (rule climb.raw_induct [where P = "\<lambda>m' self' pid keep r. m' = m \<longrightarrow> self' = self \<longrightarrow> pid \<notin> C", OF _ r], intro impI notI)
    fix cl m' self' pid keep r
    assume IH: "\<And>m' self' pid keep r. cl m' self' pid keep = Some r \<Longrightarrow> m' = m \<longrightarrow> self' = self \<longrightarrow> pid \<notin> C"
      and body: "(case map_of m' pid of None \<Rightarrow> Some keep
        | Some parent \<Rightarrow> if i_PID parent = self' then Some keep else cl m' self' (i_PPID parent) (i_PID parent # keep)) = Some r"
      and same: "m' = m" "self' = self" and C: "pid \<in> C"
    obtain p where p: "map_of m pid = Some p" "i_PID p \<noteq> self" "i_PPID p \<in> C" using assms(1) [OF C] by blast
    then have "cl m self (i_PPID p) (i_PID p # keep) = Some r" using body same by simp
    then show False using IH p(3) by blast
  qed
  then show False using assms(2) by simp
qed

subsection \<open>Scoping\<close>

lemma climbAll_keeps:
  "climbAll m ps keep = Some r \<Longrightarrow>
     set r = set keep \<union> {q. \<exists>p\<in>set ps. AppPath p \<noteq> [] \<and> meets m (i_PID p) (i_PPID p) q}"
proof (induction ps arbitrary: keep)
  case (Cons p ps)
  show ?case
  proof (cases "AppPath p = []")
    case False
    then obtain k where k: "climb m (i_PID p) (i_PPID p) keep = Some k" "climbAll m ps k = Some r"
      using Cons.prems by (auto split: option.splits)
    show ?thesis using Cons.IH [OF k(2)] climb_keeps [OF k(1)] False by auto
  qed (use Cons in auto)
qed simp

lemma climbAll_ends:
  assumes "\<And>self pid keep. \<exists>r. climb m self pid keep = Some r"
  shows "\<exists>r. climbAll m ps keep = Some r"
proof (induction ps arbitrary: keep)
  case (Cons p ps)
  obtain k where "climb m (i_PID p) (i_PPID p) keep = Some k" using assms by blast
  then show ?case using Cons.IH by simp
qed simp

definition related :: "Info list \<Rightarrow> Info \<Rightarrow> bool" where
  "related procs p \<longleftrightarrow> AppPath p \<noteq> [] \<or>
     (\<exists>a\<in>set procs. AppPath a \<noteq> [] \<and> meets (byPID procs) (i_PID a) (i_PPID a) (i_PID p))"

text \<open>
  When parents decrease a rank, the scoping ends and keeps exactly the attributed processes and the
  processes met on the way up from one of them.
\<close>

theorem ScopeTreeProcesses_scope:
  assumes "distinct (map i_PID procs)"
    and "\<forall>p\<in>set procs. \<forall>q\<in>set procs. i_PPID p = i_PID q \<longrightarrow> rank (i_PID q) < (rank (i_PID p) :: nat)"
  shows "ScopeTreeProcesses procs = Some (filter (related procs) procs)"
proof (cases "procs = []")
  case False
  let ?m = "byPID procs" and ?keep = "map i_PID (filter (\<lambda>p. AppPath p \<noteq> []) procs)"
  note m = map_of_byPID [OF assms(1)]
  have "rank (i_PPID p) < rank pid" if found: "map_of ?m pid = Some p" "i_PPID p \<in> dom (map_of ?m)" for pid p
  proof -
    obtain q where "p \<in> set procs" "i_PID p = pid" "q \<in> set procs" "i_PID q = i_PPID p"
      using found by (auto simp: m)
    then show ?thesis using assms(2) by metis
  qed
  then have "\<exists>r. climb ?m self pid keep = Some r" for self pid keep
    by (rule climb_ends)
  then obtain r where r: "climbAll ?m procs ?keep = Some r"
    using climbAll_ends by blast
  have "i_PID p \<in> set ?keep \<longleftrightarrow> AppPath p \<noteq> []" if "p \<in> set procs" for p
    using that assms(1) by (auto dest: inj_onD simp: distinct_map image_iff)
  then have "filter (\<lambda>p. i_PID p \<in> set r) procs = filter (related procs) procs"
    by (intro filter_cong) (auto simp: climbAll_keeps [OF r] related_def)
  then show ?thesis by (simp add: ScopeTreeProcesses_def False r Let_def)
qed (simp add: ScopeTreeProcesses_def)

text \<open>An ancestor that is its own parent makes the walk run forever.\<close>

theorem ScopeTreeProcesses_diverges:
  assumes "distinct (map i_PID procs)" and "p \<in> set procs" "AppPath p \<noteq> []"
    and "q \<in> set procs" "i_PPID q = i_PID q" "i_PPID p = i_PID q" "i_PID p \<noteq> i_PID q"
  shows "ScopeTreeProcesses procs = None"
proof -
  have q: "map_of (byPID procs) (i_PID q) = Some q"
    using assms(4) by (simp add: map_of_byPID [OF assms(1)])
  have never: "climb (byPID procs) (i_PID p) (i_PPID p) keep = None" for keep
    using assms(5-7) q by (intro climb_never_ends [where C = "{i_PID q}"]) auto
  have "climbAll (byPID procs) ps keep = None" if "p \<in> set ps" for ps keep
    using that by (induction ps arbitrary: keep) (use never assms(3) in \<open>auto split: option.splits\<close>)
  moreover have "procs \<noteq> []" using assms(2) by auto
  ultimately show ?thesis using assms(2) by (simp add: ScopeTreeProcesses_def Let_def)
qed

subsection \<open>The tree\<close>

lemma linkNodes:
  "fold linkNode ps (nodes, roots) = (nodes', roots') \<Longrightarrow>
     roots' = roots @ map i_PID (filter (\<lambda>p. i_PPID p = i_PID p \<or> i_PPID p \<notin> dom (map_of nodes)) ps) \<and>
     (\<forall>k. map_of nodes' k = map_option (\<lambda>n. n \<lparr> Children := Children n
        @ map i_PID (filter (\<lambda>c. i_PPID c = k \<and> i_PPID c \<noteq> i_PID c) ps) \<rparr>) (map_of nodes k))"
proof (induction ps arbitrary: nodes roots)
  case Nil
  then show ?case by (auto simp: option.map_ident)
next
  case (Cons p ps)
  obtain n1 r1 where s: "linkNode p (nodes, roots) = (n1, r1)" by fastforce
  have r1: "r1 = roots @ (if i_PPID p = i_PID p \<or> i_PPID p \<notin> dom (map_of nodes) then [i_PID p] else [])"
    and n1: "map_of n1 k = map_option (\<lambda>n. n \<lparr> Children := Children n
        @ (if i_PPID p = k \<and> i_PPID p \<noteq> i_PID p then [i_PID p] else []) \<rparr>) (map_of nodes k)" for k
    using s by (auto simp: linkNode_def option.map_ident split: option.splits if_splits)
  have d: "dom (map_of n1) = dom (map_of nodes)"
    by (auto simp: dom_def n1)
  have "fold linkNode ps (n1, r1) = (nodes', roots')" using Cons.prems by (simp add: s)
  from Cons.IH [OF this] show ?case
    unfolding d by (auto simp: r1 n1 option.map_comp comp_def)
qed

theorem BuildTree_links:
  assumes "distinct (map i_PID procs)" and "BuildTree procs = (nodes, roots)"
  shows "roots = map i_PID (filter (\<lambda>p. i_PPID p = i_PID p \<or> i_PPID p \<notin> i_PID ` set procs) procs)"
    and "p \<in> set procs \<Longrightarrow> map_of nodes (i_PID p) =
      Some \<lparr> t_Info = p, Children = map i_PID (filter (\<lambda>c. i_PPID c = i_PID p \<and> i_PPID c \<noteq> i_PID c) procs) \<rparr>"
proof -
  let ?n = "fold (\<lambda>p. mput (i_PID p) \<lparr> t_Info = p, Children = [] \<rparr>) procs []"
  have n: "map_of ?n k = map_option (\<lambda>p. \<lparr> t_Info = p, Children = [] \<rparr>) (map_of (byPID procs) k)" for k
    unfolding byPID_def map_of_byPID_gen by (simp split: option.splits)
  have d: "dom (map_of ?n) = i_PID ` set procs"
    using map_of_byPID [OF assms(1)] by (auto simp: dom_def n image_iff)
  have l: "fold linkNode procs (?n, []) = (nodes, roots)"
    using assms(2) by (simp add: BuildTree_def Let_def)
  note links = linkNodes [OF l, unfolded d]
  show "roots = map i_PID (filter (\<lambda>p. i_PPID p = i_PID p \<or> i_PPID p \<notin> i_PID ` set procs) procs)"
    using links by simp
  show "map_of nodes (i_PID p) =
      Some \<lparr> t_Info = p, Children = map i_PID (filter (\<lambda>c. i_PPID c = i_PID p \<and> i_PPID c \<noteq> i_PID c) procs) \<rparr>"
    if "p \<in> set procs"
  proof -
    have "map_of (byPID procs) (i_PID p) = Some p" using that by (simp add: map_of_byPID [OF assms(1)])
    then show ?thesis using links by (simp add: n)
  qed
qed

end
