(* ===== verification/Cache_Store.thy ===== *)
theory Cache_Store
  imports Go_Time
begin

text \<open>
  The cache in front of the blob store: expiring entries (\<open>internal/cache/ttl.go\<close>) and the background
  writer (\<open>internal/cache/async_writer.go\<close>). The blob store is a map from keys to blobs whose \<open>Put\<close> may
  fail. The writer is a transition system: callers, workers and \<open>Close\<close> interleave at the points where the
  code touches shared state. The theorems show what the counters mean, that no accepted write is lost, and
  two interleavings the code does not exclude.
\<close>

subsection \<open>Expiring entries\<close>

datatype ttlerr = NilStore | NegativeExpiry | PayloadTooLarge | PutFailed

type_synonym blob = "byte list"
type_synonym blobs = "(byte list, blob) gomap"

text \<open>Nanoseconds between the zero time and the Unix epoch.\<close>

definition unixEpoch :: time where "unixEpoch = 62135596800 * Second"

definition UnixNano :: "time \<Rightarrow> int" where "UnixNano t = wrap64 (t - unixEpoch)"

definition MaxInt64 :: int where "MaxInt64 = 2 ^ 63 - 1"

text \<open>The blob \<open>Put\<close> hands to the store or to the writer.\<close>

definition ttlBlob :: "time \<Rightarrow> duration \<Rightarrow> byte list \<Rightarrow> (ttlerr, blob) go" where
  "ttlBlob now ttl payload =
     (let expiresAt = UnixNano (now + ttl) in
      if expiresAt < 0 then Inl (Fault NegativeExpiry)
      else if int (length payload) > MaxInt64 - 8 then Inl (Fault PayloadTooLarge)
      else Inr (be_put 8 (nat expiresAt) @ payload))"

text \<open>
  \<open>Put\<close>: \<open>put\<close> is the store's own operation, \<open>None\<close> when it fails; with a writer the blob goes to
  \<open>writer.Write\<close>, whose result is ignored.
\<close>

definition TTLStore_Put ::
    "(byte list \<Rightarrow> blob \<Rightarrow> 's \<Rightarrow> 's option) \<Rightarrow> (byte list \<Rightarrow> blob \<Rightarrow> 's \<Rightarrow> 's) option \<Rightarrow>
     time \<Rightarrow> byte list \<Rightarrow> byte list \<Rightarrow> duration \<Rightarrow> 's option \<Rightarrow> (ttlerr, 's) go" where
  "TTLStore_Put put writer now key payload ttl store =
     (case store of
        None \<Rightarrow> Inl (Fault NilStore)
      | Some s \<Rightarrow>
          gbind (ttlBlob now ttl payload) (\<lambda>b.
            case writer of
              Some write \<Rightarrow> Inr (write key b s)
            | None \<Rightarrow> (case put key b s of None \<Rightarrow> Inl (Fault PutFailed) | Some s \<Rightarrow> Inr s)))"

text \<open>\<open>Get\<close>: \<open>get\<close> gives the stored blob, \<open>None\<close> when it is missing or unreadable.\<close>

definition TTLStore_Get :: "('s \<Rightarrow> byte list \<Rightarrow> blob option) \<Rightarrow> time \<Rightarrow> byte list \<Rightarrow> 's option \<Rightarrow> (ttlerr, byte list option) go" where
  "TTLStore_Get get now key store =
     (case store of
        None \<Rightarrow> Inr None
      | Some s \<Rightarrow>
          (case get s key of
             None \<Rightarrow> Inr None
           | Some b \<Rightarrow>
               if length b < 8 then Inr None
               else gbind (slice b 0 8) (\<lambda>h.
                 let raw = int (unat (be64 h)) in
                 if raw > MaxInt64 then Inr None
                 else if \<not> now < unixEpoch + raw then Inr None
                 else gbind (slice b 8 (int (length b))) (\<lambda>p. Inr (Some p)))))"

theorem TTLStore_Get_safe: "yields (TTLStore_Get get now key store) (\<lambda>_. True)"
  by (auto simp: TTLStore_Get_def Let_def split: option.splits)

text \<open>An entry is returned unchanged until it expires, and never afterwards.\<close>

theorem ttl_round_trip:
  assumes "unixEpoch \<le> now + ttl" and "now + ttl - unixEpoch < 2 ^ 63" and "int (length payload) \<le> MaxInt64 - 8"
    and law: "\<forall>k b s s'. put k b s = Some s' \<longrightarrow> get s' k = Some b"
    and put: "TTLStore_Put put None now key payload ttl (Some s) = Inr s'"
  shows "TTLStore_Get get later key (Some s') = Inr (if later < now + ttl then Some payload else None)"
proof -
  define e where "e = nat (now + ttl - unixEpoch)"
  have e: "UnixNano (now + ttl) = int e" "e < 2 ^ 63"
    using assms(1,2) by (simp_all add: UnixNano_def wrap64_id e_def nat_less_iff)
  then have "ttlBlob now ttl payload = Inr (be_put 8 e @ payload)"
    using assms(3) by (simp add: ttlBlob_def)
  then have "put key (be_put 8 e @ payload) s = Some s'"
    using put by (auto simp: TTLStore_Put_def split: option.splits)
  then have g: "get s' key = Some (be_put 8 e @ payload)" using law by blast
  have b: "unat (be64 (be_put 8 e)) = e"
    using e(2) by (simp add: be64_def unat_of_nat)
  have r: "int (unat (be64 (be_put 8 e))) = now + ttl - unixEpoch"
    unfolding b using assms(1) by (simp add: e_def)
  have "\<not> now + ttl - unixEpoch > MaxInt64" using assms(2) by (simp add: MaxInt64_def)
  then show ?thesis
    by (simp add: TTLStore_Get_def g r Let_def del: of_nat_unat)
qed

subsection \<open>The background writer\<close>

record writeJob =
  j_key :: "byte list"
  j_data :: blob

text \<open>
  Besides the fields of the code, the state holds the calls of \<open>Write\<close> that have seen the writer open and
  have not sent their job yet, the jobs the workers are storing, whether a \<open>Close\<close> has set the flag and
  still has to close the channel, and whether the channel is closed.
\<close>

record AsyncWriter =
  aw_store :: blobs
  queue :: "writeJob list"
  queue_cap :: nat
  workers :: nat
  closed :: bool
  closing :: bool
  queue_closed :: bool
  pending :: "writeJob list"
  running :: "writeJob list"
  Queued :: int
  Completed :: int
  Failed :: int
  Bytes :: int

definition NewAsyncWriter :: "blobs \<Rightarrow> nat \<Rightarrow> nat \<Rightarrow> AsyncWriter" where
  "NewAsyncWriter store queueSize n = \<lparr> aw_store = store, queue = [], queue_cap = queueSize, workers = n, closed = False,
     closing = False, queue_closed = False, pending = [], running = [], Queued = 0, Completed = 0, Failed = 0, Bytes = 0 \<rparr>"

text \<open>
  \<open>ok\<close> is whether the store's \<open>Put\<close> succeeds. The sharded store panics on an empty key, whose encoding has
  no first two digits; keys are not empty here.
\<close>

definition storePut :: "bool \<Rightarrow> writeJob \<Rightarrow> AsyncWriter \<Rightarrow> AsyncWriter" where
  "storePut ok job w = (if ok then w \<lparr> aw_store := mput (j_key job) (j_data job) (aw_store w) \<rparr> else w)"

definition countedPut :: "bool \<Rightarrow> writeJob \<Rightarrow> AsyncWriter \<Rightarrow> AsyncWriter" where
  "countedPut ok job w =
     (let w = storePut ok job w in
      if ok then w \<lparr> Completed := Completed w + 1, Bytes := Bytes w + int (length (j_data job)) \<rparr>
      else w \<lparr> Failed := Failed w + 1 \<rparr>)"

text \<open>\<open>Write\<close> up to the check of the flag, and from there on; the second component is \<open>wroteSync\<close>.\<close>

definition Write_check :: "writeJob \<Rightarrow> bool \<Rightarrow> AsyncWriter \<Rightarrow> AsyncWriter" where
  "Write_check job ok w = (if closed w then storePut ok job w else w \<lparr> pending := pending w @ [job] \<rparr>)"

definition Write_send :: "nat \<Rightarrow> bool \<Rightarrow> AsyncWriter \<Rightarrow> (unit, AsyncWriter \<times> bool) go" where
  "Write_send i ok w =
     gbind (idx (pending w) (int i)) (\<lambda>job.
       let w = w \<lparr> pending := take i (pending w) @ drop (Suc i) (pending w) \<rparr> in
       if queue_cap w = 0 then Inr (countedPut ok job w, True)
       else if queue_closed w then Inl Panic
       else if length (queue w) < queue_cap w then Inr (w \<lparr> queue := queue w @ [job], Queued := Queued w + 1 \<rparr>, False)
       else Inr (countedPut ok job w, True))"

text \<open>A worker receives the oldest job, and later stores it.\<close>

definition Worker_take :: "AsyncWriter \<Rightarrow> AsyncWriter" where
  "Worker_take w =
     (case queue w of
        [] \<Rightarrow> w
      | job # q \<Rightarrow> if length (running w) < workers w then w \<lparr> queue := q, running := running w @ [job] \<rparr> else w)"

definition Worker_store :: "nat \<Rightarrow> bool \<Rightarrow> AsyncWriter \<Rightarrow> AsyncWriter" where
  "Worker_store i ok w =
     (if i < length (running w)
      then countedPut ok (running w ! i) (w \<lparr> running := take i (running w) @ drop (Suc i) (running w) \<rparr>) else w)"

text \<open>\<open>Close\<close>: swap the flag, then close the channel if it was not set before.\<close>

definition Close_swap :: "AsyncWriter \<Rightarrow> AsyncWriter" where
  "Close_swap w = (if closed w then w else w \<lparr> closed := True, closing := True \<rparr>)"

definition Close_queue :: "AsyncWriter \<Rightarrow> AsyncWriter" where
  "Close_queue w = (if closing w then w \<lparr> closing := False, queue_closed := True \<rparr> else w)"

text \<open>
  Runs from a new writer: \<open>jobs\<close> are the writes that saw it open, \<open>late\<close> those that saw it closed.
\<close>

inductive aw_run :: "AsyncWriter \<Rightarrow> writeJob list \<Rightarrow> writeJob list \<Rightarrow> AsyncWriter \<Rightarrow> bool" for w0 where
  start: "aw_run w0 [] [] w0"
| check_open: "aw_run w0 jobs late w \<Longrightarrow> \<not> closed w \<Longrightarrow> aw_run w0 (jobs @ [job]) late (Write_check job ok w)"
| check_closed: "aw_run w0 jobs late w \<Longrightarrow> closed w \<Longrightarrow> aw_run w0 jobs (late @ [job]) (Write_check job ok w)"
| send: "aw_run w0 jobs late w \<Longrightarrow> Write_send i ok w = Inr (w', b) \<Longrightarrow> aw_run w0 jobs late w'"
| take: "aw_run w0 jobs late w \<Longrightarrow> aw_run w0 jobs late (Worker_take w)"
| store: "aw_run w0 jobs late w \<Longrightarrow> aw_run w0 jobs late (Worker_store i ok w)"
| swap: "aw_run w0 jobs late w \<Longrightarrow> aw_run w0 jobs late (Close_swap w)"
| close: "aw_run w0 jobs late w \<Longrightarrow> aw_run w0 jobs late (Close_queue w)"

subsection \<open>What the counters mean\<close>

definition open_jobs :: "AsyncWriter \<Rightarrow> writeJob list" where
  "open_jobs w = pending w @ queue w @ running w"

definition aw_ok :: "blobs \<Rightarrow> writeJob list \<Rightarrow> writeJob list \<Rightarrow> AsyncWriter \<Rightarrow> bool" where
  "aw_ok s0 jobs late w \<longleftrightarrow>
     0 \<le> Completed w \<and> 0 \<le> Failed w \<and>
     Completed w + Failed w + int (length (open_jobs w)) = int (length jobs) \<and>
     set (open_jobs w) \<subseteq> set jobs \<and>
     length (queue w) \<le> queue_cap w \<and> length (running w) \<le> workers w \<and>
     (queue_closed w \<or> closing w \<longrightarrow> closed w) \<and> \<not> (queue_closed w \<and> closing w) \<and>
     (\<forall>k d. map_of (aw_store w) k = Some d \<longrightarrow>
        map_of s0 k = Some d \<or> (\<exists>j\<in>set jobs \<union> set late. j_key j = k \<and> j_data j = d)) \<and>
     (Failed w = 0 \<longrightarrow> (\<forall>j\<in>set jobs. j \<in> set (open_jobs w) \<or> j_key j \<in> dom (map_of (aw_store w))))"

lemma set_remove_nth: "i < length xs \<Longrightarrow> insert (xs ! i) (set (take i xs @ drop (Suc i) xs)) = set xs"
proof -
  assume i: "i < length xs"
  have "set xs = set (take i xs @ xs ! i # drop (Suc i) xs)"
    using id_take_nth_drop [OF i] by simp
  then show ?thesis by auto
qed

lemma length_remove_nth: "i < length xs \<Longrightarrow> Suc (length (take i xs @ drop (Suc i) xs)) = length xs"
  by simp

text \<open>Storing a job that has left the open ones keeps the account.\<close>

lemma aw_ok_put:
  assumes ok: "aw_ok s0 jobs late w"
    and fields: "aw_store w' = aw_store w" "Completed w' = Completed w" "Failed w' = Failed w"
      "queue_cap w' = queue_cap w" "workers w' = workers w" "closed w' = closed w" "closing w' = closing w"
      "queue_closed w' = queue_closed w"
    and q: "length (queue w') \<le> length (queue w)" "length (running w') \<le> length (running w)"
    and left: "set (open_jobs w) = insert job (set (open_jobs w'))" "length (open_jobs w) = Suc (length (open_jobs w'))"
  shows "aw_ok s0 jobs late (countedPut b job w')"
proof -
  have "job \<in> set jobs" "set (open_jobs w') \<subseteq> set jobs" using ok left(1) by (auto simp: aw_ok_def)
  then show ?thesis
    using ok q left fields
    by (cases b) (auto simp: aw_ok_def countedPut_def storePut_def Let_def open_jobs_def)
qed

lemma aw_ok_check:
  "aw_ok s0 jobs late w \<Longrightarrow> \<not> closed w \<Longrightarrow> aw_ok s0 (jobs @ [job]) late (Write_check job ok w)"
  by (auto simp: aw_ok_def Write_check_def open_jobs_def)

lemma aw_ok_late:
  "aw_ok s0 jobs late w \<Longrightarrow> closed w \<Longrightarrow> aw_ok s0 jobs (late @ [job]) (Write_check job ok w)"
  by (auto simp: aw_ok_def Write_check_def storePut_def open_jobs_def)

lemma aw_ok_send:
  assumes ok: "aw_ok s0 jobs late w" and send: "Write_send i b w = Inr (w', r)"
  shows "aw_ok s0 jobs late w'"
proof -
  have i: "i < length (pending w)"
    using send by (auto simp: Write_send_def idx_def split: if_splits)
  let ?job = "pending w ! i" and ?p = "take i (pending w) @ drop (Suc i) (pending w)"
  let ?w = "w \<lparr> pending := ?p \<rparr>"
  note rem = set_remove_nth [OF i] length_remove_nth [OF i]
  have put: "aw_ok s0 jobs late (countedPut b ?job ?w)"
    by (rule aw_ok_put [OF ok]) (use rem i in \<open>auto simp: open_jobs_def\<close>)
  have enq: "aw_ok s0 jobs late (?w \<lparr> queue := queue w @ [?job], Queued := Queued w + 1 \<rparr>)" if "length (queue w) < queue_cap w"
  proof -
    let ?e = "?w \<lparr> queue := queue w @ [?job], Queued := Queued w + 1 \<rparr>"
    have "set (open_jobs ?e) = set (open_jobs w)" "length (open_jobs ?e) = length (open_jobs w)"
      using rem by (auto simp: open_jobs_def)
    then show ?thesis using ok that by (simp add: aw_ok_def)
  qed
  have idx: "idx (pending w) (int i) = Inr ?job" using i by simp
  show ?thesis
    using send put enq unfolding Write_send_def idx gbind.simps Let_def
    by (auto split: if_splits)
qed

lemma aw_ok_take:
  assumes "aw_ok s0 jobs late w"
  shows "aw_ok s0 jobs late (Worker_take w)"
proof -
  have "set (open_jobs (Worker_take w)) = set (open_jobs w)" "length (open_jobs (Worker_take w)) = length (open_jobs w)"
    by (auto simp: open_jobs_def Worker_take_def split: list.splits)
  then show ?thesis
    using assms by (auto simp: aw_ok_def Worker_take_def split: list.splits)
qed

lemma aw_ok_store:
  assumes "aw_ok s0 jobs late w"
  shows "aw_ok s0 jobs late (Worker_store i b w)"
proof (cases "i < length (running w)")
  case True
  show ?thesis
    unfolding Worker_store_def if_P [OF True]
    by (rule aw_ok_put [OF assms]) (use set_remove_nth [OF True] True in \<open>auto simp: open_jobs_def\<close>)
qed (use assms in \<open>simp add: Worker_store_def\<close>)

theorem aw_run_ok: "aw_run (NewAsyncWriter s0 qs n) jobs late w \<Longrightarrow> aw_ok s0 jobs late w"
proof (induction rule: aw_run.induct)
  case start
  then show ?case by (simp add: aw_ok_def NewAsyncWriter_def open_jobs_def)
next
  case (swap jobs late w)
  then show ?case by (simp add: aw_ok_def Close_swap_def open_jobs_def) blast
next
  case (close jobs late w)
  then show ?case by (auto simp: aw_ok_def Close_queue_def open_jobs_def)
qed (simp_all add: aw_ok_check aw_ok_late aw_ok_send aw_ok_take aw_ok_store)

text \<open>
  Once nothing is open any more, the counters add up to the writes, and without failures every key that
  was written is in the store with data that was written for it.
\<close>

theorem drained_account:
  assumes "aw_run (NewAsyncWriter s0 qs n) jobs late w" and "open_jobs w = []"
  shows "Completed w + Failed w = int (length jobs)"
    and "Failed w = 0 \<Longrightarrow> j \<in> set jobs \<Longrightarrow> \<exists>d. map_of (aw_store w) (j_key j) = Some d \<and>
      (map_of s0 (j_key j) = Some d \<or> (\<exists>j'\<in>set jobs \<union> set late. j_key j' = j_key j \<and> j_data j' = d))"
  using aw_run_ok [OF assms(1)] assms(2) by (auto simp: aw_ok_def)

text \<open>With at least one worker, the workers alone can always empty the queue.\<close>

theorem workers_drain:
  assumes "0 < workers w" "aw_run w0 jobs late w"
  shows "\<exists>w'. aw_run w0 jobs late w' \<and> queue w' = [] \<and> running w' = [] \<and> pending w' = pending w"
  using assms
proof (induction "2 * length (queue w) + length (running w)" arbitrary: w rule: less_induct)
  case less
  consider (run) "running w \<noteq> []" | (take) j q where "running w = []" "queue w = j # q" | (idle) "running w = []" "queue w = []"
    by (meson list.exhaust)
  then show ?case
  proof cases
    case run
    let ?w = "Worker_store 0 True w"
    have "queue ?w = queue w" "length (running ?w) < length (running w)" "workers ?w = workers w" "pending ?w = pending w"
      using run by (auto simp: Worker_store_def countedPut_def storePut_def Let_def)
    then show ?thesis using less.hyps [of ?w] less.prems aw_run.store [OF less.prems(2), of 0 True] by auto
  next
    case take
    let ?w = "Worker_take w"
    have "queue ?w = q" "running ?w = [j]" "workers ?w = workers w" "pending ?w = pending w"
      using take less.prems(1) by (auto simp: Worker_take_def)
    then show ?thesis using less.hyps [of ?w] less.prems aw_run.take [OF less.prems(2)] take by auto
  qed (use less.prems in auto)
qed

subsection \<open>Two interleavings\<close>

text \<open>A caller that saw the writer open and sends after \<open>Close\<close> has closed the channel panics.\<close>

theorem write_after_close_panics:
  "i < length (pending w) \<Longrightarrow> 0 < queue_cap w \<Longrightarrow> queue_closed w \<Longrightarrow> Write_send i ok w = Inl Panic"
  by (simp add: Write_send_def Let_def)

theorem write_close_race:
  "\<exists>w. aw_run (NewAsyncWriter [] 1 1) [job] [] w \<and> (\<forall>ok. Write_send 0 ok w = Inl Panic)"
proof (intro exI conjI allI)
  let ?w = "Close_queue (Close_swap (Write_check job True (NewAsyncWriter [] 1 1)))"
  have "\<not> closed (NewAsyncWriter [] 1 1)" by (simp add: NewAsyncWriter_def)
  from aw_run.check_open [OF aw_run.start this]
  show "aw_run (NewAsyncWriter [] 1 1) [job] [] ?w"
    by (intro aw_run.close aw_run.swap) simp
  show "Write_send 0 ok ?w = Inl Panic" for ok
    by (intro write_after_close_panics)
      (simp_all add: Close_queue_def Close_swap_def Write_check_def NewAsyncWriter_def)
qed

text \<open>
  A synchronous fallback can be overtaken: with the older write still queued, the newer one goes to the
  store directly, and the worker then replaces it by the older data.
\<close>

theorem stale_write_wins:
  assumes "j_key old = j_key new"
  shows "\<exists>w. aw_run (NewAsyncWriter [] 1 1) [old, new] [] w \<and> open_jobs w = [] \<and> Failed w = 0 \<and>
    map_of (aw_store w) (j_key new) = Some (j_data old)"
proof -
  let ?w0 = "NewAsyncWriter [] 1 1"
  let ?w1 = "Write_check old True ?w0"
  let ?w2 = "?w1 \<lparr> pending := [], queue := [old], Queued := 1 \<rparr>"
  let ?w3 = "Write_check new True ?w2"
  let ?w4 = "countedPut True new (?w3 \<lparr> pending := [] \<rparr>)"
  let ?w5 = "Worker_store 0 True (Worker_take ?w4)"
  note defs = NewAsyncWriter_def Write_check_def Write_send_def Let_def idx_def countedPut_def storePut_def
    Worker_take_def Worker_store_def open_jobs_def
  have r1: "aw_run ?w0 [old] [] ?w1"
    using aw_run.check_open [OF aw_run.start [of ?w0], of old True] by (simp add: NewAsyncWriter_def)
  have "Write_send 0 True ?w1 = Inr (?w2, False)" by (simp add: defs)
  from aw_run.send [OF r1 this] have r2: "aw_run ?w0 [old] [] ?w2" .
  have "\<not> closed ?w2" by (simp add: defs)
  from aw_run.check_open [OF r2 this, of new True] have r3: "aw_run ?w0 [old, new] [] ?w3" by simp
  have "Write_send 0 True ?w3 = Inr (?w4, True)" by (simp add: defs)
  from aw_run.send [OF r3 this] have r4: "aw_run ?w0 [old, new] [] ?w4" .
  have r5: "aw_run ?w0 [old, new] [] ?w5" by (intro aw_run.store aw_run.take r4)
  have "open_jobs ?w5 = []" "Failed ?w5 = 0" "map_of (aw_store ?w5) (j_key new) = Some (j_data old)"
    using assms by (simp_all add: defs)
  with r5 show ?thesis by blast
qed

end
