(* ===== verification/Helper_Framing.thy ===== *)
theory Helper_Framing
  imports Go_Prelude
begin

text \<open>
  The wire format between the daemon and its privileged helper (\<open>internal/helper/framing.go\<close>): an
  eight-byte big-endian length in front of the payload. The writer is a parameter that may fail; the
  reader works on the bytes that are left. The theorems show the round trip for every sequence of
  messages and that a peer can never make the reader allocate more than the cap.
\<close>

datatype ferr =
    TooLarge nat
  | WriteHeader
  | WritePayload
  | ReadHeader
  | ReadPayload

definition maxMessageSize :: nat where "maxMessageSize = 4 * 1024 * 1024"

text \<open>\<open>w.Write\<close> returns the writer's next state, or nothing when it fails.\<close>

definition WriteMessage :: "(byte list \<Rightarrow> 'w \<Rightarrow> 'w option) \<Rightarrow> byte list \<Rightarrow> 'w \<Rightarrow> (ferr, 'w) go" where
  "WriteMessage write payload w =
     (if length payload > maxMessageSize then Inl (Fault (TooLarge (length payload)))
      else case write (be_put 8 (length payload)) w of
             None \<Rightarrow> Inl (Fault WriteHeader)
           | Some w \<Rightarrow> (case write payload w of None \<Rightarrow> Inl (Fault WritePayload) | Some w \<Rightarrow> Inr w))"

text \<open>\<open>io.ReadFull\<close>: the next \<open>n\<close> bytes, or an error when fewer are left.\<close>

definition read_full :: "nat \<Rightarrow> byte list \<Rightarrow> (byte list \<times> byte list) option" where
  "read_full n r = (if length r < n then None else Some (take n r, drop n r))"

definition ReadMessage :: "byte list \<Rightarrow> (ferr, byte list \<times> byte list) go" where
  "ReadMessage r =
     (case read_full 8 r of
        None \<Rightarrow> Inl (Fault ReadHeader)
      | Some (hdr, r) \<Rightarrow>
          (let size = be64 hdr
           in if size > of_nat maxMessageSize then Inl (Fault (TooLarge (unat size)))
              else case read_full (unat size) r of
                     None \<Rightarrow> Inl (Fault ReadPayload)
                   | Some (buf, r) \<Rightarrow> Inr (buf, r)))"

subsection \<open>Round trip\<close>

definition frame :: "byte list \<Rightarrow> byte list" where
  "frame p = be_put 8 (length p) @ p"

abbreviation to_buffer :: "byte list \<Rightarrow> byte list \<Rightarrow> byte list option" where
  "to_buffer bs w \<equiv> Some (w @ bs)"

lemma WriteMessage_buffer:
  "length p \<le> maxMessageSize \<Longrightarrow> WriteMessage to_buffer p w = Inr (w @ frame p)"
  by (simp add: WriteMessage_def frame_def)

lemma unat_be64_put: "n < 2 ^ 64 \<Longrightarrow> unat (be64 (be_put 8 n)) = n"
  by (simp add: be64_def unat_of_nat)

lemma ReadMessage_frame:
  assumes "length p \<le> maxMessageSize"
  shows "ReadMessage (frame p @ rest) = Inr (p, rest)"
proof -
  have u: "unat (be64 (be_put 8 (length p))) = length p"
    using assms by (intro unat_be64_put) (simp add: maxMessageSize_def)
  have "\<not> be64 (be_put 8 (length p)) > of_nat maxMessageSize"
    using assms unfolding word_less_nat_alt u by (simp add: maxMessageSize_def)
  then show ?thesis by (simp add: ReadMessage_def frame_def read_full_def u)
qed

text \<open>Every sequence of messages written to a buffer is read back unchanged and completely.\<close>

fun writeAll :: "byte list list \<Rightarrow> byte list \<Rightarrow> (ferr, byte list) go" where
  "writeAll [] w = Inr w"
| "writeAll (p # ps) w = gbind (WriteMessage to_buffer p w) (writeAll ps)"

fun readAll :: "nat \<Rightarrow> byte list \<Rightarrow> (ferr, byte list list \<times> byte list) go" where
  "readAll 0 r = Inr ([], r)"
| "readAll (Suc n) r = gbind (ReadMessage r) (\<lambda>(p, r). gbind (readAll n r) (\<lambda>(ps, r). Inr (p # ps, r)))"

lemma writeAll_frames:
  "\<forall>p\<in>set ps. length p \<le> maxMessageSize \<Longrightarrow> writeAll ps w = Inr (w @ concat (map frame ps))"
  by (induction ps arbitrary: w) (auto simp: WriteMessage_buffer)

theorem messages_round_trip:
  assumes "\<forall>p\<in>set ps. length p \<le> maxMessageSize"
  shows "gbind (writeAll ps []) (readAll (length ps)) = Inr (ps, [])"
proof -
  have "readAll (length ps) (concat (map frame ps) @ rest) = Inr (ps, rest)" for rest
    using assms by (induction ps) (auto simp: ReadMessage_frame)
  from this [of "[]"] show ?thesis by (simp add: writeAll_frames [OF assms])
qed

text \<open>What the reader accepts is bounded by the cap and is a prefix of what arrived; it never panics.\<close>

theorem ReadMessage_bounded:
  "yields (ReadMessage r) (\<lambda>(p, rest). length p \<le> maxMessageSize \<and> drop 8 r = p @ rest \<and> unat (be64 (take 8 r)) = length p)"
proof -
  have le: "unat size \<le> maxMessageSize" if "\<not> size > of_nat maxMessageSize" for size :: u64
    using that by (simp add: word_less_nat_alt maxMessageSize_def not_less)
  show ?thesis
    by (auto simp: ReadMessage_def read_full_def Let_def min_def simp del: drop_drop dest!: le split: if_splits)
qed

text \<open>A length above the cap is refused before anything is allocated for it.\<close>

theorem ReadMessage_refuses:
  "8 \<le> length r \<Longrightarrow> unat (be64 (take 8 r)) > maxMessageSize \<Longrightarrow>
     ReadMessage r = Inl (Fault (TooLarge (unat (be64 (take 8 r)))))"
  by (auto simp: ReadMessage_def read_full_def Let_def word_less_nat_alt maxMessageSize_def)

end
