(* ===== verification/Heap_Analysis.thy ===== *)
theory Heap_Analysis
  imports Hprof_Histogram Go_Text
begin

text \<open>
  Class histograms as text (\<open>internal/heap/histogram.go\<close>) and the runtime-neutral comparison and ranking of
  heap snapshots (\<open>internal/heap/analysis.go\<close>). A value of the interface \<open>Record\<close> is the record of what
  its four methods return, a \<open>nil\<close> snapshot is \<open>None\<close>. The lemmas show that a comparison has exactly one
  row per identity of either snapshot, in a strict order that does not depend on the iteration order of
  the Go map, that the growth ranking is the head of that order, and that a printed histogram is read
  back.
\<close>

subsection \<open>Data\<close>

definition RuntimeJVM :: string where "RuntimeJVM = ''jvm''"

record Record =
  Identity :: string
  DisplayName :: string
  LiveCount :: i64
  ShallowBytes :: i64

record Snapshot =
  sn_Runtime :: string
  sn_Source :: string
  Records :: "Record list"
  sn_TotalShallowBytes :: i64

record Delta =
  d_Identity :: string
  d_DisplayName :: string
  d_Runtime :: string
  BeforeCount :: i64
  AfterCount :: i64
  DeltaCount :: i64
  BeforeBytes :: i64
  AfterBytes :: i64
  DeltaBytes :: i64

record AnalysisSuspect =
  as_Identity :: string
  as_Name :: string
  as_Runtime :: string
  as_Reason :: string
  as_Count :: i64
  as_Bytes :: i64
  as_DeltaCount :: i64
  as_DeltaBytes :: i64

record Suspect =
  su_ClassName :: string
  su_Reason :: string
  su_Instances :: i64
  su_Bytes :: i64
  su_DeltaCount :: i64
  su_DeltaBytes :: i64

record HistogramDelta =
  hd_ClassName :: string
  hd_BeforeCount :: i64
  hd_AfterCount :: i64
  hd_DeltaCount :: i64
  hd_BeforeBytes :: i64
  hd_AfterBytes :: i64
  hd_DeltaBytes :: i64
  hd_BeforeRank :: int
  hd_AfterRank :: int
  hd_BeforeModule :: string
  hd_AfterModule :: string

datatype aerr = NilSnapshot | TotalInstances | TotalBytes | RowInstances int | RowBytes int

subsection \<open>Histograms as snapshots\<close>

definition entry_Identity :: "ClassEntry \<Rightarrow> string" where
  "entry_Identity e = (if Module e = [] then e_ClassName e else Module e @ '':'' @ e_ClassName e)"

definition entry_Record :: "ClassEntry \<Rightarrow> Record" where
  "entry_Record e = \<lparr> Identity = entry_Identity e, DisplayName = e_ClassName e,
                      LiveCount = Instances e, ShallowBytes = Bytes e \<rparr>"

definition hist_Snapshot :: "Histogram \<Rightarrow> Snapshot" where
  "hist_Snapshot h = \<lparr> sn_Runtime = RuntimeJVM, sn_Source = ''jcmd GC.class_histogram'',
                       Records = map entry_Record (Entries h), sn_TotalShallowBytes = Bytes (Total h) \<rparr>"

subsection \<open>Comparison\<close>

type_synonym pairing = "(string, Record option \<times> Record option) gomap"

definition setBefore :: "Record \<Rightarrow> pairing \<Rightarrow> pairing" where
  "setBefore r m = mput (Identity r) (Some r, snd (mgetd (None, None) m (Identity r))) m"

definition setAfter :: "Record \<Rightarrow> pairing \<Rightarrow> pairing" where
  "setAfter r m = mput (Identity r) (fst (mgetd (None, None) m (Identity r)), Some r) m"

definition deltaOf :: "string \<Rightarrow> string \<times> Record option \<times> Record option \<Rightarrow> Delta" where
  "deltaOf rt p =
     (let (i, b, a) = p;
          d = \<lparr> d_Identity = i, d_DisplayName = [], d_Runtime = rt, BeforeCount = 0, AfterCount = 0, DeltaCount = 0,
                BeforeBytes = 0, AfterBytes = 0, DeltaBytes = 0 \<rparr>;
          d = (case b of None \<Rightarrow> d
               | Some r \<Rightarrow> d \<lparr> d_DisplayName := DisplayName r, BeforeCount := LiveCount r, BeforeBytes := ShallowBytes r \<rparr>);
          d = (case a of None \<Rightarrow> d
               | Some r \<Rightarrow> d \<lparr> d_DisplayName := DisplayName r, AfterCount := LiveCount r, AfterBytes := ShallowBytes r \<rparr>)
      in d \<lparr> DeltaCount := AfterCount d - BeforeCount d, DeltaBytes := AfterBytes d - BeforeBytes d \<rparr>)"

definition delta_less :: "Delta \<Rightarrow> Delta \<Rightarrow> bool" where
  "delta_less x y =
     (if DeltaBytes x \<noteq> DeltaBytes y then sint (DeltaBytes x) > sint (DeltaBytes y)
      else if AfterBytes x \<noteq> AfterBytes y then sint (AfterBytes x) > sint (AfterBytes y)
      else d_Identity x < d_Identity y)"

definition Compare :: "Snapshot option \<Rightarrow> Snapshot option \<Rightarrow> (aerr, Delta list) go" where
  "Compare before after =
     (case (before, after) of
        (Some b, Some a) \<Rightarrow>
          (let byID = fold setAfter (Records a) (fold setBefore (Records b) [])
           in Inr (sort_slice delta_less (map (deltaOf (sn_Runtime a)) byID)))
      | _ \<Rightarrow> Inl (Fault NilSnapshot))"

subsection \<open>Ranking\<close>

definition record_less :: "Record \<Rightarrow> Record \<Rightarrow> bool" where
  "record_less x y =
     (if ShallowBytes x \<noteq> ShallowBytes y then sint (ShallowBytes x) > sint (ShallowBytes y)
      else Identity x < Identity y)"

definition RankLargest :: "Snapshot option \<Rightarrow> int \<Rightarrow> AnalysisSuspect list" where
  "RankLargest snapshot limit =
     (case snapshot of
        None \<Rightarrow> []
      | Some s \<Rightarrow>
          if limit \<le> 0 then []
          else let rs = sort_slice record_less (Records s);
                   rs = (if int (length rs) > limit then take (nat limit) rs else rs)
               in map (\<lambda>r. \<lparr> as_Identity = Identity r, as_Name = DisplayName r, as_Runtime = sn_Runtime s,
                             as_Reason = ''largest live shallow size in heap snapshot'',
                             as_Count = LiveCount r, as_Bytes = ShallowBytes r,
                             as_DeltaCount = 0, as_DeltaBytes = 0 \<rparr>) rs)"

definition growthSuspect :: "Delta \<Rightarrow> AnalysisSuspect" where
  "growthSuspect d = \<lparr> as_Identity = d_Identity d, as_Name = d_DisplayName d, as_Runtime = d_Runtime d,
     as_Reason = ''largest positive shallow-size growth between heap snapshots'',
     as_Count = AfterCount d, as_Bytes = AfterBytes d, as_DeltaCount = DeltaCount d, as_DeltaBytes = DeltaBytes d \<rparr>"

fun growthLoop :: "int \<Rightarrow> Delta list \<Rightarrow> AnalysisSuspect list \<Rightarrow> AnalysisSuspect list" where
  "growthLoop limit [] suspects = suspects"
| "growthLoop limit (d # ds) suspects =
     (if sint (DeltaBytes d) \<le> 0 then growthLoop limit ds suspects
      else let suspects = suspects @ [growthSuspect d]
           in if int (length suspects) = limit then suspects else growthLoop limit ds suspects)"

text \<open>
  \<open>make([]AnalysisSuspect, 0, limit)\<close> reserves \<open>limit\<close> elements of 96 bytes (four strings and four
  64-bit integers) and panics when they exceed the address space of 48 bits of the 64-bit platforms the
  program is built for.
\<close>

definition suspectSize :: int where "suspectSize = 4 * 16 + 4 * 8"

definition maxAlloc :: int where "maxAlloc = 2 ^ 48"

definition RankGrowth :: "Snapshot option \<Rightarrow> Snapshot option \<Rightarrow> int \<Rightarrow> (aerr, AnalysisSuspect list) go" where
  "RankGrowth before after limit =
     (if limit \<le> 0 then Inr []
      else gbind (Compare before after) (\<lambda>deltas.
        if suspectSize * limit > maxAlloc then Inl Panic
        else Inr (growthLoop limit deltas [])))"

subsection \<open>Histogram comparison and suspects\<close>

definition histogramEntriesByID :: "Histogram \<Rightarrow> (string, ClassEntry) gomap" where
  "histogramEntriesByID h = fold (\<lambda>e m. mput (entry_Identity e) e m) (Entries h) []"

definition CompareHistograms :: "Histogram \<Rightarrow> Histogram \<Rightarrow> HistogramDelta list" where
  "CompareHistograms before after =
     (case Compare (Some (hist_Snapshot before)) (Some (hist_Snapshot after)) of
        Inl _ \<Rightarrow> []
      | Inr generic \<Rightarrow>
          map (\<lambda>gd.
            let d = \<lparr> hd_ClassName = d_DisplayName gd, hd_BeforeCount = BeforeCount gd, hd_AfterCount = AfterCount gd,
                      hd_DeltaCount = DeltaCount gd, hd_BeforeBytes = BeforeBytes gd, hd_AfterBytes = AfterBytes gd,
                      hd_DeltaBytes = DeltaBytes gd, hd_BeforeRank = 0, hd_AfterRank = 0,
                      hd_BeforeModule = [], hd_AfterModule = [] \<rparr>;
                d = (case map_of (histogramEntriesByID before) (d_Identity gd) of None \<Rightarrow> d
                     | Some e \<Rightarrow> d \<lparr> hd_BeforeRank := Rank e, hd_BeforeModule := Module e \<rparr>)
            in case map_of (histogramEntriesByID after) (d_Identity gd) of None \<Rightarrow> d
               | Some e \<Rightarrow> d \<lparr> hd_AfterRank := Rank e, hd_AfterModule := Module e \<rparr>) generic)"

definition RankHistogramSuspects :: "Histogram \<Rightarrow> int \<Rightarrow> Suspect list" where
  "RankHistogramSuspects h limit =
     map (\<lambda>s. \<lparr> su_ClassName = as_Name s, su_Reason = ''largest live shallow size in class histogram'',
                su_Instances = as_Count s, su_Bytes = as_Bytes s, su_DeltaCount = 0, su_DeltaBytes = 0 \<rparr>)
       (RankLargest (Some (hist_Snapshot h)) limit)"

definition RankGrowthSuspects :: "Histogram \<Rightarrow> Histogram \<Rightarrow> int \<Rightarrow> (aerr, Suspect list) go" where
  "RankGrowthSuspects before after limit =
     (case RankGrowth (Some (hist_Snapshot before)) (Some (hist_Snapshot after)) limit of
        Inl Panic \<Rightarrow> Inl Panic
      | Inl (Fault _) \<Rightarrow> Inr []
      | Inr generic \<Rightarrow>
          Inr (map (\<lambda>s. \<lparr> su_ClassName = as_Name s,
                          su_Reason = ''largest positive shallow-size growth between histograms'',
                          su_Instances = as_Count s, su_Bytes = as_Bytes s,
                          su_DeltaCount = as_DeltaCount s, su_DeltaBytes = as_DeltaBytes s \<rparr>) generic))"

subsection \<open>Reading the text of a histogram\<close>

text \<open>\<open>strings.LastIndex\<close> with \<open>None\<close> for \<open>-1\<close>.\<close>

fun last_sub :: "string \<Rightarrow> string \<Rightarrow> nat option" where
  "last_sub sub [] = (if sub = [] then Some 0 else None)"
| "last_sub sub (c # s) =
     (case last_sub sub s of Some i \<Rightarrow> Some (Suc i) | None \<Rightarrow> if prefix sub (c # s) then Some 0 else None)"

definition splitClassAndModule :: "string \<Rightarrow> string \<times> string" where
  "splitClassAndModule s =
     (let s = trim_space s in
      case last_sub '' ('' s of
        Some i \<Rightarrow> if i > 0 \<and> has_suffix '')'' s then (trim_space (take i s), trim_suffix '')'' (drop (i + 2) s)) else (s, [])
      | None \<Rightarrow> (s, []))"

text \<open>
  One line of \<open>ParseHistogram\<close>. The histogram read so far, which the code returns along with an error,
  is left out of the error.
\<close>

definition totalLine :: "string list \<Rightarrow> Histogram \<Rightarrow> (aerr, Histogram) go" where
  "totalLine fs h =
     (case parse_int64 (fs ! 1) of
        None \<Rightarrow> Inl (Fault TotalInstances)
      | Some n \<Rightarrow>
          case parse_int64 (fs ! 2) of
            None \<Rightarrow> Inl (Fault TotalBytes)
          | Some b \<Rightarrow> Inr (h \<lparr> Total := \<lparr> Rank = 0, Instances = word_of_int n, Bytes = word_of_int b,
                                          e_ClassName = ''Total'', Module = [] \<rparr> \<rparr>))"

definition entryLine :: "string \<Rightarrow> string list \<Rightarrow> Histogram \<Rightarrow> (aerr, Histogram) go" where
  "entryLine raw fs h =
     (case parse_int64 (trim_suffix '':'' (fs ! 0)) of
        None \<Rightarrow> Inr (h \<lparr> Skipped := Skipped h @ [raw] \<rparr>)
      | Some rank \<Rightarrow>
          case parse_int64 (fs ! 1) of
            None \<Rightarrow> Inl (Fault (RowInstances rank))
          | Some n \<Rightarrow>
              case parse_int64 (fs ! 2) of
                None \<Rightarrow> Inl (Fault (RowBytes rank))
              | Some b \<Rightarrow>
                  let (name, modl) = splitClassAndModule (join '' '' (drop 3 fs))
                  in Inr (h \<lparr> Entries := Entries h @ [\<lparr> Rank = rank, Instances = word_of_int n,
                            Bytes = word_of_int b, e_ClassName = name, Module = modl \<rparr>] \<rparr>))"

definition histLine :: "string \<Rightarrow> Histogram \<Rightarrow> (aerr, Histogram) go" where
  "histLine raw h =
     (let line = trim_space raw; fs = Go_Strings.fields line in
      if line = [] \<or> prefix ''num '' line \<or> prefix ''-'' line then Inr h
      else if length fs = 3 \<and> fs ! 0 = ''Total'' then totalLine fs h
      else if length fs < 4 then Inr (h \<lparr> Skipped := Skipped h @ [raw] \<rparr>)
      else entryLine raw fs h)"

definition emptyHistogram :: Histogram where
  "emptyHistogram = \<lparr> Entries = [], Total = \<lparr> Rank = 0, Instances = 0, Bytes = 0, e_ClassName = [], Module = [] \<rparr>,
                      Skipped = [] \<rparr>"

definition ParseHistogram :: "string \<Rightarrow> (aerr, Histogram) go" where
  "ParseHistogram out = gfold histLine (split_on (CHR 0x0A) out) emptyHistogram"

subsection \<open>A comparison has one row per identity\<close>

text \<open>The record a snapshot holds for an identity: the last one listed.\<close>

definition latest :: "Record list \<Rightarrow> string \<Rightarrow> Record option" where
  "latest rs i = map_of (rev (map (\<lambda>r. (Identity r, r)) rs)) i"

lemma latest_Nil [simp]: "latest [] i = None"
  by (simp add: latest_def)

lemma latest_snoc: "latest (rs @ [r]) i = (if i = Identity r then Some r else latest rs i)"
  by (simp add: latest_def)

lemma latest_None: "latest rs i = None \<longleftrightarrow> i \<notin> Identity ` set rs"
  by (auto simp: latest_def map_of_eq_None_iff image_image)

lemma before_pairs:
  "mwf (fold setBefore rs []) \<and>
   map_of (fold setBefore rs []) i = (case latest rs i of None \<Rightarrow> None | Some r \<Rightarrow> Some (Some r, None))"
proof (induction rs arbitrary: i rule: rev_induct)
  case Nil
  then show ?case by simp
next
  case (snoc r rs)
  then show ?case by (auto simp: setBefore_def latest_snoc mgetd_def split: option.splits)
qed

lemma after_pairs:
  assumes "mwf m" and "\<And>i. \<forall>p. map_of m i = Some p \<longrightarrow> snd p = None"
  shows "mwf (fold setAfter rs m) \<and>
    map_of (fold setAfter rs m) i =
      (case (latest rs i, map_of m i) of
         (None, p) \<Rightarrow> p
       | (Some r, None) \<Rightarrow> Some (None, Some r)
       | (Some r, Some p) \<Rightarrow> Some (fst p, Some r))"
proof (induction rs arbitrary: i rule: rev_induct)
  case Nil
  then show ?case using assms(1) by simp
next
  case (snoc r rs)
  then show ?case by (auto simp: setAfter_def latest_snoc mgetd_def split: option.splits prod.splits)
qed

definition pairs :: "Record list \<Rightarrow> Record list \<Rightarrow> pairing" where
  "pairs bs as = fold setAfter as (fold setBefore bs [])"

lemma pairs_spec:
  "mwf (pairs bs as)"
  "map_of (pairs bs as) i =
     (if i \<in> Identity ` (set bs \<union> set as) then Some (latest bs i, latest as i) else None)"
proof -
  have *: "mwf (pairs bs as) \<and> map_of (pairs bs as) i =
      (case (latest as i, map_of (fold setBefore bs []) i) of
         (None, p) \<Rightarrow> p
       | (Some r, None) \<Rightarrow> Some (None, Some r)
       | (Some r, Some p) \<Rightarrow> Some (fst p, Some r))"
    unfolding pairs_def by (rule after_pairs) (auto simp: before_pairs split: option.splits)
  then show "mwf (pairs bs as)" by simp
  show "map_of (pairs bs as) i =
     (if i \<in> Identity ` (set bs \<union> set as) then Some (latest bs i, latest as i) else None)"
    using * latest_None [of bs i] latest_None [of as i]
    by (auto simp: before_pairs image_Un split: option.splits)
qed

lemma deltaOf_fields [simp]:
  "d_Identity (deltaOf rt (i, b, a)) = i"
  "d_Runtime (deltaOf rt (i, b, a)) = rt"
  "BeforeCount (deltaOf rt (i, b, a)) = (case b of None \<Rightarrow> 0 | Some r \<Rightarrow> LiveCount r)"
  "AfterCount (deltaOf rt (i, b, a)) = (case a of None \<Rightarrow> 0 | Some r \<Rightarrow> LiveCount r)"
  "DeltaCount (deltaOf rt (i, b, a)) = AfterCount (deltaOf rt (i, b, a)) - BeforeCount (deltaOf rt (i, b, a))"
  "BeforeBytes (deltaOf rt (i, b, a)) = (case b of None \<Rightarrow> 0 | Some r \<Rightarrow> ShallowBytes r)"
  "AfterBytes (deltaOf rt (i, b, a)) = (case a of None \<Rightarrow> 0 | Some r \<Rightarrow> ShallowBytes r)"
  "DeltaBytes (deltaOf rt (i, b, a)) = AfterBytes (deltaOf rt (i, b, a)) - BeforeBytes (deltaOf rt (i, b, a))"
  by (auto simp: deltaOf_def Let_def split: option.splits)

subsection \<open>The order of the rows\<close>

lemma sint_neq_less: "(x :: i64) \<noteq> y \<Longrightarrow> sint x < sint y \<or> sint y < sint x"
  using sint_eq_iff by (metis linorder_neqE_linordered_idom)

interpretation by_delta: comparator delta_less
proof unfold_locales
  show "\<not> delta_less y x" if "delta_less x y" for x y
    using that by (auto simp: delta_less_def split: if_splits)
  show "\<not> delta_less x z" if "\<not> delta_less x y" "\<not> delta_less y z" for x y z
    using that by (auto simp: delta_less_def sint_eq_iff split: if_splits)
qed

interpretation by_record: comparator record_less
proof unfold_locales
  show "\<not> record_less y x" if "record_less x y" for x y
    using that by (auto simp: record_less_def split: if_splits)
  show "\<not> record_less x z" if "\<not> record_less x y" "\<not> record_less y z" for x y z
    using that by (auto simp: record_less_def sint_eq_iff split: if_splits)
qed

lemma delta_less_total: "d_Identity x \<noteq> d_Identity y \<Longrightarrow> delta_less x y \<or> delta_less y x"
  by (auto simp: delta_less_def dest: sint_neq_less)

definition rows :: "Snapshot \<Rightarrow> Snapshot \<Rightarrow> Delta list" where
  "rows b a = map (deltaOf (sn_Runtime a)) (pairs (Records b) (Records a))"

lemma rows_identities: "map d_Identity (rows b a) = mkeys (pairs (Records b) (Records a))"
  by (auto simp: rows_def mkeys_def)

lemma rows_distinct: "distinct (map d_Identity (rows b a))"
  using pairs_spec(1) by (simp add: rows_identities mwf_def)

lemma rows_total:
  assumes "x \<in> set (rows b a)" and "y \<in> set (rows b a)" and "x \<noteq> y"
  shows "delta_less x y \<or> delta_less y x"
  using assms rows_distinct [of b a] by (intro delta_less_total) (auto simp: distinct_map inj_on_def)

lemma rows_set:
  "set (rows b a) =
     (\<lambda>i. deltaOf (sn_Runtime a) (i, latest (Records b) i, latest (Records a) i)) `
       Identity ` (set (Records b) \<union> set (Records a))"
proof -
  let ?m = "pairs (Records b) (Records a)"
  have m: "(i, p) \<in> set ?m \<longleftrightarrow> map_of ?m i = Some p" for i p
    using pairs_spec(1) by (simp add: mwf_def mkeys_def)
  have "set ?m = (\<lambda>i. (i, latest (Records b) i, latest (Records a) i)) ` Identity ` (set (Records b) \<union> set (Records a))"
    by (auto simp: m pairs_spec(2) split: if_splits)
  then show ?thesis by (simp only: rows_def set_map image_image)
qed

text \<open>
  The comparison, stated without the operations of the code: one row per identity of either snapshot,
  with what each side holds of it, zero where it holds nothing, and the later less the earlier amount; a
  row comes before another when it grew by more, or by the same and is larger, or both are the same and
  its identity is smaller.
\<close>

definition amount :: "(Record \<Rightarrow> i64) \<Rightarrow> Record option \<Rightarrow> i64" where
  "amount f r = (case r of None \<Rightarrow> 0 | Some x \<Rightarrow> f x)"

definition difference :: "Snapshot \<Rightarrow> Snapshot \<Rightarrow> string \<Rightarrow> Delta" where
  "difference b a i =
     (let old = latest (Records b) i; new = latest (Records a) i in
      \<lparr> d_Identity = i,
        d_DisplayName = (case (old, new) of (_, Some r) \<Rightarrow> DisplayName r | (Some r, None) \<Rightarrow> DisplayName r
                         | (None, None) \<Rightarrow> []),
        d_Runtime = sn_Runtime a,
        BeforeCount = amount LiveCount old, AfterCount = amount LiveCount new,
        DeltaCount = amount LiveCount new - amount LiveCount old,
        BeforeBytes = amount ShallowBytes old, AfterBytes = amount ShallowBytes new,
        DeltaBytes = amount ShallowBytes new - amount ShallowBytes old \<rparr>)"

definition outranks :: "Delta \<Rightarrow> Delta \<Rightarrow> bool" where
  "outranks x y \<longleftrightarrow>
     sint (DeltaBytes y) < sint (DeltaBytes x) \<or>
     DeltaBytes x = DeltaBytes y \<and>
       (sint (AfterBytes y) < sint (AfterBytes x) \<or>
        AfterBytes x = AfterBytes y \<and> d_Identity x < d_Identity y)"

definition compares :: "Snapshot \<Rightarrow> Snapshot \<Rightarrow> Delta list \<Rightarrow> bool" where
  "compares b a ds \<longleftrightarrow>
     sorted_wrt outranks ds \<and> distinct (map d_Identity ds) \<and>
     set ds = difference b a ` Identity ` (set (Records b) \<union> set (Records a))"

text \<open>A suspect shows its row, with the size it has grown to.\<close>

definition shows_row :: "Delta \<Rightarrow> AnalysisSuspect \<Rightarrow> bool" where
  "shows_row d s \<longleftrightarrow>
     as_Identity s = d_Identity d \<and> as_Name s = d_DisplayName d \<and> as_Runtime s = d_Runtime d \<and>
     as_Reason s = ''largest positive shallow-size growth between heap snapshots'' \<and>
     as_Count s = AfterCount d \<and> as_Bytes s = AfterBytes d \<and>
     as_DeltaCount s = DeltaCount d \<and> as_DeltaBytes s = DeltaBytes d"

lemma deltaOf_difference:
  "deltaOf (sn_Runtime a) (i, latest (Records b) i, latest (Records a) i) = difference b a i"
  by (auto simp: deltaOf_def difference_def amount_def Let_def split: option.splits)

lemma delta_less_outranks: "delta_less = outranks"
  by (intro ext) (auto simp: delta_less_def outranks_def dest: sint_neq_less)

lemma Compare_eq: "Compare (Some b) (Some a) = Inr (sort_slice delta_less (rows b a))"
  by (simp add: Compare_def rows_def pairs_def Let_def)

lemma Compare_spec: "returns (Compare (Some b) (Some a)) (compares b a)"
proof -
  let ?ds = "sort_slice delta_less (rows b a)"
  have "distinct (rows b a)" using rows_distinct [of b a] by (simp add: distinct_map)
  then have "sorted_wrt delta_less ?ds" by (rule by_delta.strictly_sorted) (rule rows_total)
  moreover have "mset (map d_Identity ?ds) = mset (map d_Identity (rows b a))" by simp
  then have "distinct (map d_Identity ?ds)"
    using rows_distinct [of b a] by (metis mset_eq_imp_distinct_iff)
  ultimately show ?thesis by (simp add: Compare_eq compares_def rows_set deltaOf_difference delta_less_outranks)
qed

lemma Compare_any_order:
  assumes "mset m = mset (pairs (Records b) (Records a))"
  shows "Compare (Some b) (Some a) = Inr (sort_slice delta_less (map (deltaOf (sn_Runtime a)) m))"
proof -
  have "mset (rows b a) = mset (map (deltaOf (sn_Runtime a)) m)" by (simp add: rows_def assms)
  then show ?thesis unfolding Compare_eq by (simp add: by_delta.sort_slice_perm [OF _ rows_total])
qed

subsection \<open>The rankings\<close>

lemma growthLoop_take:
  "int (length acc) < limit \<Longrightarrow>
   growthLoop limit ds acc =
     acc @ map growthSuspect (take (nat limit - length acc) (filter (\<lambda>d. 0 < sint (DeltaBytes d)) ds))"
proof (induction ds arbitrary: acc)
  case Nil
  then show ?case by simp
next
  case (Cons d ds)
  have "nat limit - length acc = Suc (nat limit - Suc (length acc))" using Cons.prems by linarith
  then show ?case using Cons by (auto simp: Let_def)
qed

lemma growthSuspect_shows: "list_all2 shows_row ds (map growthSuspect ds)"
  by (induction ds) (auto simp: shows_row_def growthSuspect_def)

lemma RankGrowth_spec:
  assumes "0 < limit"
  shows "if 96 * limit \<le> 2 ^ 48
    then returns (RankGrowth (Some b) (Some a) limit)
      (\<lambda>ss. \<exists>ds. Compare (Some b) (Some a) = Inr ds \<and> compares b a ds \<and>
         list_all2 shows_row (take (nat limit) (filter (\<lambda>d. 0 < sint (DeltaBytes d)) ds)) ss)
    else RankGrowth (Some b) (Some a) limit = Inl Panic"
proof -
  obtain ds where "Compare (Some b) (Some a) = Inr ds" and "compares b a ds"
    using Compare_spec [of b a] by (auto elim: returnsE)
  then show ?thesis
    using assms by (auto simp: RankGrowth_def growthLoop_take growthSuspect_shows suspectSize_def maxAlloc_def)
qed

lemma RankLargest_spec:
  assumes "0 < limit"
  shows "\<exists>rs. mset rs = mset (Records s) \<and> sorted_wrt (\<lambda>x y. \<not> record_less y x) rs \<and>
    map as_Identity (RankLargest (Some s) limit) = map Identity (take (nat limit) rs) \<and>
    map as_Bytes (RankLargest (Some s) limit) = map ShallowBytes (take (nat limit) rs)"
proof (intro exI conjI)
  let ?rs = "sort_slice record_less (Records s)"
  show "mset ?rs = mset (Records s)" by simp
  show "sorted_wrt (\<lambda>x y. \<not> record_less y x) ?rs" by (rule by_record.sorted_sort_slice)
  show "map as_Identity (RankLargest (Some s) limit) = map Identity (take (nat limit) ?rs)"
    and "map as_Bytes (RankLargest (Some s) limit) = map ShallowBytes (take (nat limit) ?rs)"
    using assms by (auto simp: RankLargest_def Let_def)
qed

subsection \<open>A printed histogram is read back\<close>

lemma last_sub_absent: "CHR '' '' \<notin> set s \<Longrightarrow> last_sub '' ('' s = None"
  by (induction s) auto

lemma last_sub_append:
  "last_sub sub t = Some i \<Longrightarrow> last_sub sub (s @ t) = Some (length s + i)"
  by (induction s) auto

lemma split_plain_class: "word c \<Longrightarrow> splitClassAndModule c = (c, [])"
proof -
  assume c: "word c"
  then have "CHR '' '' \<notin> set c" by (rule word_no_blank)
  with c show ?thesis by (simp add: splitClassAndModule_def trim_space_word last_sub_absent)
qed

lemma split_class_module:
  assumes "word c" and "word m"
  shows "splitClassAndModule (c @ '' ('' @ m @ '')'') = (c, m)"
proof -
  let ?s = "c @ '' ('' @ m @ '')''"
  have m: "CHR '' '' \<notin> set m" using assms(2) by (rule word_no_blank)
  have "last_sub '' ('' (''('' @ m @ '')'') = None" using m by (intro last_sub_absent) auto
  then have "last_sub '' ('' ('' ('' @ m @ '')'') = Some 0" by simp
  from last_sub_append [OF this] have i: "last_sub '' ('' ?s = Some (length c)" by simp
  have "space_at ?s = 0"
    using space_at_append [of c "'' ('' @ m @ '')''"] word_ends(1) [OF assms(1)] assms(1)
    by (simp add: starts_blank_def word_def)
  moreover have "space_end ((c @ '' ('' @ m) @ '')'') = 0" by (rule space_end_plain) (simp add: plain_iff white_def)
  ultimately have "trim_space ?s = ?s" by (intro trim_space_id) simp_all
  with i assms show ?thesis
    by (simp add: splitClassAndModule_def has_suffix_def trim_suffix_def suffix_def trim_space_word word_def)
qed

text \<open>
  A line that shows an entry: its words are the rank with a colon, the two numbers, the class and, in
  parentheses, the module. Any white space may separate them.
\<close>

definition entryWords :: "ClassEntry \<Rightarrow> string list" where
  "entryWords e =
     [dec (Rank e) @ '':'', dec (sint (Instances e)), dec (sint (Bytes e)), e_ClassName e] @
     (if Module e = [] then [] else [''('' @ Module e @ '')''])"

definition printable :: "ClassEntry \<Rightarrow> bool" where
  "printable e \<longleftrightarrow> 0 \<le> Rank e \<and> Rank e < 2 ^ 63 \<and> word (e_ClassName e) \<and> (Module e = [] \<or> word (Module e))"

definition showsEntry :: "string \<Rightarrow> ClassEntry \<Rightarrow> bool" where
  "showsEntry raw e \<longleftrightarrow> printable e \<and> CHR 0x0A \<notin> set raw \<and> Go_Strings.fields raw = entryWords e"

lemma sint_i64: "- (2 ^ 63) \<le> sint (x :: i64)" "sint (x :: i64) < 2 ^ 63"
  using sint_ge [of x] sint_lt [of x] by simp_all

lemma parse_sint: "parse_int64 (dec (sint (x :: i64))) = Some (sint x)"
  by (rule parse_dec) (rule sint_i64)+

lemma rank_word:
  assumes "0 \<le> r" and "r < 2 ^ 63"
  shows "parse_int64 (trim_suffix '':'' (dec r @ '':'')) = Some r"
  using parse_dec [of r] assms by (simp add: trim_suffix_def)

lemma rank_digit:
  assumes "0 \<le> r"
  obtains d ds where "dec r @ '':'' = d # ds" and "is_digit d"
proof -
  have "dec_nat (nat r) \<noteq> []" and "list_all is_digit (dec_nat (nat r))" using dec_nat_digits by blast+
  then obtain d ds where "dec_nat (nat r) = d # ds" and "is_digit d" by (cases "dec_nat (nat r)") auto
  with assms show ?thesis using that by (simp add: dec_def)
qed

lemma entryLine_shows:
  assumes "printable e"
  shows "entryLine raw (entryWords e) h = Inr (h \<lparr> Entries := Entries h @ [e] \<rparr>)"
proof -
  have c: "word (e_ClassName e)" and r: "0 \<le> Rank e" "Rank e < 2 ^ 63" and m: "Module e = [] \<or> word (Module e)"
    using assms by (auto simp: printable_def)
  have "splitClassAndModule (join '' '' (drop 3 (entryWords e))) = (e_ClassName e, Module e)"
    using m c split_plain_class split_class_module by (auto simp: entryWords_def numeral_3_eq_3)
  moreover have "entryWords e ! 0 = dec (Rank e) @ '':''" "entryWords e ! 1 = dec (sint (Instances e))"
    "entryWords e ! 2 = dec (sint (Bytes e))" by (simp_all add: entryWords_def)
  ultimately show ?thesis by (simp add: entryLine_def rank_word [OF r] parse_sint)
qed

lemma histLine_fields:
  "histLine raw h =
     (let line = trim_space raw; fs = Go_Strings.fields raw in
      if line = [] \<or> prefix ''num '' line \<or> prefix ''-'' line then Inr h
      else if length fs = 3 \<and> fs ! 0 = ''Total'' then totalLine fs h
      else if length fs < 4 then Inr (h \<lparr> Skipped := Skipped h @ [raw] \<rparr>)
      else entryLine raw fs h)"
  by (simp add: histLine_def fields_trim)

lemma histLine_entry:
  assumes "showsEntry raw e"
  shows "histLine raw h = Inr (h \<lparr> Entries := Entries h @ [e] \<rparr>)"
proof -
  have p: "printable e" and f: "Go_Strings.fields raw = entryWords e" using assms by (auto simp: showsEntry_def)
  obtain d ds where w: "dec (Rank e) @ '':'' = d # ds" and d: "is_digit d"
    using rank_digit p by (auto simp: printable_def)
  obtain t where t: "trim_space raw = d # t"
    using fields_first [of raw "dec (Rank e) @ '':''"] f w by (auto simp: entryWords_def)
  have "d \<noteq> CHR ''n''" and "d \<noteq> CHR ''-''" using d by (auto simp: is_digit_def)
  moreover have "4 \<le> length (entryWords e)" by (simp add: entryWords_def)
  ultimately show ?thesis
    using entryLine_shows [OF p] by (simp add: histLine_fields f t Let_def)
qed

definition heading :: "string \<Rightarrow> bool" where
  "heading raw \<longleftrightarrow> CHR 0x0A \<notin> set raw \<and>
     (blank raw \<or> prefix ''num '' (trim_space raw) \<or> prefix ''-'' (trim_space raw))"

lemma histLine_skips:
  assumes "heading raw"
  shows "histLine raw h = Inr h"
proof -
  have "trim_space raw = []" if "blank raw" using that by (rule trim_space_blank)
  with assms show ?thesis by (auto simp: heading_def histLine_fields Let_def)
qed

lemma histLine_total:
  assumes "Go_Strings.fields raw = [''Total'', dec (sint (Instances e)), dec (sint (Bytes e))]"
    and "e_ClassName e = ''Total''" and "Module e = []" and "Rank e = 0"
  shows "histLine raw h = Inr (h \<lparr> Total := e \<rparr>)"
proof -
  obtain t where t: "trim_space raw = ''Total'' @ t" using fields_first [OF assms(1)] by auto
  have "totalLine [''Total'', dec (sint (Instances e)), dec (sint (Bytes e))] h = Inr (h \<lparr> Total := e \<rparr>)"
    using assms(2-4) by (simp add: totalLine_def parse_sint numeral_2_eq_2)
  then show ?thesis by (simp add: histLine_fields assms(1) t Let_def)
qed

lemma histLines_entries:
  "list_all2 showsEntry raws es \<Longrightarrow> gfold histLine raws h = Inr (h \<lparr> Entries := Entries h @ es \<rparr>)"
  by (induction raws es arbitrary: h rule: list_all2_induct) (auto simp: histLine_entry)

lemma histogram_round_trip:
  assumes "list_all2 showsEntry raws (Entries h)"
    and "list_all heading heads"
    and "CHR 0x0A \<notin> set foot"
    and "Go_Strings.fields foot = [''Total'', dec (sint (Instances (Total h))), dec (sint (Bytes (Total h)))]"
    and "e_ClassName (Total h) = ''Total''" and "Module (Total h) = []" and "Rank (Total h) = 0"
    and "Skipped h = []"
  shows "ParseHistogram (join [CHR 0x0A] (heads @ raws @ [foot])) = Inr h"
proof -
  have "\<forall>raw\<in>set raws. CHR 0x0A \<notin> set raw"
    using assms(1) by (auto simp: list_all2_conv_all_nth in_set_conv_nth showsEntry_def)
  then have "split_on (CHR 0x0A) (join [CHR 0x0A] (heads @ raws @ [foot])) = heads @ raws @ [foot]"
    using assms(2,3) by (intro split_on_join) (auto simp: list_all_iff heading_def)
  moreover have "gfold histLine heads g = Inr g" for g
    using assms(2) by (induction heads) (auto simp: histLine_skips)
  ultimately show ?thesis
    using assms(4-8) by (simp add: ParseHistogram_def gfold_append histLines_entries [OF assms(1)]
        histLine_total emptyHistogram_def)
qed

end
