(* ===== verification/Stack_Profile.thy ===== *)
theory Stack_Profile
  imports Net_Http Go_Text
begin

text \<open>
  Collapsed profiler stacks (\<open>internal/profile/collapsed.go\<close>): the line parser, the method ranking and the
  call tree. The mutable tree of maps is a value that is rebuilt along the walked path. The lemmas show
  that the tree has exactly the paths that occur, each with the total of the samples that pass through
  it and of those that end there, that the ranking counts every sample once per method, and that
  printed samples are read back.
\<close>

subsection \<open>Data\<close>

record StackSample =
  Frames :: "string list"
  s_Value :: i64

record MethodStat =
  m_Name :: string
  Inclusive :: i64
  Exclusive :: i64

datatype CallTreeNode =
  CallTreeNode (ct_Name: string) (ct_Value: i64) (ct_Self: i64) (ct_Children: "CallTreeNode list")

datatype treeNode =
  TreeNode (tn_name: string) (tn_value: i64) (tn_self: i64) (tn_children: "(string \<times> treeNode) list")

datatype collapsedErr = MissingValue int | BadValue int | NegativeValue int | LineTooLong

subsection \<open>Parsing\<close>

definition splitFrames :: "string \<Rightarrow> string list" where
  "splitFrames stack = filter (\<lambda>f. f \<noteq> []) (map trim_space (split_on (CHR '';'') stack))"

text \<open>The buffer limit of a \<open>bufio.Scanner\<close> without a \<open>Buffer\<close> call.\<close>

definition MaxScanTokenSize :: nat where "MaxScanTokenSize = 64 * 1024"

definition parseStackLine :: "int \<Rightarrow> string \<Rightarrow> StackSample list \<Rightarrow> (collapsedErr, StackSample list) go" where
  "parseStackLine lineNo text samples =
     (let line = trim_space text in
      if line = [] \<or> prefix ''#'' line then Inr samples
      else case cut (CHR '' '') line of (stack, valueText, ok) \<Rightarrow>
        if \<not> ok then Inl (Fault (MissingValue lineNo))
        else case parse_int64 (trim_space valueText) of
               None \<Rightarrow> Inl (Fault (BadValue lineNo))
             | Some v \<Rightarrow>
                 if v < 0 then Inl (Fault (NegativeValue lineNo))
                 else let frames = splitFrames stack
                      in if frames = [] then Inr samples
                         else Inr (samples @ [\<lparr> Frames = frames, s_Value = word_of_int v \<rparr>]))"

function parseStackLines :: "int \<Rightarrow> string \<Rightarrow> StackSample list \<Rightarrow> (collapsedErr, StackSample list) go" where
  "parseStackLines lineNo s samples =
     (case scan_line MaxScanTokenSize s of
        ScanEnd \<Rightarrow> Inr samples
      | ScanTooLong \<Rightarrow> Inl (Fault LineTooLong)
      | Line l r \<Rightarrow> gbind (parseStackLine (lineNo + 1) l samples) (\<lambda>samples. parseStackLines (lineNo + 1) r samples))"
  by pat_completeness auto
termination
  by (relation "measure (\<lambda>(_, s, _). length s)") (auto dest: scan_line_shorter)

declare parseStackLines.simps [simp del]

definition ParseCollapsedStacks :: "string \<Rightarrow> (collapsedErr, StackSample list) go" where
  "ParseCollapsedStacks s = parseStackLines 0 s []"

subsection \<open>Method ranking\<close>

definition hotFrame ::
  "i64 \<Rightarrow> nat \<Rightarrow> nat \<times> string \<Rightarrow> string list \<times> (string, MethodStat) gomap \<Rightarrow> string list \<times> (string, MethodStat) gomap" where
  "hotFrame v n fr st =
     (let (i, frame) = fr; (seen, byName) = st;
          stat = (case map_of byName frame of
                    None \<Rightarrow> \<lparr> m_Name = frame, Inclusive = 0, Exclusive = 0 \<rparr> | Some stat \<Rightarrow> stat);
          stat = (if frame \<notin> set seen then stat \<lparr> Inclusive := Inclusive stat + v \<rparr> else stat);
          stat = (if i + 1 = n then stat \<lparr> Exclusive := Exclusive stat + v \<rparr> else stat)
      in (frame # seen, mput frame stat byName))"

definition hotSample :: "StackSample \<Rightarrow> (string, MethodStat) gomap \<Rightarrow> (string, MethodStat) gomap" where
  "hotSample s byName =
     snd (fold (hotFrame (s_Value s) (length (Frames s))) (enumerate 0 (Frames s)) ([], byName))"

definition stat_less :: "MethodStat \<Rightarrow> MethodStat \<Rightarrow> bool" where
  "stat_less x y =
     (if Inclusive x \<noteq> Inclusive y then sint (Inclusive x) > sint (Inclusive y) else m_Name x < m_Name y)"

definition HotMethods :: "StackSample list \<Rightarrow> MethodStat list" where
  "HotMethods samples = sort_slice stat_less (map snd (fold hotSample samples []))"

subsection \<open>Call tree\<close>

definition newNode :: "string \<Rightarrow> treeNode" where
  "newNode name = TreeNode name 0 0 []"

definition addValue :: "i64 \<Rightarrow> treeNode \<Rightarrow> treeNode" where
  "addValue v n = TreeNode (tn_name n) (tn_value n + v) (tn_self n) (tn_children n)"

primrec walkFrames :: "i64 \<Rightarrow> string list \<Rightarrow> treeNode \<Rightarrow> treeNode" where
  "walkFrames v [] n = TreeNode (tn_name n) (tn_value n) (tn_self n + v) (tn_children n)"
| "walkFrames v (frame # frames) n =
     (let child = (case map_of (tn_children n) frame of None \<Rightarrow> newNode frame | Some c \<Rightarrow> c)
      in TreeNode (tn_name n) (tn_value n) (tn_self n)
           (mput frame (walkFrames v frames (addValue v child)) (tn_children n)))"

definition name_less :: "string \<times> 'a \<Rightarrow> string \<times> 'a \<Rightarrow> bool" where
  "name_less x y = (fst x < fst y)"

fun export :: "treeNode \<Rightarrow> CallTreeNode" where
  "export (TreeNode nm v s cs) =
     CallTreeNode nm v s (map snd (sort_slice name_less (map (\<lambda>(k, c). (k, export c)) cs)))"

definition addSample :: "StackSample \<Rightarrow> treeNode \<Rightarrow> treeNode" where
  "addSample s n = walkFrames (s_Value s) (Frames s) (addValue (s_Value s) n)"

definition BuildCallTree :: "StackSample list \<Rightarrow> CallTreeNode" where
  "BuildCallTree samples = export (fold addSample samples (newNode ''root''))"

subsection \<open>Paths of the tree\<close>

primrec tfind :: "string list \<Rightarrow> treeNode \<Rightarrow> treeNode option" where
  "tfind [] n = Some n"
| "tfind (f # fs) n = (case map_of (tn_children n) f of None \<Rightarrow> None | Some c \<Rightarrow> tfind fs c)"

definition tval :: "string list \<Rightarrow> treeNode \<Rightarrow> i64" where
  "tval p n = (case tfind p n of None \<Rightarrow> 0 | Some m \<Rightarrow> tn_value m)"

definition tself :: "string list \<Rightarrow> treeNode \<Rightarrow> i64" where
  "tself p n = (case tfind p n of None \<Rightarrow> 0 | Some m \<Rightarrow> tn_self m)"

definition thas :: "string list \<Rightarrow> treeNode \<Rightarrow> bool" where
  "thas p n \<longleftrightarrow> tfind p n \<noteq> None"

lemma tfind_simps:
  "tval [] n = tn_value n" "tself [] n = tn_self n" "thas [] n"
  "tval (f # fs) n = (case map_of (tn_children n) f of None \<Rightarrow> 0 | Some c \<Rightarrow> tval fs c)"
  "tself (f # fs) n = (case map_of (tn_children n) f of None \<Rightarrow> 0 | Some c \<Rightarrow> tself fs c)"
  "thas (f # fs) n \<longleftrightarrow> (case map_of (tn_children n) f of None \<Rightarrow> False | Some c \<Rightarrow> thas fs c)"
  by (auto simp: tval_def tself_def thas_def split: option.splits)

lemma newNode_paths [simp]:
  "tval p (newNode nm) = 0" "tself p (newNode nm) = 0" "thas p (newNode nm) \<longleftrightarrow> p = []"
  by (cases p; simp add: tfind_simps newNode_def)+

lemma newNode_fields [simp]:
  "tn_name (newNode nm) = nm" "tn_value (newNode nm) = 0" "tn_self (newNode nm) = 0" "tn_children (newNode nm) = []"
  by (simp_all add: newNode_def)

lemma addValue_paths [simp]:
  "tval p (addValue v n) = tval p n + (if p = [] then v else 0)"
  "tself p (addValue v n) = tself p n" "thas p (addValue v n) = thas p n"
  by (cases p; simp add: tfind_simps addValue_def split: option.splits)+

lemma walkFrames_paths:
  "thas p (walkFrames v fs n) \<longleftrightarrow> thas p n \<or> prefix p fs"
  "tval p (walkFrames v fs n) = tval p n + (if p \<noteq> [] \<and> prefix p fs then v else 0)"
  "tself p (walkFrames v fs n) = tself p n + (if p = fs then v else 0)"
proof (induction fs arbitrary: p n)
  case Nil
  { case 1 show ?case by (cases p) (auto simp: tfind_simps)
  next case 2 show ?case by (cases p) (auto simp: tfind_simps)
  next case 3 show ?case by (cases p) (auto simp: tfind_simps) }
next
  case (Cons f fs)
  { case 1 show ?case by (cases p) (auto simp: tfind_simps Let_def Cons.IH split: option.splits)
  next case 2 show ?case by (cases p) (auto simp: tfind_simps Let_def Cons.IH split: option.splits)
  next case 3 show ?case by (cases p) (auto simp: tfind_simps Let_def Cons.IH split: option.splits) }
qed

lemma addSample_paths:
  "thas p (addSample s n) \<longleftrightarrow> thas p n \<or> prefix p (Frames s)"
  "tval p (addSample s n) = tval p n + (if prefix p (Frames s) then s_Value s else 0)"
  "tself p (addSample s n) = tself p n + (if p = Frames s then s_Value s else 0)"
  by (auto simp: addSample_def walkFrames_paths)

lemma fold_addSample_paths:
  "thas p (fold addSample ss n) \<longleftrightarrow> thas p n \<or> (\<exists>s\<in>set ss. prefix p (Frames s))"
  "tval p (fold addSample ss n) = tval p n + (\<Sum>s\<leftarrow>filter (\<lambda>s. prefix p (Frames s)) ss. s_Value s)"
  "tself p (fold addSample ss n) = tself p n + (\<Sum>s\<leftarrow>filter (\<lambda>s. Frames s = p) ss. s_Value s)"
  by (induction ss arbitrary: n) (auto simp: addSample_paths algebra_simps)

subsection \<open>Exporting keeps the paths\<close>

fun wf_tree :: "treeNode \<Rightarrow> bool" where
  "wf_tree (TreeNode nm v s cs) = (distinct (map fst cs) \<and> (\<forall>kc\<in>set cs. tn_name (snd kc) = fst kc \<and> wf_tree (snd kc)))"

lemma wf_treeD:
  assumes "wf_tree n"
  shows "mwf (tn_children n)" and "\<And>f c. map_of (tn_children n) f = Some c \<Longrightarrow> wf_tree c \<and> tn_name c = f"
  using assms by (cases n; force simp: mwf_def mkeys_def dest: map_of_SomeD)+

lemma wf_newNode [simp]: "wf_tree (newNode nm)"
  by (simp add: newNode_def)

lemma wf_addValue [simp]: "wf_tree (addValue v n) = wf_tree n" "tn_name (addValue v n) = tn_name n"
  by (cases n; simp add: addValue_def)+

lemma wf_walkFrames: "wf_tree n \<Longrightarrow> wf_tree (walkFrames v fs n) \<and> tn_name (walkFrames v fs n) = tn_name n"
proof (induction fs arbitrary: n)
  case Nil
  then show ?case by (cases n) simp
next
  case (Cons f fs)
  let ?c = "case map_of (tn_children n) f of None \<Rightarrow> newNode f | Some c \<Rightarrow> c"
  have "wf_tree ?c \<and> tn_name ?c = f"
    using wf_treeD(2) [OF Cons.prems] by (auto simp: newNode_def split: option.splits)
  then have c: "wf_tree (walkFrames v fs (addValue v ?c)) \<and> tn_name (walkFrames v fs (addValue v ?c)) = f"
    using Cons.IH [of "addValue v ?c"] by simp
  have m: "mwf (mput f (walkFrames v fs (addValue v ?c)) (tn_children n))"
    using wf_treeD(1) [OF Cons.prems] by simp
  have "\<forall>kc\<in>set (tn_children n). tn_name (snd kc) = fst kc \<and> wf_tree (snd kc)"
    using Cons.prems by (cases n) simp
  then show ?case using c m set_mput [of f "walkFrames v fs (addValue v ?c)" "tn_children n"]
    by (auto simp: mwf_def mkeys_def Let_def)
qed

lemma wf_fold_addSample: "wf_tree n \<Longrightarrow> wf_tree (fold addSample ss n)"
  by (induction ss arbitrary: n) (auto simp: addSample_def wf_walkFrames)

primrec cfind :: "string list \<Rightarrow> CallTreeNode \<Rightarrow> CallTreeNode option" where
  "cfind [] t = Some t"
| "cfind (f # fs) t = (case find (\<lambda>c. ct_Name c = f) (ct_Children t) of None \<Rightarrow> None | Some c \<Rightarrow> cfind fs c)"

lemma export_fields [simp]:
  "ct_Name (export n) = tn_name n" "ct_Value (export n) = tn_value n" "ct_Self (export n) = tn_self n"
  by (cases n; simp)+

lemma find_unique:
  assumes "distinct (map g xs)" and "x \<in> set xs"
  shows "find (\<lambda>c. g c = g x) xs = Some x"
  using assms by (induction xs) (auto simp: image_iff)

definition childList :: "treeNode \<Rightarrow> CallTreeNode list" where
  "childList n = map snd (sort_slice name_less (map (\<lambda>(k, c). (k, export c)) (tn_children n)))"

lemma export_children: "ct_Children (export n) = childList n"
  by (cases n) (simp add: childList_def)

interpretation by_name: comparator "name_less :: string \<times> 'a \<Rightarrow> string \<times> 'a \<Rightarrow> bool"
  by unfold_locales (auto simp: name_less_def)

lemma childList_facts:
  assumes "wf_tree n"
  shows "set (childList n) = export ` ran (map_of (tn_children n))"
    and "distinct (map ct_Name (childList n))"
    and "sorted (map ct_Name (childList n))"
proof -
  let ?ks = "map (\<lambda>(k, c). (k, export c)) (tn_children n)"
  let ?srt = "sort_slice name_less ?ks"
  have w: "distinct (map fst (tn_children n))" "\<And>kc. kc \<in> set (tn_children n) \<Longrightarrow> tn_name (snd kc) = fst kc"
    using assms by (cases n; simp)+
  have "set (childList n) = export ` snd ` set (tn_children n)"
    by (force simp: childList_def image_image)
  then show "set (childList n) = export ` ran (map_of (tn_children n))"
    by (simp add: ran_distinct [OF w(1)])
  have names: "map ct_Name (childList n) = map fst ?srt"
    using w(2) by (auto simp: childList_def)
  have "mset (map fst ?srt) = mset (map fst (tn_children n))"
    by (simp add: case_prod_unfold comp_def image_mset.compositionality)
  then show "distinct (map ct_Name (childList n))"
    unfolding names using w(1) by (metis mset_eq_imp_distinct_iff)
  show "sorted (map ct_Name (childList n))"
    unfolding names using by_name.sorted_sort_slice [of ?ks]
    by (auto simp: sorted_wrt_map name_less_def not_less)
qed

lemma cfind_export: "wf_tree n \<Longrightarrow> cfind p (export n) = map_option export (tfind p n)"
proof (induction p arbitrary: n)
  case Nil
  then show ?case by simp
next
  case (Cons f fs)
  note ch = childList_facts [OF Cons.prems] wf_treeD [OF Cons.prems]
  show ?case
  proof (cases "map_of (tn_children n) f")
    case None
    have "ct_Name t \<noteq> f" if "t \<in> set (childList n)" for t
      using that ch(1,5) None by (auto simp: ran_def)
    then have "find (\<lambda>c. ct_Name c = f) (childList n) = None" by (auto simp: find_None_iff)
    with None show ?thesis by (simp add: export_children)
  next
    case (Some c)
    with ch(1) have "export c \<in> set (childList n)" by (auto simp: ran_def)
    from find_unique [OF ch(2) this]
    have "find (\<lambda>c. ct_Name c = f) (childList n) = Some (export c)" using ch(5) [OF Some] by simp
    with Some show ?thesis using Cons.IH ch(5) [OF Some] by (simp add: export_children)
  qed
qed

lemma BuildCallTree_spec:
  "case cfind p (BuildCallTree ss) of
     None \<Rightarrow> p \<noteq> [] \<and> \<not> (\<exists>s\<in>set ss. prefix p (Frames s))
   | Some t \<Rightarrow>
       (p = [] \<or> (\<exists>s\<in>set ss. prefix p (Frames s))) \<and>
       ct_Value t = (\<Sum>s\<leftarrow>filter (\<lambda>s. prefix p (Frames s)) ss. s_Value s) \<and>
       ct_Self t = (\<Sum>s\<leftarrow>filter (\<lambda>s. Frames s = p) ss. s_Value s)"
proof -
  let ?n = "fold addSample ss (newNode ''root'')"
  have "cfind p (BuildCallTree ss) = map_option export (tfind p ?n)"
    unfolding BuildCallTree_def by (intro cfind_export wf_fold_addSample) simp
  moreover have "thas p ?n \<longleftrightarrow> p = [] \<or> (\<exists>s\<in>set ss. prefix p (Frames s))"
    and "tval p ?n = (\<Sum>s\<leftarrow>filter (\<lambda>s. prefix p (Frames s)) ss. s_Value s)"
    and "tself p ?n = (\<Sum>s\<leftarrow>filter (\<lambda>s. Frames s = p) ss. s_Value s)"
    by (simp_all add: fold_addSample_paths)
  ultimately show ?thesis by (auto simp: thas_def tval_def tself_def split: option.splits)
qed

lemma BuildCallTree_sorted:
  assumes "cfind p (BuildCallTree ss) = Some t"
  shows "sorted (map ct_Name (ct_Children t)) \<and> distinct (map ct_Name (ct_Children t))"
proof -
  let ?n = "fold addSample ss (newNode ''root'')"
  have wf: "wf_tree ?n" by (rule wf_fold_addSample) simp
  have sub: "wf_tree m" if "wf_tree n" "tfind q n = Some m" for q n m
    using that by (induction q arbitrary: n) (auto dest: wf_treeD(2) split: option.splits)
  obtain m where "tfind p ?n = Some m" and t: "t = export m"
    using assms cfind_export [OF wf, of p] by (auto simp: BuildCallTree_def)
  then have "wf_tree m" using sub wf by blast
  then show ?thesis unfolding t export_children using childList_facts(2,3) by blast
qed

subsection \<open>The method ranking\<close>

definition incl :: "(string, MethodStat) gomap \<Rightarrow> string \<Rightarrow> i64" where
  "incl m f = (case map_of m f of None \<Rightarrow> 0 | Some s \<Rightarrow> Inclusive s)"

definition excl :: "(string, MethodStat) gomap \<Rightarrow> string \<Rightarrow> i64" where
  "excl m f = (case map_of m f of None \<Rightarrow> 0 | Some s \<Rightarrow> Exclusive s)"

definition named :: "(string, MethodStat) gomap \<Rightarrow> bool" where
  "named m \<longleftrightarrow> mwf m \<and> (\<forall>f s. map_of m f = Some s \<longrightarrow> m_Name s = f)"

lemma hotFrames_spec:
  assumes "named m" and "k + length frs = n"
  shows "case fold (hotFrame v n) (enumerate k frs) (seen, m) of (seen', m') \<Rightarrow>
    named m' \<and> dom (map_of m') = dom (map_of m) \<union> set frs \<and>
    (\<forall>f. incl m' f = incl m f + (if f \<in> set frs \<and> f \<notin> set seen then v else 0) \<and>
         excl m' f = excl m f + (if frs \<noteq> [] \<and> last frs = f then v else 0))"
  using assms
proof (induction frs arbitrary: k seen m)
  case Nil
  then show ?case by simp
next
  case (Cons x frs)
  obtain m1 where h: "hotFrame v n (k, x) (seen, m) = (x # seen, m1)" by (simp add: hotFrame_def Let_def)
  have n1: "named m1" and d1: "dom (map_of m1) = insert x (dom (map_of m))"
    and i1: "\<And>f. incl m1 f = incl m f + (if f = x \<and> x \<notin> set seen then v else 0)"
    and e1: "\<And>f. excl m1 f = excl m f + (if f = x \<and> k + 1 = n then v else 0)"
    using h Cons.prems(1)
    by (auto simp: hotFrame_def Let_def named_def incl_def excl_def split: option.splits if_splits)
  have step: "fold (hotFrame v n) (enumerate k (x # frs)) (seen, m) = fold (hotFrame v n) (enumerate (Suc k) frs) (x # seen, m1)"
    by (simp add: h)
  have "frs = [] \<longleftrightarrow> k + 1 = n" using Cons.prems(2) by auto
  obtain seen2 m2 where F: "fold (hotFrame v n) (enumerate (Suc k) frs) (x # seen, m1) = (seen2, m2)" by force
  from Cons.IH [of m1 "Suc k" "x # seen"] Cons.prems(2) n1
  have IH: "named m2" "dom (map_of m2) = dom (map_of m1) \<union> set frs"
    "\<And>f. incl m2 f = incl m1 f + (if f \<in> set frs \<and> f \<notin> set (x # seen) then v else 0)"
    "\<And>f. excl m2 f = excl m1 f + (if frs \<noteq> [] \<and> last frs = f then v else 0)"
    by (simp_all add: F)
  show ?case unfolding step F prod.case
    using IH(1) \<open>frs = [] \<longleftrightarrow> k + 1 = n\<close> by (simp add: IH(2-4) d1 i1 e1) blast
qed

lemma hotSample_spec:
  assumes "named m"
  shows "named (hotSample s m)" and "dom (map_of (hotSample s m)) = dom (map_of m) \<union> set (Frames s)"
    and "incl (hotSample s m) f = incl m f + (if f \<in> set (Frames s) then s_Value s else 0)"
    and "excl (hotSample s m) f = excl m f + (if Frames s \<noteq> [] \<and> last (Frames s) = f then s_Value s else 0)"
  using hotFrames_spec [OF assms, where k = 0 and frs = "Frames s" and n = "length (Frames s)"
      and v = "s_Value s" and seen = "[]"]
  by (auto simp: hotSample_def split: prod.splits)

lemma fold_hotSample:
  assumes "named m"
  shows "named (fold hotSample ss m) \<and>
    dom (map_of (fold hotSample ss m)) = dom (map_of m) \<union> (\<Union>s\<in>set ss. set (Frames s)) \<and>
    incl (fold hotSample ss m) f = incl m f + (\<Sum>s\<leftarrow>filter (\<lambda>s. f \<in> set (Frames s)) ss. s_Value s) \<and>
    excl (fold hotSample ss m) f =
      excl m f + (\<Sum>s\<leftarrow>filter (\<lambda>s. Frames s \<noteq> [] \<and> last (Frames s) = f) ss. s_Value s)"
  using assms
proof (induction ss arbitrary: m)
  case Nil
  then show ?case by simp
next
  case (Cons s ss)
  from Cons.IH [OF hotSample_spec(1) [OF Cons.prems], of s]
  show ?case by (auto simp: hotSample_spec [OF Cons.prems] algebra_simps)
qed

interpretation by_stat: comparator stat_less
proof unfold_locales
  show "\<not> stat_less y x" if "stat_less x y" for x y
    using that by (auto simp: stat_less_def split: if_splits)
  show "\<not> stat_less x z" if "\<not> stat_less x y" "\<not> stat_less y z" for x y z
    using that by (auto simp: stat_less_def sint_eq_iff split: if_splits)
qed

lemma HotMethods_spec:
  "distinct (map m_Name (HotMethods ss)) \<and>
   sorted_wrt (\<lambda>x y. \<not> stat_less y x) (HotMethods ss) \<and>
   set (HotMethods ss) =
     (\<lambda>f. \<lparr> m_Name = f,
            Inclusive = (\<Sum>s\<leftarrow>filter (\<lambda>s. f \<in> set (Frames s)) ss. s_Value s),
            Exclusive = (\<Sum>s\<leftarrow>filter (\<lambda>s. Frames s \<noteq> [] \<and> last (Frames s) = f) ss. s_Value s) \<rparr>) `
     (\<Union>s\<in>set ss. set (Frames s))"
proof (intro conjI)
  let ?m = "fold hotSample ss []"
  have f: "named ?m" "dom (map_of ?m) = (\<Union>s\<in>set ss. set (Frames s))"
    "\<And>f. incl ?m f = (\<Sum>s\<leftarrow>filter (\<lambda>s. f \<in> set (Frames s)) ss. s_Value s)"
    "\<And>f. excl ?m f = (\<Sum>s\<leftarrow>filter (\<lambda>s. Frames s \<noteq> [] \<and> last (Frames s) = f) ss. s_Value s)"
    using fold_hotSample [of "[]" ss] by (simp_all add: named_def incl_def excl_def)
  have wf: "distinct (map fst ?m)" using f(1) by (simp add: named_def mwf_def mkeys_def)
  have nm: "m_Name (snd p) = fst p" if "p \<in> set ?m" for p
    using f(1) wf that by (cases p) (auto simp: named_def)
  then have names: "map m_Name (map snd ?m) = map fst ?m" by simp
  have "distinct (map m_Name (map snd ?m))" unfolding names by (rule wf)
  moreover have "mset (map m_Name (HotMethods ss)) = mset (map m_Name (map snd ?m))"
    by (simp add: HotMethods_def image_mset.compositionality)
  ultimately show "distinct (map m_Name (HotMethods ss))" by (metis mset_eq_imp_distinct_iff)
  show "sorted_wrt (\<lambda>x y. \<not> stat_less y x) (HotMethods ss)"
    unfolding HotMethods_def by (rule by_stat.sorted_sort_slice)
  have stat: "s = \<lparr> m_Name = g, Inclusive = incl ?m g, Exclusive = excl ?m g \<rparr>" if "map_of ?m g = Some s" for g s
    using that f(1) by (simp add: named_def incl_def excl_def)
  have "set (HotMethods ss) = ran (map_of ?m)"
    by (simp add: HotMethods_def ran_distinct [OF wf])
  also have "\<dots> = (\<lambda>g. \<lparr> m_Name = g, Inclusive = incl ?m g, Exclusive = excl ?m g \<rparr>) ` dom (map_of ?m)"
    using stat by (fastforce simp: ran_def dom_def)
  finally show "set (HotMethods ss) =
     (\<lambda>f. \<lparr> m_Name = f,
            Inclusive = (\<Sum>s\<leftarrow>filter (\<lambda>s. f \<in> set (Frames s)) ss. s_Value s),
            Exclusive = (\<Sum>s\<leftarrow>filter (\<lambda>s. Frames s \<noteq> [] \<and> last (Frames s) = f) ss. s_Value s) \<rparr>) `
     (\<Union>s\<in>set ss. set (Frames s))" by (simp only: f)
qed

subsection \<open>Printed samples are read back\<close>

definition stackLine :: "StackSample \<Rightarrow> string" where
  "stackLine s = join '';'' (Frames s) @ '' '' @ dec (sint (s_Value s))"

definition writeStacks :: "StackSample list \<Rightarrow> string" where
  "writeStacks ss = concat (map (\<lambda>s. stackLine s @ [newline]) ss)"

definition printableSample :: "StackSample \<Rightarrow> bool" where
  "printableSample s \<longleftrightarrow>
     Frames s \<noteq> [] \<and> (\<forall>f\<in>set (Frames s). word f \<and> CHR '';'' \<notin> set f) \<and> hd (hd (Frames s)) \<noteq> CHR ''#'' \<and>
     0 \<le> sint (s_Value s) \<and> length (stackLine s) < MaxScanTokenSize"

lemma set_join: "set (join sep ws) \<subseteq> set sep \<union> (\<Union>w\<in>set ws. set w)"
  by (induction sep ws rule: join.induct) auto

lemma join_hd: "ws \<noteq> [] \<Longrightarrow> hd ws \<noteq> [] \<Longrightarrow> join sep ws \<noteq> [] \<and> hd (join sep ws) = hd (hd ws)"
  by (induction sep ws rule: join.induct) auto

lemma cut_append: "sep \<notin> set a \<Longrightarrow> cut sep (a @ sep # b) = (a, b, True)"
  by (induction a) auto

lemma join_start: "ws \<noteq> [] \<Longrightarrow> \<exists>t. join [c] ws = hd ws @ t \<and> (t = [] \<or> hd t = c)"
  by (cases ws; cases "tl ws") auto

lemma splitFrames_join:
  assumes "fs \<noteq> []" and "\<forall>f\<in>set fs. word f \<and> CHR '';'' \<notin> set f"
  shows "splitFrames (join '';'' fs) = fs"
proof -
  have "map trim_space fs = fs" using assms(2) by (induction fs) (auto simp: trim_space_word)
  moreover have "filter (\<lambda>f. f \<noteq> []) fs = fs" using assms(2) by (auto simp: filter_id_conv word_def)
  ultimately show ?thesis using assms by (simp add: splitFrames_def split_on_join)
qed

lemma stackLine_shape:
  assumes "printableSample s"
  shows "newline \<notin> set (stackLine s)" and "dropCR (stackLine s) = stackLine s"
    and "trim_space (stackLine s) = stackLine s" and "\<not> prefix ''#'' (stackLine s)" and "stackLine s \<noteq> []"
    and "CHR '' '' \<notin> set (join '';'' (Frames s))"
proof -
  let ?j = "join '';'' (Frames s)" and ?d = "dec (sint (s_Value s))"
  have fr: "Frames s \<noteq> []" "\<And>f. f \<in> set (Frames s) \<Longrightarrow> word f" "hd (hd (Frames s)) \<noteq> CHR ''#''"
    using assms by (auto simp: printableSample_def)
  have d: "word ?d" by (rule word_dec)
  have j: "c = CHR '';'' \<or> c \<noteq> CHR '' '' \<and> c \<noteq> newline" if "c \<in> set ?j" for c
    using that set_join [of "'';''" "Frames s"] fr(2) word_no_blank by (auto simp: newline_def)
  have hd: "?j \<noteq> []" "hd ?j = hd (hd (Frames s))"
    using join_hd [OF fr(1)] fr(2) [OF hd_in_set [OF fr(1)]] by (auto simp: word_def)
  have dp: "?d \<noteq> []" "plain (last ?d)" using dec_plain [of "sint (s_Value s)"] by auto
  then have tail: "stackLine s = (?j @ '' '' @ butlast ?d) @ [last ?d]" by (simp add: stackLine_def)
  show ne: "stackLine s \<noteq> []" by (simp add: stackLine_def)
  show "CHR '' '' \<notin> set ?j" using j by auto
  show "newline \<notin> set (stackLine s)"
    using j word_no_blank(2) [OF d] by (auto simp: stackLine_def newline_def)
  have "last ?d \<noteq> creturn" using dp(2) by (auto simp: plain_iff white_def creturn_def)
  then show "dropCR (stackLine s) = stackLine s" using tail by (simp add: dropCR_def)
  have h: "hd (stackLine s) = hd (hd (Frames s))" using hd by (simp add: stackLine_def)
  then show "\<not> prefix ''#'' (stackLine s)" using fr(3) ne by (cases "stackLine s") auto
  obtain t where t: "?j = hd (Frames s) @ t" "t = [] \<or> hd t = CHR '';''" using join_start [OF fr(1)] by blast
  have w: "word (hd (Frames s))" using fr(1,2) by simp
  have "space_at (hd (Frames s) @ t @ '' '' @ ?d) = 0"
    using space_at_append_fresh [of "hd (Frames s)" "t @ '' '' @ ?d"] t(2) w word_ends(1) [OF w]
    by (cases t) (auto simp: continues_def word_def)
  then have "space_at (stackLine s) = 0" by (simp add: stackLine_def t(1))
  moreover have "space_end (stackLine s) = 0" unfolding tail using dp(2) by (rule space_end_plain)
  ultimately show "trim_space (stackLine s) = stackLine s" by (rule trim_space_id)
qed

lemma parseStackLine_prints:
  assumes "printableSample s"
  shows "parseStackLine k (stackLine s) acc = Inr (acc @ [s])"
proof -
  note shape = stackLine_shape [OF assms]
  have fr: "Frames s \<noteq> []" "\<forall>f\<in>set (Frames s). word f \<and> CHR '';'' \<notin> set f" "0 \<le> sint (s_Value s)"
    using assms by (auto simp: printableSample_def)
  have c: "cut (CHR '' '') (stackLine s) = (join '';'' (Frames s), dec (sint (s_Value s)), True)"
    using cut_append [OF shape(6)] by (simp add: stackLine_def)
  have "parse_int64 (dec (sint (s_Value s))) = Some (sint (s_Value s))"
    using sint_ge [of "s_Value s"] sint_lt [of "s_Value s"] by (intro parse_dec) simp_all
  then show ?thesis using shape(3,4,5) fr
    by (simp add: parseStackLine_def c trim_space_word [OF word_dec] splitFrames_join)
qed

lemma parseStackLines_prints:
  "list_all printableSample ss \<Longrightarrow> parseStackLines k (writeStacks ss) acc = Inr (acc @ ss)"
proof (induction ss arbitrary: k acc)
  case Nil
  show ?case by (subst parseStackLines.simps) (simp add: writeStacks_def scan_line_def)
next
  case (Cons s ss)
  then have s: "printableSample s" by simp
  have w: "writeStacks (s # ss) = stackLine s @ newline # writeStacks ss" by (simp add: writeStacks_def)
  have t: "takeWhile (\<lambda>c. c \<noteq> newline) (writeStacks (s # ss)) = stackLine s"
    using stackLine_shape(1) [OF s] unfolding w by (auto simp: takeWhile_append intro!: takeWhile_eq_all_conv [THEN iffD2])
  have "length (stackLine s) < MaxScanTokenSize" using s by (simp add: printableSample_def)
  then have "scan_line MaxScanTokenSize (writeStacks (s # ss)) = Line (stackLine s) (writeStacks ss)"
    using stackLine_shape(2) [OF s] by (simp add: scan_line_def t Let_def) (simp add: w)
  then show ?case using Cons parseStackLine_prints [OF s]
    by (subst parseStackLines.simps) simp
qed

lemma stacks_round_trip:
  "list_all printableSample ss \<Longrightarrow> ParseCollapsedStacks (writeStacks ss) = Inr ss"
  by (simp add: ParseCollapsedStacks_def parseStackLines_prints)

end
