(* ===== verification/Sample_Captures.thy ===== *)
theory Sample_Captures
  imports Metrics_Collector Pcap_Summary Tcpdump_Args Source_Map Process_Tree Cache_Store Helper_Framing Heap_Analysis Stack_Profile
begin

text \<open>
  Concrete inputs at which the properties of the capture, history, cache and symbolication components are
  instantiated.
\<close>

definition demo_histogram :: Histogram where
  "demo_histogram = \<lparr> Entries = [\<lparr> Rank = 1, Instances = 3, Bytes = 96, e_ClassName = ''A'', Module = [] \<rparr>],
     Total = \<lparr> Rank = 0, Instances = 3, Bytes = 96, e_ClassName = ''Total'', Module = [] \<rparr>, Skipped = [] \<rparr>"

definition demo_segment :: "u32 \<Rightarrow> byte list \<Rightarrow> FlowPacket" where
  "demo_segment seq p = newFlow ''ipv4'' (V4 [10, 0, 0, 1]) (V4 [10, 0, 0, 2]) \<lparr> TCPSeq := seq, Payload := p \<rparr>"

definition demo_question :: question where
  "demo_question = \<lparr> labels = [[101, 120], [105, 111]], qtype = 28, qclass = 1 \<rparr>"

definition demo_raw_map :: rawMap where
  "demo_raw_map = \<lparr> raw_Version = 3, raw_Sources = [''a.ts''], raw_Names = [], Mappings = ''A'', SourceRoot = [] \<rparr>"

definition demo_listing :: "Info list" where
  "demo_listing = [\<lparr> i_PID = 1, i_PPID = 0, AppPath = [], i_RSSKiB = 1 \<rparr>, \<lparr> i_PID = 2, i_PPID = 1, AppPath = ''/A.app'', i_RSSKiB = 1 \<rparr>,
     \<lparr> i_PID = 3, i_PPID = 1, AppPath = [], i_RSSKiB = 1 \<rparr>]"

end
