(* ===== verification/Spec2Isabelle.thy ===== *)
theory Spec2Isabelle
  imports Sample_Inputs Sample_Captures
begin

text \<open>
  \<^bold>\<open>Spectra.\<close> A verification development for spectra, a diagnostics tool for macOS and Linux hosts and the
  processes on them. The tool collects snapshots, captures and dumps, parses them, and raises findings.
  This library models the parts of it that compute: the heap-dump analyser, the host watcher, the packet
  and protocol decoders, and a number of smaller state machines and parsers. Paths below are under
  \<open>src/internal/\<close>. The properties that span components, and the main property of each component, are
  stated in this theory; each comes with a witness at a concrete input where it has a hypothesis.

  \<^bold>\<open>How the parts interact.\<close> A heap dump is a byte sequence. \<open>ParseObjectGraph\<close> reads it into an object
  graph; \<open>ComputeRetained\<close> numbers the reachable objects depth-first, computes immediate dominators with
  Lengauer-Tarjan and adds up retained sizes; \<open>TopRetained\<close>, \<open>LeakSuspects\<close> and \<open>PathsToGCRoots\<close> answer
  questions about the result. \<open>ParseHPROF\<close> reads the same bytes into a class histogram, which the heap
  analysis compares and ranks together with the histograms a running JVM prints. The host watcher samples
  the machine; its rules and trackers turn the samples into conditions, and the alert engine turns the
  conditions into alerts that fire, update and resolve. A packet capture goes record by record through the
  link, network and transport decoders into the stream reassembly, and the reassembled bytes through the
  DNS, TLS and HTTP parsers into one summary.

  \<^bold>\<open>Library.\<close>
  \<^item> \<open>Go_Prelude\<close>: fixed-width integers as words; the outcome of a Go function, which is a value, an error
    or a panic; bounds-checked slices and indexing; \<open>range\<close> loops; maps as association lists;
    \<open>sort.Slice\<close> with the locale \<open>comparator\<close>, which every ordering of the sources interprets;
    \<open>sort.Search\<close>. \<open>yields\<close> says that an outcome is never a panic and that a value satisfies a predicate,
    \<open>returns\<close> that it is a value that does.
  \<^item> \<open>Go_Float\<close>, \<open>Go_Fmt\<close>, \<open>Go_Strings\<close>, \<open>Go_Text\<close>, \<open>Go_Time\<close>, \<open>Go_Heap\<close>: binary64 arithmetic with its
    rounding, number formatting, the functions of \<open>strings\<close>, \<open>strconv\<close> and \<open>path\<close> that the sources use,
    what splitting, joining and printing numbers have to do with each other, \<open>time\<close>, and
    \<open>container/heap\<close>.
  \<^item> \<open>Sample_Inputs\<close>, \<open>Sample_Captures\<close>: the concrete inputs of the witnesses.

  \<^bold>\<open>Heap dumps\<close> (\<open>heap/\<close>).
  \<^item> \<open>Hprof_Reader\<close> (\<open>hprof.go\<close>), \<open>Heap_Graph\<close> and \<open>Heap_Parse\<close> (\<open>graph.go\<close>, \<open>roots.go\<close>): the record reader,
    the graph builder and \<open>ParseObjectGraph\<close>. No byte sequence makes it panic or loop, and what it returns
    is well formed.
  \<^item> \<open>Csr\<close>, \<open>Dfs_Preorder\<close>, \<open>Lengauer_Tarjan\<close>, \<open>Dominator_Theory\<close>, \<open>Dominator_Tree\<close>, \<open>Heap_Retained\<close>,
    \<open>Retained_Sizes\<close> (\<open>dominators.go\<close>): adjacency by counting sort, the iterative depth-first search, the
    dominator algorithm with path compression, and the sizes. The locale \<open>dfs_numbering\<close> holds the graph
    theory and is interpreted on the numbering the code computes. The lemmas show that the dominators, the
    retained sizes, the class totals and the ranking are those of the definitions.
  \<^item> \<open>Heap_Paths\<close> (\<open>paths.go\<close>), \<open>Heap_Leaks\<close> (\<open>leaks.go\<close>): the backward breadth-first search finds shortest
    paths; the leak report keeps its bounds.
  \<^item> \<open>Hprof_Histogram\<close> (\<open>hprof.go\<close>), \<open>Hprof_Agreement\<close>: the streaming histogram, and that it accepts every
    dump the graph parser accepts.
  \<^item> \<open>Heap_Analysis\<close> (\<open>histogram.go\<close>, \<open>analysis.go\<close>): the printed histogram and the comparison of snapshots.
    One row per identity, a strict order that does not depend on the iteration order of the map, and a
    printed histogram is read back.

  \<^bold>\<open>Host watcher\<close> (\<open>hostwatch/\<close>).
  \<^item> \<open>Hostwatch_Config\<close> (\<open>config.go\<close>): validation repairs every field and names exactly the bad ones. The
    locale \<open>field_table\<close> is what the loops over the tables of fields rely on.
  \<^item> \<open>Hostwatch_Evaluate\<close> (\<open>evaluate.go\<close>, \<open>classify.go\<close>, \<open>sample.go\<close>), \<open>Hostwatch_Spawn\<close> (\<open>spawn.go\<close>),
    \<open>Sustained_Tracker\<close> (\<open>sustained.go\<close>): the rules and the two trackers, with the evidence every finding
    rests on. \<open>tracker_run\<close> is a tracker with the observations it was given, so that the evidence of a
    finding is stated over what was observed.
  \<^item> \<open>Alert_Engine\<close> (\<open>engine.go\<close>): the engine refines an abstract contract of active alerts; alerts resolve
    after the configured number of misses and keep their identity. \<open>engine_trace\<close> is a sequence of calls
    with the events they emit and the alerts they restore.

  \<^bold>\<open>Captures\<close> (\<open>netcap/\<close>, \<open>netproto/\<close>).
  \<^item> \<open>Net_Bytes\<close>: the rules by which the safety of a decoder follows its structure.
  \<^item> \<open>Net_Packet\<close> (\<open>pcap.go\<close>, \<open>packet.go\<close>), \<open>Tcp_Streams\<close> and \<open>Pcap_Summary\<close> (\<open>summary.go\<close>),
    \<open>Tcpdump_Args\<close> (\<open>tcpdump.go\<close>): no capture makes the summary panic, and in-order segments are
    reassembled to the bytes that were sent.
  \<^item> \<open>Net_Dns\<close>, \<open>Net_Tls\<close>, \<open>Net_Http\<close> (\<open>dns.go\<close>, \<open>tls.go\<close>, \<open>http.go\<close>): safe on every input; encoded
    questions and hellos are read back; no sensitive header value is reported.

  \<^bold>\<open>Further components.\<close>
  \<^item> \<open>Helper_Framing\<close> (\<open>helper/framing.go\<close>): framed messages are read back, oversized ones refused.
  \<^item> \<open>Ring_Buffer\<close>, \<open>Metrics_Collector\<close> (\<open>metrics/ring.go\<close>, \<open>livehistory/history.go\<close>): both rings interpret
    the locale \<open>bounded_history\<close>, so they hold the most recent observations in order.
  \<^item> \<open>Source_Map\<close> (\<open>sourcemap/sourcemap.go\<close>): VLQ numbers are read back and the binary search agrees with a
    linear one.
  \<^item> \<open>Process_Tree\<close> (\<open>process/tree.go\<close>): scoping and building trees; the walk to the ancestors ends
    where the parent links above the process do, and a table with a cycle shows where it does not.
  \<^item> \<open>Cache_Store\<close> (\<open>cache/ttl.go\<close>, \<open>cache/async_writer.go\<close>): expiring blobs, and the background writer as
    a step relation over the interleavings of writers, workers and \<open>Close\<close>.
  \<^item> \<open>Stack_Profile\<close> (\<open>profile/collapsed.go\<close>): collapsed stacks, method ranking and call tree.

  \<^bold>\<open>Conventions, bounds and fuel.\<close>
  \<^item> Record fields carry the names of the struct fields, with a prefix where two structs share one.
    \<open>int\<close> is \<open>int\<close> where the values are lengths or indices, and a word where arithmetic may wrap.
  \<^item> The record and protocol parsers recurse on the input that is left, with a termination proof. The loops
    of the heap algorithms take fuel: \<open>2 * n\<close> for the traversals, which enter and leave every node once,
    and the number of nodes for the link chains; \<open>Fault Diverges\<close> would be the value without fuel, and
    the theorems show that it does not occur. IPv6 extension headers are bounded by eight hops and DNS
    pointers by the depth limit of the code. \<open>climb\<close> of \<open>Process_Tree\<close> has no bound in the code and is a
    \<open>partial_function\<close>.
  \<^item> Go iterates maps in an unspecified order. The models iterate in insertion order; the results are sorted
    afterwards, except where a lemma says otherwise. \<open>sort.Slice\<close> is modelled by a stable sort.
  \<^item> Strings are byte sequences. White space is that of Unicode in its UTF-8 encoding. Case conversion maps
    the characters whose image is an ASCII letter, the Kelvin sign and the dotted and dotless I included,
    and leaves other letters alone, which no comparison with an ASCII string can tell apart. Patterns of
    the allow list are matched byte by byte: those with other characters than ASCII are outside the model.
  \<^item> \<open>make\<close> panics where its capacity comes from a caller and exceeds the address space (\<open>RankGrowth\<close>);
    running out of memory is not modelled.
  \<^item> The identifier generator, the writer of a connection, the blob store, JSON decoding and the conversion
    of an out-of-range float to an integer, which Go leaves to the platform, are arguments of the
    definitions that use them.
  \<^item> Mutexes are left out where every operation holds the lock throughout: the operation is one step.

  \<^bold>\<open>Not modelled.\<close> Collecting data from the host (processes, sockets, disks, JVMs, databases), which is I/O
  through tools and system calls; the command line, the daemon, the MCP server and the RPC around them;
  persistence, which is SQL; the rule catalogue, which a third-party expression language evaluates; the
  summaries of tool output that are regular expressions; the comparison of whole snapshots, whose data
  types belong to the collectors; \<open>LoadConfig\<close>, which decodes YAML; and the rendered text of findings where
  it depends on \<open>time.Format\<close>.
\<close>

section \<open>Heap dumps\<close>

text \<open>
  C1. \<open>ParseObjectGraph\<close> terminates on every byte sequence without a panic, and every graph it
  returns is well formed: the identifiers are sorted, the adjacency offsets delimit rows of valid
  object indices, the class indices are in range, and the root set is duplicate-free, in range and
  agrees with the root records.
\<close>

theorem parse_object_graph_safe: "yields (ParseObjectGraph L input) wf_graph"
  by (rule ParseObjectGraph_yields)

text \<open>
  C2. On every well-formed graph \<open>ComputeRetained\<close> returns, and the immediate dominator it reports for
  a reachable object is the immediate dominator in the graph of references with a virtual root in
  front of the GC roots; an unreachable object has none.
\<close>

theorem immediate_dominator_correct:
  "wf_graph g \<Longrightarrow> i < Len g \<Longrightarrow>
     returns (gbind (ComputeRetained g) (\<lambda>s. ImmediateDominator s (int i)))
       (\<lambda>d. if reachable g i then is_idom (flow g) None (map_option nat d) (Some i) else d = None)"
  by (rule ImmediateDominator_spec)

theorem immediate_dominator_witness:
  "returns (gbind (ComputeRetained demo_graph) (\<lambda>s. ImmediateDominator s (int 2)))
     (\<lambda>d. if reachable demo_graph 2 then is_idom (flow demo_graph) None (map_option nat d) (Some 2) else d = None)"
  by (rule immediate_dominator_correct [OF demo_graph_wf]) (simp add: Len_def demo_graph_def)

text \<open>
  C3. The retained size \<open>ComputeRetained\<close> assigns to a reachable object is the sum, in \<open>int64\<close>, of the
  shallow sizes of the objects it dominates, which are those that become unreachable with it; an
  unreachable object retains nothing.
\<close>

theorem retained_size_correct:
  "wf_graph g \<Longrightarrow> i < Len g \<Longrightarrow>
     gbind (ComputeRetained g) (\<lambda>s. Retained s (int i)) =
       Inr (if reachable g i then \<Sum>j \<in> retainedSet g i. shallow g ! j else 0)"
  by (rule Retained_spec)

theorem retained_size_witness:
  "gbind (ComputeRetained demo_graph) (\<lambda>s. Retained s (int 0)) =
     Inr (if reachable demo_graph 0 then \<Sum>j \<in> retainedSet demo_graph 0. shallow demo_graph ! j else 0)"
  by (rule retained_size_correct [OF demo_graph_wf]) (simp add: Len_def demo_graph_def)

text \<open>
  C4. The per-class table counts every reachable instance once, and its retained size is the size of
  the union of the sets the instances retain, so nested instances are not counted twice.
\<close>

theorem class_table_correct:
  "wf_graph g \<Longrightarrow> c < length (classNames g) \<Longrightarrow>
     returns (ComputeRetained g) (\<lambda>s. length (classes s) = length (classNames g) \<and>
       cr_ClassName (classes s ! c) = classNames g ! c \<and>
       cr_Instances (classes s ! c) = of_nat (card {i. reachable g i \<and> nat (cls g ! i) = c}) \<and>
       cr_ShallowBytes (classes s ! c) = (\<Sum>i \<in> {i. reachable g i \<and> nat (cls g ! i) = c}. shallow g ! i) \<and>
       cr_RetainedBytes (classes s ! c) =
         (\<Sum>j \<in> (\<Union>i \<in> {i. reachable g i \<and> nat (cls g ! i) = c}. retainedSet g i). shallow g ! j))"
  by (rule class_aggregate)

theorem class_table_witness:
  "returns (ComputeRetained demo_graph) (\<lambda>s. length (classes s) = length (classNames demo_graph) \<and>
     cr_ClassName (classes s ! 1) = classNames demo_graph ! 1 \<and>
     cr_Instances (classes s ! 1) = of_nat (card {i. reachable demo_graph i \<and> nat (cls demo_graph ! i) = 1}) \<and>
     cr_ShallowBytes (classes s ! 1) = (\<Sum>i \<in> {i. reachable demo_graph i \<and> nat (cls demo_graph ! i) = 1}. shallow demo_graph ! i) \<and>
     cr_RetainedBytes (classes s ! 1) =
       (\<Sum>j \<in> (\<Union>i \<in> {i. reachable demo_graph i \<and> nat (cls demo_graph ! i) = 1}. retainedSet demo_graph i). shallow demo_graph ! j))"
  by (rule class_table_correct [OF demo_graph_wf]) (simp add: demo_graph_def)

text \<open>
  C5. The totals of the analysis: the number of reachable objects, their shallow bytes, and the
  shallow bytes of the whole dump.
\<close>

theorem retained_totals:
  "wf_graph g \<Longrightarrow>
     returns (ComputeRetained g) (\<lambda>s. Graph s = g \<and>
       ReachableObjects s = int (card {i. reachable g i}) \<and>
       ReachableBytes s = (\<Sum>i \<in> {i. reachable g i}. shallow g ! i) \<and>
       TotalShallowBytes s = sum_list (shallow g))"
  by (rule ComputeRetained_totals)

theorem retained_totals_witness:
  "returns (ComputeRetained demo_graph) (\<lambda>s. Graph s = demo_graph \<and>
     ReachableObjects s = int (card {i. reachable demo_graph i}) \<and>
     ReachableBytes s = (\<Sum>i \<in> {i. reachable demo_graph i}. shallow demo_graph ! i) \<and>
     TotalShallowBytes s = sum_list (shallow demo_graph))"
  by (rule retained_totals [OF demo_graph_wf])

text \<open>
  C6. The bounded heap of the ranking selects what a full sort would: the result has the requested
  length, no repetition, descends, and nothing left out exceeds anything selected.
\<close>

theorem top_retained_selects:
  "length (topRetained s lmt) = (if lmt \<le> 0 then length (s_vertex s) - 1 else min (nat lmt) (length (s_vertex s) - 1)) \<and>
   distinct (topRetained s lmt) \<and> set (topRetained s lmt) \<subseteq> {1..length (s_vertex s) - 1} \<and>
   sorted_wrt (\<lambda>a b. \<not> retained_less s a b) (topRetained s lmt) \<and>
   {(a, b). a \<in> set (topRetained s lmt) \<and> b \<in> {1..length (s_vertex s) - 1} - set (topRetained s lmt) \<and> retained_less s a b} = {}"
  using topRetained_spec [where s = s and lmt = lmt] by blast

text \<open>
  C7. A query for paths to GC roots returns at most the requested number of paths; each is a chain of
  references from a GC root to one of the targets, no two start at the same object, they come in
  order of length, and the first is as short as any such chain, if there is one at all.
\<close>

theorem root_paths_shortest:
  "wf_graph g \<Longrightarrow> cache_ok g \<Longrightarrow> \<forall>t \<in> set targets. 0 \<le> t \<and> nat t < Len g \<Longrightarrow> 0 < mx \<Longrightarrow> targets \<noteq> [] \<Longrightarrow>
     returns (PathsToGCRoots g targets mx) (\<lambda>(g', ps). int (length ps) \<le> mx \<and>
       (\<exists>vss. length vss = length ps \<and> distinct (map hd vss) \<and> sorted (map length vss) \<and>
          (\<forall>i < length ps. root_path g (nat ` set targets) (vss ! i) \<and> Steps (ps ! i) = map (step_of g) (vss ! i) \<and>
             rp_Roots (ps ! i) = RootsOf g (int (hd (vss ! i)))) \<and>
          (\<forall>vs. root_path g (nat ` set targets) vs \<longrightarrow> vss \<noteq> [] \<and> length (hd vss) \<le> length vs)))"
  by (rule PathsToGCRoots_spec)

theorem root_paths_witness:
  "returns (PathsToGCRoots demo_graph [2] 5) (\<lambda>(g', ps). int (length ps) \<le> 5 \<and>
     (\<exists>vss. length vss = length ps \<and> distinct (map hd vss) \<and> sorted (map length vss) \<and>
        (\<forall>i < length ps. root_path demo_graph (nat ` set [2]) (vss ! i) \<and> Steps (ps ! i) = map (step_of demo_graph) (vss ! i) \<and>
           rp_Roots (ps ! i) = RootsOf demo_graph (int (hd (vss ! i)))) \<and>
        (\<forall>vs. root_path demo_graph (nat ` set [2]) vs \<longrightarrow> vss \<noteq> [] \<and> length (hd vss) \<le> length vs)))"
proof (rule root_paths_shortest [OF demo_graph_wf])
  show "cache_ok demo_graph" by (simp add: cache_ok_def demo_graph_def)
  show "\<forall>t\<in>set [2]. 0 \<le> t \<and> nat t < Len demo_graph" by (simp add: Len_def demo_graph_def)
qed simp_all

text \<open>
  C8. The leak report lists at most the configured number of suspects, in descending order of retained
  bytes; every suspect reaches the threshold and comes with a path to a GC root.
\<close>

theorem leak_report_bounds:
  "wf_graph g \<Longrightarrow> predCSR g = None \<Longrightarrow>
     returns (gbind (ComputeRetained g) (\<lambda>s. LeakSuspects oob s opts)) (\<lambda>(s, rep).
       int (length (lr_Suspects rep)) \<le> (if lo_MaxSuspects opts \<le> 0 then 10 else lo_MaxSuspects opts) \<and>
       sorted_wrt (\<lambda>x y. sint (ls_RetainedBytes y) \<le> sint (ls_RetainedBytes x)) (lr_Suspects rep) \<and>
       (\<forall>ls \<in> set (lr_Suspects rep).
          sint (leakThreshold oob (ReachableBytes s) (lr_ThresholdPercent rep)) \<le> sint (ls_RetainedBytes ls) \<and>
          PathToRoot ls \<noteq> None))"
  for opts :: LeakOptions
  by (rule LeakSuspects_spec)

theorem leak_report_witness:
  "returns (gbind (ComputeRetained demo_graph) (\<lambda>s. LeakSuspects (\<lambda>_. 0) s \<lparr> lo_ThresholdPercent = Fin 5, lo_MaxSuspects = 3 \<rparr>)) (\<lambda>(s, rep).
     int (length (lr_Suspects rep)) \<le> (if lo_MaxSuspects (\<lparr> lo_ThresholdPercent = Fin 5, lo_MaxSuspects = 3 \<rparr> :: LeakOptions) \<le> 0 then 10
        else lo_MaxSuspects (\<lparr> lo_ThresholdPercent = Fin 5, lo_MaxSuspects = 3 \<rparr> :: LeakOptions)) \<and>
     sorted_wrt (\<lambda>x y. sint (ls_RetainedBytes y) \<le> sint (ls_RetainedBytes x)) (lr_Suspects rep) \<and>
     (\<forall>ls \<in> set (lr_Suspects rep).
        sint (leakThreshold (\<lambda>_. 0) (ReachableBytes s) (lr_ThresholdPercent rep)) \<le> sint (ls_RetainedBytes ls) \<and>
        PathToRoot ls \<noteq> None))"
  by (rule leak_report_bounds [OF demo_graph_wf]) (simp add: demo_graph_def)


text \<open>
  C10. The two HPROF parsers agree on what a dump is: whatever the graph parser accepts, the histogram
  parser accepts too.
\<close>

theorem parsers_agree: "ParseObjectGraph L input = Inr g \<Longrightarrow> \<exists>h. ParseHPROF input = Inr h"
  by (rule histogram_accepts)

theorem parsers_agree_witness: "\<exists>h. ParseHPROF demo_dump = Inr h"
  by (rule exE [OF demo_dump_parses]) (rule parsers_agree)

text \<open>
  C11. Ranking the growth between two heap snapshots lists the first \<open>limit\<close> rows with a positive
  difference of the comparison, which has one row per identity of either snapshot, computed from the
  last record listed under it on each side as later less earlier amount, in strictly decreasing order of
  growth, then of size, then by name. A limit whose result could not be allocated panics.
\<close>

theorem heap_growth_ranking:
  "0 < limit \<Longrightarrow>
     if 96 * limit \<le> 2 ^ 48
     then returns (RankGrowth (Some b) (Some a) limit)
       (\<lambda>ss. \<exists>ds. Compare (Some b) (Some a) = Inr ds \<and> compares b a ds \<and>
          list_all2 shows_row (take (nat limit) (filter (\<lambda>d. 0 < sint (DeltaBytes d)) ds)) ss)
     else RankGrowth (Some b) (Some a) limit = Inl Panic"
  by (rule RankGrowth_spec)

theorem growth_ranking_witness:
  "returns (RankGrowth (Some (hist_Snapshot emptyHistogram)) (Some (hist_Snapshot demo_histogram)) 1)
     (\<lambda>ss. \<exists>ds. Compare (Some (hist_Snapshot emptyHistogram)) (Some (hist_Snapshot demo_histogram)) = Inr ds \<and>
        compares (hist_Snapshot emptyHistogram) (hist_Snapshot demo_histogram) ds \<and>
        list_all2 shows_row (take (nat 1) (filter (\<lambda>d. 0 < sint (DeltaBytes d)) ds)) ss) \<and>
   RankGrowth (Some (hist_Snapshot emptyHistogram)) (Some (hist_Snapshot demo_histogram)) (2 ^ 62) = Inl Panic"
  using heap_growth_ranking [of 1 "hist_Snapshot emptyHistogram" "hist_Snapshot demo_histogram"]
    heap_growth_ranking [of "2 ^ 62" "hist_Snapshot emptyHistogram" "hist_Snapshot demo_histogram"] by simp

section \<open>Host watch\<close>

text \<open>
  C12. The alert engine implements its contract for every key: whatever the batch of conditions, one
  evaluation moves the state of each key and emits the events of that key exactly as the one-key
  state machine \<open>key_step\<close> says, with the scope, miss count and parent rule that belong to the key,
  and a new alert gets an identifier not drawn before.
\<close>

theorem engine_refines_contract:
  "Evaluate gen now cs e = (e', out) \<Longrightarrow> distinct (map c_Key cs) \<Longrightarrow> engine_ok e \<Longrightarrow>
     engine_ok e' \<and> (\<exists>i\<ge>drawn e. (view e' k, for_key k out) =
       key_step (gen i) now (scopeOf k) (clearAfterOf k) (topPIDOf k) (find (\<lambda>c. c_Key c = k) cs) (view e k))"
  using Evaluate_refines [of gen now cs e e' out] by blast

theorem engine_refines_contract_witness:
  "engine_ok (fst (Evaluate (\<lambda>i. replicate i CHR ''x'') 9 [demo_condition] demo_engine)) \<and>
   (\<exists>i\<ge>drawn demo_engine.
      (view (fst (Evaluate (\<lambda>i. replicate i CHR ''x'') 9 [demo_condition] demo_engine)) ''disk.free'',
       for_key ''disk.free'' (snd (Evaluate (\<lambda>i. replicate i CHR ''x'') 9 [demo_condition] demo_engine))) =
      key_step (replicate i CHR ''x'') 9 (scopeOf ''disk.free'') (clearAfterOf ''disk.free'') (topPIDOf ''disk.free'')
        (find (\<lambda>c. c_Key c = ''disk.free'') [demo_condition]) (view demo_engine ''disk.free''))"
  by (rule engine_refines_contract [OF prod.collapse [symmetric] _ demo_engine_ok]) simp

text \<open>
  C13. Hysteresis and resolution: an alert whose condition disappears survives the evaluations up to
  its scope's limit without an event, and the next one resolves it, once, with that evaluation's
  time; so it does not flap, and it does not stay forever.
\<close>

theorem alert_resolves_after_misses:
  "runs gen bs e = (e', out) \<Longrightarrow> quiet k bs \<Longrightarrow> engine_ok e \<Longrightarrow>
   view e k = (Some a, m, p) \<Longrightarrow> m < clearAfterOf k \<Longrightarrow>
     (if m + int (length bs) < clearAfterOf k
      then view e' k = (Some a, m + int (length bs), p) \<and> for_key k out = []
      else view e' k = (None, 0, None) \<and> for_key k out = [resolvedAt (fst (bs ! nat (clearAfterOf k - m - 1))) a])"
  by (rule runs_hysteresis)

theorem alert_resolves_witness:
  "view (fst (runs (\<lambda>i. replicate i CHR ''x'') [(10, []), (20, []), (30, [])] demo_engine)) ''disk.free'' = (None, 0, None) \<and>
   for_key ''disk.free'' (snd (runs (\<lambda>i. replicate i CHR ''x'') [(10, []), (20, []), (30, [])] demo_engine)) = [resolvedAt 20 demo_alert]"
proof -
  have q: "quiet ''disk.free'' [(10, []), (20, []), (30, [])]" by (simp add: quiet_def)
  have v: "view demo_engine ''disk.free'' = (Some demo_alert, 0, None)"
    by (simp add: view_def demo_engine_def mgetd_def)
  have c: "clearAfterOf ''disk.free'' = 2" by (simp add: clearAfterOf_def spawnKey_def)
  have lt: "0 < clearAfterOf ''disk.free''" by (simp add: c)
  show ?thesis
    using alert_resolves_after_misses [OF prod.collapse [symmetric] q demo_engine_ok v lt, of "\<lambda>i. replicate i CHR ''x''"]
    by (simp add: c)
qed

text \<open>
  C14. Life cycle: along every sequence of engine calls whose conditions have different keys within a
  call, the events of one key alternate between firing and resolution, updates come only in between,
  and all events of one alert carry the identifier it was fired with. A restored alert takes the place
  of the open one of its key, if there is one, and the later events carry its identifier.
\<close>

theorem alert_lifecycle:
  "engine_trace gen e0 ls e \<Longrightarrow> engine_ok e0 \<Longrightarrow>
     engine_ok e \<and> life (openID e0 k) (lifeline k ls) = Some (openID e k)"
  by (rule engine_lifecycle)

theorem alert_lifecycle_witness:
  "lifeline ''disk.free'' demo_labels =
     [(''loaded'', ''a''), (''updated'', ''a''), (''resolved'', ''a''), (''fired'', ''x'')] \<and>
   engine_ok demo_later \<and>
   life (openID NewEngine ''disk.free'') (lifeline ''disk.free'' demo_labels) = Some (openID demo_later ''disk.free'')"
  using alert_lifecycle [OF demo_trace engine_ok_NewEngine, of "''disk.free''"] demo_lifeline by blast

text \<open>
  C15. While its condition persists an alert keeps its identifier, its firing time and its
  acknowledgement, and takes over the severity of the condition.
\<close>

theorem alert_keeps_identity:
  "Evaluate gen now cs e = (e', out) \<Longrightarrow> distinct (map c_Key cs) \<Longrightarrow> engine_ok e \<Longrightarrow>
   map_of (active e) k = Some a \<Longrightarrow> c \<in> set cs \<Longrightarrow> c_Key c = k \<Longrightarrow>
     \<exists>a'. map_of (active e') k = Some a' \<and> al_ID a' = al_ID a \<and> FiredAt a' = FiredAt a \<and>
       AckedAt a' = AckedAt a \<and> al_Severity a' = c_Severity c"
  using Evaluate_keeps_alert by metis

theorem alert_keeps_identity_witness:
  "\<exists>a'. map_of (active (fst (Evaluate (\<lambda>i. replicate i CHR ''x'') 9 [demo_condition] demo_engine))) ''disk.free'' = Some a' \<and>
     al_ID a' = al_ID demo_alert \<and> FiredAt a' = FiredAt demo_alert \<and>
     AckedAt a' = AckedAt demo_alert \<and> al_Severity a' = c_Severity demo_condition"
  by (rule alert_keeps_identity [OF prod.collapse [symmetric] _ demo_engine_ok])
    (simp_all add: demo_engine_def demo_condition_def)



text \<open>
  C18. A process that was not firing is reported as sustained load only on evidence: among the CPU
  readings observed for its identifier since the tracker was created, the latest ones belong to one
  process, reach back over the whole window and, where the sampling interval is known, leave no silent
  stretch; those inside the window that are at or above the threshold are at least three and half of
  what the window holds, their share meets the configured minimum, and the reported start is the first
  reading inside the window.
\<close>

theorem sustained_finding_is_backed:
  "tracker_run c H t \<Longrightarrow> 0 < now \<Longrightarrow> distinct (map po_PID ps) \<Longrightarrow> Observe now ps t = (t', fs) \<Longrightarrow>
   f \<in> set fs \<Longrightarrow> \<forall>e. map_of (entries t) (sf_PID f) = Some e \<longrightarrow> since e = 0 \<Longrightarrow>
     \<exists>rs. suffix rs (readings (sf_PID f) (H @ [(now, ps)])) \<and> evidence c now f rs"
  by (rule Observe_evidence)

theorem sustained_finding_witness:
  "demo_finding \<in> set (snd (Observe 100 [demo_busy] demo_hot)) \<and> 0 < s_Interval demo_config \<and>
   (\<exists>rs. suffix rs (readings (sf_PID demo_finding) (demo_history @ [(100, [demo_busy])])) \<and>
      evidence demo_config 100 demo_finding rs)"
proof (intro conjI sustained_finding_is_backed [OF demo_run _ _ prod.collapse [symmetric]])
  show f: "demo_finding \<in> set (snd (Observe 100 [demo_busy] demo_hot))" by (simp add: demo_hot_observe)
  show "demo_finding \<in> set (snd (Observe 100 [demo_busy] demo_hot))" by (rule f)
  show "\<forall>e. map_of (entries demo_hot) (sf_PID demo_finding) = Some e \<longrightarrow> since e = 0"
    by (simp add: demo_hot_def demo_finding_def)
qed (simp_all add: demo_config_def)

text \<open>
  C19. A gap in the observations (a suspended host) never counts as load: the observation after a gap
  reports only processes that were already firing.
\<close>

theorem gap_is_not_load:
  "tracker_ok t \<Longrightarrow> 0 < now \<Longrightarrow> distinct (map po_PID ps) \<Longrightarrow> gapped t now \<Longrightarrow> 0 < Window (cfg t) \<Longrightarrow>
     sf_PID ` set (snd (Observe now ps t)) \<subseteq> {pid. \<exists>e. map_of (entries t) pid = Some e \<and> since e \<noteq> 0}"
  using Observe_after_gap [OF _ _ _ prod.collapse [symmetric]] by fastforce

theorem gap_is_not_load_witness:
  "sf_PID ` set (snd (Observe (10 ^ 12) [demo_proc] demo_tracker)) \<subseteq>
     {pid. \<exists>e. map_of (entries demo_tracker) pid = Some e \<and> since e \<noteq> 0}"
  by (rule gap_is_not_load [OF demo_tracker_ok])
    (simp_all add: gapped_def demo_tracker_def t_sub_def maxGap_def sustainedMinGap_def DefaultSustainedConfig_def Minute_def Second_def)

text \<open>
  C20. A reused process identifier inherits nothing: when the process observed under an identifier is
  not the owner of the entry, the observation does exactly what it would do without that entry, the
  identifier is not reported, and the entry it has afterwards, if any, holds only the reading just
  taken. The owner is another process when the start times do not match or, for a restored entry that
  no process has matched yet, when the names differ; a restored entry without a recorded start is
  matched by name alone.
\<close>

theorem reused_pid_is_fresh:
  "tracker_ok t \<Longrightarrow> distinct (map po_PID ps) \<Longrightarrow> p \<in> set ps \<Longrightarrow> watched (cfg t) p \<Longrightarrow>
   map_of (entries t) (po_PID p) = Some e \<Longrightarrow> other_owner e p \<Longrightarrow> Observe now ps t = (t', fs) \<Longrightarrow>
   Observe now ps (t \<lparr> entries := mdel (po_PID p) (entries t) \<rparr>) = (t'', fs'') \<Longrightarrow>
     map_of (entries t') = map_of (entries t'') \<and> set fs = set fs'' \<and> po_PID p \<notin> sf_PID ` set fs \<and>
     (\<forall>e'. map_of (entries t') (po_PID p) = Some e' \<longrightarrow>
        e' = \<lparr> en_name = po_Name p, en_started = po_Started p,
               points = [\<lparr> cp_at = now, above = f_le (s_CPUPct (cfg t)) (po_CPUPct p), cpu = po_CPUPct p \<rparr>],
               since = 0, lastGood = now, adopt = False \<rparr>)"
  using Observe_reused_pid [of t ps now t' fs p e t'' fs''] unfolding fresh_entry_def by blast

theorem reused_pid_witness:
  "other_owner demo_entry demo_successor \<and>
   map_of (entries (fst (Observe 200 [demo_successor] demo_tracker))) =
     map_of (entries (fst (Observe 200 [demo_successor] (demo_tracker \<lparr> entries := mdel 7 (entries demo_tracker) \<rparr>)))) \<and>
   7 \<notin> sf_PID ` set (snd (Observe 200 [demo_successor] demo_tracker))"
proof -
  have o: "other_owner demo_entry demo_successor"
    by (simp add: other_owner_def same_process_def demo_entry_def demo_successor_def demo_proc_def)
  have w: "watched (cfg demo_tracker) demo_successor"
    by (simp add: watched_def Allowed_def demo_tracker_def demo_successor_def demo_proc_def DefaultSustainedConfig_def)
  have pid: "po_PID demo_successor = 7" by (simp add: demo_successor_def demo_proc_def)
  have e: "map_of (entries demo_tracker) (po_PID demo_successor) = Some demo_entry"
    unfolding pid by (simp add: demo_tracker_def)
  have d: "distinct (map po_PID [demo_successor])" "demo_successor \<in> set [demo_successor]" by simp_all
  from reused_pid_is_fresh [OF demo_tracker_ok d w e o prod.collapse [symmetric] prod.collapse [symmetric], of 200] o
  show ?thesis unfolding pid by blast
qed

text \<open>
  C21. One low sample never clears a finding: if the latest sample was above the threshold and lies in
  the window, the next observation reports the process again with the same start.
\<close>

theorem one_low_sample_keeps_finding:
  "tracker_ok t \<Longrightarrow> 0 < now \<Longrightarrow> distinct (map po_PID ps) \<Longrightarrow> p \<in> set ps \<Longrightarrow> watched (cfg t) p \<Longrightarrow>
   \<not> gapped t now \<Longrightarrow> 0 < Window (cfg t) \<Longrightarrow> \<not> po_Skip p \<Longrightarrow> map_of (entries t) (po_PID p) = Some e \<Longrightarrow> \<not> adopt e \<Longrightarrow>
   sameStart (en_started e) (po_Started p) \<Longrightarrow> since e \<noteq> 0 \<Longrightarrow> points e \<noteq> [] \<Longrightarrow> above (last (points e)) \<Longrightarrow>
   now - Window (cfg t) \<le> cp_at (last (points e)) \<Longrightarrow> \<not> staleHistory (cfg t) e now \<Longrightarrow>
     \<exists>f\<in>set (snd (Observe now ps t)). sf_PID f = po_PID p \<and> Since f = since e"
  by (rule Observe_one_low_sample [OF _ _ _ prod.collapse [symmetric]])

theorem one_low_sample_witness:
  "\<exists>f\<in>set (snd (Observe 200 [demo_proc] demo_tracker)). sf_PID f = po_PID demo_proc \<and> Since f = since demo_entry"
  by (rule one_low_sample_keeps_finding [OF demo_tracker_ok])
    (simp_all add: watched_def Allowed_def gapped_def demo_tracker_def demo_proc_def demo_entry_def t_sub_def maxGap_def
      sustainedMinGap_def DefaultSustainedConfig_def Minute_def Second_def sameStart_def startTolerance_def staleHistory_def)

text \<open>
  C22. Every observation preserves the tracker's invariant: one history per process, its samples in
  time order, none from the future, and no two neighbours further apart than twice the longest tick.
\<close>

theorem tracker_invariant:
  "tracker_ok t \<Longrightarrow> 0 < now \<Longrightarrow> distinct (map po_PID ps) \<Longrightarrow> tracker_ok (fst (Observe now ps t))"
  by (rule tracker_ok_Observe [OF _ _ _ prod.collapse [symmetric]])

theorem tracker_invariant_witness: "tracker_ok (fst (Observe 200 [demo_proc] demo_tracker))"
  by (rule tracker_invariant [OF demo_tracker_ok]) simp_all

text \<open>
  C23. Start times compare with a tolerance as long as their difference fits a duration; beyond it the
  comparison is not symmetric: a zero recorded start matches any start at least \<open>2\<^sup>6\<^sup>3\<close> nanoseconds
  later, because the least duration is its own negation.
\<close>

theorem same_start_bounds:
  "(\<bar>a - b\<bar> < 2 ^ 63 \<longrightarrow> sameStart a b = (\<bar>a - b\<bar> \<le> startTolerance)) \<and>
   (2 ^ 63 \<le> x \<longrightarrow> sameStart 0 x \<and> \<not> sameStart x 0)"
  using sameStart_iff [of a b] sameStart_zero [of x] by blast

theorem same_start_bounds_witness: "sameStart 0 (2 ^ 65) \<and> \<not> sameStart (2 ^ 65) 0 \<and> sameStart 7 9 = (\<bar>7 - 9\<bar> \<le> startTolerance)"
  using same_start_bounds [of 7 9 "2 ^ 65"] by simp

text \<open>
  C24. The call tree built from weighted stacks has a node for exactly the paths that are a prefix of some
  stack, and for the root; the value of a node is the total of the samples that pass through its path
  and its own value the total of the samples that end there, in \<open>int64\<close>.
\<close>

theorem call_tree_exact:
  "case cfind p (BuildCallTree ss) of
     None \<Rightarrow> p \<noteq> [] \<and> \<not> (\<exists>s\<in>set ss. prefix p (Frames s))
   | Some t \<Rightarrow>
       (p = [] \<or> (\<exists>s\<in>set ss. prefix p (Frames s))) \<and>
       ct_Value t = (\<Sum>s\<leftarrow>filter (\<lambda>s. prefix p (Frames s)) ss. s_Value s) \<and>
       ct_Self t = (\<Sum>s\<leftarrow>filter (\<lambda>s. Frames s = p) ss. s_Value s)"
  by (rule BuildCallTree_spec)

text \<open>
  C25. The host rules emit at most one condition per key, and every key is one the engine evaluates in
  its slow scope, so the rules meet the hypothesis of the engine's contract.
\<close>

theorem host_conditions_fit_engine:
  "(w \<noteq> [] \<Longrightarrow> sample_ok (last w)) \<Longrightarrow>
     distinct (keys (evaluateSamples c w)) \<and> scopeOf ` set (keys (evaluateSamples c w)) \<subseteq> {''slow''}"
  using evaluateSamples_keys [where w = w and c = c] by blast

theorem host_conditions_witness:
  "distinct (keys (evaluateSamples DefaultConfig [demo_sample])) \<and>
   scopeOf ` set (keys (evaluateSamples DefaultConfig [demo_sample])) \<subseteq> {''slow''}"
  by (rule host_conditions_fit_engine) (simp add: demo_sample_ok)

text \<open>
  C26. From samples to alerts: an alert on high load fires only when the configured number of latest
  samples, at least one, all exceed a multiple of the CPU count; it is critical exactly when they exceed
  the critical multiple, and otherwise they exceed the warning multiple.
\<close>

theorem load_alert_backed_by_samples:
  "EvaluateSlow gen now (evaluateSamples c w) e = (e', out) \<Longrightarrow> engine_ok e \<Longrightarrow> (w \<noteq> [] \<Longrightarrow> sample_ok (last w)) \<Longrightarrow>
   ev \<in> set out \<Longrightarrow> ev_Type ev = ''fired'' \<Longrightarrow> al_Key (ev_Alert ev) = ''load.high'' \<Longrightarrow>
     al_Severity (ev_Alert ev) =
       (if load_exceeds (Load_Sustain c) (f_mul (Load_CriticalMultiple c) (f_of_int (NCPU (last w)))) w then ''critical'' else ''warn'') \<and>
     (load_exceeds (Load_Sustain c) (f_mul (Load_CriticalMultiple c) (f_of_int (NCPU (last w)))) w \<or>
      load_exceeds (Load_Sustain c) (f_mul (Load_WarnMultiple c) (f_of_int (NCPU (last w)))) w)"
  by (rule load_alert_is_backed)

theorem load_alert_witness:
  "load_exceeds (Load_Sustain DefaultConfig) (f_mul (Load_CriticalMultiple DefaultConfig) (f_of_int 4)) [demo_sample, demo_sample]"
proof -
  have "al_Severity (ev_Alert demo_load_event) = ''critical''" "NCPU (last [demo_sample, demo_sample]) = 4"
    by (simp_all add: demo_load_event_def new_alert_def cond_def demo_sample_def)
  moreover have "ev_Type demo_load_event = ''fired''" "al_Key (ev_Alert demo_load_event) = ''load.high''"
    by (simp_all add: demo_load_event_def new_alert_def cond_def)
  ultimately show ?thesis
    using load_alert_backed_by_samples [OF prod.collapse [symmetric] engine_ok_NewEngine _ demo_load_fires] demo_sample_ok
    by (auto split: if_splits)
qed

text \<open>
  C27. A probe counts as new only processes that the previous listing did not have: a listing without
  a new identifier has a delta of zero.
\<close>

theorem spawn_delta_counts_new:
  "spawn_update t now ps uid ul tl' = (t', s) \<Longrightarrow> live_pids qs \<subseteq> live_pids ps \<Longrightarrow>
     Delta (snd (spawn_update t' now' qs uid' ul' tl'')) = 0"
  using spawn_update_steady [OF _ _ prod.collapse [symmetric]] by blast

theorem spawn_delta_witness:
  "Delta (snd (spawn_update (fst (spawn_update demo_spawn 5 [demo_child] 501 10 20)) 9 [demo_child] 501 10 20)) = 0"
  by (rule spawn_delta_counts_new [OF prod.collapse [symmetric]]) simp

text \<open>
  C28. The attribution of a spawn storm lists at most five parents with their exact number of children,
  and no parent it leaves out has more children than one it lists.
\<close>

theorem spawn_attribution_exact:
  "TopParents s = [] \<Longrightarrow>
     length (TopParents (attributeSpawn s ps argv ra)) \<le> 5 \<and>
     (\<forall>p \<in> set (TopParents (attributeSpawn s ps argv ra)).
        par_PID p > 0 \<and> ChildCount p = occurrences sp_PPID (mine s ps) (par_PID p) \<and>
        (\<forall>q. q > 0 \<and> q \<in> sp_PPID ` set (mine s ps) \<and> q \<notin> par_PID ` set (TopParents (attributeSpawn s ps argv ra)) \<longrightarrow>
           occurrences sp_PPID (mine s ps) q \<le> ChildCount p))"
  using attributeSpawn_parents [where s = s and ps = ps and argv = argv and ra = ra] by blast

theorem spawn_attribution_witness:
  "TopParents (snd (spawn_update demo_spawn 5 [demo_child] 501 10 20)) = [] \<and>
   length (TopParents (attributeSpawn (snd (spawn_update demo_spawn 5 [demo_child] 501 10 20)) [demo_child] (\<lambda>_. None) True)) \<le> 5"
proof -
  have e: "TopParents (snd (spawn_update demo_spawn 5 [demo_child] 501 10 20)) = []"
    by (simp add: spawn_update_def countProcess_def demo_spawn_def demo_child_def Let_def)
  from spawn_attribution_exact [OF e, of "[demo_child]" "\<lambda>_. None" True] e show ?thesis by blast
qed

section \<open>Network captures\<close>

text \<open>
  C29. The packet decoder is total on hostile input: for every link type and every byte sequence it
  returns a flow or an error and never indexes out of range, and the payload of a decoded flow is a
  contiguous part of the captured bytes.
\<close>

theorem packet_decoder_safe:
  "yields (DecodeFlowPacket linkType data) (flow_in data)"
  by (rule DecodeFlowPacket_safe)

text \<open>
  C30. Reassembly is exact: whatever order, overlaps and repetitions the segments arrive in, as long as
  each carries the bytes its sender put at its sequence numbers, every stream of the table holds exactly
  the sender's bytes between its two bounds, and never more than the cap.
\<close>

theorem reassembly_exact:
  "\<forall>f\<in>set flows. carries (sent (flowKey f)) (dataSeqOf f) (Payload f) \<Longrightarrow>
     returns (gfold (\<lambda>f streams. gmap fst (add_flow f streams)) flows newTCPSummaryStreams) (streams_ok sent)"
  by (rule streams_exact)

theorem reassembly_witness:
  "returns (gfold (\<lambda>f streams. gmap fst (add_flow f streams)) [demo_segment 5 [5, 6, 7], demo_segment 3 [3, 4, 5, 6]] newTCPSummaryStreams)
     (streams_ok (\<lambda>_ s. ucast s))"
  by (rule reassembly_exact)
    (simp add: demo_segment_def newFlow_def dataSeqOf_def carries_Nil carries_Cons)

text \<open>
  C31. The capture summary as a whole: on every byte sequence and limit it ends without a panic; a summary
  it returns has counters that add up, at most the configured number of events, drops events only when full,
  reports no sensitive header value, and its packets fit the input.
\<close>

theorem capture_summary_safe:
  "yields (SummarizePCAP r eventLimit) (\<lambda>s.
     summary_ok (if eventLimit \<le> 0 then 100 else eventLimit) s \<and> 24 + 16 * Packets s \<le> int (length r))"
  by (rule SummarizePCAP_safe)

text \<open>
  C32. DNS round trip: a message built from any header fields and any well-formed questions, followed by
  anything, is read back with these fields and questions.
\<close>

theorem dns_message_round_trip:
  "\<forall>q\<in>set qs. question_ok q \<Longrightarrow> length qs < 65536 \<Longrightarrow>
     ParseDNSMessage (enc_message ident flags qs answers rest) =
       Inr \<lparr> m_ID = ident, Response = (and flags 0x8000 \<noteq> 0), OpCode = int (unat (and (drop_bit 11 flags) 0x0f)),
             RCode = int (unat (and flags 0x0f)), Truncated = (and flags 0x0200 \<noteq> 0),
             Questions = map read_question qs, Answers = int (unat answers) \<rparr>"
  by (rule dns_round_trip)

theorem dns_round_trip_witness:
  "ParseDNSMessage (enc_message 7 0x8180 [demo_question, demo_question] 1 [0xff]) =
     Inr \<lparr> m_ID = 7, Response = True, OpCode = 0, RCode = 0, Truncated = False,
           Questions = [read_question demo_question, read_question demo_question], Answers = 1 \<rparr>"
  using dns_message_round_trip [where qs = "[demo_question, demo_question]" and ident = 7 and flags = "0x8180" and answers = 1 and rest = "[0xff]"]
  by (simp add: demo_question_def question_ok_def label_ok_def drop_bit_eq_div)

text \<open>
  C33. TLS round trip: a record with a ClientHello of any version, random, session identifier, cipher and
  compression lists and any extensions is read as these extensions applied in order.
\<close>

theorem tls_hello_round_trip:
  "length random = 32 \<Longrightarrow> length sess < 256 \<Longrightarrow> length ciphers < 65536 \<Longrightarrow> even (length ciphers) \<Longrightarrow> length cms < 256 \<Longrightarrow>
   length (enc_client_hello ver random sess ciphers cms es) + 4 < 65536 \<Longrightarrow>
     ParseTLSClientHello (enc_record rv (enc_client_hello ver random sess ciphers cms es) @ rest) =
       gfold (\<lambda>(t, d). applyExtension t d) es (blank_hello ver)"
  by (rule client_hello_round_trip)

theorem tls_hello_witness:
  "ParseTLSClientHello (enc_record (3, 1) (enc_client_hello (3, 3) (replicate 32 7) [1] [0, 1] [0] [(tlsExtEncryptedHello, [9])]) @ [])
     = Inr (blank_hello (3, 3) \<lparr> ECHPresent := True \<rparr>)"
  using tls_hello_round_trip [of "replicate 32 7" "[1]" "[0, 1]" "[0]" "(3, 3)" "[(tlsExtEncryptedHello, [9])]" "(3, 1)" "[]"]
  by (simp add: enc_client_hello_def enc_extension_def applyExtension_def tlsExtEncryptedHello_def tlsExtServerName_def
      tlsExtALPN_def tlsExtSupportedVers_def)

text \<open>
  C34. HTTP secrets: no payload makes the header parser panic, every reported header has a name, and the
  value of an authorization, cookie or API-key header, in any letter case, is always the placeholder.
\<close>

theorem http_secrets_redacted:
  "yields (ParseHTTP1Headers data) (\<lambda>m. list_all safe_header (Headers m))"
  by (rule ParseHTTP1Headers_safe)

section \<open>Helper protocol, histories, caches and symbolication\<close>

text \<open>
  C35. Wire round trip: any sequence of messages within the size cap, written to a buffer one after the
  other, is read back as the same sequence and leaves nothing behind.
\<close>

theorem helper_messages_round_trip:
  "\<forall>p\<in>set ps. length p \<le> maxMessageSize \<Longrightarrow> gbind (writeAll ps []) (readAll (length ps)) = Inr (ps, [])"
  by (rule messages_round_trip)

theorem helper_messages_witness:
  "gbind (writeAll [[1, 2], [], [3]] []) (readAll 3) = Inr ([[1, 2], [], [3]], [])"
  using helper_messages_round_trip [of "[[1, 2], [], [3]]"] by (simp add: maxMessageSize_def numeral_3_eq_3)

text \<open>
  C36. The collector implements one bounded history per process: after any samples, asking for a process
  gives its newest samples in order, at most 1800 and at most the limit, and other processes do not matter.
\<close>

theorem collector_refines_histories:
  "gbind (gfold Collector_Add ss NewCollector) (Collector_Recent pid limit) =
     Inr (newest_limit limit (newest maxSamples (filter (\<lambda>s. ps_PID s = pid) ss)))"
  by (rule Collector_history)

text \<open>
  C37. The background writer accounts for every write: along every interleaving of callers, workers and
  \<open>Close\<close>, once no job is open the completed and failed counters add up to the writes that saw the writer
  open, and without failures each of their keys is in the store with data that was written for it.
\<close>

theorem writer_accounts_for_writes:
  "aw_run (NewAsyncWriter [] size_q n) jobs late w \<Longrightarrow> open_jobs w = [] \<Longrightarrow>
     Completed w + Failed w = int (length jobs) \<and>
     (Failed w = 0 \<longrightarrow> (\<forall>j\<in>set jobs. \<exists>d. map_of (aw_store w) (j_key j) = Some d \<and>
        (\<exists>j'\<in>set jobs \<union> set late. j_key j' = j_key j \<and> j_data j' = d)))"
  using drained_account [of "[]" size_q n jobs late w] by (simp add: Ball_def)

theorem writer_accounts_witness:
  "\<exists>w. aw_run (NewAsyncWriter [] 1 1) [\<lparr> j_key = [1], j_data = [2] \<rparr>, \<lparr> j_key = [1], j_data = [3] \<rparr>] [] w \<and>
     Completed w = 2 \<and> [1] \<in> dom (map_of (aw_store w))"
proof -
  obtain w where w: "aw_run (NewAsyncWriter [] 1 1) [\<lparr> j_key = [1], j_data = [2] \<rparr>, \<lparr> j_key = [1], j_data = [3] \<rparr>] [] w"
    "open_jobs w = []" "Failed w = 0"
    using stale_write_wins [of "\<lparr> j_key = [1], j_data = [2] \<rparr>" "\<lparr> j_key = [1], j_data = [3] \<rparr>"] by auto
  from writer_accounts_for_writes [OF w(1,2)] w(3) show ?thesis by (intro exI [of _ w] conjI w(1)) auto
qed

text \<open>
  C38. VLQ round trip: any list of numbers below \<open>2 ^ 62\<close> in absolute value, encoded digit by digit with
  continuation bits and the sign in the lowest bit, is decoded to the same list.
\<close>

theorem vlq_numbers_round_trip:
  "\<forall>v\<in>set vs. \<bar>v\<bar> < 2 ^ 62 \<Longrightarrow> decodeVLQ (concat (map enc_vlq vs)) = Inr vs"
  by (rule vlq_round_trip)

theorem vlq_witness:
  "decodeVLQ (concat (map enc_vlq [0, -1, 123456])) = Inr [0, -1, 123456]"
  using vlq_numbers_round_trip [of "[0, -1, 123456]"] by simp

text \<open>
  C39. Source-map lookup: in every map the parser accepts, the binary search finds what a scan of the line
  finds, the last mapping at or before the column, and never indexes out of range.
\<close>

theorem source_lookup_correct:
  "Parse unmarshal data = Inr sm \<Longrightarrow> - (2 ^ 63) < genLine \<Longrightarrow> genLine < 2 ^ 63 \<Longrightarrow>
     Lookup genLine col sm = Inr (linear_lookup genLine col sm)"
  by (rule lookup_after_parse)

theorem source_lookup_witness:
  "\<exists>sm. Parse (\<lambda>_. Some demo_raw_map) [] = Inr sm \<and> Lookup 1 4 sm = Inr (linear_lookup 1 4 sm)"
proof -
  have "index_byte base64Alphabet (CHR ''A'') = Some 0" by (simp add: base64Alphabet_def)
  then have "\<exists>sm. Parse (\<lambda>_. Some demo_raw_map) [] = Inr sm"
    by (simp add: Parse_def demo_raw_map_def decodeMappings_def mappingLine_def rawSegment_def decodeVLQ_def buildSegment_def
        wrap64_id idx_def Let_def)
  then obtain sm where "Parse (\<lambda>_. Some demo_raw_map) [] = Inr sm" by blast
  then show ?thesis using source_lookup_correct [of "\<lambda>_. Some demo_raw_map" "[]" sm 1 4] by auto
qed

text \<open>
  C40. Tree scoping: when every parent in the listing has a smaller rank, so that parent chains end, the
  scoping terminates and keeps exactly the app-attributed processes and those met on the way up from one.
\<close>

theorem scoped_tree_terminates:
  "distinct (map i_PID procs) \<Longrightarrow>
   \<forall>p\<in>set procs. \<forall>q\<in>set procs. i_PPID p = i_PID q \<longrightarrow> rank (i_PID q) < (rank (i_PID p) :: nat) \<Longrightarrow>
     ScopeTreeProcesses procs = Some (filter (related procs) procs)"
  by (rule ScopeTreeProcesses_scope)

theorem scoped_tree_witness:
  "ScopeTreeProcesses demo_listing = Some (filter (related demo_listing) demo_listing)"
  by (rule scoped_tree_terminates [where rank = nat]) (simp_all add: demo_listing_def)

end
